(* ===== verification/Prelude.thy ===== *)
theory Prelude
  imports Main "HOL-Library.Word" "HOL-Library.Monad_Syntax" "HOL-Library.AList"
    "HOL-Library.Multiset"
begin

section \<open>Shared types, byte strings, cursors and results\<close>

text \<open>
  The generic layer of the development: machine integers at their width, byte strings and
  their big-endian encodings, cursor reads, the result of fallible code, hash maps as
  association lists, and the codec interface that every wire format of the program
  instantiates.
\<close>

named_theorems codec_simps \<open>evaluation of encoders and cursor reads\<close>
named_theorems result_simps \<open>evaluation of fallible steps\<close>

subsection \<open>Machine integers and byte strings\<close>

type_synonym u8 = "8 word"
type_synonym u16 = "16 word"
type_synonym u32 = "32 word"
type_synonym u64 = "64 word"
type_synonym bytes = "u8 list"

text \<open>Big-endian digits of a number, most significant first, and back.\<close>

primrec nat_to_be :: "nat \<Rightarrow> nat \<Rightarrow> bytes" where
  "nat_to_be 0 n = []"
| "nat_to_be (Suc k) n = word_of_nat (n div 256 ^ k) # nat_to_be k (n mod 256 ^ k)"

primrec be_to_nat :: "bytes \<Rightarrow> nat" where
  "be_to_nat [] = 0"
| "be_to_nat (b # bs) = unat b * 256 ^ length bs + be_to_nat bs"

definition u16_be :: "u16 \<Rightarrow> bytes" where
  "u16_be w = nat_to_be 2 (unat w)"

definition u32_be :: "u32 \<Rightarrow> bytes" where
  "u32_be w = nat_to_be 4 (unat w)"

definition u64_be :: "u64 \<Rightarrow> bytes" where
  "u64_be w = nat_to_be 8 (unat w)"

definition be_u16 :: "bytes \<Rightarrow> u16" where
  "be_u16 bs = word_of_nat (be_to_nat bs)"

definition be_u32 :: "bytes \<Rightarrow> u32" where
  "be_u32 bs = word_of_nat (be_to_nat bs)"

definition be_u64 :: "bytes \<Rightarrow> u64" where
  "be_u64 bs = word_of_nat (be_to_nat bs)"

lemma length_nat_to_be [simp]: "length (nat_to_be k n) = k"
  by (induction k arbitrary: n) auto

lemma be_to_nat_bound: "be_to_nat bs < 256 ^ length bs"
proof (induction bs)
  case Nil
  then show ?case by simp
next
  case (Cons b bs)
  have "unat b < 256"
    using unsigned_less [of b] by simp
  then have le: "(unat b + 1) * 256 ^ length bs \<le> 256 * 256 ^ length bs"
    by (intro mult_le_mono1) simp
  have "be_to_nat (b # bs) < (unat b + 1) * 256 ^ length bs"
    using Cons by simp
  also note le
  finally show ?case
    by simp
qed

lemma be_to_nat_of_nat_to_be [simp]: "be_to_nat (nat_to_be k n) = n mod 256 ^ k"
proof (induction k arbitrary: n)
  case 0
  then show ?case by simp
next
  case (Suc k)
  have "unat (word_of_nat (n div 256 ^ k) :: u8) = (n div 256 ^ k) mod 256"
    by (simp add: unat_of_nat)
  with Suc show ?case
    using mod_mult2_eq [of n "256 ^ k" 256]
    by (simp add: mult.commute add.commute)
qed

lemma nat_to_be_of_be_to_nat [simp]: "nat_to_be (length bs) (be_to_nat bs) = bs"
proof (induction bs)
  case Nil
  then show ?case by simp
next
  case (Cons b bs)
  have "be_to_nat bs < 256 ^ length bs"
    by (rule be_to_nat_bound)
  then show ?case
    using Cons by simp
qed

lemma length_u16_be [simp]: "length (u16_be w) = 2"
  by (simp add: u16_be_def)

lemma length_u32_be [simp]: "length (u32_be w) = 4"
  by (simp add: u32_be_def)

lemma length_u64_be [simp]: "length (u64_be w) = 8"
  by (simp add: u64_be_def)

lemma be_u16_u16_be [simp]: "be_u16 (u16_be w) = w"
proof -
  have "unat w < 2 ^ 16" using unsigned_less [of w] by simp
  then show ?thesis by (simp add: be_u16_def u16_be_def)
qed

lemma be_u32_u32_be [simp]: "be_u32 (u32_be w) = w"
proof -
  have "unat w < 2 ^ 32" using unsigned_less [of w] by simp
  then show ?thesis by (simp add: be_u32_def u32_be_def)
qed

lemma be_u64_u64_be [simp]: "be_u64 (u64_be w) = w"
proof -
  have "unat w < 2 ^ 64" using unsigned_less [of w] by simp
  then show ?thesis by (simp add: be_u64_def u64_be_def)
qed

lemma u64_be_be_u64: "length bs = 8 \<Longrightarrow> u64_be (be_u64 bs) = bs"
  using be_to_nat_bound [of bs] nat_to_be_of_be_to_nat [of bs]
  by (simp add: be_u64_def u64_be_def unat_of_nat)

lemma u32_be_be_u32: "length bs = 4 \<Longrightarrow> u32_be (be_u32 bs) = bs"
  using be_to_nat_bound [of bs] nat_to_be_of_be_to_nat [of bs]
  by (simp add: be_u32_def u32_be_def unat_of_nat)

lemma u16_be_be_u16: "length bs = 2 \<Longrightarrow> u16_be (be_u16 bs) = bs"
  using be_to_nat_bound [of bs] nat_to_be_of_be_to_nat [of bs]
  by (simp add: be_u16_def u16_be_def unat_of_nat)

lemma u64_be_inject [simp]: "u64_be a = u64_be b \<longleftrightarrow> a = b"
  by (metis be_u64_u64_be)

lemma u32_be_inject [simp]: "u32_be a = u32_be b \<longleftrightarrow> a = b"
  by (metis be_u32_u32_be)

lemma u16_be_inject [simp]: "u16_be a = u16_be b \<longleftrightarrow> a = b"
  by (metis be_u16_u16_be)

text \<open>
  Checked conversions and additions: \<^verbatim>\<open>u32::try_from(usize)\<close>, \<^verbatim>\<open>usize::checked_add\<close>
  (64-bit), \<^verbatim>\<open>u64::checked_add\<close>, \<^verbatim>\<open>u64::saturating_add\<close> and \<^verbatim>\<open>u64::saturating_sub\<close>.
\<close>

definition u32_try_from :: "nat \<Rightarrow> u32 option" where
  "u32_try_from n = (if n < 2 ^ 32 then Some (word_of_nat n) else None)"

definition usize_checked_add :: "nat \<Rightarrow> nat \<Rightarrow> nat option" where
  "usize_checked_add a b = (if a + b < 2 ^ 64 then Some (a + b) else None)"

definition u64_checked_add :: "u64 \<Rightarrow> u64 \<Rightarrow> u64 option" where
  "u64_checked_add a b = (if unat a + unat b < 2 ^ 64 then Some (a + b) else None)"

definition u64_saturating_add :: "u64 \<Rightarrow> u64 \<Rightarrow> u64" where
  "u64_saturating_add a b = (if unat a + unat b < 2 ^ 64 then a + b else - 1)"

definition u64_saturating_sub :: "u64 \<Rightarrow> u64 \<Rightarrow> u64" where
  "u64_saturating_sub a b = (if a < b then 0 else a - b)"

lemma u32_try_from_Some:
  "u32_try_from n = Some w \<longleftrightarrow> n < 2 ^ 32 \<and> unat w = n"
proof -
  have "w = word_of_nat (unat w)" by simp
  moreover have "unat w < 2 ^ 32" using unsigned_less [of w] by simp
  moreover have "n < 2 ^ 32 \<Longrightarrow> unat (word_of_nat n :: u32) = n"
    by (simp add: unat_of_nat)
  ultimately show ?thesis
    by (auto simp: u32_try_from_def)
qed

lemma unat_u64_checked_add:
  "u64_checked_add a b = Some c \<Longrightarrow> unat c = unat a + unat b"
  by (auto simp: u64_checked_add_def unat_word_ariths split: if_splits)

subsection \<open>Fallible results\<close>

text \<open>
  \<^verbatim>\<open>Result<T, E>\<close> together with the third way a Rust function can end: a panic
  (\<^verbatim>\<open>expect\<close>, \<^verbatim>\<open>assert!\<close>, an index out of range, an arithmetic overflow in a
  build with overflow checks). \<open>andThen\<close> is the \<^verbatim>\<open>?\<close> operator.
\<close>

datatype ('a, 'e) result = Ok 'a | Err 'e | Panic

primrec andThen :: "('a, 'e) result \<Rightarrow> ('a \<Rightarrow> ('b, 'e) result) \<Rightarrow> ('b, 'e) result" where
  "andThen (Ok x) f = f x"
| "andThen (Err e) f = Err e"
| "andThen Panic f = Panic"

primrec map_err :: "('e \<Rightarrow> 'f) \<Rightarrow> ('a, 'e) result \<Rightarrow> ('a, 'f) result" where
  "map_err g (Ok x) = Ok x"
| "map_err g (Err e) = Err (g e)"
| "map_err g Panic = Panic"

primrec map_ok :: "('a \<Rightarrow> 'b) \<Rightarrow> ('a, 'e) result \<Rightarrow> ('b, 'e) result" where
  "map_ok f (Ok x) = Ok (f x)"
| "map_ok f (Err e) = Err e"
| "map_ok f Panic = Panic"

primrec ok_or :: "'e \<Rightarrow> 'a option \<Rightarrow> ('a, 'e) result" where
  "ok_or e None = Err e"
| "ok_or e (Some x) = Ok x"

primrec ok_or_panic :: "'a option \<Rightarrow> ('a, 'e) result" where
  "ok_or_panic None = Panic"
| "ok_or_panic (Some x) = Ok x"

primrec result_ok :: "('a, 'e) result \<Rightarrow> 'a option" where
  "result_ok (Ok x) = Some x"
| "result_ok (Err e) = None"
| "result_ok Panic = None"

lemma andThen_Ok_iff [simp, result_simps]:
  "andThen m f = Ok y \<longleftrightarrow> (\<exists>x. m = Ok x \<and> f x = Ok y)"
  by (cases m) auto

lemma map_err_Ok_iff [simp, result_simps]: "map_err g m = Ok y \<longleftrightarrow> m = Ok y"
  by (cases m) auto

lemma map_ok_Ok_iff [simp, result_simps]: "map_ok f m = Ok y \<longleftrightarrow> (\<exists>x. m = Ok x \<and> y = f x)"
  by (cases m) auto

lemma ok_or_Ok_iff [simp, result_simps]: "ok_or e v = Ok y \<longleftrightarrow> v = Some y"
  by (cases v) auto

lemma ok_or_panic_Ok_iff [simp, result_simps]: "ok_or_panic v = Ok y \<longleftrightarrow> v = Some y"
  by (cases v) auto

lemma result_ok_Some_iff [simp, result_simps]: "result_ok m = Some y \<longleftrightarrow> m = Ok y"
  by (cases m) auto

lemma andThen_Panic_iff:
  "andThen m f = Panic \<longleftrightarrow> m = Panic \<or> (\<exists>x. m = Ok x \<and> f x = Panic)"
  by (cases m) auto

lemma ok_or_not_Panic [simp]: "ok_or e v \<noteq> Panic"
  by (cases v) auto

lemma map_err_Panic_iff [simp]: "map_err g m = Panic \<longleftrightarrow> m = Panic"
  by (cases m) auto

lemma map_ok_Panic_iff [simp]: "map_ok g m = Panic \<longleftrightarrow> m = Panic"
  by (cases m) auto

subsection \<open>Cursor reads\<close>

text \<open>
  The wire decoders advance a \<^verbatim>\<open>&mut &[u8]\<close>. A read returns what it took and the rest
  of the slice, or \<open>None\<close> when the slice is too short. Each crate has its own copy of
  these helpers, which differ in the error only.
\<close>

definition take_exact :: "nat \<Rightarrow> bytes \<Rightarrow> (bytes \<times> bytes) option" where
  "take_exact n bs = (if n \<le> length bs then Some (take n bs, drop n bs) else None)"

definition split_first :: "'a list \<Rightarrow> ('a \<times> 'a list) option" where
  "split_first xs = (case xs of [] \<Rightarrow> None | x # rest \<Rightarrow> Some (x, rest))"

definition take_u8 :: "bytes \<Rightarrow> (u8 \<times> bytes) option" where
  "take_u8 bs = (case bs of [] \<Rightarrow> None | b # rest \<Rightarrow> Some (b, rest))"

definition take_u16 :: "bytes \<Rightarrow> (u16 \<times> bytes) option" where
  "take_u16 bs = do { (h, rest) \<leftarrow> take_exact 2 bs; Some (be_u16 h, rest) }"

definition take_u32 :: "bytes \<Rightarrow> (u32 \<times> bytes) option" where
  "take_u32 bs = do { (h, rest) \<leftarrow> take_exact 4 bs; Some (be_u32 h, rest) }"

definition take_u64 :: "bytes \<Rightarrow> (u64 \<times> bytes) option" where
  "take_u64 bs = do { (h, rest) \<leftarrow> take_exact 8 bs; Some (be_u64 h, rest) }"

text \<open>A length-prefixed field: four big-endian length bytes, then the body.\<close>

definition take_prefixed :: "bytes \<Rightarrow> (bytes \<times> bytes) option" where
  "take_prefixed bs = do {
     (h, rest) \<leftarrow> take_exact 4 bs;
     end \<leftarrow> usize_checked_add 4 (unat (be_u32 h));
     if end \<le> length bs then Some (take (end - 4) rest, drop end bs) else None }"

text \<open>
  Writing a length-prefixed field. The length conversion fails when the body is longer
  than \<^verbatim>\<open>u32::MAX\<close>; the program turns that into a panic or an error.
\<close>

definition write_prefixed :: "bytes \<Rightarrow> bytes option" where
  "write_prefixed bs = do { n \<leftarrow> u32_try_from (length bs); Some (u32_be n @ bs) }"

primrec take_many :: "nat \<Rightarrow> (bytes \<Rightarrow> ('a \<times> bytes) option) \<Rightarrow> bytes \<Rightarrow> ('a list \<times> bytes) option" where
  "take_many 0 rd bs = Some ([], bs)"
| "take_many (Suc n) rd bs = do {
     (x, rest) \<leftarrow> rd bs;
     (xs, rest') \<leftarrow> take_many n rd rest;
     Some (x # xs, rest') }"

lemma take_exact_append [simp, codec_simps]:
  "length xs = n \<Longrightarrow> take_exact n (xs @ rest) = Some (xs, rest)"
  by (simp add: take_exact_def)

lemma take_exact_Some_iff:
  "take_exact n bs = Some (h, rest) \<longleftrightarrow> bs = h @ rest \<and> length h = n"
  by (auto simp: take_exact_def)

lemma split_first_simps [simp, codec_simps]:
  "split_first [] = None" "split_first (x # xs) = Some (x, xs)"
  by (simp_all add: split_first_def)

lemma split_first_Some_iff [simp]: "split_first xs = Some (x, rest) \<longleftrightarrow> xs = x # rest"
  by (auto simp: split_first_def split: list.splits)

lemma take_u8_Cons [simp, codec_simps]: "take_u8 (b # rest) = Some (b, rest)"
  by (simp add: take_u8_def)

lemma take_u16_append [simp, codec_simps]: "take_u16 (u16_be w @ rest) = Some (w, rest)"
  by (simp add: take_u16_def)

lemma take_u32_append [simp, codec_simps]: "take_u32 (u32_be w @ rest) = Some (w, rest)"
  by (simp add: take_u32_def)

lemma take_u64_append [simp, codec_simps]: "take_u64 (u64_be w @ rest) = Some (w, rest)"
  by (simp add: take_u64_def)

lemma take_u8_Some_iff: "take_u8 bs = Some (b, rest) \<longleftrightarrow> bs = b # rest"
  by (auto simp: take_u8_def split: list.splits)

lemma take_u32_Some_iff: "take_u32 bs = Some (w, rest) \<longleftrightarrow> bs = u32_be w @ rest"
  by (auto simp: take_u32_def take_exact_Some_iff u32_be_be_u32 bind_eq_Some_conv)

lemma take_u64_Some_iff: "take_u64 bs = Some (w, rest) \<longleftrightarrow> bs = u64_be w @ rest"
  by (auto simp: take_u64_def take_exact_Some_iff u64_be_be_u64 bind_eq_Some_conv)

lemma take_u16_Some_iff: "take_u16 bs = Some (w, rest) \<longleftrightarrow> bs = u16_be w @ rest"
  by (auto simp: take_u16_def take_exact_Some_iff u16_be_be_u16 bind_eq_Some_conv)

lemma unat_u32_bound: "unat (w :: u32) < 2 ^ 32"
  using unsigned_less [of w] by simp

lemma write_prefixed_Some_iff:
  "write_prefixed bs = Some out \<longleftrightarrow>
    length bs < 2 ^ 32 \<and> out = u32_be (word_of_nat (length bs)) @ bs"
  by (auto simp: write_prefixed_def u32_try_from_def)

lemma take_prefixed_write [simp, codec_simps]:
  assumes "write_prefixed bs = Some out"
  shows "take_prefixed (out @ rest) = Some (bs, rest)"
proof -
  from assms have len: "length bs < 2 ^ 32"
    and out: "out = u32_be (word_of_nat (length bs)) @ bs"
    by (auto simp: write_prefixed_Some_iff)
  have "unat (word_of_nat (length bs) :: u32) = length bs"
    using len by (simp add: unat_of_nat)
  with len show ?thesis
    by (simp add: out take_prefixed_def usize_checked_add_def)
qed

lemma take_prefixed_Some_iff:
  "take_prefixed bs = Some (h, rest) \<longleftrightarrow> (\<exists>out. write_prefixed h = Some out \<and> bs = out @ rest)"
proof
  assume "take_prefixed bs = Some (h, rest)"
  then obtain p q where p: "bs = p @ q" "length p = 4"
    and q: "unat (be_u32 p) \<le> length q" "h = take (unat (be_u32 p)) q"
      "rest = drop (unat (be_u32 p)) q"
    by (auto simp: take_prefixed_def take_exact_Some_iff usize_checked_add_def bind_eq_Some_conv
        split: if_splits)
  have "length h = unat (be_u32 p)" using q by simp
  then have "write_prefixed h = Some (u32_be (be_u32 p) @ h)"
    using unat_u32_bound [of "be_u32 p"] by (simp add: write_prefixed_Some_iff)
  then show "\<exists>out. write_prefixed h = Some out \<and> bs = out @ rest"
    using p q by (simp add: u32_be_be_u32)
next
  assume "\<exists>out. write_prefixed h = Some out \<and> bs = out @ rest"
  then show "take_prefixed bs = Some (h, rest)" by auto
qed

text \<open>
  The other way the program reads such a field: \<^verbatim>\<open>take_u32\<close>, then \<^verbatim>\<open>take_exact\<close>
  of that length. Both accept the same slices, because \<open>4 + len\<close> never overflows a
  64-bit \<^verbatim>\<open>usize\<close>.
\<close>

definition take_field :: "bytes \<Rightarrow> (bytes \<times> bytes) option" where
  "take_field bs = do { (n, rest) \<leftarrow> take_u32 bs; take_exact (unat n) rest }"

lemma take_field_eq_take_prefixed: "take_field bs = take_prefixed bs"
proof -
  have small: "unat (be_u32 h) < 18446744073709551612" for h
    using unat_u32_bound [of "be_u32 h"] by simp
  show ?thesis
    by (cases "take_exact 4 bs")
      (auto simp: take_field_def take_prefixed_def take_u32_def take_exact_def small
        usize_checked_add_def le_diff_conv2 add.commute split: if_splits)
qed

lemma take_field_write [simp, codec_simps]:
  "write_prefixed bs = Some out \<Longrightarrow> take_field (out @ rest) = Some (bs, rest)"
  by (simp add: take_field_eq_take_prefixed)

subsection \<open>The codec interface\<close>

text \<open>
  What a wire format promises to its clients: reading what was written, with anything
  after it, gives the value back and leaves the rest. \<open>enc\<close> is partial because the
  program's encoders reject (or panic on) a field longer than its length prefix can say;
  \<open>wf\<close> states the lengths that Rust's fixed-size arrays carry in their type.
\<close>

locale codec =
  fixes enc :: "'a \<Rightarrow> bytes option"
    and dec :: "bytes \<Rightarrow> ('a \<times> bytes) option"
    and wf :: "'a \<Rightarrow> bool"
  assumes dec_enc: "wf x \<Longrightarrow> enc x = Some bs \<Longrightarrow> dec (bs @ rest) = Some (x, rest)"
begin

lemma dec_enc_exact: "wf x \<Longrightarrow> enc x = Some bs \<Longrightarrow> dec bs = Some (x, [])"
  using dec_enc [of x bs "[]"] by simp

lemma prefix_free:
  assumes "wf x" "wf y" "enc x = Some bs" "enc y = Some cs" "bs @ r = cs @ s"
  shows "x = y \<and> r = s"
  using dec_enc [OF assms(1,3), of r] dec_enc [OF assms(2,4), of s] assms(5) by simp

lemma enc_inj:
  assumes "wf x" "wf y" "enc x = Some bs" "enc y = Some bs"
  shows "x = y"
  using prefix_free [OF assms, of "[]" "[]"] by simp

text \<open>A counted sequence of encoded items reads back item by item.\<close>

lemma take_many_enc:
  assumes "\<forall>x \<in> set xs. wf x" "those (map enc xs) = Some bss"
  shows "take_many (length xs) dec (concat bss @ rest) = Some (xs, rest)"
  using assms
proof (induction xs arbitrary: bss)
  case Nil
  then show ?case by simp
next
  case (Cons x xs)
  then obtain b bs where "bss = b # bs" "enc x = Some b" "those (map enc xs) = Some bs"
    by (auto split: option.splits)
  with Cons dec_enc [of x b "concat bs @ rest"] show ?case
    by simp
qed

end

interpretation u64_codec: codec "\<lambda>w. Some (u64_be w)" take_u64 "\<lambda>_. True"
  by unfold_locales auto

interpretation u32_codec: codec "\<lambda>w. Some (u32_be w)" take_u32 "\<lambda>_. True"
  by unfold_locales auto

interpretation field_codec: codec write_prefixed take_prefixed "\<lambda>_. True"
  by unfold_locales simp

lemma take_many_take_exact:
  "\<forall>x \<in> set xs. length x = k \<Longrightarrow>
    take_many (length xs) (take_exact k) (concat xs @ rest) = Some (xs, rest)"
  by (induction xs) auto

lemma take_many_take_exact_Some_iff:
  "take_many n (take_exact k) c = Some (xs, rest) \<longleftrightarrow>
    c = concat xs @ rest \<and> length xs = n \<and> (\<forall>x \<in> set xs. length x = k)"
proof
  assume "take_many n (take_exact k) c = Some (xs, rest)"
  then show "c = concat xs @ rest \<and> length xs = n \<and> (\<forall>x \<in> set xs. length x = k)"
    by (induction n arbitrary: c xs) (auto simp: bind_eq_Some_conv take_exact_Some_iff)
qed (auto simp: take_many_take_exact)

lemma take_many_length: "take_many n rd bs = Some (xs, rest) \<Longrightarrow> length xs = n"
  by (induction n arbitrary: bs xs) (auto simp: bind_eq_Some_conv)

subsection \<open>Hash maps\<close>

text \<open>
  \<^verbatim>\<open>HashMap\<close> and \<^verbatim>\<open>BTreeMap\<close> as association lists with distinct keys: lookup is
  \<open>map_of\<close>, insertion \<open>AList.update\<close>, removal \<open>AList.delete\<close>, and iteration goes
  through the list. A \<^verbatim>\<open>HashMap\<close> iterates in an unspecified order, so nothing that is
  proved about an iteration may depend on the order of the list.
\<close>

type_synonym ('k, 'v) hmap = "('k \<times> 'v) list"

abbreviation hm_wf :: "('k, 'v) hmap \<Rightarrow> bool" where
  "hm_wf m \<equiv> distinct (map fst m)"

lemma map_of_Some_in: "hm_wf m \<Longrightarrow> map_of m k = Some v \<longleftrightarrow> (k, v) \<in> set m"
  by (simp add: map_of_eq_Some_iff)

lemma hm_wf_update [simp, intro]: "hm_wf m \<Longrightarrow> hm_wf (AList.update k v m)"
  by (rule distinct_update)

lemma hm_wf_delete [simp, intro]: "hm_wf m \<Longrightarrow> hm_wf (AList.delete k m)"
  by (rule distinct_delete)

subsection \<open>Sorted maps\<close>

text \<open>
  \<^verbatim>\<open>BTreeMap\<close> as an association list with strictly ascending keys. \<open>bt_last_upto\<close> is
  \<^verbatim>\<open>range(..=k).next_back()\<close>, \<open>bt_last_below\<close> is \<^verbatim>\<open>range(..k).next_back()\<close>.
\<close>

type_synonym ('k, 'v) btmap = "('k \<times> 'v) list"

definition bt_wf :: "('k :: linorder, 'v) btmap \<Rightarrow> bool" where
  "bt_wf m \<longleftrightarrow> sorted_wrt (<) (map fst m)"

primrec bt_insert :: "'k :: linorder \<Rightarrow> 'v \<Rightarrow> ('k, 'v) btmap \<Rightarrow> ('k, 'v) btmap" where
  "bt_insert k v [] = [(k, v)]"
| "bt_insert k v (p # m) =
     (if k < fst p then (k, v) # p # m
      else if k = fst p then (k, v) # m
      else p # bt_insert k v m)"

definition bt_remove :: "'k :: linorder \<Rightarrow> ('k, 'v) btmap \<Rightarrow> ('k, 'v) btmap" where
  "bt_remove k m = filter (\<lambda>p. fst p \<noteq> k) m"

definition bt_of_list :: "('k :: linorder \<times> 'v) list \<Rightarrow> ('k, 'v) btmap" where
  "bt_of_list ps = fold (\<lambda>(k, v) m. bt_insert k v m) ps []"

definition last_opt :: "'a list \<Rightarrow> 'a option" where
  "last_opt xs = (if xs = [] then None else Some (last xs))"

definition bt_last_upto :: "'k :: linorder \<Rightarrow> ('k, 'v) btmap \<Rightarrow> ('k \<times> 'v) option" where
  "bt_last_upto k m = last_opt (filter (\<lambda>p. fst p \<le> k) m)"

definition bt_last_below :: "'k :: linorder \<Rightarrow> ('k, 'v) btmap \<Rightarrow> ('k \<times> 'v) option" where
  "bt_last_below k m = last_opt (filter (\<lambda>p. fst p < k) m)"

lemma bt_wf_Nil [simp, intro]: "bt_wf []"
  by (simp add: bt_wf_def)

lemma bt_wf_Cons: "bt_wf (p # m) \<longleftrightarrow> (\<forall>q \<in> set m. fst p < fst q) \<and> bt_wf m"
  by (auto simp: bt_wf_def)

lemma bt_wf_hm_wf: "bt_wf m \<Longrightarrow> hm_wf m"
  by (simp add: bt_wf_def strict_sorted_iff)

lemma set_bt_insert_keys: "fst ` set (bt_insert k v m) = insert k (fst ` set m)"
  by (induction m) auto

lemma bt_wf_insert [simp, intro]: "bt_wf m \<Longrightarrow> bt_wf (bt_insert k v m)"
proof (induction m)
  case (Cons p m)
  have "q \<in> set (bt_insert k v m) \<Longrightarrow> fst q = k \<or> fst q \<in> fst ` set m" for q
    using set_bt_insert_keys [of k v m] by blast
  with Cons show ?case
    by (fastforce simp: bt_wf_Cons)
qed (simp add: bt_wf_def)

lemma bt_wf_filter [simp, intro]: "bt_wf m \<Longrightarrow> bt_wf (filter P m)"
  by (induction m) (auto simp: bt_wf_Cons)

lemma bt_wf_remove [simp, intro]: "bt_wf m \<Longrightarrow> bt_wf (bt_remove k m)"
  by (simp add: bt_remove_def)

lemma map_of_bt_insert [simp]: "bt_wf m \<Longrightarrow> map_of (bt_insert k v m) = (map_of m)(k \<mapsto> v)"
proof (induction m)
  case (Cons p m)
  show ?case
  proof (cases "k < fst p")
    case True
    with Cons.prems have "map_of (p # m) k = None"
      by (auto simp: bt_wf_Cons map_of_eq_None_iff)
    with True show ?thesis by (cases p) (auto simp: fun_eq_iff)
  next
    case False
    with Cons show ?thesis
      by (cases p) (auto simp: fun_eq_iff bt_wf_Cons)
  qed
qed (simp add: fun_eq_iff)

lemma map_of_bt_remove [simp]: "map_of (bt_remove k m) = (map_of m)(k := None)"
  by (induction m) (auto simp: bt_remove_def fun_eq_iff)

lemma bt_wf_of_list [simp, intro]: "bt_wf (bt_of_list ps)"
proof -
  have "bt_wf m \<Longrightarrow> bt_wf (fold (\<lambda>(k, v) m. bt_insert k v m) ps m)" for m
    by (induction ps arbitrary: m) auto
  then show ?thesis by (simp add: bt_of_list_def)
qed

lemma map_of_graph: "hm_wf m \<Longrightarrow> map (\<lambda>k. (k, the (map_of m k))) (map fst m) = m"
  unfolding map_map by (rule map_idI) (auto simp: map_of_is_SomeI)

text \<open>A sorted map is determined by the function it represents.\<close>

lemma bt_eq_of_map_of:
  assumes "bt_wf m" "bt_wf n" "map_of m = map_of n"
  shows "m = n"
proof -
  have set_eq: "set m = set n"
    using assms map_of_eq_Some_iff [of m] map_of_eq_Some_iff [of n]
    by (auto dest!: bt_wf_hm_wf)
  have keys: "map fst m = map fst n"
    using assms(1,2) set_eq by (intro sorted_distinct_set_unique) (simp_all add: bt_wf_def strict_sorted_iff)
  show ?thesis
    using map_of_graph [OF bt_wf_hm_wf [OF assms(1)]] map_of_graph [OF bt_wf_hm_wf [OF assms(2)]]
    by (simp add: keys assms(3))
qed

lemma bt_insert_append:
  "\<forall>q \<in> set m. fst q < k \<Longrightarrow> bt_insert k v m = m @ [(k, v)]"
  by (induction m) auto

lemma bt_of_list_sorted [simp]:
  assumes "bt_wf m"
  shows "bt_of_list m = m"
proof -
  have "bt_wf (a @ m) \<Longrightarrow> fold (\<lambda>(k, v) m. bt_insert k v m) m a = a @ m" for a
  proof (induction m arbitrary: a)
    case (Cons p m)
    then have "\<forall>q \<in> set a. fst q < fst p"
      by (auto simp: bt_wf_def sorted_wrt_append)
    with Cons.IH [of "a @ [p]"] Cons.prems show ?case
      by (cases p) (simp add: bt_insert_append)
  qed simp
  from this [of "[]"] assms show ?thesis by (simp add: bt_of_list_def)
qed

lemma last_opt_Some_in: "last_opt xs = Some x \<Longrightarrow> x \<in> set xs"
  by (auto simp: last_opt_def split: if_splits)

lemma bt_last_filter_Some_iff:
  assumes "bt_wf m"
  shows "last_opt (filter P m) = Some p \<longleftrightarrow>
    p \<in> set m \<and> P p \<and> (\<forall>q \<in> set m. P q \<longrightarrow> fst q \<le> fst p)"
  using assms
proof (induction m arbitrary: p)
  case (Cons q m)
  show ?case
  proof (cases "filter P m = []")
    case True
    then have "\<forall>r \<in> set m. \<not> P r" by (simp add: filter_empty_conv)
    then show ?thesis by (auto simp: last_opt_def)
  next
    case False
    then obtain r where r: "last_opt (filter P m) = Some r" "last_opt (filter P (q # m)) = Some r"
      by (auto simp: last_opt_def)
    have wf: "bt_wf m" using Cons.prems by (simp add: bt_wf_Cons)
    from Cons.IH [OF wf, of r] r
    have "r \<in> set m" "P r" "\<forall>s \<in> set m. P s \<longrightarrow> fst s \<le> fst r"
      by simp_all
    moreover have "\<forall>s \<in> set m. fst q < fst s" using Cons.prems by (simp add: bt_wf_Cons)
    ultimately have "p \<in> set (q # m) \<and> P p \<and> (\<forall>s \<in> set (q # m). P s \<longrightarrow> fst s \<le> fst p) \<longleftrightarrow>
        p \<in> set m \<and> P p \<and> (\<forall>s \<in> set m. P s \<longrightarrow> fst s \<le> fst p)"
      by fastforce
    with Cons.IH [OF wf, of p] r show ?thesis by metis
  qed
qed (simp add: last_opt_def)

lemma bt_last_upto_Some_iff:
  "bt_wf m \<Longrightarrow> bt_last_upto k m = Some p \<longleftrightarrow>
    p \<in> set m \<and> fst p \<le> k \<and> (\<forall>q \<in> set m. fst q \<le> k \<longrightarrow> fst q \<le> fst p)"
  by (simp add: bt_last_upto_def bt_last_filter_Some_iff)

lemma set_bt_insert: "bt_wf m \<Longrightarrow> set (bt_insert k v m) = insert (k, v) {p \<in> set m. fst p \<noteq> k}"
  by (induction m) (auto simp: bt_wf_Cons)

lemma option_eqI: "(\<And>y. x = Some y \<longleftrightarrow> z = Some y) \<Longrightarrow> x = z"
  by (metis not_None_eq)

text \<open>Inserting moves the last entry up to \<open>r\<close> exactly when it lands at or after it.\<close>

lemma bt_last_upto_insert:
  assumes wf: "bt_wf m"
  shows "bt_last_upto r (bt_insert a v m) =
    (if a \<le> r \<and> (\<forall>p \<in> set m. fst p \<le> r \<longrightarrow> fst p \<le> a) then Some (a, v) else bt_last_upto r m)"
proof (cases "a \<le> r \<and> (\<forall>p \<in> set m. fst p \<le> r \<longrightarrow> fst p \<le> a)")
  case True
  then have "bt_last_upto r (bt_insert a v m) = Some (a, v)"
    using wf by (subst bt_last_upto_Some_iff) (auto simp: set_bt_insert)
  with True show ?thesis by simp
next
  case False
  have "bt_last_upto r (bt_insert a v m) = Some p \<longleftrightarrow> bt_last_upto r m = Some p" for p
    using False unfolding bt_last_upto_Some_iff [OF wf] bt_last_upto_Some_iff [OF bt_wf_insert [OF wf]]
      set_bt_insert [OF wf] by (cases p) force
  then have "bt_last_upto r (bt_insert a v m) = bt_last_upto r m"
    by (rule option_eqI)
  with False show ?thesis by auto
qed

lemma bt_last_below_Some_iff:
  "bt_wf m \<Longrightarrow> bt_last_below k m = Some p \<longleftrightarrow>
    p \<in> set m \<and> fst p < k \<and> (\<forall>q \<in> set m. fst q < k \<longrightarrow> fst q \<le> fst p)"
  by (simp add: bt_last_below_def bt_last_filter_Some_iff)

subsection \<open>Supermajorities\<close>

text \<open>
  The program's one quorum rule, always written without division:
  \<^verbatim>\<open>count * 3 > total * 2\<close>.
\<close>

definition supermajority :: "nat \<Rightarrow> nat \<Rightarrow> bool" where
  "supermajority k n \<longleftrightarrow> k * 3 > n * 2"

lemma supermajority_mono: "supermajority a n \<Longrightarrow> a \<le> b \<Longrightarrow> supermajority b n"
  by (simp add: supermajority_def)

lemma supermajority_pos: "supermajority a n \<Longrightarrow> 0 < a"
  by (cases a) (simp_all add: supermajority_def)

text \<open>Two supermajorities of the same finite electorate share more than a third of it.\<close>

lemma supermajority_inter:
  assumes "finite U" "A \<subseteq> U" "B \<subseteq> U"
    and "supermajority (card A) (card U)" "supermajority (card B) (card U)"
  shows "3 * card (A \<inter> B) > card U"
proof -
  have fin: "finite A" "finite B" using assms by (auto intro: finite_subset)
  have "card (A \<union> B) \<le> card U" using assms by (intro card_mono) auto
  moreover have "card (A \<union> B) + card (A \<inter> B) = card A + card B"
    using card_Un_Int [OF fin] by simp
  ultimately show ?thesis
    using assms(4,5) by (simp add: supermajority_def)
qed

end
