(* ===== verification/Primitives.thy ===== *)
theory Primitives
  imports Prelude "HOL-Library.List_Lexorder"
begin

section \<open>Primitive types: hashes, nodes, timestamps, transactions, events\<close>

text \<open>
  The crate \<^verbatim>\<open>protocol/primitives\<close>. Newtypes over fixed-size arrays and integers are
  one-constructor datatypes; \<open>event_wf\<close> and its parts state the array lengths that the
  Rust types carry. The orders are the derived ones: lexicographic on bytes for
  \<^verbatim>\<open>EventHash\<close>, the order of the integer for \<^verbatim>\<open>NodeId\<close> and \<^verbatim>\<open>Timestamp\<close>.
\<close>

datatype EventHash = EventHash (eh_bytes: bytes)

datatype TransactionHash = TransactionHash (th_bytes: bytes)

datatype NodeId = NodeId (node_get: u64)

datatype Timestamp = Timestamp (ts_get: u64)

datatype Signature = Signature (sig_bytes: bytes)

record Transaction =
  tx_payload :: bytes

record UnsignedEvent =
  ue_creator :: NodeId
  ue_self_parent :: "EventHash option"
  ue_other_parent :: "EventHash option"
  ue_timestamp :: Timestamp
  ue_payload :: "Transaction list"

record Event =
  unsigned_part :: UnsignedEvent
  ev_signature :: Signature

text \<open>The errors of the primitive layer; \<open>OutOfRange field got\<close> carries the number the message prints.\<close>

datatype Error =
    Validation string
  | OutOfRange string nat
  | SerializationFailed string
  | InvalidState string

definition signature_default :: Signature where
  "signature_default = Signature (replicate 64 0)"

definition finalize :: "UnsignedEvent \<Rightarrow> Signature \<Rightarrow> Event" where
  "finalize u s = \<lparr> unsigned_part = u, ev_signature = s \<rparr>"

text \<open>The accessors of \<^verbatim>\<open>Event\<close>.\<close>

definition ev_creator :: "Event \<Rightarrow> NodeId" where
  "ev_creator e = ue_creator (unsigned_part e)"

definition ev_self_parent :: "Event \<Rightarrow> EventHash option" where
  "ev_self_parent e = ue_self_parent (unsigned_part e)"

definition ev_other_parent :: "Event \<Rightarrow> EventHash option" where
  "ev_other_parent e = ue_other_parent (unsigned_part e)"

definition ev_timestamp :: "Event \<Rightarrow> Timestamp" where
  "ev_timestamp e = ue_timestamp (unsigned_part e)"

definition ev_payload :: "Event \<Rightarrow> Transaction list" where
  "ev_payload e = ue_payload (unsigned_part e)"

lemmas event_accessor_defs =
  ev_creator_def ev_self_parent_def ev_other_parent_def ev_timestamp_def ev_payload_def

subsection \<open>Array lengths\<close>

definition hash_wf :: "EventHash \<Rightarrow> bool" where
  "hash_wf h \<longleftrightarrow> length (eh_bytes h) = 32"

definition signature_wf :: "Signature \<Rightarrow> bool" where
  "signature_wf s \<longleftrightarrow> length (sig_bytes s) = 64"

definition unsigned_wf :: "UnsignedEvent \<Rightarrow> bool" where
  "unsigned_wf u \<longleftrightarrow> pred_option hash_wf (ue_self_parent u) \<and> pred_option hash_wf (ue_other_parent u)"

definition event_wf :: "Event \<Rightarrow> bool" where
  "event_wf e \<longleftrightarrow> unsigned_wf (unsigned_part e) \<and> signature_wf (ev_signature e)"

subsection \<open>The derived orders\<close>

instantiation EventHash :: linorder
begin

definition less_eq_EventHash :: "EventHash \<Rightarrow> EventHash \<Rightarrow> bool" where
  "less_eq_EventHash a b \<longleftrightarrow> eh_bytes a \<le> eh_bytes b"

definition less_EventHash :: "EventHash \<Rightarrow> EventHash \<Rightarrow> bool" where
  "less_EventHash a b \<longleftrightarrow> eh_bytes a < eh_bytes b"

instance
  by standard (auto simp: less_eq_EventHash_def less_EventHash_def EventHash.expand)

end

instantiation NodeId :: linorder
begin

definition less_eq_NodeId :: "NodeId \<Rightarrow> NodeId \<Rightarrow> bool" where
  "less_eq_NodeId a b \<longleftrightarrow> node_get a \<le> node_get b"

definition less_NodeId :: "NodeId \<Rightarrow> NodeId \<Rightarrow> bool" where
  "less_NodeId a b \<longleftrightarrow> node_get a < node_get b"

instance
  by standard (auto simp: less_eq_NodeId_def less_NodeId_def NodeId.expand)

end

instantiation Timestamp :: linorder
begin

definition less_eq_Timestamp :: "Timestamp \<Rightarrow> Timestamp \<Rightarrow> bool" where
  "less_eq_Timestamp a b \<longleftrightarrow> ts_get a \<le> ts_get b"

definition less_Timestamp :: "Timestamp \<Rightarrow> Timestamp \<Rightarrow> bool" where
  "less_Timestamp a b \<longleftrightarrow> ts_get a < ts_get b"

instance
  by standard (auto simp: less_eq_Timestamp_def less_Timestamp_def Timestamp.expand)

end

lemma NodeId_le_simp [simp]: "NodeId a \<le> NodeId b \<longleftrightarrow> a \<le> b"
  by (simp add: less_eq_NodeId_def)

lemma NodeId_less_simp [simp]: "NodeId a < NodeId b \<longleftrightarrow> a < b"
  by (simp add: less_NodeId_def)

lemma Timestamp_le_simp [simp]: "Timestamp a \<le> Timestamp b \<longleftrightarrow> a \<le> b"
  by (simp add: less_eq_Timestamp_def)

lemma Timestamp_less_simp [simp]: "Timestamp a < Timestamp b \<longleftrightarrow> a < b"
  by (simp add: less_Timestamp_def)

end
