(* ===== verification/Canonical.thy ===== *)
theory Canonical
  imports Primitives
begin

section \<open>Canonical encoding, hashing and signing of events\<close>

text \<open>
  \<^verbatim>\<open>crypto/src/canonical_impls.rs\<close>, \<^verbatim>\<open>hashable_impls.rs\<close>, \<^verbatim>\<open>signable_impls.rs\<close> and the
  reader of the same format, \<^verbatim>\<open>decode_event_bytes\<close> of \<^verbatim>\<open>consensus/src/reconnect.rs\<close>.
  SHA-256 and Ed25519 are not part of the repository: they are fields of the parameter
  record \<open>crypto_lib\<close>.
\<close>

subsection \<open>The cryptographic libraries\<close>

text \<open>
  \<open>sha256\<close> is \<^verbatim>\<open>Sha256::digest\<close>; \<open>vk_valid\<close> says which 32 bytes \<^verbatim>\<open>VerifyingKey::from_bytes\<close>
  accepts, so that a verifying key is represented by its compressed bytes; \<open>verify_strict\<close>
  and \<open>vk_verify\<close> (\<^verbatim>\<open>Verifier::verify\<close>) take key, message and signature; \<open>ed_sign\<close> takes the 32 secret bytes and the message;
  \<open>hmac512\<close> is HMAC-SHA512 (key, data), \<open>None\<close> when it rejects the key.
\<close>

type_synonym hash_fn = "bytes \<Rightarrow> bytes"
type_synonym VerifyingKey = bytes

record crypto_lib =
  sha256 :: hash_fn
  vk_valid :: "bytes \<Rightarrow> bool"
  verify_strict :: "VerifyingKey \<Rightarrow> bytes \<Rightarrow> bytes \<Rightarrow> bool"
  vk_verify :: "VerifyingKey \<Rightarrow> bytes \<Rightarrow> bytes \<Rightarrow> bool"
  ed_sign :: "bytes \<Rightarrow> bytes \<Rightarrow> bytes"
  hmac512 :: "bytes \<Rightarrow> bytes \<Rightarrow> bytes option"

datatype CryptoError =
    Base Error
  | SignatureVerificationFailed
  | UnknownSigner NodeId
  | MalformedOp
  | UnknownMembershipOpcode u8
  | BlsKeyGenFailed
  | BlsAggregateFailed
  | EmptyDerivationPath
  | InvalidDerivationIndex u32
  | InvalidTagCode u8
  | HmacInitFailed

subsection \<open>Encoders\<close>

definition encode_NodeId :: "NodeId \<Rightarrow> bytes" where
  "encode_NodeId n = u64_be (node_get n)"

definition encode_Timestamp :: "Timestamp \<Rightarrow> bytes" where
  "encode_Timestamp t = u64_be (ts_get t)"

definition encode_Signature :: "Signature \<Rightarrow> bytes" where
  "encode_Signature s = sig_bytes s"

definition encode_EventHash :: "EventHash \<Rightarrow> bytes" where
  "encode_EventHash h = eh_bytes h"

primrec encode_opt_EventHash :: "EventHash option \<Rightarrow> bytes" where
  "encode_opt_EventHash None = [0x00]"
| "encode_opt_EventHash (Some h) = 0x01 # encode_EventHash h"

definition encode_Transaction :: "Transaction \<Rightarrow> (bytes, Error) result" where
  "encode_Transaction tx =
     andThen (ok_or (OutOfRange ''Transaction payload length'' (length (tx_payload tx)))
       (u32_try_from (length (tx_payload tx))))
     (\<lambda>len. Ok (u32_be len @ tx_payload tx))"

primrec encode_each_tx :: "Transaction list \<Rightarrow> (bytes, Error) result" where
  "encode_each_tx [] = Ok []"
| "encode_each_tx (tx # txs) =
     andThen (encode_Transaction tx) (\<lambda>b. map_ok (\<lambda>bs. b @ bs) (encode_each_tx txs))"

definition encode_Transactions :: "Transaction list \<Rightarrow> (bytes, Error) result" where
  "encode_Transactions txs =
     andThen (ok_or (OutOfRange ''Vec<Transaction> length'' (length txs)) (u32_try_from (length txs)))
     (\<lambda>n. map_ok (\<lambda>bs. u32_be n @ bs) (encode_each_tx txs))"

definition encode_UnsignedEvent :: "UnsignedEvent \<Rightarrow> (bytes, Error) result" where
  "encode_UnsignedEvent u =
     map_ok (\<lambda>p. encode_NodeId (ue_creator u)
        @ encode_opt_EventHash (ue_self_parent u)
        @ encode_opt_EventHash (ue_other_parent u)
        @ encode_Timestamp (ue_timestamp u)
        @ p)
     (encode_Transactions (ue_payload u))"

definition encode_Event :: "Event \<Rightarrow> (bytes, Error) result" where
  "encode_Event e =
     map_ok (\<lambda>b. b @ encode_Signature (ev_signature e)) (encode_UnsignedEvent (unsigned_part e))"

subsection \<open>The reader\<close>

definition take_optional_hash :: "bytes \<Rightarrow> (EventHash option \<times> bytes) option" where
  "take_optional_hash c = do {
     (tag, c) \<leftarrow> take_u8 c;
     if tag = 0x00 then Some (None, c)
     else if tag = 0x01 then do { (h, c) \<leftarrow> take_exact 32 c; Some (Some (EventHash h), c) }
     else None }"

definition take_transaction :: "bytes \<Rightarrow> (Transaction \<times> bytes) option" where
  "take_transaction c = do { (p, c) \<leftarrow> take_field c; Some (\<lparr> tx_payload = p \<rparr>, c) }"

definition take_unsigned_event :: "bytes \<Rightarrow> (UnsignedEvent \<times> bytes) option" where
  "take_unsigned_event c = do {
     (cr, c) \<leftarrow> take_u64 c;
     (sp, c) \<leftarrow> take_optional_hash c;
     (op, c) \<leftarrow> take_optional_hash c;
     (ts, c) \<leftarrow> take_u64 c;
     (n, c) \<leftarrow> take_u32 c;
     (txs, c) \<leftarrow> take_many (unat n) take_transaction c;
     Some (\<lparr> ue_creator = NodeId cr, ue_self_parent = sp, ue_other_parent = op,
             ue_timestamp = Timestamp ts, ue_payload = txs \<rparr>, c) }"

definition decode_event_bytes :: "bytes \<Rightarrow> Event option" where
  "decode_event_bytes bs = do {
     (u, c) \<leftarrow> take_unsigned_event bs;
     (s, c) \<leftarrow> take_exact 64 c;
     if c = [] then Some (finalize u (Signature s)) else None }"

subsection \<open>Hashing, signing, verifying\<close>

definition hash_Event :: "hash_fn \<Rightarrow> Event \<Rightarrow> (EventHash, CryptoError) result" where
  "hash_Event sha e = map_ok (\<lambda>b. EventHash (sha b)) (map_err Base (encode_Event e))"

definition hash_Transaction :: "hash_fn \<Rightarrow> Transaction \<Rightarrow> (TransactionHash, CryptoError) result" where
  "hash_Transaction sha tx = map_ok (\<lambda>b. TransactionHash (sha b)) (map_err Base (encode_Transaction tx))"

definition sign_UnsignedEvent :: "('x) crypto_lib_scheme \<Rightarrow> bytes \<Rightarrow> UnsignedEvent \<Rightarrow> (Event, CryptoError) result" where
  "sign_UnsignedEvent C key u =
     map_ok (\<lambda>b. finalize u (Signature (ed_sign C key b))) (map_err Base (encode_UnsignedEvent u))"

datatype VerifiedEvent = VerifiedEvent (into_inner: Event)

subsection \<open>Round trip\<close>

lemma take_optional_hash_encode [simp, codec_simps]:
  "pred_option hash_wf h \<Longrightarrow> take_optional_hash (encode_opt_EventHash h @ rest) = Some (h, rest)"
  by (cases h) (auto simp: take_optional_hash_def encode_EventHash_def hash_wf_def)

lemma encode_Transaction_Ok_iff:
  "encode_Transaction tx = Ok b \<longleftrightarrow> write_prefixed (tx_payload tx) = Some b"
  by (auto simp: encode_Transaction_def write_prefixed_def bind_eq_Some_conv)

lemma take_transaction_encode [simp, codec_simps]:
  "encode_Transaction tx = Ok b \<Longrightarrow> take_transaction (b @ rest) = Some (tx, rest)"
  by (auto simp: encode_Transaction_Ok_iff take_transaction_def)

lemma take_many_transactions [codec_simps]:
  "encode_each_tx txs = Ok b \<Longrightarrow> take_many (length txs) take_transaction (b @ rest) = Some (txs, rest)"
  by (induction txs arbitrary: b) auto

lemma take_unsigned_event_encode [codec_simps]:
  assumes "unsigned_wf u" "encode_UnsignedEvent u = Ok b"
  shows "take_unsigned_event (b @ rest) = Some (u, rest)"
proof -
  from assms(2) obtain n p where "u32_try_from (length (ue_payload u)) = Some n"
    and each: "encode_each_tx (ue_payload u) = Ok p"
    and b: "b = encode_NodeId (ue_creator u) @ encode_opt_EventHash (ue_self_parent u)
      @ encode_opt_EventHash (ue_other_parent u) @ encode_Timestamp (ue_timestamp u) @ u32_be n @ p"
    by (auto simp: encode_UnsignedEvent_def encode_Transactions_def)
  then have n: "unat n = length (ue_payload u)"
    by (simp add: u32_try_from_Some)
  with take_many_transactions [OF each] assms(1) show ?thesis
    by (simp add: b take_unsigned_event_def encode_NodeId_def encode_Timestamp_def unsigned_wf_def)
qed

interpretation unsigned_codec: codec "\<lambda>u. result_ok (encode_UnsignedEvent u)" take_unsigned_event unsigned_wf
  by unfold_locales (simp add: take_unsigned_event_encode)

lemma decode_event_encode:
  assumes "event_wf e" "encode_Event e = Ok b"
  shows "decode_event_bytes b = Some e"
proof -
  from assms obtain u where u: "encode_UnsignedEvent (unsigned_part e) = Ok u"
    and b: "b = u @ sig_bytes (ev_signature e)"
    by (auto simp: encode_Event_def encode_Signature_def)
  then show ?thesis
    using assms(1) take_unsigned_event_encode [of "unsigned_part e" u "sig_bytes (ev_signature e)"]
    by (simp add: decode_event_bytes_def event_wf_def signature_wf_def finalize_def take_exact_def)
qed

text \<open>What the reader accepts, the encoder writes: the format has no second encoding of an event.\<close>

lemma take_optional_hash_Some:
  "take_optional_hash c = Some (h, rest) \<Longrightarrow> c = encode_opt_EventHash h @ rest \<and> pred_option hash_wf h"
  by (auto simp: take_optional_hash_def bind_eq_Some_conv take_u8_Some_iff take_exact_Some_iff
      encode_EventHash_def hash_wf_def split: if_splits)

lemma take_transaction_Some:
  "take_transaction c = Some (tx, rest) \<Longrightarrow> \<exists>b. encode_Transaction tx = Ok b \<and> c = b @ rest"
  by (auto simp: take_transaction_def bind_eq_Some_conv take_field_eq_take_prefixed
      take_prefixed_Some_iff encode_Transaction_Ok_iff)

lemma take_many_transaction_Some:
  "take_many n take_transaction c = Some (txs, rest) \<Longrightarrow>
    \<exists>b. encode_each_tx txs = Ok b \<and> c = b @ rest \<and> length txs = n"
proof (induction n arbitrary: c txs)
  case 0
  then show ?case by auto
next
  case (Suc n)
  then obtain tx c1 txs' where "take_transaction c = Some (tx, c1)"
    and "take_many n take_transaction c1 = Some (txs', rest)" "txs = tx # txs'"
    by (auto simp: bind_eq_Some_conv)
  then show ?case
    using Suc.IH [of c1 txs'] take_transaction_Some [of c tx c1] by fastforce
qed

lemma take_unsigned_event_Some:
  assumes "take_unsigned_event c = Some (u, rest)"
  shows "\<exists>b. encode_UnsignedEvent u = Ok b \<and> c = b @ rest \<and> unsigned_wf u"
proof -
  from assms obtain cr sp oh ts n txs c1 c2 c3 c4 c5 where
    r: "take_u64 c = Some (cr, c1)" "take_optional_hash c1 = Some (sp, c2)"
      "take_optional_hash c2 = Some (oh, c3)" "take_u64 c3 = Some (ts, c4)"
      "take_u32 c4 = Some (n, c5)" "take_many (unat n) take_transaction c5 = Some (txs, rest)"
    and u: "u = \<lparr> ue_creator = NodeId cr, ue_self_parent = sp, ue_other_parent = oh,
             ue_timestamp = Timestamp ts, ue_payload = txs \<rparr>"
    by (auto simp: take_unsigned_event_def bind_eq_Some_conv)
  from take_many_transaction_Some [OF r(6)] obtain b
    where b: "encode_each_tx txs = Ok b" "c5 = b @ rest" "length txs = unat n"
    by auto
  then have n: "u32_try_from (length txs) = Some n"
    using unat_u32_bound [of n] by (simp add: u32_try_from_def)
  show ?thesis
    using r(1,4,5) take_optional_hash_Some [OF r(2)] take_optional_hash_Some [OF r(3)] b n
    by (simp add: u encode_UnsignedEvent_def encode_Transactions_def take_u64_Some_iff
        take_u32_Some_iff encode_NodeId_def encode_Timestamp_def unsigned_wf_def)
qed

lemma decode_event_bytes_Some:
  assumes "decode_event_bytes bs = Some e"
  shows "event_wf e \<and> encode_Event e = Ok bs"
proof -
  from assms obtain u c s where "take_unsigned_event bs = Some (u, c)"
    and "take_exact 64 c = Some (s, [])" "e = finalize u (Signature s)"
    by (auto simp: decode_event_bytes_def bind_eq_Some_conv split: if_splits)
  then show ?thesis
    using take_unsigned_event_Some [of bs u c]
    by (auto simp: take_exact_Some_iff event_wf_def signature_wf_def finalize_def
        encode_Event_def encode_Signature_def)
qed

text \<open>
  Property C34. The canonical event format is a bijection between the well-formed events
  that can be encoded and the byte strings the reader accepts: a byte string decodes to
  an event exactly when it is that event's canonical encoding. In particular every event
  has one encoding, no encoding belongs to two events, and no trailing byte, truncated
  field or unknown tag is accepted.
\<close>

theorem canonical_event_codec:
  "decode_event_bytes bs = Some e \<longleftrightarrow> event_wf e \<and> encode_Event e = Ok bs"
  using decode_event_bytes_Some decode_event_encode by blast

lemma encode_Event_inj:
  "event_wf e \<Longrightarrow> event_wf e' \<Longrightarrow> encode_Event e = Ok b \<Longrightarrow> encode_Event e' = Ok b \<Longrightarrow> e = e'"
  using decode_event_encode by (metis option.inject)

lemma encode_never_panics: "encode_Event e \<noteq> Panic"
proof -
  have "encode_each_tx txs \<noteq> Panic" for txs
    by (induction txs) (auto simp: encode_Transaction_def andThen_Panic_iff)
  then show ?thesis
    by (auto simp: encode_Event_def encode_UnsignedEvent_def encode_Transactions_def andThen_Panic_iff)
qed

subsection \<open>A concrete instance of the libraries\<close>

text \<open>
  Used by the witnesses only: a digest that is injective on strings of at most 31 bytes,
  a signature scheme in which the signature names the key and the message digest.
\<close>

definition sample_sha :: hash_fn where
  "sample_sha bs = nat_to_be 32 (be_to_nat (1 # bs))"

definition sample_crypto :: crypto_lib where
  "sample_crypto = \<lparr> sha256 = sample_sha, vk_valid = (\<lambda>k. length k = 32),
     verify_strict = (\<lambda>k m s. s = k @ sample_sha m),
     vk_verify = (\<lambda>k m s. s = k @ sample_sha m),
     ed_sign = (\<lambda>k m. k @ sample_sha m),
     hmac512 = (\<lambda>k m. Some (sample_sha k @ sample_sha m)) \<rparr>"

lemma length_sample_sha [simp]: "length (sample_sha bs) = 32"
  by (simp add: sample_sha_def)

lemma sample_sha_inj:
  assumes "length a \<le> 30" "length b \<le> 30" "sample_sha a = sample_sha b"
  shows "a = b"
proof -
  have bound: "be_to_nat (1 # c) < 256 ^ 32" if "length c \<le> 30" for c
  proof -
    have "be_to_nat (1 # c) < 256 ^ length (1 # c :: bytes)"
      by (rule be_to_nat_bound)
    also have "\<dots> \<le> 256 ^ 32" by (rule power_increasing) (use that in simp_all)
    finally show ?thesis .
  qed
  have "be_to_nat (sample_sha c) = be_to_nat (1 # c)" if "length c \<le> 30" for c
    unfolding sample_sha_def be_to_nat_of_nat_to_be by (rule mod_less [OF bound [OF that]])
  with assms have eq: "be_to_nat (1 # a) = be_to_nat (1 # b)"
    by metis
  have len: "length x \<le> length y"
    if "be_to_nat (1 # x) = be_to_nat (1 # y)" for x y :: bytes
  proof (rule ccontr)
    assume "\<not> length x \<le> length y"
    then have "(256 :: nat) * 256 ^ length y \<le> 256 ^ length x"
      by (metis Suc_leI not_le one_le_numeral power_Suc power_increasing)
    with that be_to_nat_bound [of y] show False by simp
  qed
  have "length a = length b" using len [of a b] len [of b a] eq by simp
  with eq have "be_to_nat a = be_to_nat b" by simp
  with \<open>length a = length b\<close> show ?thesis
    by (metis nat_to_be_of_be_to_nat)
qed

end
