(* ===== verification/MerkleLog.thy ===== *)
theory MerkleLog
  imports Canonical
begin

section \<open>The append-only Merkle log\<close>

text \<open>
  \<^verbatim>\<open>executor/state/src/merkle_log.rs\<close>: the RFC-6962 tree hash over already hashed leaves,
  its inclusion and consistency proofs, their verification and their wire formats. SHA-256
  is the parameter \<open>sha\<close>. Soundness is stated relative to the byte strings that the
  computation and the verification really hash: a verified proof is right unless two of
  those strings collide.
\<close>

subsection \<open>Hashing\<close>

definition EMPTY_ROOT :: bytes where
  "EMPTY_ROOT = [
    227, 176, 196, 66, 152, 252, 28, 20, 154, 251, 244, 200, 153, 111, 185, 36,
    39, 174, 65, 228, 100, 155, 147, 76, 164, 149, 153, 27, 120, 82, 184, 85]"

definition leaf_hash :: "hash_fn \<Rightarrow> bytes \<Rightarrow> bytes" where
  "leaf_hash sha d = sha (0x00 # d)"

definition node_hash :: "hash_fn \<Rightarrow> bytes \<Rightarrow> bytes \<Rightarrow> bytes" where
  "node_hash sha left right = sha (0x01 # left @ right)"

text \<open>\<^verbatim>\<open>u64::ilog2\<close> of a positive number.\<close>

fun ilog2 :: "nat \<Rightarrow> nat" where
  "ilog2 n = (if n < 2 then 0 else Suc (ilog2 (n div 2)))"

declare ilog2.simps [simp del]

definition largest_pow2_below :: "nat \<Rightarrow> nat" where
  "largest_pow2_below n = (let floor = 2 ^ ilog2 n in if floor = n then floor div 2 else floor)"

lemma ilog2_bounds: "0 < n \<Longrightarrow> 2 ^ ilog2 n \<le> n \<and> n < 2 * 2 ^ ilog2 n"
proof (induction n rule: ilog2.induct)
  case (1 n)
  show ?case
  proof (cases "n < 2")
    case True
    with "1.prems" show ?thesis by (simp add: ilog2.simps)
  next
    case False
    with "1.IH" have "2 ^ ilog2 (n div 2) \<le> n div 2 \<and> n div 2 < 2 * 2 ^ ilog2 (n div 2)" by simp
    moreover have "2 * (n div 2) \<le> n" "n < 2 * (n div 2) + 2" by simp_all
    moreover have "ilog2 n = Suc (ilog2 (n div 2))" using False by (simp add: ilog2.simps [of n])
    ultimately show ?thesis by (simp only: power_Suc) linarith
  qed
qed

lemma largest_pow2_below_spec:
  assumes "1 < n"
  shows "\<exists>j. largest_pow2_below n = 2 ^ j \<and> 2 ^ j < n \<and> n \<le> 2 * 2 ^ j"
proof -
  have b: "2 ^ ilog2 n \<le> n" "n < 2 * 2 ^ ilog2 n"
    using ilog2_bounds [of n] assms by simp_all
  obtain i where i: "ilog2 n = Suc i"
    using assms ilog2.simps [of n] by simp
  show ?thesis
  proof (cases "2 ^ ilog2 n = n")
    case True
    then have "largest_pow2_below n = 2 ^ i" by (simp add: largest_pow2_below_def i)
    moreover have "n = 2 * 2 ^ i" using True by (simp add: i)
    ultimately show ?thesis by (intro exI [of _ i]) simp
  next
    case False
    with b show ?thesis by (intro exI [of _ "ilog2 n"]) (simp add: largest_pow2_below_def)
  qed
qed

lemma largest_pow2_below_less [simp]: "1 < n \<Longrightarrow> largest_pow2_below n < n"
  using largest_pow2_below_spec [of n] by auto

lemma largest_pow2_below_pos [simp]: "1 < n \<Longrightarrow> 0 < largest_pow2_below n"
  using largest_pow2_below_spec [of n] by auto

lemma largest_pow2_below_diff [simp]: "1 < n \<Longrightarrow> n - largest_pow2_below n < n"
  using largest_pow2_below_pos [of n] by linarith

lemma largest_pow2_below_not_le [simp]: "1 < n \<Longrightarrow> \<not> n \<le> largest_pow2_below n"
  using largest_pow2_below_less [of n] by linarith

lemma length_gt_1: "xs \<noteq> [] \<Longrightarrow> length xs \<noteq> Suc 0 \<Longrightarrow> Suc 0 < length xs"
  by (cases xs) auto

lemma largest_pow2_below_double: "1 < n \<Longrightarrow> n \<le> 2 * largest_pow2_below n"
  using largest_pow2_below_spec [of n] by auto

lemma pow2_unique:
  fixes i j :: nat
  assumes "(2 :: nat) ^ i < n" "n \<le> 2 * 2 ^ i" "2 ^ j < n" "n \<le> 2 * 2 ^ j"
  shows "i = j"
proof -
  have "(2 :: nat) ^ i < 2 ^ Suc j" "(2 :: nat) ^ j < 2 ^ Suc i" using assms by simp_all
  then have "i < Suc j" "j < Suc i" by (simp_all only: power_strict_increasing_iff one_less_numeral_iff semiring_norm)
  then show ?thesis by simp
qed

text \<open>The split point of a longer tree is the split point of every prefix that reaches past it.\<close>

lemma largest_pow2_below_prefix:
  assumes "1 < n" "largest_pow2_below n < m" "m \<le> n"
  shows "largest_pow2_below m = largest_pow2_below n"
proof -
  obtain j where j: "largest_pow2_below n = 2 ^ j" "2 ^ j < n" "n \<le> 2 * 2 ^ j"
    using largest_pow2_below_spec [OF assms(1)] by blast
  have "1 < m" using assms largest_pow2_below_pos [of n] by linarith
  then obtain i where i: "largest_pow2_below m = 2 ^ i" "2 ^ i < m" "m \<le> 2 * 2 ^ i"
    using largest_pow2_below_spec by blast
  have "i = j" using i j assms by (intro pow2_unique [of i m]) auto
  with i j show ?thesis by simp
qed

function mth :: "hash_fn \<Rightarrow> bytes list \<Rightarrow> bytes" where
  "mth sha leaf_hashes =
     (if length leaf_hashes = 0 then EMPTY_ROOT
      else if length leaf_hashes = 1 then leaf_hashes ! 0
      else let k = largest_pow2_below (length leaf_hashes)
           in node_hash sha (mth sha (take k leaf_hashes)) (mth sha (drop k leaf_hashes)))"
  by pat_completeness auto
termination
  by (relation "measure (\<lambda>(_, xs). length xs)") (auto simp: length_gt_1)

declare mth.simps [simp del]

lemma mth_Nil [simp]: "mth sha [] = EMPTY_ROOT"
  by (simp add: mth.simps)

lemma mth_single [simp]: "mth sha [x] = x"
  by (simp add: mth.simps)

lemma mth_split:
  "1 < length xs \<Longrightarrow> k = largest_pow2_below (length xs) \<Longrightarrow>
    mth sha xs = node_hash sha (mth sha (take k xs)) (mth sha (drop k xs))"
  by (subst mth.simps) (auto simp: Let_def)

subsection \<open>Proofs\<close>

record ConsistencyProof =
  old_leaf_count :: u64
  new_leaf_count :: u64
  cp_nodes :: "bytes list"

record InclusionProof =
  leaf_index :: u64
  leaf_count :: u64
  ip_nodes :: "bytes list"

function inclusion_path :: "hash_fn \<Rightarrow> nat \<Rightarrow> bytes list \<Rightarrow> bytes list" where
  "inclusion_path sha m leaves =
     (if length leaves \<le> 1 then []
      else let k = largest_pow2_below (length leaves)
           in if m < k then inclusion_path sha m (take k leaves) @ [mth sha (drop k leaves)]
              else inclusion_path sha (m - k) (drop k leaves) @ [mth sha (take k leaves)])"
  by pat_completeness auto
termination
  by (relation "measure (\<lambda>(_, _, xs). length xs)") (auto simp: not_le)

declare inclusion_path.simps [simp del]

function inclusion_rec :: "hash_fn \<Rightarrow> nat \<Rightarrow> nat \<Rightarrow> bytes \<Rightarrow> bytes list \<Rightarrow> (bytes \<times> bytes list) option" where
  "inclusion_rec sha m n leaf pf =
     (if n = 1 then (if m \<noteq> 0 then None else Some (leaf, pf))
      else if n \<le> m then None
      else let k = largest_pow2_below n
           in if m < k then do {
                (left, rest) \<leftarrow> inclusion_rec sha m k leaf pf;
                (sibling, rest) \<leftarrow> split_first rest;
                Some (node_hash sha left sibling, rest) }
              else do {
                (right, rest) \<leftarrow> inclusion_rec sha (m - k) (n - k) leaf pf;
                (sibling, rest) \<leftarrow> split_first rest;
                Some (node_hash sha sibling right, rest) })"
  by pat_completeness auto
termination
  by (relation "measure (\<lambda>(_, _, n, _, _). n)")
    (use largest_pow2_below_less largest_pow2_below_pos in \<open>force simp: nat_neq_iff\<close>)+

declare inclusion_rec.simps [simp del]

definition prove_inclusion :: "hash_fn \<Rightarrow> bytes list \<Rightarrow> nat \<Rightarrow> InclusionProof option" where
  "prove_inclusion sha leaf_hashes index =
     (if length leaf_hashes \<le> index then None
      else Some \<lparr> leaf_index = word_of_nat index, leaf_count = word_of_nat (length leaf_hashes),
             ip_nodes = inclusion_path sha index leaf_hashes \<rparr>)"

definition verify_inclusion :: "hash_fn \<Rightarrow> bytes \<Rightarrow> InclusionProof \<Rightarrow> bytes \<Rightarrow> bool" where
  "verify_inclusion sha leaf pf root =
     (if leaf_count pf = 0 \<or> leaf_count pf \<le> leaf_index pf then False
      else case inclusion_rec sha (unat (leaf_index pf)) (unat (leaf_count pf)) leaf (ip_nodes pf) of
        Some (calc, rest) \<Rightarrow> rest = [] \<and> calc = root
      | None \<Rightarrow> False)"

text \<open>
  The recursions below assume \<open>0 < m\<close>, as their callers guarantee. The branch for
  \<open>n \<le> 1\<close> with \<open>m \<noteq> n\<close> is then never taken (\<^verbatim>\<open>largest_pow2_below\<close> has a
  \<^verbatim>\<open>debug_assert\<close> against it); it makes the definitions total.
\<close>

function consistency_subproof :: "hash_fn \<Rightarrow> nat \<Rightarrow> bytes list \<Rightarrow> bool \<Rightarrow> bytes list" where
  "consistency_subproof sha m leaves b =
     (if m = length leaves then (if b then [] else [mth sha leaves])
      else if length leaves \<le> 1 then []
      else let k = largest_pow2_below (length leaves)
           in if m \<le> k then consistency_subproof sha m (take k leaves) b @ [mth sha (drop k leaves)]
              else consistency_subproof sha (m - k) (drop k leaves) False @ [mth sha (take k leaves)])"
  by pat_completeness auto
termination
  by (relation "measure (\<lambda>(_, _, xs, _). length xs)") (auto simp: not_le)

declare consistency_subproof.simps [simp del]

function consistency_rec ::
    "hash_fn \<Rightarrow> nat \<Rightarrow> nat \<Rightarrow> bool \<Rightarrow> bytes list \<Rightarrow> bytes \<Rightarrow> ((bytes \<times> bytes) \<times> bytes list) option" where
  "consistency_rec sha m n b pf known_old =
     (if m = n then
        (if b then Some ((known_old, known_old), pf)
         else do { (h, rest) \<leftarrow> split_first pf; Some ((h, h), rest) })
      else if n < m then None
      else if n \<le> 1 then None
      else let k = largest_pow2_below n
           in if m \<le> k then do {
                ((old_side, left_new), rest) \<leftarrow> consistency_rec sha m k b pf known_old;
                (sibling, rest) \<leftarrow> split_first rest;
                Some ((old_side, node_hash sha left_new sibling), rest) }
              else do {
                ((old_side, right_new), rest) \<leftarrow> consistency_rec sha (m - k) (n - k) False pf known_old;
                (sibling, rest) \<leftarrow> split_first rest;
                Some ((node_hash sha sibling old_side, node_hash sha sibling right_new), rest) })"
  by pat_completeness auto
termination
  by (relation "measure (\<lambda>(_, _, n, _, _, _). n)") (auto simp: not_le)

declare consistency_rec.simps [simp del]

definition prove_consistency :: "hash_fn \<Rightarrow> bytes list \<Rightarrow> nat \<Rightarrow> ConsistencyProof option" where
  "prove_consistency sha leaf_hashes old_count =
     (if length leaf_hashes < old_count then None
      else Some \<lparr> old_leaf_count = word_of_nat old_count, new_leaf_count = word_of_nat (length leaf_hashes),
             cp_nodes = (if 0 < old_count \<and> old_count < length leaf_hashes
               then consistency_subproof sha old_count leaf_hashes True else []) \<rparr>)"

definition verify_consistency :: "hash_fn \<Rightarrow> bytes \<Rightarrow> ConsistencyProof \<Rightarrow> bytes \<Rightarrow> bool" where
  "verify_consistency sha old_root pf new_root =
     (let m = old_leaf_count pf; n = new_leaf_count pf
      in if n < m then False
         else if m = 0 then cp_nodes pf = [] \<and> old_root = EMPTY_ROOT
         else if m = n then cp_nodes pf = [] \<and> old_root = new_root
         else case consistency_rec sha (unat m) (unat n) True (cp_nodes pf) old_root of
           Some ((calc_old, calc_new), rest) \<Rightarrow> rest = [] \<and> calc_old = old_root \<and> calc_new = new_root
         | None \<Rightarrow> False)"

subsection \<open>Wire formats\<close>

text \<open>The encoders return \<open>None\<close> for the panic on more than \<^verbatim>\<open>u32::MAX\<close> nodes.\<close>

definition encode_hashes :: "bytes list \<Rightarrow> bytes option" where
  "encode_hashes nodes = do { n \<leftarrow> u32_try_from (length nodes); Some (u32_be n @ concat nodes) }"

definition encode_ConsistencyProof :: "ConsistencyProof \<Rightarrow> bytes option" where
  "encode_ConsistencyProof p = do {
     ns \<leftarrow> encode_hashes (cp_nodes p);
     Some (u64_be (old_leaf_count p) @ u64_be (new_leaf_count p) @ ns) }"

definition encode_InclusionProof :: "InclusionProof \<Rightarrow> bytes option" where
  "encode_InclusionProof p = do {
     ns \<leftarrow> encode_hashes (ip_nodes p);
     Some (u64_be (leaf_index p) @ u64_be (leaf_count p) @ ns) }"

primrec as_chunks32 :: "nat \<Rightarrow> bytes \<Rightarrow> bytes list" where
  "as_chunks32 0 bs = []"
| "as_chunks32 (Suc n) bs = take 32 bs # as_chunks32 n (drop 32 bs)"

definition read_hashes_from :: "bytes \<Rightarrow> (bytes list \<times> bytes) option" where
  "read_hashes_from c = do {
     (n, c) \<leftarrow> take_u32 c;
     (head, c) \<leftarrow> take_exact (unat n * 32) c;
     Some (as_chunks32 (unat n) head, c) }"

definition decode_ConsistencyProof_from :: "bytes \<Rightarrow> (ConsistencyProof \<times> bytes) option" where
  "decode_ConsistencyProof_from c = do {
     (a, c) \<leftarrow> take_u64 c;
     (b, c) \<leftarrow> take_u64 c;
     (ns, c) \<leftarrow> read_hashes_from c;
     Some (\<lparr> old_leaf_count = a, new_leaf_count = b, cp_nodes = ns \<rparr>, c) }"

definition decode_InclusionProof_from :: "bytes \<Rightarrow> (InclusionProof \<times> bytes) option" where
  "decode_InclusionProof_from c = do {
     (a, c) \<leftarrow> take_u64 c;
     (b, c) \<leftarrow> take_u64 c;
     (ns, c) \<leftarrow> read_hashes_from c;
     Some (\<lparr> leaf_index = a, leaf_count = b, ip_nodes = ns \<rparr>, c) }"

definition decode_ConsistencyProof :: "bytes \<Rightarrow> ConsistencyProof option" where
  "decode_ConsistencyProof bs = do {
     (p, c) \<leftarrow> decode_ConsistencyProof_from bs; if c = [] then Some p else None }"

definition decode_InclusionProof :: "bytes \<Rightarrow> InclusionProof option" where
  "decode_InclusionProof bs = do {
     (p, c) \<leftarrow> decode_InclusionProof_from bs; if c = [] then Some p else None }"

abbreviation digest :: "hash_fn \<Rightarrow> bool" where
  "digest sha \<equiv> \<forall>x. length (sha x) = 32"

abbreviation hashes32 :: "bytes list \<Rightarrow> bool" where
  "hashes32 xs \<equiv> list_all (\<lambda>h. length h = 32) xs"

lemma as_chunks32_concat: "hashes32 xs \<Longrightarrow> as_chunks32 (length xs) (concat xs) = xs"
  by (induction xs) auto

lemma length_concat32: "hashes32 xs \<Longrightarrow> length (concat xs) = length xs * 32"
  by (induction xs) auto

lemma read_hashes_encode [codec_simps]:
  assumes "hashes32 xs" "encode_hashes xs = Some b"
  shows "read_hashes_from (b @ rest) = Some (xs, rest)"
proof -
  from assms(2) obtain n where "u32_try_from (length xs) = Some n" and b: "b = u32_be n @ concat xs"
    by (auto simp: encode_hashes_def bind_eq_Some_conv)
  then have "unat n = length xs" by (simp add: u32_try_from_Some)
  with assms(1) show ?thesis
    by (simp add: b read_hashes_from_def length_concat32 as_chunks32_concat)
qed

lemma read_hashes_Some:
  assumes "read_hashes_from c = Some (xs, rest)"
  shows "hashes32 xs \<and> (\<exists>b. encode_hashes xs = Some b \<and> c = b @ rest)"
proof -
  from assms obtain n h where c: "c = u32_be n @ h @ rest" "length h = unat n * 32"
    and xs: "xs = as_chunks32 (unat n) h"
    by (auto simp: read_hashes_from_def bind_eq_Some_conv take_u32_Some_iff take_exact_Some_iff)
  have chunks: "hashes32 (as_chunks32 k g) \<and> concat (as_chunks32 k g) = g \<and> length (as_chunks32 k g) = k"
    if "length g = k * 32" for k g
    using that by (induction k arbitrary: g) auto
  from chunks [OF c(2)] c(1) show ?thesis
    using unat_u32_bound [of n] by (simp add: xs encode_hashes_def u32_try_from_def)
qed

interpretation consistency_codec: codec encode_ConsistencyProof decode_ConsistencyProof_from "\<lambda>p. hashes32 (cp_nodes p)"
  by unfold_locales
    (auto simp: encode_ConsistencyProof_def decode_ConsistencyProof_from_def read_hashes_encode bind_eq_Some_conv)

interpretation inclusion_codec: codec encode_InclusionProof decode_InclusionProof_from "\<lambda>p. hashes32 (ip_nodes p)"
  by unfold_locales
    (auto simp: encode_InclusionProof_def decode_InclusionProof_from_def read_hashes_encode bind_eq_Some_conv)

subsection \<open>Completeness\<close>

lemma inclusion_rec_path:
  "m < length xs \<Longrightarrow>
    inclusion_rec sha m (length xs) (xs ! m) (inclusion_path sha m xs @ rest) = Some (mth sha xs, rest)"
proof (induction sha m xs arbitrary: rest rule: inclusion_path.induct)
  case (1 sha m xs)
  show ?case
  proof (cases "length xs \<le> 1")
    case True
    with "1.prems" obtain x where "xs = [x]" "m = 0" by (cases xs) auto
    then show ?thesis by (simp add: inclusion_rec.simps inclusion_path.simps)
  next
    case False
    define k where "k = largest_pow2_below (length xs)"
    have k: "k < length xs" using False by (simp add: k_def)
    have split: "mth sha xs = node_hash sha (mth sha (take k xs)) (mth sha (drop k xs))"
      using False by (intro mth_split) (auto simp: k_def)
    show ?thesis
    proof (cases "m < k")
      case True
      have "inclusion_rec sha m k (xs ! m) (inclusion_path sha m (take k xs) @ (mth sha (drop k xs) # rest)) =
          Some (mth sha (take k xs), mth sha (drop k xs) # rest)"
        using "1.IH"(1) [OF False k_def True, of "mth sha (drop k xs) # rest"] True k by (simp add: min_def)
      with False True "1.prems" show ?thesis
        by (subst inclusion_rec.simps, subst inclusion_path.simps) (simp add: split flip: k_def)
    next
      case ge: False
      have "inclusion_rec sha (m - k) (length xs - k) (xs ! m) (inclusion_path sha (m - k) (drop k xs) @ (mth sha (take k xs) # rest)) =
          Some (mth sha (drop k xs), mth sha (take k xs) # rest)"
        using "1.IH"(2) [OF False k_def ge, of "mth sha (take k xs) # rest"] ge k "1.prems" by simp
      with False ge "1.prems" show ?thesis
        by (subst inclusion_rec.simps, subst inclusion_path.simps) (simp add: split flip: k_def)
    qed
  qed
qed

lemma consistency_rec_subproof:
  "0 < m \<Longrightarrow> m \<le> length xs \<Longrightarrow> (b \<longrightarrow> known = mth sha (take m xs)) \<Longrightarrow>
    consistency_rec sha m (length xs) b (consistency_subproof sha m xs b @ rest) known =
      Some ((mth sha (take m xs), mth sha xs), rest)"
proof (induction sha m xs b arbitrary: rest rule: consistency_subproof.induct)
  case (1 sha m xs b)
  show ?case
  proof (cases "m = length xs")
    case True
    with "1.prems" show ?thesis
      by (simp add: consistency_rec.simps consistency_subproof.simps)
  next
    case False
    with "1.prems" have gt: "\<not> length xs \<le> 1" by simp
    define k where "k = largest_pow2_below (length xs)"
    have k: "k < length xs" using gt by (simp add: k_def)
    have split: "mth sha xs = node_hash sha (mth sha (take k xs)) (mth sha (drop k xs))"
      using gt by (intro mth_split) (auto simp: k_def)
    show ?thesis
    proof (cases "m \<le> k")
      case True
      have "consistency_rec sha m k b (consistency_subproof sha m (take k xs) b @ (mth sha (drop k xs) # rest)) known =
          Some ((mth sha (take m xs), mth sha (take k xs)), mth sha (drop k xs) # rest)"
        using "1.IH"(1) [OF False gt k_def True, of "mth sha (drop k xs) # rest"] True k "1.prems"
        by (simp add: min_def)
      with False True gt "1.prems" show ?thesis
        by (subst consistency_rec.simps, subst consistency_subproof.simps) (simp add: split flip: k_def)
    next
      case gk: False
      then have km: "k < m" by simp
      have "1 < m" using km gt largest_pow2_below_pos [of "length xs"] unfolding k_def by linarith
      have "largest_pow2_below m = k"
        unfolding k_def using km gt "1.prems" by (intro largest_pow2_below_prefix) (auto simp: k_def)
      then have old: "mth sha (take m xs) = node_hash sha (mth sha (take k xs)) (mth sha (take (m - k) (drop k xs)))"
        using \<open>1 < m\<close> km "1.prems" by (subst mth_split [of "take m xs" k sha]) (simp_all add: drop_take)
      have "consistency_rec sha (m - k) (length xs - k) False
          (consistency_subproof sha (m - k) (drop k xs) False @ (mth sha (take k xs) # rest)) known =
          Some ((mth sha (take (m - k) (drop k xs)), mth sha (drop k xs)), mth sha (take k xs) # rest)"
        using "1.IH"(2) [OF False gt k_def gk, of "mth sha (take k xs) # rest"] km "1.prems" by simp
      with False gk gt "1.prems" show ?thesis
        by (subst consistency_rec.simps, subst consistency_subproof.simps) (simp add: split old flip: k_def)
    qed
  qed
qed

subsection \<open>Soundness\<close>

text \<open>
  The strings that \<open>mth\<close> hashes for the nodes of a tree, and those that the replay of a
  proof hashes on its way to the new root.
\<close>

function mth_preimages :: "hash_fn \<Rightarrow> bytes list \<Rightarrow> bytes list" where
  "mth_preimages sha xs =
     (if length xs \<le> 1 then []
      else let k = largest_pow2_below (length xs)
           in (0x01 # mth sha (take k xs) @ mth sha (drop k xs)) #
              mth_preimages sha (take k xs) @ mth_preimages sha (drop k xs))"
  by pat_completeness auto
termination
  by (relation "measure (\<lambda>(_, xs). length xs)") (auto simp: not_le)

declare mth_preimages.simps [simp del]

function inclusion_preimages :: "hash_fn \<Rightarrow> nat \<Rightarrow> nat \<Rightarrow> bytes \<Rightarrow> bytes list \<Rightarrow> bytes list" where
  "inclusion_preimages sha m n leaf pf =
     (if n \<le> 1 then []
      else let k = largest_pow2_below n
           in if m < k then (case inclusion_rec sha m k leaf pf of
                  Some (left, s # rest) \<Rightarrow> (0x01 # left @ s) # inclusion_preimages sha m k leaf pf
                | _ \<Rightarrow> [])
              else (case inclusion_rec sha (m - k) (n - k) leaf pf of
                  Some (right, s # rest) \<Rightarrow> (0x01 # s @ right) # inclusion_preimages sha (m - k) (n - k) leaf pf
                | _ \<Rightarrow> []))"
  by pat_completeness auto
termination
  by (relation "measure (\<lambda>(_, _, n, _, _). n)") (auto simp: not_le)

declare inclusion_preimages.simps [simp del]

function consistency_preimages :: "hash_fn \<Rightarrow> nat \<Rightarrow> nat \<Rightarrow> bool \<Rightarrow> bytes list \<Rightarrow> bytes \<Rightarrow> bytes list" where
  "consistency_preimages sha m n b pf known =
     (if n \<le> 1 \<or> n \<le> m then []
      else let k = largest_pow2_below n
           in if m \<le> k then (case consistency_rec sha m k b pf known of
                  Some ((old, new), s # rest) \<Rightarrow> (0x01 # new @ s) # consistency_preimages sha m k b pf known
                | _ \<Rightarrow> [])
              else (case consistency_rec sha (m - k) (n - k) False pf known of
                  Some ((old, new), s # rest) \<Rightarrow>
                    (0x01 # s @ new) # consistency_preimages sha (m - k) (n - k) False pf known
                | _ \<Rightarrow> []))"
  by pat_completeness auto
termination
  by (relation "measure (\<lambda>(_, _, n, _, _, _). n)") (auto simp: not_le)

declare consistency_preimages.simps [simp del]

lemma length_EMPTY_ROOT [simp]: "length EMPTY_ROOT = 32"
  by (simp add: EMPTY_ROOT_def)

lemma hashes32_take [simp]: "hashes32 xs \<Longrightarrow> hashes32 (take k xs)"
  by (auto simp: list_all_iff dest: in_set_takeD)

lemma hashes32_drop [simp]: "hashes32 xs \<Longrightarrow> hashes32 (drop k xs)"
  by (auto simp: list_all_iff dest: in_set_dropD)

lemma length_node_hash [simp]: "digest sha \<Longrightarrow> length (node_hash sha l r) = 32"
  by (simp add: node_hash_def)

lemma length_mth:
  assumes "digest sha" "hashes32 xs"
  shows "length (mth sha xs) = 32"
proof (cases "length xs \<le> 1")
  case True
  with assms show ?thesis by (cases xs) auto
next
  case False
  with assms mth_split [of xs _ sha] show ?thesis by simp
qed

text \<open>One step of each replay, read backwards.\<close>

lemma inclusion_rec_step:
  assumes "1 < n" "inclusion_rec sha m n leaf pf = Some (r, rest)" "k = largest_pow2_below n"
  shows "(m < k \<and> (\<exists>l s. inclusion_rec sha m k leaf pf = Some (l, s # rest) \<and> r = node_hash sha l s)) \<or>
    (k \<le> m \<and> (\<exists>q s. inclusion_rec sha (m - k) (n - k) leaf pf = Some (q, s # rest) \<and> r = node_hash sha s q))"
  using assms(1,2) unfolding inclusion_rec.simps [of sha m n] Let_def assms(3) [symmetric]
  by (auto simp: bind_eq_Some_conv split: if_splits)

lemma consistency_rec_step:
  assumes "m < n" "1 < n" "consistency_rec sha m n b pf known = Some ((old, new), rest)"
    and "k = largest_pow2_below n"
  shows "(m \<le> k \<and> (\<exists>l s. consistency_rec sha m k b pf known = Some ((old, l), s # rest) \<and>
      new = node_hash sha l s)) \<or>
    (k < m \<and> (\<exists>old' q s. consistency_rec sha (m - k) (n - k) False pf known = Some ((old', q), s # rest) \<and>
      old = node_hash sha s old' \<and> new = node_hash sha s q))"
  using assms(1-3) unfolding consistency_rec.simps [of sha m n] Let_def assms(4) [symmetric]
  by (auto simp: bind_eq_Some_conv split: if_splits)

lemma inclusion_rec_lengths:
  assumes "digest sha" "length leaf = 32" "hashes32 pf" "inclusion_rec sha m n leaf pf = Some (r, rest)"
  shows "length r = 32 \<and> hashes32 rest"
  using assms(4)
proof (induction n arbitrary: m r rest rule: less_induct)
  case (less n)
  show ?case
  proof (cases "1 < n")
    case False
    with less.prems assms show ?thesis
      by (subst (asm) inclusion_rec.simps) (auto simp: not_less le_Suc_eq split: if_splits)
  next
    case True
    obtain m' n' l s where sub: "inclusion_rec sha m' n' leaf pf = Some (l, s # rest)" "n' < n"
      and r: "r = node_hash sha l s \<or> r = node_hash sha s l"
      using inclusion_rec_step [OF True less.prems refl] True largest_pow2_below_less largest_pow2_below_diff
      by blast
    from less.IH [OF sub(2,1)] r assms(1) show ?thesis by auto
  qed
qed

lemma consistency_rec_lengths:
  assumes "digest sha" "length known = 32" "hashes32 pf"
    and "consistency_rec sha m n b pf known = Some ((old, new), rest)"
  shows "length new = 32 \<and> hashes32 rest"
  using assms(4)
proof (induction n arbitrary: m b old new rest rule: less_induct)
  case (less n)
  show ?case
  proof (cases "m < n \<and> 1 < n")
    case False
    with less.prems assms show ?thesis
      by (subst (asm) consistency_rec.simps) (auto simp: bind_eq_Some_conv split: if_splits)
  next
    case True
    then have n: "m < n" "1 < n" by simp_all
    obtain m' n' b' old' l s where sub: "consistency_rec sha m' n' b' pf known = Some ((old', l), s # rest)" "n' < n"
      and new: "new = node_hash sha l s \<or> new = node_hash sha s l"
      using consistency_rec_step [OF n less.prems refl] n largest_pow2_below_less largest_pow2_below_diff
      by blast
    from less.IH [OF sub(2,1)] new assms(1) show ?thesis by auto
  qed
qed

lemma node_hash_inject:
  assumes "node_hash sha a b = node_hash sha c d" "length a = length c"
    and "inj_on sha X" "0x01 # a @ b \<in> X" "0x01 # c @ d \<in> X"
  shows "a = c \<and> b = d"
proof -
  have "0x01 # a @ b = 0x01 # c @ d"
    using assms(1) by (intro inj_onD [OF assms(3) _ assms(4,5)]) (simp add: node_hash_def)
  with assms(2) show ?thesis by simp
qed

lemma mth_preimages_split:
  "1 < length xs \<Longrightarrow> k = largest_pow2_below (length xs) \<Longrightarrow>
    set (mth_preimages sha xs) = insert (0x01 # mth sha (take k xs) @ mth sha (drop k xs))
      (set (mth_preimages sha (take k xs)) \<union> set (mth_preimages sha (drop k xs)))"
  by (subst mth_preimages.simps) (simp add: Let_def)

lemma inclusion_rec_sound:
  assumes "digest sha" "length leaf = 32" "hashes32 pf" "hashes32 xs"
    and "m < length xs" "inclusion_rec sha m (length xs) leaf pf = Some (mth sha xs, rest)"
    and "inj_on sha X"
    and "set (mth_preimages sha xs) \<union> set (inclusion_preimages sha m (length xs) leaf pf) \<subseteq> X"
  shows "leaf = xs ! m"
  using assms(4-6,8)
proof (induction "length xs" arbitrary: xs m rest rule: less_induct)
  case less
  show ?case
  proof (cases "1 < length xs")
    case False
    with less.prems obtain x where "xs = [x]" by (cases xs) auto
    with less.prems show ?thesis by (simp add: inclusion_rec.simps)
  next
    case True
    define k where "k = largest_pow2_below (length xs)"
    have k: "k < length xs" "0 < k" using True by (simp_all add: k_def)
    have split: "mth sha xs = node_hash sha (mth sha (take k xs)) (mth sha (drop k xs))"
      using True by (intro mth_split) (simp_all add: k_def)
    have tree: "0x01 # mth sha (take k xs) @ mth sha (drop k xs) \<in> X"
      "set (mth_preimages sha (take k xs)) \<subseteq> X" "set (mth_preimages sha (drop k xs)) \<subseteq> X"
      using less.prems(4) mth_preimages_split [OF True k_def, of sha] by auto
    have len: "length (mth sha (take k xs)) = 32"
      using assms(1) less.prems(1) by (simp add: length_mth)
    from inclusion_rec_step [OF True less.prems(3) k_def]
    consider (left) l s where "m < k" "inclusion_rec sha m k leaf pf = Some (l, s # rest)"
        "mth sha xs = node_hash sha l s"
      | (right) q s where "k \<le> m" "inclusion_rec sha (m - k) (length xs - k) leaf pf = Some (q, s # rest)"
        "mth sha xs = node_hash sha s q"
      by auto
    then show ?thesis
    proof cases
      case left
      have pre: "0x01 # l @ s \<in> X" "set (inclusion_preimages sha m k leaf pf) \<subseteq> X"
        using less.prems(4) True left unfolding inclusion_preimages.simps [of sha m "length xs"]
        by (simp_all add: Let_def flip: k_def)
      have "length l = 32"
        using inclusion_rec_lengths [OF assms(1-3) left(2)] by simp
      then have "l = mth sha (take k xs)"
        using node_hash_inject [OF _ _ assms(7) pre(1) tree(1)] left(3) split len by simp
      then show ?thesis
        using less.hyps [of "take k xs" m "s # rest"] left k less.prems(1) pre(2) tree(2) by simp
    next
      case right
      have pre: "0x01 # s @ q \<in> X" "set (inclusion_preimages sha (m - k) (length xs - k) leaf pf) \<subseteq> X"
        using less.prems(4) True right unfolding inclusion_preimages.simps [of sha m "length xs"]
        by (simp_all add: Let_def flip: k_def)
      have "length s = 32"
        using inclusion_rec_lengths [OF assms(1-3) right(2)] by simp
      then have "q = mth sha (drop k xs)"
        using node_hash_inject [OF _ _ assms(7) pre(1) tree(1)] right(3) split len by simp
      then show ?thesis
        using less.hyps [of "drop k xs" "m - k" "s # rest"] right k less.prems(1,2) pre(2) tree(3) by simp
    qed
  qed
qed

lemma consistency_rec_sound:
  assumes "digest sha" "length known = 32" "hashes32 pf" "hashes32 xs"
    and "0 < m" "m \<le> length xs"
    and "consistency_rec sha m (length xs) b pf known = Some ((old, mth sha xs), rest)"
    and "inj_on sha X"
    and "set (mth_preimages sha xs) \<union> set (consistency_preimages sha m (length xs) b pf known) \<subseteq> X"
  shows "old = mth sha (take m xs)"
  using assms(4-7,9)
proof (induction "length xs" arbitrary: xs m b old rest rule: less_induct)
  case less
  show ?case
  proof (cases "m < length xs")
    case False
    with less.prems have "m = length xs" by simp
    with less.prems(4) show ?thesis
      by (subst (asm) consistency_rec.simps) (auto simp: bind_eq_Some_conv split: if_splits)
  next
    case True
    with less.prems have gt: "1 < length xs" by simp
    define k where "k = largest_pow2_below (length xs)"
    have k: "k < length xs" "0 < k" using gt by (simp_all add: k_def)
    have split: "mth sha xs = node_hash sha (mth sha (take k xs)) (mth sha (drop k xs))"
      using gt by (intro mth_split) (simp_all add: k_def)
    have tree: "0x01 # mth sha (take k xs) @ mth sha (drop k xs) \<in> X"
      "set (mth_preimages sha (take k xs)) \<subseteq> X" "set (mth_preimages sha (drop k xs)) \<subseteq> X"
      using less.prems(5) mth_preimages_split [OF gt k_def, of sha] by auto
    have len: "length (mth sha (take k xs)) = 32"
      using assms(1) less.prems(1) by (simp add: length_mth)
    from consistency_rec_step [OF True gt less.prems(4) k_def]
    consider (left) l s where "m \<le> k" "consistency_rec sha m k b pf known = Some ((old, l), s # rest)"
        "mth sha xs = node_hash sha l s"
      | (right) old' q s where "k < m"
        "consistency_rec sha (m - k) (length xs - k) False pf known = Some ((old', q), s # rest)"
        "old = node_hash sha s old'" "mth sha xs = node_hash sha s q"
      by auto
    then show ?thesis
    proof cases
      case left
      have pre: "0x01 # l @ s \<in> X" "set (consistency_preimages sha m k b pf known) \<subseteq> X"
        using less.prems(5) True gt left unfolding consistency_preimages.simps [of sha m "length xs"]
        by (simp_all add: Let_def flip: k_def)
      have "length l = 32"
        using consistency_rec_lengths [OF assms(1-3) left(2)] by simp
      then have "l = mth sha (take k xs)"
        using node_hash_inject [OF _ _ assms(8) pre(1) tree(1)] left(3) split len by simp
      then show ?thesis
        using less.hyps [of "take k xs" m b old "s # rest"] left k less.prems(1,2) pre(2) tree(2)
        by (simp add: min_absorb2)
    next
      case right
      have pre: "0x01 # s @ q \<in> X" "set (consistency_preimages sha (m - k) (length xs - k) False pf known) \<subseteq> X"
        using less.prems(5) True gt right unfolding consistency_preimages.simps [of sha m "length xs"]
        by (simp_all add: Let_def flip: k_def)
      have "length s = 32"
        using consistency_rec_lengths [OF assms(1-3) right(2)] by simp
      then have eq: "s = mth sha (take k xs)" "q = mth sha (drop k xs)"
        using node_hash_inject [OF _ _ assms(8) pre(1) tree(1)] right(4) split len by simp_all
      have "old' = mth sha (take (m - k) (drop k xs))"
        using less.hyps [of "drop k xs" "m - k" False old' "s # rest"] right k less.prems(1-3) pre(2) tree(3) eq
        by simp
      moreover have "mth sha (take m xs) = node_hash sha (mth sha (take k xs)) (mth sha (take (m - k) (drop k xs)))"
      proof -
        have "largest_pow2_below m = k"
          unfolding k_def using right(1) gt less.prems(3) by (intro largest_pow2_below_prefix) (simp_all add: k_def)
        then show ?thesis
          using right(1) k less.prems(3) by (subst mth_split [of "take m xs" k]) (simp_all add: drop_take)
      qed
      ultimately show ?thesis by (simp add: right(3) eq)
    qed
  qed
qed

subsection \<open>Properties\<close>

text \<open>
  Property C28. Inclusion proofs are complete: for every leaf of a tree the proof the log
  produces verifies against the tree's root.
\<close>

theorem inclusion_complete:
  assumes "i < length leaves" "length leaves < 2 ^ 64"
  shows "\<exists>p. prove_inclusion sha leaves i = Some p \<and> verify_inclusion sha (leaves ! i) p (mth sha leaves)"
proof -
  have "unat (word_of_nat i :: u64) = i" "unat (word_of_nat (length leaves) :: u64) = length leaves"
    using assms by (simp_all add: unat_of_nat)
  with assms inclusion_rec_path [OF assms(1), of sha "[]"] show ?thesis
    by (auto simp: prove_inclusion_def verify_inclusion_def word_le_nat_alt unat_eq_0 [symmetric])
qed

theorem inclusion_complete_witness:
  "\<exists>p. prove_inclusion sample_sha [[1], [2], [3]] 2 = Some p \<and>
    verify_inclusion sample_sha [3] p (mth sample_sha [[1], [2], [3]])"
  using inclusion_complete [of 2 "[[1], [2], [3]]" sample_sha] by simp

text \<open>
  Property C29. Inclusion proofs are sound: if a proof that claims the true size of the
  tree verifies against the tree's root, then its index is in range and the leaf is the
  one at that index, unless two of the strings hashed for the tree and for the proof
  collide.
\<close>

theorem inclusion_sound:
  assumes "digest sha" "hashes32 leaves" "length leaf = 32" "hashes32 (ip_nodes p)"
    and "unat (leaf_count p) = length leaves" "verify_inclusion sha leaf p (mth sha leaves)"
    and "inj_on sha (set (mth_preimages sha leaves) \<union>
      set (inclusion_preimages sha (unat (leaf_index p)) (length leaves) leaf (ip_nodes p)))"
  shows "unat (leaf_index p) < length leaves \<and> leaf = leaves ! unat (leaf_index p)"
proof -
  from assms(6) have idx: "unat (leaf_index p) < length leaves"
    and rec: "inclusion_rec sha (unat (leaf_index p)) (length leaves) leaf (ip_nodes p) = Some (mth sha leaves, [])"
    using assms(5) by (auto simp: verify_inclusion_def word_le_nat_alt split: if_splits option.splits)
  from inclusion_rec_sound [OF assms(1,3,4,2) idx rec assms(7)] idx show ?thesis by simp
qed

lemma largest_pow2_below_2: "largest_pow2_below 2 = 1"
  "largest_pow2_below (Suc (Suc 0)) = 1"
  by (simp_all add: largest_pow2_below_def ilog2.simps)

lemma two_leaves:
  "mth sha [a, b] = node_hash sha a b"
  "mth_preimages sha [a, b] = [0x01 # a @ b]"
  "inclusion_rec sha 1 2 b (a # r) = Some (node_hash sha a b, r)"
  "inclusion_preimages sha 1 2 b (a # r) = [0x01 # a @ b]"
  "consistency_rec sha 1 2 True (b # r) a = Some ((a, node_hash sha a b), r)"
  "consistency_preimages sha 1 2 True (b # r) a = [0x01 # a @ b]"
  by (simp_all add: mth.simps mth_preimages.simps inclusion_rec.simps inclusion_preimages.simps
      consistency_rec.simps consistency_preimages.simps largest_pow2_below_2)

theorem inclusion_sound_witness:
  "let leaves = [replicate 32 1, replicate 32 2];
       p = \<lparr> leaf_index = 1, leaf_count = 2, ip_nodes = [replicate 32 1] \<rparr>
   in verify_inclusion sample_sha (replicate 32 2) p (mth sample_sha leaves) \<and>
      inj_on sample_sha (set (mth_preimages sample_sha leaves) \<union>
        set (inclusion_preimages sample_sha 1 2 (replicate 32 2) (ip_nodes p))) \<and>
      replicate 32 2 = leaves ! 1"
  using inclusion_sound [of sample_sha "[replicate 32 1, replicate 32 2]" "replicate 32 2"
      "\<lparr> leaf_index = 1, leaf_count = 2, ip_nodes = [replicate 32 1] \<rparr>"]
  by (simp add: verify_inclusion_def two_leaves [simplified] Let_def word_le_nat_alt word_less_nat_alt)

text \<open>
  Property C30. Consistency proofs are complete: the proof from any prefix to the whole
  log verifies against the two roots.
\<close>

theorem consistency_complete:
  assumes "m \<le> length leaves" "length leaves < 2 ^ 64"
  shows "\<exists>p. prove_consistency sha leaves m = Some p \<and>
    verify_consistency sha (mth sha (take m leaves)) p (mth sha leaves)"
proof -
  have u: "unat (word_of_nat m :: u64) = m" "unat (word_of_nat (length leaves) :: u64) = length leaves"
    using assms by (simp_all add: unat_of_nat)
  consider "m = 0" | "0 < m" "m = length leaves" | "0 < m" "m < length leaves"
    using assms by linarith
  then show ?thesis
  proof cases
    case 3
    then have "(word_of_nat m :: u64) \<noteq> 0" "(word_of_nat m :: u64) \<noteq> word_of_nat (length leaves)"
      using u by (metis unat_0 less_irrefl)+
    with 3 u consistency_rec_subproof [of m leaves True "mth sha (take m leaves)" sha "[]"] show ?thesis
      by (auto simp: prove_consistency_def verify_consistency_def word_less_nat_alt)
  qed (use u in \<open>auto simp: prove_consistency_def verify_consistency_def word_less_nat_alt\<close>)
qed

theorem consistency_complete_witness:
  "\<exists>p. prove_consistency sample_sha [[1], [2], [3]] 2 = Some p \<and>
    verify_consistency sample_sha (mth sample_sha [[1], [2]]) p (mth sample_sha [[1], [2], [3]])"
  using consistency_complete [of 2 "[[1], [2], [3]]" sample_sha] by simp

text \<open>
  Property C31. Consistency proofs are sound: if a proof that claims the true size of the
  new log verifies, then the old root is the root of the first \<open>old_leaf_count\<close> leaves of
  the new log, so the new log only appended, unless two of the hashed strings collide.
\<close>

theorem consistency_sound:
  assumes "digest sha" "hashes32 leaves" "length old_root = 32" "hashes32 (cp_nodes p)"
    and "unat (new_leaf_count p) = length leaves" "verify_consistency sha old_root p (mth sha leaves)"
    and "inj_on sha (set (mth_preimages sha leaves) \<union>
      set (consistency_preimages sha (unat (old_leaf_count p)) (length leaves) True (cp_nodes p) old_root))"
  shows "unat (old_leaf_count p) \<le> length leaves \<and> old_root = mth sha (take (unat (old_leaf_count p)) leaves)"
proof -
  let ?m = "unat (old_leaf_count p)"
  have le: "?m \<le> length leaves"
    using assms(5,6) by (auto simp: verify_consistency_def Let_def word_less_nat_alt split: if_splits)
  consider "old_leaf_count p = 0" | "?m \<noteq> 0" "?m = length leaves" | "?m \<noteq> 0" "?m < length leaves"
    using le by (metis le_neq_implies_less unat_eq_zero)
  then have "old_root = mth sha (take ?m leaves)"
  proof cases
    case 3
    then have ne: "old_leaf_count p \<noteq> 0" "old_leaf_count p \<noteq> new_leaf_count p"
      using assms(5) by auto
    with assms(5,6) 3 have "consistency_rec sha ?m (length leaves) True (cp_nodes p) old_root =
        Some ((old_root, mth sha leaves), [])"
      by (auto simp: verify_consistency_def Let_def split: if_splits option.splits)
    from consistency_rec_sound [OF assms(1,3,4,2) _ le this assms(7)] 3 show ?thesis by simp
  next
    case 2
    then have "old_leaf_count p = new_leaf_count p" "old_leaf_count p \<noteq> 0"
      using assms(5) by (auto simp: word_unat_eq_iff)
    with assms(6) 2 show ?thesis by (simp add: verify_consistency_def)
  qed (use assms(6) in \<open>auto simp: verify_consistency_def split: if_splits\<close>)
  with le show ?thesis by simp
qed

theorem consistency_sound_witness:
  "let leaves = [replicate 32 1, replicate 32 2];
       p = \<lparr> old_leaf_count = 1, new_leaf_count = 2, cp_nodes = [replicate 32 2] \<rparr>
   in verify_consistency sample_sha (replicate 32 1) p (mth sample_sha leaves) \<and>
      inj_on sample_sha (set (mth_preimages sample_sha leaves) \<union>
        set (consistency_preimages sample_sha 1 2 True (cp_nodes p) (replicate 32 1))) \<and>
      replicate 32 1 = mth sample_sha (take 1 leaves)"
  using consistency_sound [of sample_sha "[replicate 32 1, replicate 32 2]" "replicate 32 1"
      "\<lparr> old_leaf_count = 1, new_leaf_count = 2, cp_nodes = [replicate 32 2] \<rparr>"]
  by (simp add: verify_consistency_def two_leaves [simplified] Let_def word_le_nat_alt word_less_nat_alt)

text \<open>
  The wire formats of both proofs: a byte string decodes to a proof exactly
  when it is the proof's encoding and every node has 32 bytes; in particular a node count
  that disagrees with the bytes present is rejected.
\<close>

theorem log_proof_codecs:
  "(decode_ConsistencyProof bs = Some c \<longleftrightarrow> hashes32 (cp_nodes c) \<and> encode_ConsistencyProof c = Some bs) \<and>
   (decode_InclusionProof bs = Some i \<longleftrightarrow> hashes32 (ip_nodes i) \<and> encode_InclusionProof i = Some bs)"
proof (intro conjI iffI)
  assume "decode_ConsistencyProof bs = Some c"
  then show "hashes32 (cp_nodes c)" "encode_ConsistencyProof c = Some bs"
    by (auto simp: decode_ConsistencyProof_def decode_ConsistencyProof_from_def bind_eq_Some_conv
        take_u64_Some_iff encode_ConsistencyProof_def dest!: read_hashes_Some split: if_splits)
next
  assume "decode_InclusionProof bs = Some i"
  then show "hashes32 (ip_nodes i)" "encode_InclusionProof i = Some bs"
    by (auto simp: decode_InclusionProof_def decode_InclusionProof_from_def bind_eq_Some_conv
        take_u64_Some_iff encode_InclusionProof_def dest!: read_hashes_Some split: if_splits)
qed (auto simp: decode_ConsistencyProof_def decode_InclusionProof_def
    dest: consistency_codec.dec_enc_exact inclusion_codec.dec_enc_exact)

end
