(* ===== verification/SparseMerkle.thy ===== *)
theory SparseMerkle
  imports MerkleLog
begin

section \<open>The sparse Merkle tree over the state\<close>

text \<open>
  \<^verbatim>\<open>executor/state/src/merkle.rs\<close>: a 256-level tree kept as two hash maps, one of leaf
  hashes by path and one of branch hashes by depth and masked path. The specification is
  the plain recursive hash of the full tree (\<open>tree_hash\<close>); the incremental updates are
  shown to keep every stored branch equal to it.
\<close>

unbundle bit_operations_syntax

subsection \<open>Hashing\<close>

definition DEPTH :: nat where
  "DEPTH = 256"

definition smt_empty :: "hash_fn \<Rightarrow> bytes" where
  "smt_empty sha = sha [0x00]"

definition path_of :: "hash_fn \<Rightarrow> bytes \<Rightarrow> bytes" where
  "path_of sha key = sha key"

text \<open>The leaf hash; \<open>None\<close> is the panic on a key or value over 4 GiB.\<close>

definition smt_leaf_bytes :: "bytes \<Rightarrow> bytes \<Rightarrow> bytes option" where
  "smt_leaf_bytes key val = do {
     k \<leftarrow> write_prefixed key;
     v \<leftarrow> write_prefixed val;
     Some (0x00 # k @ v) }"

definition smt_leaf_hash :: "hash_fn \<Rightarrow> bytes \<Rightarrow> bytes \<Rightarrow> bytes option" where
  "smt_leaf_hash sha key val = map_option sha (smt_leaf_bytes key val)"

definition internal :: "hash_fn \<Rightarrow> bytes \<Rightarrow> bytes \<Rightarrow> bytes" where
  "internal sha left right = sha (0x02 # left @ right)"

definition singleton :: "hash_fn \<Rightarrow> bytes \<Rightarrow> bytes" where
  "singleton sha child = sha (0x01 # child)"

definition combine :: "hash_fn \<Rightarrow> bytes \<Rightarrow> bytes \<Rightarrow> bytes" where
  "combine sha left right =
     (if left = smt_empty sha \<and> right = smt_empty sha then smt_empty sha
      else if left = smt_empty sha then singleton sha right
      else if right = smt_empty sha then singleton sha left
      else internal sha left right)"

subsection \<open>Paths\<close>

text \<open>\<open>path_bit\<close> is \<^verbatim>\<open>bit\<close>: bit 0 is the most significant bit of the first byte.\<close>

definition path_bit :: "bytes \<Rightarrow> nat \<Rightarrow> u8" where
  "path_bit path b = drop_bit (7 - b mod 8) (path ! (b div 8)) AND 1"

definition flip_path :: "bytes \<Rightarrow> nat \<Rightarrow> bytes" where
  "flip_path path b = path[b div 8 := (path ! (b div 8)) XOR push_bit (7 - b mod 8) 1]"

definition mask_path :: "bytes \<Rightarrow> nat \<Rightarrow> bytes" where
  "mask_path path depth =
     (let full = depth div 8; rem = depth mod 8;
          zero_from = (if rem = 0 then full else full + 1);
          out = map (\<lambda>(i, b). if zero_from \<le> i then 0 else b) (enumerate 0 path)
      in if rem \<noteq> 0 then out[full := (out ! full) AND push_bit (8 - rem) 0xFF] else out)"

subsection \<open>The tree\<close>

record SparseMerkleTree =
  smt_leaves :: "(bytes, bytes) hmap"
  smt_nodes :: "(nat \<times> bytes, bytes) hmap"
  smt_root :: bytes

definition smt_new :: "hash_fn \<Rightarrow> SparseMerkleTree" where
  "smt_new sha = \<lparr> smt_leaves = [], smt_nodes = [], smt_root = smt_empty sha \<rparr>"

definition subtree_hash :: "hash_fn \<Rightarrow> SparseMerkleTree \<Rightarrow> nat \<Rightarrow> bytes \<Rightarrow> bytes" where
  "subtree_hash sha t depth path =
     (if depth = DEPTH then case_option (smt_empty sha) id (map_of (smt_leaves t) path)
      else case_option (smt_empty sha) id (map_of (smt_nodes t) (depth, mask_path path depth)))"

definition set_branch :: "hash_fn \<Rightarrow> SparseMerkleTree \<Rightarrow> nat \<Rightarrow> bytes \<Rightarrow> bytes \<Rightarrow> SparseMerkleTree" where
  "set_branch sha t depth path h =
     (if h = smt_empty sha then t\<lparr> smt_nodes := AList.delete (depth, path) (smt_nodes t) \<rparr>
      else t\<lparr> smt_nodes := AList.update (depth, path) h (smt_nodes t) \<rparr>)"

text \<open>One step of the walk to the root: the parent of \<open>current\<close> at \<open>depth\<close>.\<close>

definition step_up :: "hash_fn \<Rightarrow> bytes \<Rightarrow> nat \<Rightarrow> bytes \<Rightarrow> bytes \<Rightarrow> bytes" where
  "step_up sha path depth current sibling =
     (if path_bit path depth = 0 then combine sha current sibling else combine sha sibling current)"

text \<open>The loop \<^verbatim>\<open>for depth in (0..DEPTH).rev()\<close> that \<^verbatim>\<open>insert\<close> and \<^verbatim>\<open>delete\<close> share.\<close>

primrec walk_up :: "hash_fn \<Rightarrow> bytes \<Rightarrow> nat \<Rightarrow> SparseMerkleTree \<times> bytes \<Rightarrow> SparseMerkleTree \<times> bytes" where
  "walk_up sha path 0 s = s"
| "walk_up sha path (Suc depth) s =
     (let (t, current) = s;
          sibling = subtree_hash sha t (depth + 1) (flip_path path depth);
          current = step_up sha path depth current sibling
      in walk_up sha path depth (set_branch sha t depth (mask_path path depth) current, current))"

definition smt_set_path :: "hash_fn \<Rightarrow> SparseMerkleTree \<Rightarrow> bytes \<Rightarrow> bytes \<Rightarrow> SparseMerkleTree" where
  "smt_set_path sha t path start =
     (let (t, current) = walk_up sha path DEPTH (t, start) in t\<lparr> smt_root := current \<rparr>)"

definition smt_insert :: "hash_fn \<Rightarrow> SparseMerkleTree \<Rightarrow> bytes \<Rightarrow> bytes \<Rightarrow> SparseMerkleTree option" where
  "smt_insert sha t key val = do {
     leaf \<leftarrow> smt_leaf_hash sha key val;
     let path = path_of sha key;
     Some (smt_set_path sha (t\<lparr> smt_leaves := AList.update path leaf (smt_leaves t) \<rparr>) path leaf) }"

definition smt_delete :: "hash_fn \<Rightarrow> SparseMerkleTree \<Rightarrow> bytes \<Rightarrow> SparseMerkleTree \<times> bool" where
  "smt_delete sha t key =
     (let path = path_of sha key
      in if map_of (smt_leaves t) path = None then (t, False)
         else (smt_set_path sha (t\<lparr> smt_leaves := AList.delete path (smt_leaves t) \<rparr>) path (smt_empty sha), True))"

definition proof_siblings :: "hash_fn \<Rightarrow> SparseMerkleTree \<Rightarrow> bytes \<Rightarrow> bytes list option" where
  "proof_siblings sha t key =
     (let path = path_of sha key
      in if map_of (smt_leaves t) path = None then None
         else Some (map (\<lambda>depth. subtree_hash sha t (depth + 1) (flip_path path depth)) (rev [0..<DEPTH])))"

subsection \<open>Proofs of inclusion\<close>

record MerkleProof =
  mp_key :: bytes
  mp_value :: bytes
  mp_siblings :: "bytes list"

primrec fold_up :: "hash_fn \<Rightarrow> bytes \<Rightarrow> nat \<Rightarrow> bytes list \<Rightarrow> bytes \<Rightarrow> bytes" where
  "fold_up sha path 0 siblings current = current"
| "fold_up sha path (Suc depth) siblings current =
     (case siblings of [] \<Rightarrow> current
      | s # rest \<Rightarrow> fold_up sha path depth rest (step_up sha path depth current s))"

text \<open>\<open>None\<close> is the panic of the leaf hash.\<close>

definition verify_MerkleProof :: "hash_fn \<Rightarrow> MerkleProof \<Rightarrow> bytes \<Rightarrow> bool option" where
  "verify_MerkleProof sha p root =
     (if length (mp_siblings p) \<noteq> DEPTH then Some False
      else do {
        leaf \<leftarrow> smt_leaf_hash sha (mp_key p) (mp_value p);
        Some (fold_up sha (path_of sha (mp_key p)) DEPTH (mp_siblings p) leaf = root) })"

definition encode_MerkleProof :: "MerkleProof \<Rightarrow> bytes option" where
  "encode_MerkleProof p = do {
     k \<leftarrow> write_prefixed (mp_key p);
     v \<leftarrow> write_prefixed (mp_value p);
     s \<leftarrow> encode_hashes (mp_siblings p);
     Some (k @ v @ s) }"

definition decode_MerkleProof :: "bytes \<Rightarrow> MerkleProof option" where
  "decode_MerkleProof bs = do {
     (key, bs) \<leftarrow> take_field bs;
     (val, bs) \<leftarrow> take_field bs;
     (count, bs) \<leftarrow> take_u32 bs;
     if unat count \<noteq> DEPTH then None
     else do {
       (siblings, bs) \<leftarrow> take_many (unat count) (take_exact 32) bs;
       if bs \<noteq> [] then None
       else Some \<lparr> mp_key = key, mp_value = val, mp_siblings = siblings \<rparr> } }"

subsection \<open>The specification: the hash of the full tree\<close>

text \<open>
  A tree is a partial function from 256-bit paths to leaf hashes; the hash of the subtree
  below a prefix combines the hashes below its two extensions.
\<close>

primrec tree_hash :: "hash_fn \<Rightarrow> (bool list \<Rightarrow> bytes option) \<Rightarrow> nat \<Rightarrow> bool list \<Rightarrow> bytes" where
  "tree_hash sha L 0 pre = case_option (smt_empty sha) id (L pre)"
| "tree_hash sha L (Suc h) pre =
     combine sha (tree_hash sha L h (pre @ [False])) (tree_hash sha L h (pre @ [True]))"

definition bits_of :: "bytes \<Rightarrow> bool list" where
  "bits_of path = map (\<lambda>i. bit (path ! (i div 8)) (7 - i mod 8)) [0..<256]"

subsection \<open>Paths as bit lists\<close>

lemma length_bits_of [simp]: "length (bits_of p) = 256"
  by (simp add: bits_of_def)

lemma bits_of_nth [simp]: "i < 256 \<Longrightarrow> bits_of p ! i = bit (p ! (i div 8)) (7 - i mod 8)"
  by (simp add: bits_of_def)

lemma path_bit_eq_0: "path_bit p i = 0 \<longleftrightarrow> \<not> bit (p ! (i div 8)) (7 - i mod 8)"
  by (simp add: path_bit_def and_one_eq bit_iff_odd_drop_bit even_iff_mod_2_eq_zero)

lemma byte_eqI:
  fixes v w :: u8
  assumes "\<And>j. j < 8 \<Longrightarrow> bit v (7 - j) = bit w (7 - j)"
  shows "v = w"
proof (rule bit_word_eqI)
  fix n assume "n < LENGTH(8)"
  then have "7 - (7 - n) = n" "7 - n < 8" by simp_all
  with assms [of "7 - n"] show "bit v n \<longleftrightarrow> bit w n" by simp
qed

lemma bits_of_inject:
  assumes "length p = 32" "length q = 32" "bits_of p = bits_of q"
  shows "p = q"
proof (rule nth_equalityI)
  fix k assume "k < length p"
  then have k: "k < 32" using assms by simp
  show "p ! k = q ! k"
  proof (rule byte_eqI)
    fix j :: nat assume j: "j < 8"
    with k have "8 * k + j < 256" "(8 * k + j) div 8 = k" "(8 * k + j) mod 8 = j" by simp_all
    with arg_cong [OF assms(3), of "\<lambda>l. l ! (8 * k + j)"]
    show "bit (p ! k) (7 - j) = bit (q ! k) (7 - j)" by simp
  qed
qed (use assms in simp)

lemma length_flip_path [simp]: "length (flip_path p d) = length p"
  by (simp add: flip_path_def)

lemma length_mask_path [simp]: "length (mask_path p d) = length p"
  by (simp add: mask_path_def Let_def)

lemma byte_index: "i < 256 \<Longrightarrow> length p = 32 \<Longrightarrow> i div 8 < length (p :: bytes)"
  by simp

lemma bit_byte_flip: "m < 8 \<Longrightarrow> n < 8 \<Longrightarrow> bit (w XOR push_bit n 1) m = (bit (w :: u8) m \<noteq> (m = n))"
  by (auto simp: bit_simps)

lemma same_position: "(i :: nat) div 8 = d div 8 \<Longrightarrow> 7 - i mod 8 = 7 - d mod 8 \<Longrightarrow> i = d"
proof -
  assume "i div 8 = d div 8" "7 - i mod 8 = 7 - d mod 8"
  moreover have "i mod 8 < 8" "d mod 8 < 8" by simp_all
  ultimately have "i mod 8 = d mod 8" by linarith
  with \<open>i div 8 = d div 8\<close> show ?thesis by (metis div_mult_mod_eq)
qed

lemma bits_of_flip:
  assumes "length p = 32" "d < 256"
  shows "bits_of (flip_path p d) = (bits_of p)[d := \<not> bits_of p ! d]"
proof (rule nth_equalityI)
  fix i assume "i < length (bits_of (flip_path p d))"
  then have i: "i < 256" by simp
  show "bits_of (flip_path p d) ! i = (bits_of p)[d := \<not> bits_of p ! d] ! i"
  proof (cases "i div 8 = d div 8")
    case True
    have "flip_path p d ! (i div 8) = (p ! (i div 8)) XOR push_bit (7 - d mod 8) 1"
      using True assms by (simp add: flip_path_def)
    moreover have "7 - i mod 8 < 8" "7 - d mod 8 < 8" by simp_all
    ultimately have "bit (flip_path p d ! (i div 8)) (7 - i mod 8) =
        (bit (p ! (i div 8)) (7 - i mod 8) \<noteq> (7 - i mod 8 = 7 - d mod 8))"
      by (simp only: bit_byte_flip)
    with i assms same_position [OF True] show ?thesis by (auto simp: nth_list_update)
  next
    case False
    with i assms show ?thesis by (auto simp: flip_path_def nth_list_update)
  qed
qed simp

lemma bit_byte_mask: "m < 8 \<Longrightarrow> bit (w AND push_bit n 0xFF) m = (bit (w :: u8) m \<and> n \<le> m)"
proof -
  assume m: "m < 8"
  have "(0xFF :: u8) = - 1" by simp
  then show ?thesis
    using m by (auto simp only: bit_and_iff bit_push_bit_iff bit_minus_1_iff possible_bit_word) simp_all
qed

lemma bits_of_mask:
  assumes "length p = 32" "d < 256"
  shows "bits_of (mask_path p d) = take d (bits_of p) @ replicate (256 - d) False"
proof (rule nth_equalityI)
  fix i assume "i < length (bits_of (mask_path p d))"
  then have i: "i < 256" by simp
  let ?j = "i div 8" and ?full = "d div 8" and ?rem = "d mod 8"
  let ?zf = "if ?rem = 0 then ?full else ?full + 1"
  let ?out = "map (\<lambda>(i, b). if ?zf \<le> i then 0 else b) (enumerate 0 p)"
  have out: "k < 32 \<Longrightarrow> ?out ! k = (if ?zf \<le> k then 0 else p ! k)" for k
    using assms by (simp add: nth_enumerate_eq)
  have j: "?j < 32" using i by simp
  have full: "?full < 32" using assms by simp
  have "bit (mask_path p d ! ?j) (7 - i mod 8) = (i < d \<and> bit (p ! ?j) (7 - i mod 8))"
  proof (cases "?j = ?full \<and> ?rem \<noteq> 0")
    case True
    then have "mask_path p d ! ?j = (p ! ?j) AND push_bit (8 - ?rem) 0xFF"
      using out [OF full] assms full by (simp add: mask_path_def Let_def)
    then have "bit (mask_path p d ! ?j) (7 - i mod 8) = (bit (p ! ?j) (7 - i mod 8) \<and> 8 - ?rem \<le> 7 - i mod 8)"
      by (simp add: bit_byte_mask del: bit_and_iff)
    moreover have "8 - ?rem \<le> 7 - i mod 8 \<longleftrightarrow> i < d"
    proof -
      have "i mod 8 < 8" "?rem < 8" by simp_all
      then have "8 - ?rem \<le> 7 - i mod 8 \<longleftrightarrow> i mod 8 < ?rem" by linarith
      also have "\<dots> \<longleftrightarrow> i < d"
        using True div_mult_mod_eq [of i 8] div_mult_mod_eq [of d 8] by linarith
      finally show ?thesis .
    qed
    ultimately show ?thesis by blast
  next
    case False
    then have m: "mask_path p d ! ?j = (if ?zf \<le> ?j then 0 else p ! ?j)"
      using out [OF j] assms by (auto simp: mask_path_def Let_def nth_list_update)
    have "?zf \<le> ?j \<longleftrightarrow> d \<le> i"
      using False div_mult_mod_eq [of i 8] div_mult_mod_eq [of d 8] div_le_mono [of d i 8]
      by (auto simp: not_le Suc_le_eq split: if_splits)
    with m show ?thesis by auto
  qed
  with i show "bits_of (mask_path p d) ! i = (take d (bits_of p) @ replicate (256 - d) False) ! i"
    by (auto simp: nth_append)
qed (use assms in simp)

lemma mask_path_eq_iff:
  assumes "length p = 32" "length q = 32" "d < 256"
  shows "mask_path p d = mask_path q d \<longleftrightarrow> take d (bits_of p) = take d (bits_of q)"
proof
  assume "mask_path p d = mask_path q d"
  then have "bits_of (mask_path p d) = bits_of (mask_path q d)" by simp
  then show "take d (bits_of p) = take d (bits_of q)"
    using assms by (simp add: bits_of_mask)
next
  assume "take d (bits_of p) = take d (bits_of q)"
  then show "mask_path p d = mask_path q d"
    using assms by (intro bits_of_inject) (simp_all add: bits_of_mask)
qed

lemma take_bits_flip:
  assumes "length p = 32" "d < 256"
  shows "take (Suc d) (bits_of (flip_path p d)) = take d (bits_of p) @ [\<not> bits_of p ! d]"
  using assms by (simp add: bits_of_flip take_Suc_conv_app_nth take_update_swap list_update_append
      del: bits_of_nth)

subsection \<open>The specification tree under updates\<close>

lemma tree_hash_empty: "tree_hash sha (\<lambda>_. None) h pre = smt_empty sha"
  by (induction h arbitrary: pre) (simp_all add: combine_def)

lemma tree_hash_other:
  "take (length pre) b \<noteq> pre \<Longrightarrow> tree_hash sha (L(b := v)) h pre = tree_hash sha L h pre"
proof (induction h arbitrary: pre)
  case 0
  then have "pre \<noteq> b" by auto
  then show ?case by simp
next
  case (Suc h)
  have "take (length (pre @ [x])) b \<noteq> pre @ [x]" for x
  proof
    assume "take (length (pre @ [x])) b = pre @ [x]"
    then have "take (length pre) (take (length (pre @ [x])) b) = take (length pre) (pre @ [x])" by simp
    with Suc.prems show False by simp
  qed
  from Suc.IH [OF this] show ?case by (simp del: fun_upd_apply)
qed

subsection \<open>The stored tree refines the specification\<close>

definition smt_abs :: "SparseMerkleTree \<Rightarrow> bool list \<Rightarrow> bytes option" where
  "smt_abs t = map_of (map (\<lambda>(p, h). (bits_of p, h)) (smt_leaves t))"

definition leaf_paths_ok :: "SparseMerkleTree \<Rightarrow> bool" where
  "leaf_paths_ok t \<longleftrightarrow> list_all (\<lambda>(p, h). length p = 32) (smt_leaves t)"

definition smt_ok :: "hash_fn \<Rightarrow> SparseMerkleTree \<Rightarrow> bool" where
  "smt_ok sha t \<longleftrightarrow> leaf_paths_ok t \<and> smt_root t = tree_hash sha (smt_abs t) 256 [] \<and>
     (\<forall>d \<le> 256. \<forall>q. length q = 32 \<longrightarrow>
        subtree_hash sha t d q = tree_hash sha (smt_abs t) (256 - d) (take d (bits_of q)))"

lemma map_of_bits:
  assumes "list_all (\<lambda>(p, h). length p = 32) m" "length q = 32"
  shows "map_of (map (\<lambda>(p, h). (bits_of p, h)) m) (bits_of q) = map_of m q"
  using assms by (induction m) (auto dest: bits_of_inject)

lemma smt_abs_bits: "leaf_paths_ok t \<Longrightarrow> length q = 32 \<Longrightarrow> smt_abs t (bits_of q) = map_of (smt_leaves t) q"
  by (simp add: smt_abs_def leaf_paths_ok_def map_of_bits)

lemma smt_abs_update:
  "leaf_paths_ok t \<Longrightarrow> length p = 32 \<Longrightarrow>
    smt_abs (t\<lparr> smt_leaves := AList.update p h (smt_leaves t) \<rparr>) = (smt_abs t)(bits_of p \<mapsto> h)"
proof -
  have "list_all (\<lambda>(p, h). length p = 32) m \<Longrightarrow> length p = 32 \<Longrightarrow>
      map_of (map (\<lambda>(p, h). (bits_of p, h)) (AList.update p h m)) =
      (map_of (map (\<lambda>(p, h). (bits_of p, h)) m))(bits_of p \<mapsto> h)" for m
    by (induction m) (auto simp: fun_eq_iff dest: bits_of_inject)
  then show "leaf_paths_ok t \<Longrightarrow> length p = 32 \<Longrightarrow> ?thesis"
    by (simp add: smt_abs_def leaf_paths_ok_def)
qed

lemma smt_abs_delete:
  "leaf_paths_ok t \<Longrightarrow> length p = 32 \<Longrightarrow>
    smt_abs (t\<lparr> smt_leaves := AList.delete p (smt_leaves t) \<rparr>) = (smt_abs t)(bits_of p := None)"
proof -
  have "list_all (\<lambda>(p, h). length p = 32) m \<Longrightarrow> length p = 32 \<Longrightarrow>
      map_of (map (\<lambda>(p, h). (bits_of p, h)) (AList.delete p m)) =
      (map_of (map (\<lambda>(p, h). (bits_of p, h)) m))(bits_of p := None)" for m
    by (induction m) (auto simp: fun_eq_iff dest: bits_of_inject)
  then show "leaf_paths_ok t \<Longrightarrow> length p = 32 \<Longrightarrow> ?thesis"
    by (simp add: smt_abs_def leaf_paths_ok_def)
qed

lemma leaf_paths_ok_update [simp]:
  "leaf_paths_ok t \<Longrightarrow> length p = 32 \<Longrightarrow> leaf_paths_ok (t\<lparr> smt_leaves := AList.update p h (smt_leaves t) \<rparr>)"
proof -
  have "set (AList.update p h m) \<subseteq> insert (p, h) (set m)" for m by (induction m) auto
  then show "leaf_paths_ok t \<Longrightarrow> length p = 32 \<Longrightarrow> ?thesis"
    by (fastforce simp: leaf_paths_ok_def list_all_iff)
qed

lemma set_delete_subset: "set (AList.delete k m) \<subseteq> set m"
  by (induction m) auto

lemma leaf_paths_ok_delete [simp]:
  "leaf_paths_ok t \<Longrightarrow> leaf_paths_ok (t\<lparr> smt_leaves := AList.delete p (smt_leaves t) \<rparr>)"
  using set_delete_subset [of p "smt_leaves t"] by (auto simp: leaf_paths_ok_def list_all_iff)

lemma subtree_hash_set_branch:
  assumes "d < DEPTH"
  shows "subtree_hash sha (set_branch sha t d p h) e q =
    (if e = d \<and> mask_path q d = p then h else subtree_hash sha t e q)"
  using assms by (auto simp: subtree_hash_def set_branch_def delete_conv' update_conv')

lemma smt_leaves_set_branch [simp]: "smt_leaves (set_branch sha t d p h) = smt_leaves t"
  by (simp add: set_branch_def)

text \<open>
  The walk to the root. \<open>branch_ok\<close> says that every stored branch at depth \<open>d\<close> or below, and
  every branch off the path, is right for the target tree.
\<close>

definition branch_ok :: "hash_fn \<Rightarrow> (bool list \<Rightarrow> bytes option) \<Rightarrow> bytes \<Rightarrow> nat \<Rightarrow> SparseMerkleTree \<Rightarrow> bool" where
  "branch_ok sha L path d t \<longleftrightarrow> (\<forall>e \<le> 256. \<forall>q. length q = 32 \<longrightarrow>
     d \<le> e \<or> take e (bits_of q) \<noteq> take e (bits_of path) \<longrightarrow>
     subtree_hash sha t e q = tree_hash sha L (256 - e) (take e (bits_of q)))"

lemma step_up_parent:
  assumes "length path = 32" "d < 256" "branch_ok sha L path (Suc d) t"
    and "current = tree_hash sha L (256 - Suc d) (take (Suc d) (bits_of path))"
  shows "step_up sha path d current (subtree_hash sha t (Suc d) (flip_path path d)) =
    tree_hash sha L (256 - d) (take d (bits_of path))"
proof -
  let ?b = "bits_of path ! d"
  have "Suc d \<le> 256" using assms(2) by simp
  then have "subtree_hash sha t (Suc d) (flip_path path d) =
      tree_hash sha L (256 - Suc d) (take (Suc d) (bits_of (flip_path path d)))"
    using assms(1,3) by (simp add: branch_ok_def)
  then have sib: "subtree_hash sha t (Suc d) (flip_path path d) =
      tree_hash sha L (256 - Suc d) (take d (bits_of path) @ [\<not> ?b])"
    by (simp only: take_bits_flip [OF assms(1,2)])
  have cur: "current = tree_hash sha L (256 - Suc d) (take d (bits_of path) @ [?b])"
    using assms(2,4) by (simp add: take_Suc_conv_app_nth del: bits_of_nth)
  have height: "256 - d = Suc (256 - Suc d)" using assms(2) by simp
  have "path_bit path d = 0 \<longleftrightarrow> \<not> ?b"
    using assms(2) by (simp add: path_bit_eq_0)
  then show ?thesis
    by (cases ?b) (simp_all add: step_up_def sib cur height del: bits_of_nth)
qed

lemma walk_up_ok:
  assumes "length path = 32" "d \<le> 256" "branch_ok sha L path d t"
    and "current = tree_hash sha L (256 - d) (take d (bits_of path))"
    and "walk_up sha path d (t, current) = (t', r)"
  shows "r = tree_hash sha L 256 [] \<and> branch_ok sha L path 0 t' \<and> smt_leaves t' = smt_leaves t"
  using assms(2-5)
proof (induction d arbitrary: t current)
  case 0
  then show ?case by simp
next
  case (Suc d)
  let ?new = "step_up sha path d current (subtree_hash sha t (Suc d) (flip_path path d))"
  let ?t = "set_branch sha t d (mask_path path d) ?new"
  have d: "d < 256" using Suc.prems(1) by simp
  have new: "?new = tree_hash sha L (256 - d) (take d (bits_of path))"
    using step_up_parent [OF assms(1) d Suc.prems(2,3)] .
  have "branch_ok sha L path d ?t"
    unfolding branch_ok_def
  proof (intro allI impI)
    fix e q assume e: "e \<le> 256" and q: "length (q :: bytes) = 32"
      and c: "d \<le> e \<or> take e (bits_of q) \<noteq> take e (bits_of path)"
    show "subtree_hash sha ?t e q = tree_hash sha L (256 - e) (take e (bits_of q))"
    proof (cases "e = d \<and> take d (bits_of q) = take d (bits_of path)")
      case True
      then show ?thesis
        using mask_path_eq_iff [OF q assms(1) d] new d by (simp add: subtree_hash_set_branch DEPTH_def)
    next
      case False
      then have "subtree_hash sha ?t e q = subtree_hash sha t e q"
        using mask_path_eq_iff [OF q assms(1) d] d by (auto simp: subtree_hash_set_branch DEPTH_def)
      moreover have "Suc d \<le> e \<or> take e (bits_of q) \<noteq> take e (bits_of path)"
        using False c by (cases "e = d") auto
      ultimately show ?thesis
        using Suc.prems(2) e q unfolding branch_ok_def by metis
    qed
  qed
  moreover have "walk_up sha path d (?t, ?new) = (t', r)"
    using Suc.prems(4) by (simp add: Let_def)
  ultimately show ?case
    using Suc.IH [of ?t ?new] new d by simp
qed

lemma smt_set_path_ok:
  assumes "length path = 32" "smt_ok sha t"
    and leaves: "leaf_paths_ok t1" "smt_nodes t1 = smt_nodes t" "smt_abs t1 = (smt_abs t)(bits_of path := v)"
    and start: "start = case_option (smt_empty sha) id v"
  shows "smt_ok sha (smt_set_path sha t1 path start) \<and> smt_abs (smt_set_path sha t1 path start) = smt_abs t1"
proof -
  obtain t' r where walk: "walk_up sha path DEPTH (t1, start) = (t', r)" by fastforce
  have leaf: "subtree_hash sha t1 256 q = tree_hash sha (smt_abs t1) 0 (bits_of q)" if "length q = 32" for q
    using that leaves(1) by (simp add: subtree_hash_def DEPTH_def smt_abs_bits)
  have "branch_ok sha (smt_abs t1) path 256 t1"
    unfolding branch_ok_def
  proof (intro allI impI)
    fix e q assume e: "e \<le> 256" and q: "length (q :: bytes) = 32"
      and c: "256 \<le> e \<or> take e (bits_of q) \<noteq> take e (bits_of path)"
    show "subtree_hash sha t1 e q = tree_hash sha (smt_abs t1) (256 - e) (take e (bits_of q))"
    proof (cases "e = 256")
      case True
      with leaf [OF q] show ?thesis by simp
    next
      case False
      with e c have ne: "take (length (take e (bits_of q))) (bits_of path) \<noteq> take e (bits_of q)" by auto
      have "subtree_hash sha t1 e q = subtree_hash sha t e q"
        using False leaves(2) by (simp add: subtree_hash_def DEPTH_def)
      also have "\<dots> = tree_hash sha (smt_abs t) (256 - e) (take e (bits_of q))"
        using assms(2) e q by (simp add: smt_ok_def)
      finally show ?thesis
        by (simp only: leaves(3) tree_hash_other [OF ne])
    qed
  qed
  moreover have "start = tree_hash sha (smt_abs t1) (256 - 256) (take 256 (bits_of path))"
    by (simp add: start leaves(3))
  ultimately have r: "r = tree_hash sha (smt_abs t1) 256 []" "branch_ok sha (smt_abs t1) path 0 t'"
      "smt_leaves t' = smt_leaves t1"
    using walk_up_ok [OF assms(1) order_refl, of sha "smt_abs t1" t1 start t' r] walk
    by (simp_all add: DEPTH_def)
  have eq: "smt_set_path sha t1 path start = t'\<lparr> smt_root := r \<rparr>"
    by (simp add: smt_set_path_def walk)
  have abs: "smt_abs (t'\<lparr> smt_root := r \<rparr>) = smt_abs t1"
    by (simp add: smt_abs_def r(3))
  have sub: "subtree_hash sha (t'\<lparr> smt_root := r \<rparr>) d q = subtree_hash sha t' d q" for d q
    by (simp add: subtree_hash_def)
  show ?thesis
    unfolding eq smt_ok_def abs sub using r leaves(1) by (simp add: branch_ok_def leaf_paths_ok_def)
qed

text \<open>The operations as updates of the specification tree.\<close>

lemma smt_new_ok: "smt_ok sha (smt_new sha) \<and> smt_abs (smt_new sha) = Map.empty"
  by (simp add: smt_ok_def smt_new_def leaf_paths_ok_def smt_abs_def subtree_hash_def tree_hash_empty)

lemma smt_insert_ok:
  assumes "digest sha" "smt_ok sha t" "smt_insert sha t key val = Some t'"
  shows "smt_ok sha t' \<and> smt_leaf_hash sha key val \<noteq> None \<and>
    smt_abs t' = (smt_abs t)(bits_of (path_of sha key) := smt_leaf_hash sha key val)"
proof -
  from assms(3) obtain leaf where leaf: "smt_leaf_hash sha key val = Some leaf"
    and t': "t' = smt_set_path sha (t\<lparr> smt_leaves := AList.update (path_of sha key) leaf (smt_leaves t) \<rparr>)
      (path_of sha key) leaf"
    by (auto simp: smt_insert_def bind_eq_Some_conv Let_def)
  have len: "length (path_of sha key) = 32" using assms(1) by (simp add: path_of_def)
  have ok: "leaf_paths_ok t" using assms(2) by (simp add: smt_ok_def)
  from smt_set_path_ok [OF len assms(2), of "t\<lparr> smt_leaves := AList.update (path_of sha key) leaf (smt_leaves t) \<rparr>" "Some leaf" leaf]
  show ?thesis
    using leaf ok len by (simp add: t' smt_abs_update)
qed

lemma smt_delete_ok:
  assumes "digest sha" "smt_ok sha t" "smt_delete sha t key = (t', present)"
  shows "smt_ok sha t' \<and> smt_abs t' = (smt_abs t)(bits_of (path_of sha key) := None) \<and>
    (present \<longleftrightarrow> smt_abs t (bits_of (path_of sha key)) \<noteq> None) \<and> (\<not> present \<longrightarrow> t' = t)"
proof -
  have len: "length (path_of sha key) = 32" using assms(1) by (simp add: path_of_def)
  have ok: "leaf_paths_ok t" using assms(2) by (simp add: smt_ok_def)
  show ?thesis
  proof (cases "map_of (smt_leaves t) (path_of sha key)")
    case None
    with assms(3) have "t' = t" "\<not> present" by (auto simp: smt_delete_def)
    with None assms(2) show ?thesis
      using smt_abs_bits [OF ok len] by (simp add: fun_upd_idem)
  next
    case (Some h)
    from smt_set_path_ok [OF len assms(2), of "t\<lparr> smt_leaves := AList.delete (path_of sha key) (smt_leaves t) \<rparr>" None "smt_empty sha"]
    show ?thesis
      using assms(3) Some ok len smt_abs_bits [OF ok len]
      by (auto simp: smt_delete_def smt_abs_delete Let_def)
  qed
qed

text \<open>A branch hash, and so the root, is a function of the leaf map alone.\<close>

lemma smt_root_of_abs: "smt_ok sha t \<Longrightarrow> smt_root t = tree_hash sha (smt_abs t) 256 []"
  by (simp add: smt_ok_def)

lemma smt_ok_branch_ok: "smt_ok sha t \<Longrightarrow> branch_ok sha (smt_abs t) path d t"
  by (simp add: smt_ok_def branch_ok_def)

lemma fold_up_ok:
  assumes "length path = 32" "smt_ok sha t" "d \<le> 256"
  shows "fold_up sha path d (map (\<lambda>e. subtree_hash sha t (e + 1) (flip_path path e)) (rev [0..<d]))
      (tree_hash sha (smt_abs t) (256 - d) (take d (bits_of path))) = tree_hash sha (smt_abs t) 256 []"
  using assms(3)
proof (induction d)
  case 0
  then show ?case by simp
next
  case (Suc d)
  then have d: "d < 256" by simp
  have "step_up sha path d (tree_hash sha (smt_abs t) (256 - Suc d) (take (Suc d) (bits_of path)))
      (subtree_hash sha t (Suc d) (flip_path path d)) = tree_hash sha (smt_abs t) (256 - d) (take d (bits_of path))"
    by (rule step_up_parent [OF assms(1) d smt_ok_branch_ok [OF assms(2)] refl])
  with Suc.IH d show ?case by simp
qed

subsection \<open>Runs of operations\<close>

datatype SmtOp = SmtPut bytes bytes | SmtDelete bytes

primrec smt_step :: "hash_fn \<Rightarrow> SmtOp \<Rightarrow> SparseMerkleTree \<Rightarrow> SparseMerkleTree option" where
  "smt_step sha (SmtPut k v) t = smt_insert sha t k v"
| "smt_step sha (SmtDelete k) t = Some (fst (smt_delete sha t k))"

primrec smt_run :: "hash_fn \<Rightarrow> SmtOp list \<Rightarrow> SparseMerkleTree \<Rightarrow> SparseMerkleTree option" where
  "smt_run sha [] t = Some t"
| "smt_run sha (op # ops) t = do { t \<leftarrow> smt_step sha op t; smt_run sha ops t }"

primrec spec_step :: "hash_fn \<Rightarrow> SmtOp \<Rightarrow> (bool list \<Rightarrow> bytes option) \<Rightarrow> bool list \<Rightarrow> bytes option" where
  "spec_step sha (SmtPut k v) L = L(bits_of (path_of sha k) := smt_leaf_hash sha k v)"
| "spec_step sha (SmtDelete k) L = L(bits_of (path_of sha k) := None)"

lemma smt_run_ok:
  assumes "digest sha" "smt_ok sha t" "smt_run sha ops t = Some t'"
  shows "smt_ok sha t' \<and> smt_abs t' = fold (spec_step sha) ops (smt_abs t)"
  using assms(2,3)
proof (induction ops arbitrary: t)
  case (Cons op ops)
  then obtain u where u: "smt_step sha op t = Some u" "smt_run sha ops u = Some t'"
    by (auto simp: bind_eq_Some_conv)
  have "smt_ok sha u \<and> smt_abs u = spec_step sha op (smt_abs t)"
  proof (cases op)
    case (SmtPut k v)
    with u smt_insert_ok [OF assms(1) Cons.prems(1)] show ?thesis by simp
  next
    case (SmtDelete k)
    obtain u' b where del: "smt_delete sha t k = (u', b)" by fastforce
    with u SmtDelete have "u = u'" by simp
    with smt_delete_ok [OF assms(1) Cons.prems(1) del] SmtDelete show ?thesis by simp
  qed
  with Cons.IH [OF _ u(2)] show ?case by simp
qed simp

subsection \<open>Properties\<close>

text \<open>
  Property C27. The incremental tree refines the recursive specification: after any run of
  inserts and deletes from the empty tree the root is the hash of the full 256-level tree
  over the leaves those operations leave, and so is every branch that a lookup reads.
\<close>

theorem smt_refines_spec:
  assumes "digest sha" "smt_run sha ops (smt_new sha) = Some t"
  shows "smt_root t = tree_hash sha (fold (spec_step sha) ops Map.empty) 256 [] \<and>
    (\<forall>d \<le> 256. \<forall>q. length q = 32 \<longrightarrow>
      subtree_hash sha t d q = tree_hash sha (fold (spec_step sha) ops Map.empty) (256 - d) (take d (bits_of q)))"
proof -
  have "smt_ok sha t" "smt_abs t = fold (spec_step sha) ops Map.empty"
    using smt_run_ok [OF assms(1) _ assms(2)] smt_new_ok [of sha] by simp_all
  then show ?thesis unfolding smt_ok_def by metis
qed

theorem smt_refines_spec_witness:
  "\<exists>t. smt_run sample_sha [SmtPut [1] [2], SmtDelete [3]] (smt_new sample_sha) = Some t \<and>
    smt_root t = tree_hash sample_sha
      (fold (spec_step sample_sha) [SmtPut [1] [2], SmtDelete [3]] Map.empty) 256 []"
proof -
  have "\<exists>t. smt_run sample_sha [SmtPut [1] [2], SmtDelete [3]] (smt_new sample_sha) = Some t"
    by (simp add: smt_insert_def smt_leaf_hash_def smt_leaf_bytes_def write_prefixed_def u32_try_from_def Let_def)
  with smt_refines_spec [of sample_sha "[SmtPut [1] [2], SmtDelete [3]]"] show ?thesis
    using length_sample_sha by blast
qed

text \<open>
  The root does not depend on history: two runs that leave the same leaves
  have the same root.
\<close>

lemma smt_root_history_independent:
  assumes "digest sha" "smt_run sha ops (smt_new sha) = Some t" "smt_run sha ops' (smt_new sha) = Some t'"
    and "fold (spec_step sha) ops Map.empty = fold (spec_step sha) ops' Map.empty"
  shows "smt_root t = smt_root t'"
  using smt_run_ok [OF assms(1) _ assms(2)] smt_run_ok [OF assms(1) _ assms(3)] smt_new_ok [of sha] assms(4)
    smt_root_of_abs [of sha t] smt_root_of_abs [of sha t']
  by simp

lemma smt_root_history_independent_witness:
  "\<exists>t. smt_run sample_sha [SmtPut [1] [9], SmtPut [1] [2]] (smt_new sample_sha) = Some t \<and>
    (\<exists>t'. smt_run sample_sha [SmtPut [1] [2]] (smt_new sample_sha) = Some t' \<and> smt_root t = smt_root t')"
proof -
  have "\<exists>t. smt_run sample_sha [SmtPut [1] [9], SmtPut [1] [2]] (smt_new sample_sha) = Some t"
    "\<exists>t'. smt_run sample_sha [SmtPut [1] [2]] (smt_new sample_sha) = Some t'"
    by (simp_all add: smt_insert_def smt_leaf_hash_def smt_leaf_bytes_def write_prefixed_def u32_try_from_def Let_def)
  moreover have "fold (spec_step sample_sha) [SmtPut [1] [9], SmtPut [1] [2]] Map.empty =
      fold (spec_step sample_sha) [SmtPut [1] [2]] Map.empty"
    by simp
  ultimately show ?thesis
    using smt_root_history_independent [of sample_sha "[SmtPut [1] [9], SmtPut [1] [2]]" _ "[SmtPut [1] [2]]"]
      length_sample_sha by metis
qed

text \<open>
  Proofs are complete: after an insert the tree yields a proof for the key,
  with 256 siblings, that verifies against the new root with the inserted value.
\<close>

lemma smt_proof_complete:
  assumes "digest sha" "smt_run sha ops (smt_new sha) = Some t0" "smt_insert sha t0 key val = Some t"
  shows "\<exists>s. proof_siblings sha t key = Some s \<and> length s = 256 \<and>
    verify_MerkleProof sha \<lparr> mp_key = key, mp_value = val, mp_siblings = s \<rparr> (smt_root t) = Some True"
proof -
  let ?p = "path_of sha key"
  have ok0: "smt_ok sha t0" using smt_run_ok [OF assms(1) _ assms(2)] smt_new_ok by blast
  obtain leaf where leaf: "smt_leaf_hash sha key val = Some leaf"
    and ok: "smt_ok sha t" and abs: "smt_abs t (bits_of ?p) = Some leaf"
    using smt_insert_ok [OF assms(1) ok0 assms(3)] by auto
  have len: "length ?p = 32" using assms(1) by (simp add: path_of_def)
  have present: "map_of (smt_leaves t) ?p = Some leaf"
    using smt_abs_bits [OF _ len, of t] ok abs by (simp add: smt_ok_def)
  have "fold_up sha ?p 256 (map (\<lambda>e. subtree_hash sha t (e + 1) (flip_path ?p e)) (rev [0..<256])) leaf = smt_root t"
    using fold_up_ok [OF len ok order_refl] smt_root_of_abs [OF ok] abs by simp
  with present leaf show ?thesis
    by (simp add: proof_siblings_def verify_MerkleProof_def DEPTH_def Let_def del: upt_rec_numeral)
qed

lemma smt_proof_complete_witness:
  "\<exists>t s. smt_insert sample_sha (smt_new sample_sha) [1] [2] = Some t \<and> proof_siblings sample_sha t [1] = Some s \<and>
    verify_MerkleProof sample_sha \<lparr> mp_key = [1], mp_value = [2], mp_siblings = s \<rparr> (smt_root t) = Some True"
proof -
  obtain t where t: "smt_insert sample_sha (smt_new sample_sha) [1] [2] = Some t"
    by (simp add: smt_insert_def smt_leaf_hash_def smt_leaf_bytes_def write_prefixed_def u32_try_from_def Let_def)
  from smt_proof_complete [of sample_sha "[]" "smt_new sample_sha", OF _ _ t] show ?thesis
    using t length_sample_sha by auto
qed

text \<open>
  Deleting a key that was absent before its insert restores the root, and
  deleting an absent key changes nothing and reports it.
\<close>

theorem smt_delete_undoes_insert:
  assumes "digest sha" "smt_run sha ops (smt_new sha) = Some t" "smt_delete sha t key = (t, False)"
    and "smt_insert sha t key val = Some t1"
  shows "\<exists>t2. smt_delete sha t1 key = (t2, True) \<and> smt_root t2 = smt_root t"
proof -
  have ok: "smt_ok sha t" using smt_run_ok [OF assms(1) _ assms(2)] smt_new_ok by blast
  have absent: "smt_abs t (bits_of (path_of sha key)) = None"
    using smt_delete_ok [OF assms(1) ok assms(3)] by simp
  have ins: "smt_ok sha t1" "smt_leaf_hash sha key val \<noteq> None"
      "smt_abs t1 = (smt_abs t)(bits_of (path_of sha key) := smt_leaf_hash sha key val)"
    using smt_insert_ok [OF assms(1) ok assms(4)] by simp_all
  obtain t2 b where del: "smt_delete sha t1 key = (t2, b)" by fastforce
  from smt_delete_ok [OF assms(1) ins(1) del] ins absent
  have "smt_ok sha t2" "smt_abs t2 = smt_abs t" "b"
    by (auto simp: fun_upd_idem)
  with del smt_root_of_abs [OF ok] smt_root_of_abs [of sha t2] show ?thesis by auto
qed

theorem smt_delete_undoes_insert_witness:
  "\<exists>t1 t2. smt_insert sample_sha (smt_new sample_sha) [1] [2] = Some t1 \<and>
    smt_delete sample_sha t1 [1] = (t2, True) \<and> smt_root t2 = smt_root (smt_new sample_sha)"
proof -
  obtain t where t: "smt_insert sample_sha (smt_new sample_sha) [1] [2] = Some t"
    by (simp add: smt_insert_def smt_leaf_hash_def smt_leaf_bytes_def write_prefixed_def u32_try_from_def Let_def)
  have "smt_delete sample_sha (smt_new sample_sha) [1] = (smt_new sample_sha, False)"
    by (simp add: smt_delete_def smt_new_def)
  from smt_delete_undoes_insert [of sample_sha "[]" "smt_new sample_sha", OF _ _ this t] show ?thesis
    using t length_sample_sha by auto
qed

text \<open>
  The wire format of state proofs: a byte string decodes to a proof exactly
  when it is the proof's encoding and the proof has 256 siblings of 32 bytes.
\<close>

theorem merkle_proof_codec:
  "decode_MerkleProof bs = Some p \<longleftrightarrow>
    encode_MerkleProof p = Some bs \<and> length (mp_siblings p) = 256 \<and> hashes32 (mp_siblings p)"
proof
  assume "decode_MerkleProof bs = Some p"
  then obtain b1 b2 n where b: "take_prefixed bs = Some (mp_key p, b1)" "take_prefixed b1 = Some (mp_value p, b2)"
    and n: "unat n = 256" "b2 = u32_be n @ concat (mp_siblings p)"
    and s: "length (mp_siblings p) = 256" "hashes32 (mp_siblings p)"
    by (auto simp: decode_MerkleProof_def DEPTH_def bind_eq_Some_conv take_field_eq_take_prefixed
        take_u32_Some_iff take_many_take_exact_Some_iff list_all_iff split: if_splits)
  have "encode_hashes (mp_siblings p) = Some b2"
    using n s by (auto simp: encode_hashes_def u32_try_from_Some bind_eq_Some_conv)
  with b s show "encode_MerkleProof p = Some bs \<and> length (mp_siblings p) = 256 \<and> hashes32 (mp_siblings p)"
    by (auto simp: encode_MerkleProof_def take_prefixed_Some_iff)
next
  assume a: "encode_MerkleProof p = Some bs \<and> length (mp_siblings p) = 256 \<and> hashes32 (mp_siblings p)"
  then obtain k v n where kv: "write_prefixed (mp_key p) = Some k" "write_prefixed (mp_value p) = Some v"
    and n: "u32_try_from 256 = Some n" and bs: "bs = k @ v @ u32_be n @ concat (mp_siblings p)"
    by (auto simp: encode_MerkleProof_def encode_hashes_def bind_eq_Some_conv)
  have "unat n = 256" using n by (simp add: u32_try_from_Some)
  moreover have "take_many 256 (take_exact 32) (concat (mp_siblings p)) = Some (mp_siblings p, [])"
    using a by (simp add: take_many_take_exact_Some_iff list_all_iff)
  ultimately show "decode_MerkleProof bs = Some p"
    using take_field_write [OF kv(1)] take_field_write [OF kv(2)]
    by (simp add: decode_MerkleProof_def bs DEPTH_def)
qed

end
