(* ===== verification/Store.thy ===== *)
theory Store
  imports Canonical
begin

section \<open>The key-value store\<close>

text \<open>
  The nodes keep their state in a Fjall keyspace, a third-party sorted key-value store.
  Its operations are the fields of the parameter \<open>keyspace_ops\<close> (\<open>None\<close> is a storage
  error), and what the program relies on is the locale \<open>keyspace\<close>: the documented meaning
  of insert, remove, get and ordered iteration. \<open>StateDb\<close>
  (\<^verbatim>\<open>executor/state/src/state_db.rs\<close>) is the database of three such keyspaces.
\<close>

record 'ks keyspace_ops =
  ks_get :: "'ks \<Rightarrow> bytes \<Rightarrow> bytes option option"
  ks_insert :: "'ks \<Rightarrow> bytes \<Rightarrow> bytes \<Rightarrow> 'ks option"
  ks_remove :: "'ks \<Rightarrow> bytes \<Rightarrow> 'ks option"
  ks_iter :: "'ks \<Rightarrow> (bytes \<times> bytes) list option"
  ks_commit :: "'ks \<Rightarrow> bytes list \<Rightarrow> 'ks option"

locale keyspace =
  fixes K :: "'ks keyspace_ops"
    and contents :: "'ks \<Rightarrow> bytes \<Rightarrow> bytes option"
  assumes get_contents: "ks_get K s k = Some r \<Longrightarrow> r = contents s k"
    and insert_contents: "ks_insert K s k v = Some s' \<Longrightarrow> contents s' = (contents s)(k \<mapsto> v)"
    and remove_contents: "ks_remove K s k = Some s' \<Longrightarrow> contents s' = (contents s)(k := None)"
    and iter_sorted: "ks_iter K s = Some xs \<Longrightarrow> bt_wf xs"
    and iter_contents: "ks_iter K s = Some xs \<Longrightarrow> map_of xs = contents s"
    and commit_contents: "ks_commit K s ks = Some s' \<Longrightarrow> contents s' = (contents s) |` (- set ks)"
begin

lemma iter_unique:
  assumes "ks_iter K s = Some xs" "ks_iter K s' = Some ys" "contents s = contents s'"
  shows "xs = ys"
  using assms iter_sorted iter_contents by (metis bt_eq_of_map_of)

end

text \<open>An instance: a sorted association list that never fails.\<close>

definition list_keyspace :: "(bytes, bytes) btmap keyspace_ops" where
  "list_keyspace = \<lparr>
     ks_get = (\<lambda>s k. Some (map_of (bt_of_list s) k)),
     ks_insert = (\<lambda>s k v. Some (bt_insert k v (bt_of_list s))),
     ks_remove = (\<lambda>s k. Some (bt_remove k (bt_of_list s))),
     ks_iter = (\<lambda>s. Some (bt_of_list s)),
     ks_commit = (\<lambda>s ks. Some (filter (\<lambda>p. fst p \<notin> set ks) (bt_of_list s))) \<rparr>"

lemma map_of_filter_keys: "map_of (filter (\<lambda>p. fst p \<notin> S) m) = (map_of m) |` (- S)"
  by (induction m) (auto simp: fun_eq_iff restrict_map_def)

interpretation list_ks: keyspace list_keyspace "\<lambda>s. map_of (bt_of_list s)"
  by unfold_locales (auto simp: list_keyspace_def map_of_filter_keys)

subsection \<open>The state database\<close>

record 'ks StateDb =
  db_state :: 'ks
  db_snap :: 'ks
  db_meta :: 'ks

datatype StateDbError = Io | CorruptWatermark nat

definition WATERMARK_KEY :: bytes where
  "WATERMARK_KEY = [0x6c, 0x61, 0x73, 0x74, 0x5f, 0x74, 0x69, 0x6d, 0x65, 0x73, 0x74, 0x61, 0x6d, 0x70]"

definition snapshot :: "'ks keyspace_ops \<Rightarrow> 'ks StateDb \<Rightarrow> u64 \<Rightarrow> bytes \<Rightarrow> ('ks StateDb, StateDbError) result" where
  "snapshot K db round bs =
     map_ok (\<lambda>s. db\<lparr> db_snap := s \<rparr>) (ok_or Io (ks_insert K (db_snap db) (u64_be round) bs))"

text \<open>\<open>persist_ok\<close> is the outcome of \<^verbatim>\<open>Database::persist\<close>; durability itself is not modelled.\<close>

definition snapshot_and_flush ::
    "'ks keyspace_ops \<Rightarrow> bool \<Rightarrow> 'ks StateDb \<Rightarrow> u64 \<Rightarrow> bytes \<Rightarrow> ('ks StateDb, StateDbError) result" where
  "snapshot_and_flush K persist_ok db round bs =
     andThen (snapshot K db round bs) (\<lambda>db. if persist_ok then Ok db else Err Io)"

definition snapshot_for :: "'ks keyspace_ops \<Rightarrow> 'ks StateDb \<Rightarrow> u64 \<Rightarrow> (bytes option, StateDbError) result" where
  "snapshot_for K db round = ok_or Io (ks_get K (db_snap db) (u64_be round))"

definition stale_snapshot_keys :: "u64 \<Rightarrow> (bytes \<times> bytes) list \<Rightarrow> bytes list" where
  "stale_snapshot_keys keep_from_round entries =
     filter (\<lambda>k. 8 \<le> length k \<and> be_u64 (take 8 k) < keep_from_round) (map fst entries)"

definition prune_snapshots_before ::
    "'ks keyspace_ops \<Rightarrow> 'ks StateDb \<Rightarrow> u64 \<Rightarrow> ('ks StateDb, StateDbError) result" where
  "prune_snapshots_before K db keep_from_round =
     andThen (ok_or Io (ks_iter K (db_snap db))) (\<lambda>entries.
       let batch = stale_snapshot_keys keep_from_round entries
       in if batch = [] then Ok db
          else map_ok (\<lambda>s. db\<lparr> db_snap := s \<rparr>) (ok_or Io (ks_commit K (db_snap db) batch)))"

definition clear_state :: "'ks keyspace_ops \<Rightarrow> 'ks StateDb \<Rightarrow> ('ks StateDb, StateDbError) result" where
  "clear_state K db =
     andThen (ok_or Io (ks_iter K (db_state db))) (\<lambda>entries.
       let batch = map fst entries
       in if batch = [] then Ok db
          else map_ok (\<lambda>s. db\<lparr> db_state := s \<rparr>) (ok_or Io (ks_commit K (db_state db) batch)))"

definition set_watermark :: "'ks keyspace_ops \<Rightarrow> 'ks StateDb \<Rightarrow> u64 \<Rightarrow> ('ks StateDb, StateDbError) result" where
  "set_watermark K db w =
     map_ok (\<lambda>s. db\<lparr> db_meta := s \<rparr>) (ok_or Io (ks_insert K (db_meta db) WATERMARK_KEY (u64_be w)))"

definition set_watermark_and_flush ::
    "'ks keyspace_ops \<Rightarrow> bool \<Rightarrow> 'ks StateDb \<Rightarrow> u64 \<Rightarrow> ('ks StateDb, StateDbError) result" where
  "set_watermark_and_flush K persist_ok db w =
     andThen (set_watermark K db w) (\<lambda>db. if persist_ok then Ok db else Err Io)"

definition watermark :: "'ks keyspace_ops \<Rightarrow> 'ks StateDb \<Rightarrow> (u64 option, StateDbError) result" where
  "watermark K db =
     andThen (ok_or Io (ks_get K (db_meta db) WATERMARK_KEY)) (\<lambda>v. case v of
       None \<Rightarrow> Ok None
     | Some bs \<Rightarrow>
         if bs = [] then Ok (Some 0)
         else if length bs \<noteq> 8 then Err (CorruptWatermark (length bs))
         else Ok (Some (be_u64 bs)))"

lemma stale_key_u64: "u64_be r \<in> set (stale_snapshot_keys k xs) \<longleftrightarrow> u64_be r \<in> fst ` set xs \<and> r < k"
  by (auto simp: stale_snapshot_keys_def)

context keyspace
begin

lemma snapshot_lookup:
  assumes "snapshot K db r bs = Ok db'"
  shows "contents (db_snap db') = (contents (db_snap db))(u64_be r \<mapsto> bs) \<and>
    db_state db' = db_state db \<and> db_meta db' = db_meta db"
  using assms insert_contents by (auto simp: snapshot_def)

lemma prune_snapshots_lookup:
  assumes "prune_snapshots_before K db k = Ok db'"
  shows "contents (db_snap db') (u64_be r) = (if r < k then None else contents (db_snap db) (u64_be r))"
proof -
  from assms obtain xs where xs: "ks_iter K (db_snap db) = Some xs"
    and r: "(let batch = stale_snapshot_keys k xs in if batch = [] then Ok db
      else map_ok (\<lambda>s. db\<lparr> db_snap := s \<rparr>) (ok_or Io (ks_commit K (db_snap db) batch))) = Ok db'"
    by (auto simp: prune_snapshots_before_def)
  have dom: "fst ` set xs = dom (contents (db_snap db))"
    using iter_contents [OF xs] by (metis dom_map_of_conv_image_fst)
  have "contents (db_snap db') = (contents (db_snap db)) |` (- set (stale_snapshot_keys k xs))"
    using r commit_contents by (auto simp: Let_def split: if_splits)
  then show ?thesis
    using stale_key_u64 [of r k xs] dom by (auto simp: restrict_map_def domIff)
qed

lemma clear_state_empty:
  assumes "clear_state K db = Ok db'"
  shows "contents (db_state db') = Map.empty \<and> db_snap db' = db_snap db \<and> db_meta db' = db_meta db"
proof -
  from assms obtain xs where xs: "ks_iter K (db_state db) = Some xs"
    and r: "(let batch = map fst xs in if batch = [] then Ok db
      else map_ok (\<lambda>s. db\<lparr> db_state := s \<rparr>) (ok_or Io (ks_commit K (db_state db) batch))) = Ok db'"
    by (auto simp: clear_state_def)
  have empty: "contents (db_state db) |` (- set (map fst xs)) = Map.empty"
    by (auto simp: fun_eq_iff restrict_map_def map_of_eq_None_iff simp flip: iter_contents [OF xs])
  show ?thesis
  proof (cases "map fst xs = []")
    case True
    with r iter_contents [OF xs] show ?thesis by simp
  next
    case False
    with r obtain s where "ks_commit K (db_state db) (map fst xs) = Some s" "db' = db\<lparr> db_state := s \<rparr>"
      by (auto simp: Let_def)
    with commit_contents empty show ?thesis by fastforce
  qed
qed

lemma watermark_after_set:
  assumes "set_watermark K db w = Ok db'" "watermark K db' = Ok v"
  shows "v = Some w"
proof -
  from assms(1) obtain s where "ks_insert K (db_meta db) WATERMARK_KEY (u64_be w) = Some s"
    and "db_meta db' = s"
    by (auto simp: set_watermark_def)
  then have c: "contents (db_meta db') WATERMARK_KEY = Some (u64_be w)"
    using insert_contents by simp
  have "u64_be w \<noteq> []" using length_u64_be [of w] by (metis length_0_conv zero_neq_numeral)
  with assms(2) c get_contents [of "db_meta db'" WATERMARK_KEY] show ?thesis
    by (auto simp: watermark_def split: option.splits if_splits)
qed

end

subsection \<open>Properties\<close>

text \<open>
  Snapshot retention: after a pruning every snapshot of a round at or above
  the bound is still there with its bytes, and none below it is; the live state and the
  watermark are untouched by taking a snapshot.
\<close>

theorem snapshot_retention:
  assumes "keyspace K contents"
  shows "(snapshot K db r bs = Ok db1 \<longrightarrow>
      contents (db_snap db1) = (contents (db_snap db))(u64_be r \<mapsto> bs) \<and>
      db_state db1 = db_state db \<and> db_meta db1 = db_meta db) \<and>
    (prune_snapshots_before K db k = Ok db2 \<longrightarrow>
      contents (db_snap db2) (u64_be q) = (if q < k then None else contents (db_snap db) (u64_be q)))"
  using keyspace.snapshot_lookup [OF assms] keyspace.prune_snapshots_lookup [OF assms] by blast

theorem snapshot_retention_witness:
  "let db = \<lparr> db_state = [], db_snap = [(u64_be 3, [7]), (u64_be 5, [8])], db_meta = [] \<rparr>;
       look = (\<lambda>d r. map_of (bt_of_list (db_snap d)) (u64_be r))
   in \<exists>d. prune_snapshots_before list_keyspace db 4 = Ok d \<and>
        look d 5 = look db 5 \<and> look d 3 = None"
proof -
  let ?db = "\<lparr> db_state = [], db_snap = [(u64_be 3, [7]), (u64_be 5, [8])], db_meta = [] \<rparr>"
  have "\<exists>d. prune_snapshots_before list_keyspace ?db 4 = Ok d"
    by (simp add: prune_snapshots_before_def list_keyspace_def Let_def)
  then obtain d where d: "prune_snapshots_before list_keyspace ?db 4 = Ok d" ..
  from snapshot_retention [OF list_ks.keyspace_axioms, of ?db 0 "[]" ?db 4 d 5]
    snapshot_retention [OF list_ks.keyspace_axioms, of ?db 0 "[]" ?db 4 d 3]
  show ?thesis using d by (simp add: Let_def word_less_nat_alt)
qed

end
