(* ===== verification/KvState.thy ===== *)
theory KvState
  imports SparseMerkle Store
begin

section \<open>Key-value operations and the executor's state\<close>

text \<open>
  \<^verbatim>\<open>executor/state/src/op.rs\<close> (the pure key-value part) and \<^verbatim>\<open>state.rs\<close>: the state is a
  keyspace together with the Merkle tree over it. The invariant \<open>state_ok\<close> ties the two:
  the tree holds exactly the leaf hashes of the stored pairs, so its root is a function of
  the stored pairs.
\<close>

datatype ExecutorError =
    EmptyPayload
  | Truncated
  | UnknownOpcode u8
  | TrailingBytes
  | MalformedMembershipOp
  | MalformedDidOp
  | MalformedSubActorOp
  | MalformedRebindOp
  | InvalidDid
  | ReservedKeyPrefix u8
  | UnsupportedDidDocumentVersion u8
  | UnknownVerificationMethodType u8
  | NoSigningMethod
  | UnknownActorIdVariant u8
  | UnknownActorTag u8
  | ActorIndexOutOfRange u32
  | ExpectedSubActor

subsection \<open>Operations\<close>

datatype Op = Put (op_key: bytes) bytes | Delete (op_key: bytes)

text \<open>The reserved first bytes of DID keys and of actor keys.\<close>

definition RESERVED_DID_PREFIX :: u8 where "RESERVED_DID_PREFIX = 0xD1"
definition RESERVED_ACTOR_PREFIX :: u8 where "RESERVED_ACTOR_PREFIX = 0xA1"

definition take_bytes :: "bytes \<Rightarrow> (bytes \<times> bytes, ExecutorError) result" where
  "take_bytes c = ok_or Truncated (take_prefixed c)"

definition reject_trailing :: "bytes \<Rightarrow> (unit, ExecutorError) result" where
  "reject_trailing c = (if c = [] then Ok () else Err TrailingBytes)"

definition reject_reserved_prefix :: "bytes \<Rightarrow> (unit, ExecutorError) result" where
  "reject_reserved_prefix key = (case key of
     [] \<Rightarrow> Ok ()
   | b # _ \<Rightarrow>
       if b = RESERVED_DID_PREFIX then Err (ReservedKeyPrefix RESERVED_DID_PREFIX)
       else if b = RESERVED_ACTOR_PREFIX then Err (ReservedKeyPrefix RESERVED_ACTOR_PREFIX)
       else Ok ())"

definition decode_put :: "bytes \<Rightarrow> (Op, ExecutorError) result" where
  "decode_put c =
     andThen (take_bytes c) (\<lambda>(key, c).
     andThen (reject_reserved_prefix key) (\<lambda>_.
     andThen (take_bytes c) (\<lambda>(val, c).
     andThen (reject_trailing c) (\<lambda>_. Ok (Put key val)))))"

definition decode_delete :: "bytes \<Rightarrow> (Op, ExecutorError) result" where
  "decode_delete c =
     andThen (take_bytes c) (\<lambda>(key, c).
     andThen (reject_reserved_prefix key) (\<lambda>_.
     andThen (reject_trailing c) (\<lambda>_. Ok (Delete key))))"

definition decode_Op :: "bytes \<Rightarrow> (Op, ExecutorError) result" where
  "decode_Op pl = (case pl of
     [] \<Rightarrow> Err EmptyPayload
   | opcode # c \<Rightarrow>
       if opcode = 0x00 then decode_put c
       else if opcode = 0x01 then decode_delete c
       else Err (UnknownOpcode opcode))"

text \<open>The encoder; \<open>None\<close> is the panic on a field over 4 GiB.\<close>

primrec encode_Op :: "Op \<Rightarrow> bytes option" where
  "encode_Op (Put key val) = do {
     k \<leftarrow> write_prefixed key; v \<leftarrow> write_prefixed val; Some (0x00 # k @ v) }"
| "encode_Op (Delete key) = do { k \<leftarrow> write_prefixed key; Some (0x01 # k) }"

definition reserved_key :: "bytes \<Rightarrow> bool" where
  "reserved_key key \<longleftrightarrow> key \<noteq> [] \<and> (hd key = RESERVED_DID_PREFIX \<or> hd key = RESERVED_ACTOR_PREFIX)"

lemma reject_reserved_Ok_iff [simp]: "reject_reserved_prefix key = Ok u \<longleftrightarrow> \<not> reserved_key key"
  by (cases key) (auto simp: reject_reserved_prefix_def reserved_key_def)

lemma reject_trailing_Ok_iff [simp]: "reject_trailing c = Ok u \<longleftrightarrow> c = []"
  by (auto simp: reject_trailing_def)

lemma take_bytes_Ok_iff: "take_bytes c = Ok (b, rest) \<longleftrightarrow> (\<exists>w. write_prefixed b = Some w \<and> c = w @ rest)"
  by (simp add: take_bytes_def take_prefixed_Some_iff)

lemma decode_put_Ok_iff:
  "decode_put c = Ok op \<longleftrightarrow> (\<exists>k v kb vb. op = Put k v \<and> \<not> reserved_key k \<and>
    write_prefixed k = Some kb \<and> write_prefixed v = Some vb \<and> c = kb @ vb)"
  by (auto simp: decode_put_def take_bytes_Ok_iff)

lemma decode_delete_Ok_iff:
  "decode_delete c = Ok op \<longleftrightarrow> (\<exists>k. op = Delete k \<and> \<not> reserved_key k \<and> write_prefixed k = Some c)"
  by (auto simp: decode_delete_def take_bytes_Ok_iff)

subsection \<open>The state\<close>

record 'ks State =
  kv :: 'ks
  tree :: SparseMerkleTree

definition state_new :: "hash_fn \<Rightarrow> 'ks \<Rightarrow> 'ks State" where
  "state_new sha ks = \<lparr> kv = ks, tree = smt_new sha \<rparr>"

definition state_get :: "'ks keyspace_ops \<Rightarrow> 'ks State \<Rightarrow> bytes \<Rightarrow> bytes option" where
  "state_get K st key = case_option None id (ks_get K (kv st) key)"

definition state_contains :: "'ks keyspace_ops \<Rightarrow> 'ks State \<Rightarrow> bytes \<Rightarrow> bool" where
  "state_contains K st key \<longleftrightarrow> state_get K st key \<noteq> None"

definition state_root :: "'ks State \<Rightarrow> bytes" where
  "state_root st = smt_root (tree st)"

definition state_proof :: "'ks keyspace_ops \<Rightarrow> hash_fn \<Rightarrow> 'ks State \<Rightarrow> bytes \<Rightarrow> MerkleProof option" where
  "state_proof K sha st key = do {
     v \<leftarrow> state_get K st key;
     s \<leftarrow> proof_siblings sha (tree st) key;
     Some \<lparr> mp_key = key, mp_value = v, mp_siblings = s \<rparr> }"

fun state_apply :: "'ks keyspace_ops \<Rightarrow> hash_fn \<Rightarrow> 'ks State \<Rightarrow> Op \<Rightarrow> ('ks State, StateDbError) result" where
  "state_apply K sha st (Put key val) =
     andThen (ok_or Io (ks_insert K (kv st) key val)) (\<lambda>ks.
     andThen (ok_or_panic (smt_insert sha (tree st) key val)) (\<lambda>t.
     Ok (st\<lparr> kv := ks, tree := t \<rparr>)))"
| "state_apply K sha st (Delete key) =
     andThen (ok_or Io (ks_remove K (kv st) key)) (\<lambda>ks.
     Ok (st\<lparr> kv := ks, tree := fst (smt_delete sha (tree st) key) \<rparr>))"

subsection \<open>Canonical bytes\<close>

definition pair_bytes :: "bytes \<times> bytes \<Rightarrow> bytes option" where
  "pair_bytes = (\<lambda>(k, v). do { kb \<leftarrow> write_prefixed k; vb \<leftarrow> write_prefixed v; Some (kb @ vb) })"

definition state_to_bytes :: "'ks keyspace_ops \<Rightarrow> 'ks State \<Rightarrow> (bytes, StateDbError) result" where
  "state_to_bytes K st =
     andThen (ok_or Io (ks_iter K (kv st))) (\<lambda>entries.
     map_ok concat (ok_or_panic (those (map pair_bytes entries))))"

definition take_pair :: "bytes \<Rightarrow> ((bytes \<times> bytes) \<times> bytes) option" where
  "take_pair c = do { (k, c) \<leftarrow> take_prefixed c; (v, c) \<leftarrow> take_prefixed c; Some ((k, v), c) }"

lemma take_pair_shorter: "take_pair c = Some (p, rest) \<Longrightarrow> length rest < length c"
  by (auto simp: take_pair_def take_prefixed_def take_exact_def usize_checked_add_def bind_eq_Some_conv
      split: if_splits)

text \<open>
  The parsing loop of \<^verbatim>\<open>from_bytes\<close> and \<^verbatim>\<open>root_of_bytes\<close>: pairs in strictly ascending key
  order, each handed to \<open>step\<close>, which may fail.
\<close>

function parse_pairs :: "(bytes \<Rightarrow> bytes \<Rightarrow> 's \<Rightarrow> 's option) \<Rightarrow> bytes option \<Rightarrow> bytes \<Rightarrow> 's \<Rightarrow> 's option" where
  "parse_pairs step prev_key c s =
     (if c = [] then Some s
      else case take_pair c of
        None \<Rightarrow> None
      | Some ((key, val), rest) \<Rightarrow>
          if (case prev_key of None \<Rightarrow> False | Some prev \<Rightarrow> key \<le> prev) then None
          else (case step key val s of None \<Rightarrow> None | Some s' \<Rightarrow> parse_pairs step (Some key) rest s'))"
  by pat_completeness auto
termination
  by (relation "measure (\<lambda>(_, _, c, _). length c)") (auto simp: take_pair_shorter)

declare parse_pairs.simps [simp del]

definition state_from_bytes :: "'ks keyspace_ops \<Rightarrow> hash_fn \<Rightarrow> 'ks \<Rightarrow> bytes \<Rightarrow> 'ks State option" where
  "state_from_bytes K sha ks bs =
     parse_pairs (\<lambda>key val st. do {
         ks \<leftarrow> ks_insert K (kv st) key val;
         t \<leftarrow> smt_insert sha (tree st) key val;
         Some (st\<lparr> kv := ks, tree := t \<rparr>) })
       None bs (state_new sha ks)"

definition root_of_bytes :: "hash_fn \<Rightarrow> bytes \<Rightarrow> bytes option" where
  "root_of_bytes sha bs =
     map_option smt_root (parse_pairs (\<lambda>key val t. smt_insert sha t key val) None bs (smt_new sha))"

lemma pair_bytes_codec:
  "pair_bytes p = Some b \<Longrightarrow> take_pair (b @ rest) = Some (p, rest) \<and> b \<noteq> []"
proof -
  assume "pair_bytes p = Some b"
  then obtain k v kb vb where p: "p = (k, v)" "write_prefixed k = Some kb" "write_prefixed v = Some vb" "b = kb @ vb"
    by (cases p) (auto simp: pair_bytes_def bind_eq_Some_conv)
  then have "length kb \<ge> 4" by (auto simp: write_prefixed_Some_iff)
  with p show ?thesis
    using take_prefixed_write [OF p(2)] take_prefixed_write [OF p(3)] by (auto simp: take_pair_def)
qed

interpretation pair_codec: codec pair_bytes take_pair "\<lambda>_. True"
  by unfold_locales (simp add: pair_bytes_codec)

text \<open>Parsing what was written is a fold over the entries.\<close>

primrec fold_opt :: "(bytes \<Rightarrow> bytes \<Rightarrow> 's \<Rightarrow> 's option) \<Rightarrow> (bytes \<times> bytes) list \<Rightarrow> 's \<Rightarrow> 's option" where
  "fold_opt step [] s = Some s"
| "fold_opt step (p # ps) s = do { s \<leftarrow> step (fst p) (snd p) s; fold_opt step ps s }"

lemma parse_pairs_written:
  assumes "those (map pair_bytes ps) = Some bss" "bt_wf ps"
    and "\<forall>k. prev = Some k \<longrightarrow> (\<forall>p \<in> set ps. k < fst p)"
  shows "parse_pairs step prev (concat bss) s = fold_opt step ps s"
  using assms
proof (induction ps arbitrary: bss prev s)
  case Nil
  then show ?case by (simp add: parse_pairs.simps)
next
  case (Cons p ps)
  then obtain b bs where b: "bss = b # bs" "pair_bytes p = Some b" "those (map pair_bytes ps) = Some bs"
    by (auto split: option.splits)
  have take: "take_pair (b @ concat bs) = Some (p, concat bs)" "b \<noteq> []"
    using pair_bytes_codec [OF b(2), of "concat bs"] by simp_all
  have asc: "\<not> (case prev of None \<Rightarrow> False | Some q \<Rightarrow> fst p \<le> q)"
    using Cons.prems(3) by (auto simp: not_le split: option.splits)
  have "parse_pairs step (Some (fst p)) (concat bs) s' = fold_opt step ps s'" for s'
    using Cons.prems(2) b(3) by (intro Cons.IH) (auto simp: bt_wf_Cons)
  with take asc show ?case
    by (cases p) (simp add: b(1) parse_pairs.simps [of step prev] split: option.splits)
qed

subsection \<open>The tree matches the stored pairs\<close>

definition tree_matches :: "hash_fn \<Rightarrow> (bytes \<Rightarrow> bytes option) \<Rightarrow> (bool list \<Rightarrow> bytes option) \<Rightarrow> bool" where
  "tree_matches sha m L \<longleftrightarrow>
     (\<forall>k v. m k = Some v \<longrightarrow> smt_leaf_hash sha k v \<noteq> None \<and> L (bits_of (path_of sha k)) = smt_leaf_hash sha k v) \<and>
     (\<forall>b. L b \<noteq> None \<longrightarrow> (\<exists>k \<in> dom m. b = bits_of (path_of sha k)))"

lemma path_inject:
  "digest sha \<Longrightarrow> inj_on sha X \<Longrightarrow> k \<in> X \<Longrightarrow> k' \<in> X \<Longrightarrow>
    bits_of (path_of sha k) = bits_of (path_of sha k') \<longleftrightarrow> k = k'"
  unfolding path_of_def using bits_of_inject [of "sha k" "sha k'"] by (auto dest: inj_onD)

lemma tree_matches_empty: "tree_matches sha Map.empty Map.empty"
  by (simp add: tree_matches_def)

lemma tree_matches_put:
  assumes "digest sha" "inj_on sha X" "k \<in> X" "dom m \<subseteq> X" "tree_matches sha m L"
    and "smt_leaf_hash sha k v \<noteq> None"
  shows "tree_matches sha (m(k \<mapsto> v)) (L(bits_of (path_of sha k) := smt_leaf_hash sha k v))"
  unfolding tree_matches_def
proof (intro conjI allI impI)
  fix k' v' assume "(m(k \<mapsto> v)) k' = Some v'"
  then show "smt_leaf_hash sha k' v' \<noteq> None"
    "(L(bits_of (path_of sha k) := smt_leaf_hash sha k v)) (bits_of (path_of sha k')) = smt_leaf_hash sha k' v'"
    using assms path_inject [OF assms(1,2), of k k'] unfolding tree_matches_def
    by (fastforce split: if_splits)+
next
  fix b assume "(L(bits_of (path_of sha k) := smt_leaf_hash sha k v)) b \<noteq> None"
  then show "\<exists>k' \<in> dom (m(k \<mapsto> v)). b = bits_of (path_of sha k')"
    using assms(5) by (auto simp: tree_matches_def split: if_splits)
qed

lemma tree_matches_delete:
  assumes "digest sha" "inj_on sha X" "k \<in> X" "dom m \<subseteq> X" "tree_matches sha m L"
  shows "tree_matches sha (m(k := None)) (L(bits_of (path_of sha k) := None))"
  unfolding tree_matches_def
proof (intro conjI allI impI)
  fix k' v' assume "(m(k := None)) k' = Some v'"
  then show "smt_leaf_hash sha k' v' \<noteq> None"
    "(L(bits_of (path_of sha k) := None)) (bits_of (path_of sha k')) = smt_leaf_hash sha k' v'"
    using assms path_inject [OF assms(1,2), of k k'] unfolding tree_matches_def
    by (fastforce split: if_splits)+
next
  fix b assume b: "(L(bits_of (path_of sha k) := None)) b \<noteq> None"
  then have "L b \<noteq> None" by (simp split: if_splits)
  then obtain k' where "k' \<in> dom m" "b = bits_of (path_of sha k')"
    using assms(5) unfolding tree_matches_def by blast
  with b show "\<exists>k' \<in> dom (m(k := None)). b = bits_of (path_of sha k')"
    by (auto split: if_splits)
qed

lemma tree_matches_unique:
  assumes "tree_matches sha m L" "tree_matches sha m L'"
  shows "L = L'"
proof
  fix b
  show "L b = L' b"
  proof (cases "\<exists>k v. m k = Some v \<and> b = bits_of (path_of sha k)")
    case True
    with assms show ?thesis unfolding tree_matches_def by metis
  next
    case False
    with assms show ?thesis unfolding tree_matches_def by (metis domD)
  qed
qed

definition state_ok :: "('ks \<Rightarrow> bytes \<Rightarrow> bytes option) \<Rightarrow> hash_fn \<Rightarrow> 'ks State \<Rightarrow> bool" where
  "state_ok contents sha st \<longleftrightarrow> smt_ok sha (tree st) \<and> tree_matches sha (contents (kv st)) (smt_abs (tree st))"

lemma state_ok_new: "contents ks = Map.empty \<Longrightarrow> state_ok contents sha (state_new sha ks)"
  using smt_new_ok [of sha] by (simp add: state_ok_def state_new_def tree_matches_empty)

lemma state_ok_root:
  "state_ok contents sha st \<Longrightarrow> state_ok contents sha st' \<Longrightarrow> contents (kv st) = contents (kv st') \<Longrightarrow>
    state_root st = state_root st'"
  unfolding state_ok_def state_root_def by (metis smt_root_of_abs tree_matches_unique)

fun op_effect :: "Op \<Rightarrow> (bytes \<Rightarrow> bytes option) \<Rightarrow> bytes \<Rightarrow> bytes option" where
  "op_effect (Put k v) m = m(k \<mapsto> v)"
| "op_effect (Delete k) m = m(k := None)"

text \<open>A run of operations on a state, stopping at the first failure.\<close>

primrec state_run :: "'ks keyspace_ops \<Rightarrow> hash_fn \<Rightarrow> Op list \<Rightarrow> 'ks State \<Rightarrow> ('ks State, StateDbError) result" where
  "state_run K sha [] st = Ok st"
| "state_run K sha (op # ops) st = andThen (state_apply K sha st op) (state_run K sha ops)"

lemma dom_op_effect: "dom (op_effect op m) \<subseteq> insert (op_key op) (dom m)"
  by (cases op) auto

lemma tree_fold_ok:
  assumes "digest sha" "inj_on sha X" "fst ` set ps \<subseteq> X" "those (map pair_bytes ps) = Some bss"
    and "dom m \<subseteq> X" "smt_ok sha t" "tree_matches sha m (smt_abs t)"
  shows "\<exists>t'. fold_opt (\<lambda>key val t. smt_insert sha t key val) ps t = Some t' \<and> smt_ok sha t' \<and>
    tree_matches sha (m ++ map_of (rev ps)) (smt_abs t')"
  using assms(3-7)
proof (induction ps arbitrary: bss m t)
  case Nil
  then show ?case by simp
next
  case (Cons p ps)
  obtain k v where p: "p = (k, v)" by (cases p)
  from Cons.prems(2) obtain bs where bs: "those (map pair_bytes ps) = Some bs" "pair_bytes p \<noteq> None"
    by (auto split: option.splits)
  then obtain t1 where t1: "smt_insert sha t k v = Some t1"
    by (auto simp: p pair_bytes_def smt_insert_def smt_leaf_hash_def smt_leaf_bytes_def bind_eq_Some_conv Let_def)
  have ins: "smt_ok sha t1" "smt_leaf_hash sha k v \<noteq> None"
      "smt_abs t1 = (smt_abs t)(bits_of (path_of sha k) := smt_leaf_hash sha k v)"
    using smt_insert_ok [OF assms(1) Cons.prems(4) t1] by simp_all
  have "tree_matches sha (m(k \<mapsto> v)) (smt_abs t1)"
    using tree_matches_put [OF assms(1,2) _ Cons.prems(3,5) ins(2)] Cons.prems(1) ins(3) p by simp
  moreover have "dom (m(k \<mapsto> v)) \<subseteq> X" using Cons.prems(1,3) p by auto
  ultimately show ?case
    using Cons.IH [OF _ bs(1) _ ins(1), of "m(k \<mapsto> v)"] Cons.prems(1) t1
    by (simp add: p map_add_upd_left map_add_assoc [symmetric] del: fun_upd_apply)
qed

context keyspace
begin

lemma state_get_contents: "state_get K st k = Some v \<Longrightarrow> contents (kv st) k = Some v"
  using get_contents by (fastforce simp: state_get_def split: option.splits)

lemma state_apply_ok:
  assumes "digest sha" "inj_on sha X" "op_key op \<in> X" "dom (contents (kv st)) \<subseteq> X"
    and "state_ok contents sha st" "state_apply K sha st op = Ok st'"
  shows "state_ok contents sha st' \<and> contents (kv st') = op_effect op (contents (kv st))"
proof (cases op)
  case (Put k v)
  with assms(6) obtain ks t where "ks_insert K (kv st) k v = Some ks"
    and t: "smt_insert sha (tree st) k v = Some t" and st': "st' = st\<lparr> kv := ks, tree := t \<rparr>"
    by auto
  then have c: "contents (kv st') = (contents (kv st))(k \<mapsto> v)" using insert_contents by simp
  have ok: "smt_ok sha (tree st)" "tree_matches sha (contents (kv st)) (smt_abs (tree st))"
    using assms(5) by (simp_all add: state_ok_def)
  from smt_insert_ok [OF assms(1) ok(1) t]
    tree_matches_put [OF assms(1,2) _ assms(4) ok(2), of k v] assms(3) Put c
  show ?thesis by (simp add: state_ok_def st')
next
  case (Delete k)
  with assms(6) obtain ks where "ks_remove K (kv st) k = Some ks"
    and st': "st' = st\<lparr> kv := ks, tree := fst (smt_delete sha (tree st) k) \<rparr>"
    by auto
  then have c: "contents (kv st') = (contents (kv st))(k := None)" using remove_contents by simp
  obtain t b where t: "smt_delete sha (tree st) k = (t, b)" by fastforce
  have ok: "smt_ok sha (tree st)" "tree_matches sha (contents (kv st)) (smt_abs (tree st))"
    using assms(5) by (simp_all add: state_ok_def)
  from smt_delete_ok [OF assms(1) ok(1) t] tree_matches_delete [OF assms(1,2) _ assms(4) ok(2), of k] assms(3) Delete c
  show ?thesis by (simp add: state_ok_def st' t)
qed

lemma state_run_ok:
  assumes "digest sha" "inj_on sha X" "op_key ` set ops \<subseteq> X" "dom (contents (kv st)) \<subseteq> X"
    and "state_ok contents sha st" "state_run K sha ops st = Ok st'"
  shows "state_ok contents sha st' \<and> contents (kv st') = fold op_effect ops (contents (kv st)) \<and>
    dom (contents (kv st')) \<subseteq> X"
  using assms(3-6)
proof (induction ops arbitrary: st)
  case Nil
  then show ?case by simp
next
  case (Cons op ops)
  then obtain st1 where st1: "state_apply K sha st op = Ok st1" "state_run K sha ops st1 = Ok st'"
    by auto
  from state_apply_ok [OF assms(1,2) _ Cons.prems(2,3) st1(1)] Cons.prems(1)
  have ok: "state_ok contents sha st1" "contents (kv st1) = op_effect op (contents (kv st))" by auto
  have "dom (contents (kv st1)) \<subseteq> X"
    using dom_op_effect [of op "contents (kv st)"] ok(2) Cons.prems(1,2) by auto
  with Cons.IH [OF _ _ ok(1) st1(2)] Cons.prems(1) ok(2) show ?case by auto
qed

text \<open>Restoring a snapshot inserts its pairs one by one.\<close>

lemma restore_fold_ok:
  assumes "digest sha" "inj_on sha X" "fst ` set ps \<subseteq> X" "dom (contents (kv st)) \<subseteq> X"
    and "state_ok contents sha st"
    and "fold_opt (\<lambda>key val st. do {
         ks \<leftarrow> ks_insert K (kv st) key val;
         t \<leftarrow> smt_insert sha (tree st) key val;
         Some (st\<lparr> kv := ks, tree := t \<rparr>) }) ps st = Some st'"
  shows "state_ok contents sha st' \<and> contents (kv st') = contents (kv st) ++ map_of (rev ps)"
proof -
  have run: "state_run K sha (map (\<lambda>(k, v). Put k v) ps) st = Ok st'"
    using assms(6) by (induction ps arbitrary: st) (auto simp: bind_eq_Some_conv)
  have keys: "op_key ` set (map (\<lambda>(k, v). Put k v) ps) \<subseteq> X" using assms(3) by auto
  have eff: "fold op_effect (map (\<lambda>(k, v). Put k v) ps) m = m ++ map_of (rev ps)" for m
    by (induction ps arbitrary: m) (auto simp: map_add_upd_left map_add_assoc [symmetric])
  from state_run_ok [OF assms(1,2) keys assms(4,5) run] show ?thesis
    unfolding eff by blast
qed

lemma state_runs_agree:
  assumes "digest sha" "inj_on sha (op_key ` (set ops \<union> set ops'))"
    and "contents ks = Map.empty" "contents ks' = Map.empty"
    and "state_run K sha ops (state_new sha ks) = Ok st" "state_run K sha ops' (state_new sha ks') = Ok st'"
    and "fold op_effect ops Map.empty = fold op_effect ops' Map.empty"
  shows "state_root st = state_root st' \<and>
    (\<forall>bs bs'. state_to_bytes K st = Ok bs \<longrightarrow> state_to_bytes K st' = Ok bs' \<longrightarrow> bs = bs')"
proof -
  have new: "contents (kv (state_new sha k)) = contents k" for k by (simp add: state_new_def)
  have ok: "state_ok contents sha st" "contents (kv st) = fold op_effect ops Map.empty"
    using state_run_ok [OF assms(1,2) _ _ state_ok_new [of contents ks sha, OF assms(3)] assms(5)] by (auto simp: new assms(3))
  have ok': "state_ok contents sha st'" "contents (kv st') = fold op_effect ops' Map.empty"
    using state_run_ok [OF assms(1,2) _ _ state_ok_new [of contents ks' sha, OF assms(4)] assms(6)] by (auto simp: new assms(4))
  have eq: "contents (kv st) = contents (kv st')" using ok(2) ok'(2) assms(7) by simp
  show ?thesis
    using state_ok_root [of contents sha st st'] ok(1) ok'(1) eq iter_unique [of "kv st" _ "kv st'"]
    by (fastforce simp: state_to_bytes_def)
qed

lemma snapshot_restores:
  assumes "digest sha" "inj_on sha (op_key ` set ops)" "contents ks = Map.empty"
    and "state_run K sha ops (state_new sha ks) = Ok st" "state_to_bytes K st = Ok bs"
  shows "root_of_bytes sha bs = Some (state_root st) \<and>
    (\<forall>ks' st'. contents ks' = Map.empty \<longrightarrow> state_from_bytes K sha ks' bs = Some st' \<longrightarrow>
      contents (kv st') = contents (kv st) \<and> state_root st' = state_root st)"
proof -
  let ?X = "op_key ` set ops"
  have st: "state_ok contents sha st" "dom (contents (kv st)) \<subseteq> ?X"
    using state_run_ok [OF assms(1,2) _ _ state_ok_new [of contents ks sha, OF assms(3)] assms(4)]
    by (auto simp: state_new_def assms(3))
  from assms(5) obtain ps bss where ps: "ks_iter K (kv st) = Some ps"
    and bss: "those (map pair_bytes ps) = Some bss" and bs: "bs = concat bss"
    by (auto simp: state_to_bytes_def)
  have wf: "bt_wf ps" and c: "map_of ps = contents (kv st)"
    using iter_sorted [OF ps] iter_contents [OF ps] by auto
  have keys: "fst ` set ps \<subseteq> ?X" using c st(2) by (metis dom_map_of_conv_image_fst)
  have rev: "map_of (rev ps) = map_of ps"
    using map_of_inject_set [of "rev ps" ps] bt_wf_hm_wf [OF wf] by (simp add: rev_map [symmetric])
  have parse: "parse_pairs step None bs s = fold_opt step ps s" for step :: "bytes \<Rightarrow> bytes \<Rightarrow> 's \<Rightarrow> 's option" and s
    unfolding bs by (rule parse_pairs_written [OF bss wf]) simp
  show ?thesis
  proof (intro conjI allI impI)
    from tree_fold_ok [OF assms(1,2) keys bss, of Map.empty "smt_new sha"] smt_new_ok [of sha]
    obtain t where t: "fold_opt (\<lambda>key val t. smt_insert sha t key val) ps (smt_new sha) = Some t"
      "smt_ok sha t" "tree_matches sha (map_of (rev ps)) (smt_abs t)"
      by (auto simp: tree_matches_empty)
    then have "smt_abs t = smt_abs (tree st)"
      using st(1) rev c by (intro tree_matches_unique) (auto simp: state_ok_def)
    with t st(1) show "root_of_bytes sha bs = Some (state_root st)"
      unfolding root_of_bytes_def parse
      using smt_root_of_abs [of sha t] smt_root_of_abs [of sha "tree st"]
      by (simp add: state_root_def state_ok_def)
  next
    fix ks' st' assume ks': "contents ks' = Map.empty" and rest: "state_from_bytes K sha ks' bs = Some st'"
    have "dom (contents (kv (state_new sha ks'))) \<subseteq> ?X" by (simp add: state_new_def ks')
    from restore_fold_ok [OF assms(1,2) keys this state_ok_new [of contents ks' sha, OF ks']] rest
    have ok': "state_ok contents sha st'" "contents (kv st') = contents ks' ++ map_of (rev ps)"
      unfolding state_from_bytes_def parse by (auto simp: state_new_def)
    then show "contents (kv st') = contents (kv st)" by (simp add: ks' rev c)
    with state_ok_root [OF ok'(1) st(1)] show "state_root st' = state_root st" by simp
  qed
qed

end

text \<open>With the list instance every operation with short fields succeeds.\<close>

fun op_short :: "Op \<Rightarrow> bool" where
  "op_short (Put k v) \<longleftrightarrow> length k < 2 ^ 32 \<and> length v < 2 ^ 32"
| "op_short (Delete k) \<longleftrightarrow> True"

lemma smt_insert_total:
  "length k < 2 ^ 32 \<Longrightarrow> length v < 2 ^ 32 \<Longrightarrow> \<exists>t'. smt_insert sha t k v = Some t'"
  by (simp add: smt_insert_def smt_leaf_hash_def smt_leaf_bytes_def write_prefixed_def u32_try_from_def Let_def)

lemma state_run_total:
  "list_all op_short ops \<Longrightarrow> \<exists>st'. state_run list_keyspace sha ops st = Ok st'"
proof (induction ops arbitrary: st)
  case (Cons op ops)
  have "\<exists>st1. state_apply list_keyspace sha st op = Ok st1"
    using Cons.prems smt_insert_total [of _ _ sha "tree st"] by (cases op) (auto simp: list_keyspace_def)
  with Cons show ?case by auto
qed simp

subsection \<open>Properties\<close>

text \<open>
  The key-value wire format: a payload decodes to an operation exactly when
  it is the operation's encoding and the key does not start with a reserved byte. So a
  generic \<^verbatim>\<open>Put\<close> or \<^verbatim>\<open>Delete\<close> can never touch a DID or actor record, and the documented
  \<^verbatim>\<open>decode(&op.encode()) == Ok(op)\<close> holds for the unreserved keys only.
\<close>

lemma op_codec:
  "decode_Op bs = Ok op \<longleftrightarrow> encode_Op op = Some bs \<and> \<not> reserved_key (op_key op)"
  by (cases op)
    (auto simp: decode_Op_def decode_put_Ok_iff decode_delete_Ok_iff bind_eq_Some_conv
      split: list.splits if_splits)

text \<open>
  Property C32. The state root is a commitment to the contents: any two runs of operations
  from empty keyspaces that leave the same key-value pairs leave the same root and the
  same canonical bytes, whatever their order and intermediate values, provided the keys in
  play have distinct digests.
\<close>

theorem state_root_determined:
  assumes "keyspace K contents" "digest sha" "inj_on sha (op_key ` (set ops \<union> set ops'))"
    and "contents ks = Map.empty" "contents ks' = Map.empty"
    and "state_run K sha ops (state_new sha ks) = Ok st" "state_run K sha ops' (state_new sha ks') = Ok st'"
    and "fold op_effect ops Map.empty = fold op_effect ops' Map.empty"
  shows "state_root st = state_root st' \<and>
    (\<forall>bs bs'. state_to_bytes K st = Ok bs \<longrightarrow> state_to_bytes K st' = Ok bs' \<longrightarrow> bs = bs')"
  using keyspace.state_runs_agree [OF assms] .

theorem state_root_determined_witness:
  "\<exists>st st'. state_run list_keyspace sample_sha [Put [1] [2], Put [3] [4]] (state_new sample_sha []) = Ok st \<and>
    state_run list_keyspace sample_sha [Put [3] [4], Put [5] [6], Put [1] [2], Delete [5]] (state_new sample_sha []) = Ok st' \<and>
    state_root st = state_root st'"
proof -
  let ?a = "[Put [1] [2], Put [3] [4]]" and ?b = "[Put [3] [4], Put [5] [6], Put [1] [2], Delete [5]]"
  obtain st where st: "state_run list_keyspace sample_sha ?a (state_new sample_sha []) = Ok st"
    using state_run_total [of ?a sample_sha "state_new sample_sha []"] by auto
  obtain st' where st': "state_run list_keyspace sample_sha ?b (state_new sample_sha []) = Ok st'"
    using state_run_total [of ?b sample_sha "state_new sample_sha []"] by auto
  have inj: "inj_on sample_sha (op_key ` (set ?a \<union> set ?b))"
    by (rule inj_onI, rule sample_sha_inj) auto
  have "fold op_effect ?a Map.empty = fold op_effect ?b Map.empty"
    by (auto simp: fun_eq_iff)
  from state_root_determined [OF list_ks.keyspace_axioms _ inj _ _ st st' this] st st' show ?thesis
    by (auto simp: bt_of_list_def)
qed



end
