(* ===== verification/Did.thy ===== *)
theory Did
  imports KvState
begin

section \<open>DID identifiers, documents and operations\<close>

text \<open>
  \<^verbatim>\<open>executor/state/src/did.rs\<close>. Rust strings are their UTF-8 bytes; \<open>utf8_valid\<close> is the
  well-formedness that \<^verbatim>\<open>String::from_utf8\<close> checks. The readers return the program's
  errors; \<open>None\<close> of an encoder is the panic on a field over 4 GiB.
\<close>

subsection \<open>Text\<close>

definition utf8_cont :: "u8 \<Rightarrow> bool" where
  "utf8_cont b \<longleftrightarrow> 0x80 \<le> b \<and> b \<le> 0xBF"

fun utf8_valid :: "bytes \<Rightarrow> bool" where
  "utf8_valid [] = True"
| "utf8_valid (b # bs) =
     (if b < 0x80 then utf8_valid bs
      else if 0xC2 \<le> b \<and> b \<le> 0xDF then
        (case bs of c # r \<Rightarrow> utf8_cont c \<and> utf8_valid r | _ \<Rightarrow> False)
      else if 0xE0 \<le> b \<and> b \<le> 0xEF then
        (case bs of c # d # r \<Rightarrow>
             (b = 0xE0 \<longrightarrow> 0xA0 \<le> c) \<and> (b = 0xED \<longrightarrow> c \<le> 0x9F) \<and> utf8_cont c \<and> utf8_cont d \<and> utf8_valid r
         | _ \<Rightarrow> False)
      else if 0xF0 \<le> b \<and> b \<le> 0xF4 then
        (case bs of c # d # e # r \<Rightarrow>
             (b = 0xF0 \<longrightarrow> 0x90 \<le> c) \<and> (b = 0xF4 \<longrightarrow> c \<le> 0x8F) \<and>
             utf8_cont c \<and> utf8_cont d \<and> utf8_cont e \<and> utf8_valid r
         | _ \<Rightarrow> False)
      else False)"

definition COLON :: u8 where "COLON = 0x3A"

text \<open>\<^verbatim>\<open>str::split_once(':')\<close> and \<^verbatim>\<open>str::strip_prefix\<close>.\<close>

primrec split_once :: "u8 \<Rightarrow> bytes \<Rightarrow> (bytes \<times> bytes) option" where
  "split_once s [] = None"
| "split_once s (b # bs) =
     (if b = s then Some ([], bs) else map_option (\<lambda>(l, r). (b # l, r)) (split_once s bs))"

definition strip_prefix :: "bytes \<Rightarrow> bytes \<Rightarrow> bytes option" where
  "strip_prefix p s = (if take (length p) s = p then Some (drop (length p) s) else None)"

definition hex_digit :: "u8 \<Rightarrow> u8 option" where
  "hex_digit b =
     (if 0x30 \<le> b \<and> b \<le> 0x39 then Some (b - 0x30)
      else if 0x61 \<le> b \<and> b \<le> 0x66 then Some (b - 0x61 + 10)
      else if 0x41 \<le> b \<and> b \<le> 0x46 then Some (b - 0x41 + 10)
      else None)"

text \<open>\<^verbatim>\<open>{b:02x}\<close>: two lower-case hexadecimal digits.\<close>

definition hex_char :: "nat \<Rightarrow> u8" where
  "hex_char n = (if n < 10 then 0x30 + word_of_nat n else 0x61 + word_of_nat (n - 10))"

definition hex_encode :: "bytes \<Rightarrow> bytes" where
  "hex_encode bs = concat (map (\<lambda>b. [hex_char (unat b div 16), hex_char (unat b mod 16)]) bs)"

fun hex_decode :: "bytes \<Rightarrow> bytes option" where
  "hex_decode [] = Some []"
| "hex_decode [b] = None"
| "hex_decode (a # b # rest) = do {
     hi \<leftarrow> hex_digit a;
     lo \<leftarrow> hex_digit b;
     out \<leftarrow> hex_decode rest;
     Some ((push_bit 4 hi OR lo) # out) }"

subsection \<open>Identifiers\<close>

record DidId =
  did_network :: bytes
  did_alias :: bytes
  did_uuid :: bytes

datatype DidParseError = MissingPrefix | MissingSeparator | InvalidUuid | InvalidDidText

definition did_new :: "bytes \<Rightarrow> bytes \<Rightarrow> bytes \<Rightarrow> (DidId, DidParseError) result" where
  "did_new n a u =
     (if COLON \<in> set n \<or> COLON \<in> set a then Err InvalidDidText
      else Ok \<lparr> did_network = n, did_alias = a, did_uuid = u \<rparr>)"

definition DID_PREFIX :: bytes where
  "DID_PREFIX = [0x64, 0x69, 0x64, 0x3A, 0x6A, 0x6B, 0x61, 0x69, 0x6E, 0x3A]"

definition did_parse :: "bytes \<Rightarrow> (DidId, DidParseError) result" where
  "did_parse s =
     andThen (ok_or MissingPrefix (strip_prefix DID_PREFIX s)) (\<lambda>rest.
     andThen (ok_or MissingSeparator (split_once COLON rest)) (\<lambda>(n, rest).
     andThen (ok_or MissingSeparator (split_once COLON rest)) (\<lambda>(a, uuid_hex).
     if COLON \<in> set n \<or> COLON \<in> set a \<or> COLON \<in> set uuid_hex then Err InvalidDidText
     else if length uuid_hex \<noteq> 32 then Err InvalidUuid
     else andThen (ok_or InvalidUuid (hex_decode uuid_hex)) (\<lambda>u.
       Ok \<lparr> did_network = n, did_alias = a, did_uuid = u \<rparr>))))"

definition did_display :: "DidId \<Rightarrow> bytes" where
  "did_display i = DID_PREFIX @ did_network i @ [COLON] @ did_alias i @ [COLON] @ hex_encode (did_uuid i)"

definition encode_DidId :: "DidId \<Rightarrow> bytes option" where
  "encode_DidId i = do {
     n \<leftarrow> write_prefixed (did_network i);
     a \<leftarrow> write_prefixed (did_alias i);
     Some (n @ a @ did_uuid i) }"

definition res_take :: "nat \<Rightarrow> bytes \<Rightarrow> (bytes \<times> bytes, ExecutorError) result" where
  "res_take n c = ok_or Truncated (take_exact n c)"

definition res_u8 :: "bytes \<Rightarrow> (u8 \<times> bytes, ExecutorError) result" where
  "res_u8 c = ok_or Truncated (take_u8 c)"

definition decode_DidId :: "bytes \<Rightarrow> (DidId \<times> bytes, ExecutorError) result" where
  "decode_DidId c =
     andThen (take_bytes c) (\<lambda>(n, c).
     andThen (take_bytes c) (\<lambda>(a, c).
     andThen (res_take 16 c) (\<lambda>(u, c).
     if \<not> utf8_valid n then Err InvalidDid
     else if \<not> utf8_valid a then Err InvalidDid
     else if COLON \<in> set n \<or> COLON \<in> set a then Err InvalidDid
     else Ok (\<lparr> did_network = n, did_alias = a, did_uuid = u \<rparr>, c))))"

definition did_state_key :: "DidId \<Rightarrow> bytes option" where
  "did_state_key i = do { b \<leftarrow> encode_DidId i; Some (RESERVED_DID_PREFIX # b) }"

text \<open>What a Rust \<^verbatim>\<open>DidId\<close> always satisfies: valid strings without a colon, a 16-byte UUID.\<close>

definition did_wf :: "DidId \<Rightarrow> bool" where
  "did_wf i \<longleftrightarrow> utf8_valid (did_network i) \<and> utf8_valid (did_alias i) \<and> length (did_uuid i) = 16 \<and>
     COLON \<notin> set (did_network i) \<and> COLON \<notin> set (did_alias i)"

subsection \<open>Documents\<close>

datatype VerificationMethod = Signing VerifyingKey | Agreement bytes

primrec method_type :: "VerificationMethod \<Rightarrow> u8" where
  "method_type (Signing k) = 0x01"
| "method_type (Agreement k) = 0x02"

primrec key_bytes :: "VerificationMethod \<Rightarrow> bytes" where
  "key_bytes (Signing k) = k"
| "key_bytes (Agreement k) = k"

record DidDocument =
  doc_control_key :: VerifyingKey
  methods :: "VerificationMethod list"
  deactivated :: bool

definition signing_methods :: "VerificationMethod list \<Rightarrow> VerifyingKey list" where
  "signing_methods ms = List.map_filter (\<lambda>m. case m of Signing k \<Rightarrow> Some k | Agreement _ \<Rightarrow> None) ms"

definition document_new :: "VerifyingKey \<Rightarrow> VerificationMethod list \<Rightarrow> bool \<Rightarrow> (DidDocument, ExecutorError) result" where
  "document_new ck ms d =
     (if ms = [] \<or> 5 < length ms then Err Truncated
      else if signing_methods ms = [] then Err NoSigningMethod
      else Ok \<lparr> doc_control_key = ck, methods = ms, deactivated = d \<rparr>)"

definition signing_key :: "DidDocument \<Rightarrow> nat \<Rightarrow> VerifyingKey option" where
  "signing_key d index =
     (let ks = signing_methods (methods d) in if index < length ks then Some (ks ! index) else None)"

definition bool_u8 :: "bool \<Rightarrow> u8" where
  "bool_u8 b = (if b then 1 else 0)"

definition encode_method :: "VerificationMethod \<Rightarrow> bytes" where
  "encode_method m = method_type m # key_bytes m"

definition encode_DidDocument :: "DidDocument \<Rightarrow> bytes" where
  "encode_DidDocument d =
     0x02 # doc_control_key d @ word_of_nat (length (methods d)) #
     concat (map encode_method (methods d)) @ [bool_u8 (deactivated d)]"

definition decode_key :: "('x) crypto_lib_scheme \<Rightarrow> bytes \<Rightarrow> (VerifyingKey \<times> bytes, ExecutorError) result" where
  "decode_key C c = andThen (res_take 32 c) (\<lambda>(k, c). if vk_valid C k then Ok (k, c) else Err Truncated)"

definition decode_method :: "('x) crypto_lib_scheme \<Rightarrow> bytes \<Rightarrow> (VerificationMethod \<times> bytes, ExecutorError) result" where
  "decode_method C c =
     andThen (res_u8 c) (\<lambda>(t, c).
     andThen (res_take 32 c) (\<lambda>(k, c).
     if t = 0x01 then (if vk_valid C k then Ok (Signing k, c) else Err Truncated)
     else if t = 0x02 then Ok (Agreement k, c)
     else Err (UnknownVerificationMethodType t)))"

primrec decode_methods ::
    "('x) crypto_lib_scheme \<Rightarrow> nat \<Rightarrow> bytes \<Rightarrow> (VerificationMethod list \<times> bytes, ExecutorError) result" where
  "decode_methods C 0 c = Ok ([], c)"
| "decode_methods C (Suc n) c =
     andThen (decode_method C c) (\<lambda>(m, c).
     andThen (decode_methods C n c) (\<lambda>(ms, c). Ok (m # ms, c)))"

definition decode_DidDocument :: "('x) crypto_lib_scheme \<Rightarrow> bytes \<Rightarrow> (DidDocument \<times> bytes, ExecutorError) result" where
  "decode_DidDocument C c =
     andThen (res_u8 c) (\<lambda>(version, c).
     if version \<noteq> 0x02 then Err (UnsupportedDidDocumentVersion version)
     else
     andThen (decode_key C c) (\<lambda>(ck, c).
     andThen (res_u8 c) (\<lambda>(n, c).
     if n = 0 \<or> 5 < unat n then Err Truncated
     else
     andThen (decode_methods C (unat n) c) (\<lambda>(ms, c).
     andThen (res_u8 c) (\<lambda>(d, c).
     if signing_methods ms = [] then Err NoSigningMethod
     else Ok (\<lparr> doc_control_key = ck, methods = ms, deactivated = (d \<noteq> 0) \<rparr>, c))))))"

subsection \<open>Operations\<close>

record DidOp =
  did_id :: DidId
  document :: DidDocument
  did_signature :: Signature
  signed_by :: u8
  is_creation :: bool

definition encode_DidOp :: "DidOp \<Rightarrow> bytes option" where
  "encode_DidOp op = do {
     i \<leftarrow> encode_DidId (did_id op);
     Some (i @ encode_DidDocument (document op) @ sig_bytes (did_signature op) @
       [signed_by op, bool_u8 (is_creation op)]) }"

definition decode_DidOp :: "('x) crypto_lib_scheme \<Rightarrow> bytes \<Rightarrow> (DidOp, ExecutorError) result" where
  "decode_DidOp C pl =
     andThen (decode_DidId pl) (\<lambda>(i, c).
     andThen (decode_DidDocument C c) (\<lambda>(d, c).
     andThen (res_take 64 c) (\<lambda>(s, c).
     andThen (res_u8 c) (\<lambda>(sb, c).
     andThen (res_u8 c) (\<lambda>(cr, c).
     andThen (reject_trailing c) (\<lambda>_.
     Ok \<lparr> did_id = i, document = d, did_signature = Signature s, signed_by = sb, is_creation = (cr \<noteq> 0) \<rparr>))))))"

definition DID_SIGNED_DOMAIN :: bytes where
  "DID_SIGNED_DOMAIN = [0x6A, 0x6B, 0x61, 0x69, 0x6E, 0x3A, 0x64, 0x69, 0x64, 0x3A, 0x76, 0x31]"

definition did_signed_payload :: "DidOp \<Rightarrow> bytes option" where
  "did_signed_payload op = do {
     i \<leftarrow> encode_DidId (did_id op);
     Some (DID_SIGNED_DOMAIN @ i @ encode_DidDocument (document op)) }"

primrec method_wf :: "('x) crypto_lib_scheme \<Rightarrow> VerificationMethod \<Rightarrow> bool" where
  "method_wf C (Signing k) \<longleftrightarrow> length k = 32 \<and> vk_valid C k"
| "method_wf C (Agreement k) \<longleftrightarrow> length k = 32"

definition document_wf :: "('x) crypto_lib_scheme \<Rightarrow> DidDocument \<Rightarrow> bool" where
  "document_wf C d \<longleftrightarrow> length (doc_control_key d) = 32 \<and> vk_valid C (doc_control_key d) \<and>
     list_all (method_wf C) (methods d) \<and> methods d \<noteq> [] \<and> length (methods d) \<le> 5 \<and>
     signing_methods (methods d) \<noteq> []"

definition did_op_wf :: "('x) crypto_lib_scheme \<Rightarrow> DidOp \<Rightarrow> bool" where
  "did_op_wf C op \<longleftrightarrow> did_wf (did_id op) \<and> document_wf C (document op) \<and> signature_wf (did_signature op)"

subsection \<open>Round trips\<close>

lemma res_take_Ok_iff: "res_take n c = Ok (h, rest) \<longleftrightarrow> c = h @ rest \<and> length h = n"
  by (simp add: res_take_def take_exact_Some_iff)

lemma res_take_append [simp]: "length h = n \<Longrightarrow> res_take n (h @ rest) = Ok (h, rest)"
  by (simp add: res_take_def)

lemma res_u8_Ok_iff: "res_u8 c = Ok (b, rest) \<longleftrightarrow> c = b # rest"
  by (simp add: res_u8_def take_u8_Some_iff)

lemma res_u8_Cons [simp]: "res_u8 (b # rest) = Ok (b, rest)"
  by (simp add: res_u8_def)

lemma take_bytes_write: "write_prefixed b = Some w \<Longrightarrow> take_bytes (w @ rest) = Ok (b, rest)"
  by (auto simp: take_bytes_Ok_iff)

lemma decode_encode_DidId:
  assumes "did_wf i" "encode_DidId i = Some b"
  shows "decode_DidId (b @ rest) = Ok (i, rest)"
proof -
  from assms(2) obtain n a where w: "write_prefixed (did_network i) = Some n" "write_prefixed (did_alias i) = Some a"
    and b: "b = n @ a @ did_uuid i"
    by (auto simp: encode_DidId_def bind_eq_Some_conv)
  from assms(1) show ?thesis
    by (simp add: b decode_DidId_def take_bytes_write [OF w(1)] take_bytes_write [OF w(2)] did_wf_def)
qed

lemma decode_DidId_Ok:
  "decode_DidId c = Ok (i, rest) \<Longrightarrow> did_wf i \<and> (\<exists>b. encode_DidId i = Some b \<and> c = b @ rest)"
  by (auto simp: decode_DidId_def take_bytes_Ok_iff res_take_Ok_iff did_wf_def encode_DidId_def
      split: if_splits)

interpretation did_id_codec: codec encode_DidId "\<lambda>c. result_ok (decode_DidId c)" did_wf
  by unfold_locales (simp add: decode_encode_DidId)

lemma decode_encode_method:
  "method_wf C m \<Longrightarrow> decode_method C (encode_method m @ rest) = Ok (m, rest)"
  by (cases m) (auto simp: decode_method_def encode_method_def)

lemma decode_encode_methods:
  "list_all (method_wf C) ms \<Longrightarrow>
    decode_methods C (length ms) (concat (map encode_method ms) @ rest) = Ok (ms, rest)"
  by (induction ms) (auto simp: decode_encode_method)

lemma decode_method_Ok: "decode_method C c = Ok (m, rest) \<Longrightarrow> method_wf C m \<and> c = encode_method m @ rest"
  by (auto simp: decode_method_def res_u8_Ok_iff res_take_Ok_iff encode_method_def split: if_splits)

lemma decode_methods_Ok:
  "decode_methods C n c = Ok (ms, rest) \<Longrightarrow>
    list_all (method_wf C) ms \<and> length ms = n \<and> c = concat (map encode_method ms) @ rest"
  by (induction n arbitrary: c ms) (auto dest!: decode_method_Ok)

lemma decode_key_append [simp]: "length k = 32 \<Longrightarrow> vk_valid C k \<Longrightarrow> decode_key C (k @ rest) = Ok (k, rest)"
  by (simp add: decode_key_def)

lemma decode_key_Ok_iff: "decode_key C c = Ok (k, rest) \<longleftrightarrow> c = k @ rest \<and> length k = 32 \<and> vk_valid C k"
  by (auto simp: decode_key_def res_take_Ok_iff split: if_splits)

lemma unat_method_count: "n \<le> 5 \<Longrightarrow> unat (word_of_nat n :: u8) = n"
  by (simp add: unat_of_nat)

lemma decode_encode_DidDocument:
  assumes "document_wf C d"
  shows "decode_DidDocument C (encode_DidDocument d @ rest) = Ok (d, rest)"
proof -
  have n: "unat (word_of_nat (length (methods d)) :: u8) = length (methods d)"
    using assms by (intro unat_method_count) (simp add: document_wf_def)
  moreover have "(word_of_nat (length (methods d)) :: u8) \<noteq> 0"
    using n assms by (metis document_wf_def length_0_conv unat_0)
  moreover have "decode_methods C (length (methods d))
      (concat (map encode_method (methods d)) @ bool_u8 (deactivated d) # rest) =
      Ok (methods d, bool_u8 (deactivated d) # rest)"
    using assms by (intro decode_encode_methods) (simp add: document_wf_def)
  ultimately show ?thesis
    using assms by (simp add: decode_DidDocument_def encode_DidDocument_def document_wf_def bool_u8_def)
qed

lemma decode_DidDocument_Ok:
  assumes "decode_DidDocument C c = Ok (d, rest)"
  shows "document_wf C d \<and> (\<exists>f. c = butlast (encode_DidDocument d) @ f # rest \<and> deactivated d = (f \<noteq> 0))"
proof -
  from assms obtain ck n ms f c1 where c: "c = 0x02 # ck @ n # c1" "length ck = 32" "vk_valid C ck"
    and n: "n \<noteq> 0" "unat n \<le> 5" "decode_methods C (unat n) c1 = Ok (ms, f # rest)" "signing_methods ms \<noteq> []"
    and d: "d = \<lparr> doc_control_key = ck, methods = ms, deactivated = (f \<noteq> 0) \<rparr>"
    by (auto simp: decode_DidDocument_def res_u8_Ok_iff decode_key_Ok_iff not_less split: if_splits)
  from decode_methods_Ok [OF n(3)] have ms: "list_all (method_wf C) ms" "length ms = unat n"
      "c1 = concat (map encode_method ms) @ f # rest"
    by simp_all
  then have "word_of_nat (length ms) = n" "ms \<noteq> []" using n(1) by (auto simp: unat_eq_zero)
  with c n d ms show ?thesis
    by (simp add: document_wf_def encode_DidDocument_def butlast_append)
qed

lemma length_methods_bytes:
  "list_all (method_wf C) ms \<Longrightarrow> length (concat (map encode_method ms)) = 33 * length ms"
proof (induction ms)
  case (Cons m ms)
  then show ?case by (cases m) (auto simp: encode_method_def)
qed simp

lemma decode_encode_DidOp:
  assumes "did_op_wf C op" "encode_DidOp op = Some b"
  shows "decode_DidOp C b = Ok op"
proof -
  from assms(2) obtain i where i: "encode_DidId (did_id op) = Some i"
    and b: "b = i @ encode_DidDocument (document op) @ sig_bytes (did_signature op) @
      [signed_by op, bool_u8 (is_creation op)]"
    by (auto simp: encode_DidOp_def bind_eq_Some_conv)
  show ?thesis
    using assms(1) decode_encode_DidId [OF _ i]
    by (simp add: b decode_DidOp_def did_op_wf_def decode_encode_DidDocument signature_wf_def bool_u8_def)
qed

subsection \<open>Text round trip\<close>

lemma hex_char_digit:
  assumes "n < 16"
  shows "hex_digit (hex_char n) = Some (word_of_nat n) \<and> hex_char n \<noteq> COLON"
proof -
  have "list_all (\<lambda>n. hex_digit (hex_char n) = Some (word_of_nat n) \<and> hex_char n \<noteq> COLON) [0..<16]"
    by (simp add: upt_rec hex_char_def hex_digit_def COLON_def word_le_nat_alt)
  with assms show ?thesis by (auto simp: list_all_iff)
qed

lemma nibbles: "push_bit 4 (word_of_nat (unat b div 16)) OR word_of_nat (unat b mod 16) = (b :: u8)"
proof -
  have "unat b < 256" using unsigned_less [of b] by simp
  then have "unat b div 16 < 256" by simp
  then have hi: "word_of_nat (unat b div 16) = drop_bit 4 b"
    by (simp add: word_unat_eq_iff unat_of_nat unat_drop_bit_eq flip: drop_bit_eq_div [of 4, simplified])
  have "unat b mod 16 mod 256 = unat b mod 16" by simp
  then have lo: "word_of_nat (unat b mod 16) = take_bit 4 b"
    by (simp add: word_unat_eq_iff unat_of_nat unsigned_take_bit_eq flip: take_bit_eq_mod [of 4, simplified])
  show ?thesis
    unfolding hi lo by (rule bit_word_eqI) (auto simp: bit_simps)
qed

lemma hex_decode_encode: "hex_decode (hex_encode bs) = Some bs"
proof (induction bs)
  case (Cons b bs)
  have "unat b < 256" using unsigned_less [of b] by simp
  then have "unat b div 16 < 16" "unat b mod 16 < 16" by simp_all
  with Cons hex_char_digit nibbles [of b] show ?case
    by (simp add: hex_encode_def)
qed (simp add: hex_encode_def)

lemma length_hex_encode: "length (hex_encode bs) = 2 * length bs"
  by (induction bs) (auto simp: hex_encode_def)

lemma colon_hex_encode: "COLON \<notin> set (hex_encode bs)"
proof (induction bs)
  case (Cons b bs)
  have "unat b < 256" using unsigned_less [of b] by simp
  then have "unat b div 16 < 16" "unat b mod 16 < 16" by simp_all
  with hex_char_digit have "hex_char (unat b div 16) \<noteq> COLON" "hex_char (unat b mod 16) \<noteq> COLON"
    by blast+
  with Cons show ?case
    by (auto simp: hex_encode_def)
qed (simp add: hex_encode_def)

lemma split_once_append: "s \<notin> set l \<Longrightarrow> split_once s (l @ s # r) = Some (l, r)"
  by (induction l) auto

subsection \<open>Properties\<close>

text \<open>
  The text form of an identifier parses back to it: what is displayed is
  always accepted and gives the same network, alias and UUID.
\<close>

theorem did_display_parse:
  assumes "did_wf i"
  shows "did_parse (did_display i) = Ok i"
proof -
  have "strip_prefix DID_PREFIX (did_display i) = Some (did_network i @ COLON # did_alias i @ COLON # hex_encode (did_uuid i))"
    by (simp add: strip_prefix_def did_display_def)
  moreover have "COLON \<notin> set (did_network i)" "COLON \<notin> set (did_alias i)" "length (did_uuid i) = 16"
    using assms by (simp_all add: did_wf_def)
  ultimately show ?thesis
    by (simp add: did_parse_def split_once_append colon_hex_encode length_hex_encode hex_decode_encode)
qed

theorem did_display_parse_witness:
  "did_parse (did_display \<lparr> did_network = [0x6D], did_alias = [0x61, 0xC3, 0xA9], did_uuid = replicate 16 0xAF \<rparr>) =
    Ok \<lparr> did_network = [0x6D], did_alias = [0x61, 0xC3, 0xA9], did_uuid = replicate 16 0xAF \<rparr>"
  by (rule did_display_parse) (simp add: did_wf_def COLON_def utf8_cont_def word_less_nat_alt word_le_nat_alt)

text \<open>
  DID operations round trip: encoding a well-formed operation and decoding
  the bytes gives the operation back, with every field, and decoding never yields a
  document that breaks the documented shape (a valid control key, one to five methods,
  at least one of them for signing).
\<close>

theorem did_op_roundtrip:
  "(did_op_wf C op \<and> encode_DidOp op = Some b \<longrightarrow> decode_DidOp C b = Ok op) \<and>
   (decode_DidOp C b = Ok op \<longrightarrow> did_op_wf C op)"
proof (intro conjI impI)
  assume "decode_DidOp C b = Ok op"
  then show "did_op_wf C op"
    by (auto simp: decode_DidOp_def did_op_wf_def res_take_Ok_iff signature_wf_def
        dest!: decode_DidId_Ok decode_DidDocument_Ok)
qed (simp add: decode_encode_DidOp)

definition sample_did :: DidId where
  "sample_did = \<lparr> did_network = [0x6D], did_alias = [0x61], did_uuid = replicate 16 7 \<rparr>"

definition sample_document :: DidDocument where
  "sample_document = \<lparr> doc_control_key = replicate 32 1, methods = [Signing (replicate 32 2)], deactivated = False \<rparr>"

definition sample_did_op :: DidOp where
  "sample_did_op = \<lparr> did_id = sample_did, document = sample_document,
     did_signature = Signature (replicate 64 0), signed_by = 0, is_creation = True \<rparr>"

lemma sample_did_op_wf: "did_op_wf sample_crypto sample_did_op"
  by (simp add: did_op_wf_def sample_did_op_def sample_did_def sample_document_def did_wf_def COLON_def
      document_wf_def sample_crypto_def signature_wf_def signing_methods_def map_filter_simps word_less_nat_alt)

theorem did_op_roundtrip_witness:
  "\<exists>b. encode_DidOp sample_did_op = Some b \<and> decode_DidOp sample_crypto b = Ok sample_did_op"
proof -
  have "\<exists>b. encode_DidOp sample_did_op = Some b"
    by (simp add: encode_DidOp_def encode_DidId_def sample_did_op_def sample_did_def write_prefixed_def u32_try_from_def)
  then obtain b where b: "encode_DidOp sample_did_op = Some b" ..
  from did_op_roundtrip [of sample_crypto sample_did_op b] b sample_did_op_wf show ?thesis by blast
qed

text \<open>
  The decoder reads any non-zero byte as a set flag, so an operation has more than one
  accepted encoding although the format says 0 or 1.
\<close>

lemma did_document_second_encoding:
  assumes "document_wf C d" "deactivated d"
  shows "decode_DidDocument C (butlast (encode_DidDocument d) @ 0x02 # rest) = Ok (d, rest) \<and>
    butlast (encode_DidDocument d) @ [0x02] \<noteq> encode_DidDocument d"
proof -
  have n: "unat (word_of_nat (length (methods d)) :: u8) = length (methods d)"
    using assms by (intro unat_method_count) (simp add: document_wf_def)
  moreover have "(word_of_nat (length (methods d)) :: u8) \<noteq> 0"
    using n assms by (metis document_wf_def length_0_conv unat_0)
  moreover have "decode_methods C (length (methods d)) (concat (map encode_method (methods d)) @ 0x02 # rest) =
      Ok (methods d, 0x02 # rest)"
    using assms by (intro decode_encode_methods) (simp add: document_wf_def)
  ultimately show ?thesis
    using assms by (simp add: decode_DidDocument_def encode_DidDocument_def document_wf_def bool_u8_def butlast_append)
qed

end
