(* ===== verification/Actors.thy ===== *)
theory Actors
  imports Did
begin

section \<open>Root actors, sub-actors and their operations\<close>

text \<open>
  \<^verbatim>\<open>executor/state/src/root_actor.rs\<close> and \<^verbatim>\<open>sub_actor.rs\<close>: actor identities, the records
  kept in state, the mint and rebind operations with their wire formats and signed
  payloads.
\<close>

subsection \<open>Identities\<close>

datatype Tag = Defi | Messenger | Game | Generic

primrec tag_code :: "Tag \<Rightarrow> u8" where
  "tag_code Defi = 0"
| "tag_code Messenger = 1"
| "tag_code Game = 2"
| "tag_code Generic = 3"

definition tag_from_code :: "u8 \<Rightarrow> Tag option" where
  "tag_from_code c =
     (if c = 0 then Some Defi else if c = 1 then Some Messenger
      else if c = 2 then Some Game else if c = 3 then Some Generic else None)"

datatype ActorId = RootId DidId | SubId DidId Tag u32

definition MAX_ACTOR_INDEX_PLUS_ONE :: u32 where
  "MAX_ACTOR_INDEX_PLUS_ONE = 0x80000000"

primrec encode_ActorId :: "ActorId \<Rightarrow> bytes option" where
  "encode_ActorId (RootId did) = do { d \<leftarrow> encode_DidId did; Some (0x00 # d) }"
| "encode_ActorId (SubId root_did tag index) = do {
     d \<leftarrow> encode_DidId root_did; Some (0x01 # d @ tag_code tag # u32_be index) }"

definition res_tag :: "bytes \<Rightarrow> (Tag \<times> bytes, ExecutorError) result" where
  "res_tag c = andThen (res_u8 c) (\<lambda>(t, c).
     case tag_from_code t of None \<Rightarrow> Err (UnknownActorTag t) | Some tag \<Rightarrow> Ok (tag, c))"

definition res_index :: "bytes \<Rightarrow> (u32 \<times> bytes, ExecutorError) result" where
  "res_index c = andThen (ok_or Truncated (take_u32 c)) (\<lambda>(i, c).
     if MAX_ACTOR_INDEX_PLUS_ONE \<le> i then Err (ActorIndexOutOfRange i) else Ok (i, c))"

definition decode_ActorId :: "bytes \<Rightarrow> (ActorId \<times> bytes, ExecutorError) result" where
  "decode_ActorId c =
     andThen (res_u8 c) (\<lambda>(variant, c).
     if variant = 0x00 then andThen (decode_DidId c) (\<lambda>(did, c). Ok (RootId did, c))
     else if variant = 0x01 then
       andThen (decode_DidId c) (\<lambda>(did, c).
       andThen (res_tag c) (\<lambda>(tag, c).
       andThen (res_index c) (\<lambda>(index, c). Ok (SubId did tag index, c))))
     else Err (UnknownActorIdVariant variant))"

definition actor_state_key :: "ActorId \<Rightarrow> bytes option" where
  "actor_state_key i = do { b \<leftarrow> encode_ActorId i; Some (RESERVED_ACTOR_PREFIX # b) }"

primrec actor_id_wf :: "ActorId \<Rightarrow> bool" where
  "actor_id_wf (RootId did) \<longleftrightarrow> did_wf did"
| "actor_id_wf (SubId did tag index) \<longleftrightarrow> did_wf did \<and> index < MAX_ACTOR_INDEX_PLUS_ONE"

subsection \<open>Records\<close>

record RootActor =
  ra_did :: DidId
  merkle_root :: bytes
  ra_leaf_count :: u64
  ra_control_key :: VerifyingKey

definition encode_RootActor :: "RootActor \<Rightarrow> bytes option" where
  "encode_RootActor r = do {
     d \<leftarrow> encode_DidId (ra_did r);
     Some (d @ merkle_root r @ u64_be (ra_leaf_count r) @ ra_control_key r) }"

definition decode_RootActor :: "('x) crypto_lib_scheme \<Rightarrow> bytes \<Rightarrow> (RootActor \<times> bytes, ExecutorError) result" where
  "decode_RootActor C c =
     andThen (decode_DidId c) (\<lambda>(did, c).
     andThen (res_take 32 c) (\<lambda>(root, c).
     andThen (ok_or Truncated (take_u64 c)) (\<lambda>(n, c).
     andThen (decode_key C c) (\<lambda>(k, c).
     Ok (\<lparr> ra_did = did, merkle_root = root, ra_leaf_count = n, ra_control_key = k \<rparr>, c)))))"

record SubActor =
  sa_actor_id :: ActorId
  sa_control_key :: VerifyingKey
  sa_operating_key :: VerifyingKey

definition sub_actor_new :: "ActorId \<Rightarrow> VerifyingKey \<Rightarrow> VerifyingKey \<Rightarrow> (SubActor, ExecutorError) result" where
  "sub_actor_new i ck ok = (case i of
     RootId _ \<Rightarrow> Err ExpectedSubActor
   | SubId _ _ _ \<Rightarrow> Ok \<lparr> sa_actor_id = i, sa_control_key = ck, sa_operating_key = ok \<rparr>)"

definition encode_SubActor :: "SubActor \<Rightarrow> bytes option" where
  "encode_SubActor s = do {
     i \<leftarrow> encode_ActorId (sa_actor_id s);
     Some (i @ sa_control_key s @ sa_operating_key s) }"

definition decode_SubActor :: "('x) crypto_lib_scheme \<Rightarrow> bytes \<Rightarrow> (SubActor \<times> bytes, ExecutorError) result" where
  "decode_SubActor C c =
     andThen (decode_ActorId c) (\<lambda>(i, c).
     case i of RootId _ \<Rightarrow> Err ExpectedSubActor
     | SubId _ _ _ \<Rightarrow>
       andThen (decode_key C c) (\<lambda>(ck, c).
       andThen (decode_key C c) (\<lambda>(ok, c).
       Ok (\<lparr> sa_actor_id = i, sa_control_key = ck, sa_operating_key = ok \<rparr>, c))))"

text \<open>The strings \<^verbatim>\<open>jkain:subactor-leaf:v1\<close>, \<^verbatim>\<open>jkain:subactor:v1\<close>, \<^verbatim>\<open>jkain:rebind:v1\<close>.\<close>

definition SUBACTOR_LEAF_DOMAIN :: bytes where
  "SUBACTOR_LEAF_DOMAIN = [0x6A, 0x6B, 0x61, 0x69, 0x6E, 0x3A, 0x73, 0x75, 0x62, 0x61, 0x63, 0x74, 0x6F, 0x72,
     0x2D, 0x6C, 0x65, 0x61, 0x66, 0x3A, 0x76, 0x31]"

definition SUBACTOR_SIGNED_DOMAIN :: bytes where
  "SUBACTOR_SIGNED_DOMAIN = [0x6A, 0x6B, 0x61, 0x69, 0x6E, 0x3A, 0x73, 0x75, 0x62, 0x61, 0x63, 0x74, 0x6F, 0x72,
     0x3A, 0x76, 0x31]"

definition REBIND_SIGNED_DOMAIN :: bytes where
  "REBIND_SIGNED_DOMAIN = [0x6A, 0x6B, 0x61, 0x69, 0x6E, 0x3A, 0x72, 0x65, 0x62, 0x69, 0x6E, 0x64, 0x3A, 0x76, 0x31]"

definition subactor_leaf_data :: "ActorId \<Rightarrow> VerifyingKey \<Rightarrow> bytes option" where
  "subactor_leaf_data i ck = do {
     b \<leftarrow> encode_ActorId i;
     p \<leftarrow> write_prefixed b;
     Some (SUBACTOR_LEAF_DOMAIN @ p @ ck) }"

definition subactor_leaf_hash :: "hash_fn \<Rightarrow> ActorId \<Rightarrow> VerifyingKey \<Rightarrow> bytes option" where
  "subactor_leaf_hash sha i ck = map_option (leaf_hash sha) (subactor_leaf_data i ck)"

subsection \<open>Operations\<close>

record SubActorOp =
  so_root_did :: DidId
  so_tag :: Tag
  so_index :: u32
  so_control_key :: VerifyingKey
  so_operating_key :: VerifyingKey
  so_new_root :: bytes
  so_consistency :: ConsistencyProof
  so_inclusion :: InclusionProof
  so_signature :: Signature
  so_signed_by :: u8

definition so_actor_id :: "SubActorOp \<Rightarrow> ActorId" where
  "so_actor_id op = SubId (so_root_did op) (so_tag op) (so_index op)"

definition encode_SubActorOp :: "SubActorOp \<Rightarrow> bytes option" where
  "encode_SubActorOp op = do {
     d \<leftarrow> encode_DidId (so_root_did op);
     cp \<leftarrow> encode_ConsistencyProof (so_consistency op);
     ip \<leftarrow> encode_InclusionProof (so_inclusion op);
     Some (d @ tag_code (so_tag op) # u32_be (so_index op) @ so_control_key op @ so_operating_key op @
       so_new_root op @ cp @ ip @ sig_bytes (so_signature op) @ [so_signed_by op]) }"

definition decode_SubActorOp :: "('x) crypto_lib_scheme \<Rightarrow> bytes \<Rightarrow> (SubActorOp, ExecutorError) result" where
  "decode_SubActorOp C pl =
     andThen (decode_DidId pl) (\<lambda>(did, c).
     andThen (res_tag c) (\<lambda>(tag, c).
     andThen (res_index c) (\<lambda>(index, c).
     andThen (decode_key C c) (\<lambda>(ck, c).
     andThen (decode_key C c) (\<lambda>(ok, c).
     andThen (res_take 32 c) (\<lambda>(root, c).
     andThen (ok_or Truncated (decode_ConsistencyProof_from c)) (\<lambda>(cp, c).
     andThen (ok_or Truncated (decode_InclusionProof_from c)) (\<lambda>(ip, c).
     andThen (res_take 64 c) (\<lambda>(s, c).
     andThen (res_u8 c) (\<lambda>(sb, c).
     andThen (reject_trailing c) (\<lambda>_.
     Ok \<lparr> so_root_did = did, so_tag = tag, so_index = index, so_control_key = ck, so_operating_key = ok,
          so_new_root = root, so_consistency = cp, so_inclusion = ip, so_signature = Signature s,
          so_signed_by = sb \<rparr>)))))))))))"

definition subactor_signed_payload :: "SubActorOp \<Rightarrow> bytes option" where
  "subactor_signed_payload op = do {
     b \<leftarrow> encode_ActorId (so_actor_id op);
     p \<leftarrow> write_prefixed b;
     Some (SUBACTOR_SIGNED_DOMAIN @ p @ so_control_key op @ so_operating_key op) }"

record RebindOp =
  ro_actor_id :: ActorId
  ro_new_operating_key :: VerifyingKey
  ro_pop :: Signature
  ro_authorizing :: Signature

definition encode_RebindOp :: "RebindOp \<Rightarrow> bytes option" where
  "encode_RebindOp op = do {
     i \<leftarrow> encode_ActorId (ro_actor_id op);
     Some (i @ ro_new_operating_key op @ sig_bytes (ro_pop op) @ sig_bytes (ro_authorizing op)) }"

definition decode_RebindOp :: "('x) crypto_lib_scheme \<Rightarrow> bytes \<Rightarrow> (RebindOp, ExecutorError) result" where
  "decode_RebindOp C pl =
     andThen (decode_ActorId pl) (\<lambda>(i, c).
     andThen (decode_key C c) (\<lambda>(k, c).
     andThen (res_take 64 c) (\<lambda>(p, c).
     andThen (res_take 64 c) (\<lambda>(a, c).
     andThen (reject_trailing c) (\<lambda>_.
     Ok \<lparr> ro_actor_id = i, ro_new_operating_key = k, ro_pop = Signature p, ro_authorizing = Signature a \<rparr>)))))"

definition rebind_signed_payload :: "RebindOp \<Rightarrow> VerifyingKey \<Rightarrow> bytes option" where
  "rebind_signed_payload op old_operating_key = do {
     b \<leftarrow> encode_ActorId (ro_actor_id op);
     p \<leftarrow> write_prefixed b;
     Some (REBIND_SIGNED_DOMAIN @ p @ old_operating_key @ ro_new_operating_key op) }"

subsection \<open>Round trips\<close>

lemma tag_from_code [simp]: "tag_from_code (tag_code t) = Some t"
  by (cases t) (simp_all add: tag_from_code_def)

lemma tag_from_code_Some: "tag_from_code c = Some t \<Longrightarrow> c = tag_code t"
  by (auto simp: tag_from_code_def split: if_splits)

lemma res_tag_Cons [simp]: "res_tag (tag_code t # rest) = Ok (t, rest)"
  by (simp add: res_tag_def)

lemma res_tag_Ok_iff: "res_tag c = Ok (t, rest) \<longleftrightarrow> c = tag_code t # rest"
  by (cases c) (auto simp: res_tag_def res_u8_def take_u8_def dest: tag_from_code_Some split: option.splits)

lemma res_index_append [simp]:
  "i < MAX_ACTOR_INDEX_PLUS_ONE \<Longrightarrow> res_index (u32_be i @ rest) = Ok (i, rest)"
  by (simp add: res_index_def not_le)

lemma res_index_Ok_iff: "res_index c = Ok (i, rest) \<longleftrightarrow> c = u32_be i @ rest \<and> i < MAX_ACTOR_INDEX_PLUS_ONE"
  by (auto simp: res_index_def take_u32_Some_iff not_le split: if_splits)

lemma decode_encode_ActorId:
  assumes "actor_id_wf i" "encode_ActorId i = Some b"
  shows "decode_ActorId (b @ rest) = Ok (i, rest)"
proof (cases i)
  case (RootId d)
  with assms obtain y where "encode_DidId d = Some y" "b = 0x00 # y" "did_wf d"
    by (auto simp: bind_eq_Some_conv)
  then show ?thesis by (simp add: RootId decode_ActorId_def decode_encode_DidId)
next
  case (SubId d t n)
  with assms obtain y where y: "encode_DidId d = Some y" "b = 0x01 # y @ tag_code t # u32_be n"
    and wf: "did_wf d" "n < MAX_ACTOR_INDEX_PLUS_ONE"
    by (auto simp: bind_eq_Some_conv)
  then show ?thesis by (simp add: SubId decode_ActorId_def decode_encode_DidId [OF wf(1) y(1)])
qed

lemma decode_ActorId_Ok:
  "decode_ActorId c = Ok (i, rest) \<Longrightarrow> actor_id_wf i \<and> (\<exists>b. encode_ActorId i = Some b \<and> c = b @ rest)"
  by (auto simp: decode_ActorId_def res_u8_Ok_iff res_tag_Ok_iff res_index_Ok_iff
      dest!: decode_DidId_Ok split: if_splits)

interpretation actor_id_codec: codec encode_ActorId "\<lambda>c. result_ok (decode_ActorId c)" actor_id_wf
  by unfold_locales (simp add: decode_encode_ActorId)

definition root_actor_wf :: "('x) crypto_lib_scheme \<Rightarrow> RootActor \<Rightarrow> bool" where
  "root_actor_wf C r \<longleftrightarrow> did_wf (ra_did r) \<and> length (merkle_root r) = 32 \<and>
     length (ra_control_key r) = 32 \<and> vk_valid C (ra_control_key r)"

definition sub_actor_wf :: "('x) crypto_lib_scheme \<Rightarrow> SubActor \<Rightarrow> bool" where
  "sub_actor_wf C s \<longleftrightarrow> actor_id_wf (sa_actor_id s) \<and> (\<exists>d t i. sa_actor_id s = SubId d t i) \<and>
     length (sa_control_key s) = 32 \<and> vk_valid C (sa_control_key s) \<and>
     length (sa_operating_key s) = 32 \<and> vk_valid C (sa_operating_key s)"

lemma decode_encode_RootActor:
  "root_actor_wf C r \<Longrightarrow> encode_RootActor r = Some b \<Longrightarrow> decode_RootActor C (b @ rest) = Ok (r, rest)"
  by (auto simp: encode_RootActor_def decode_RootActor_def root_actor_wf_def bind_eq_Some_conv
      decode_encode_DidId)

lemma decode_encode_SubActor:
  assumes "sub_actor_wf C s" "encode_SubActor s = Some b"
  shows "decode_SubActor C (b @ rest) = Ok (s, rest)"
proof -
  from assms obtain i where "encode_ActorId (sa_actor_id s) = Some i"
    and b: "b = i @ sa_control_key s @ sa_operating_key s"
    by (auto simp: encode_SubActor_def bind_eq_Some_conv)
  then have "decode_ActorId (b @ rest) = Ok (sa_actor_id s, sa_control_key s @ sa_operating_key s @ rest)"
    using assms(1) decode_encode_ActorId by (auto simp: sub_actor_wf_def)
  then show ?thesis
    using assms(1) by (auto simp: decode_SubActor_def sub_actor_wf_def)
qed

definition sub_actor_op_wf :: "('x) crypto_lib_scheme \<Rightarrow> SubActorOp \<Rightarrow> bool" where
  "sub_actor_op_wf C op \<longleftrightarrow> actor_id_wf (so_actor_id op) \<and>
     length (so_control_key op) = 32 \<and> vk_valid C (so_control_key op) \<and>
     length (so_operating_key op) = 32 \<and> vk_valid C (so_operating_key op) \<and>
     length (so_new_root op) = 32 \<and> hashes32 (cp_nodes (so_consistency op)) \<and>
     hashes32 (ip_nodes (so_inclusion op)) \<and> signature_wf (so_signature op)"

definition rebind_op_wf :: "('x) crypto_lib_scheme \<Rightarrow> RebindOp \<Rightarrow> bool" where
  "rebind_op_wf C op \<longleftrightarrow> actor_id_wf (ro_actor_id op) \<and>
     length (ro_new_operating_key op) = 32 \<and> vk_valid C (ro_new_operating_key op) \<and>
     signature_wf (ro_pop op) \<and> signature_wf (ro_authorizing op)"

lemma decode_encode_SubActorOp:
  assumes "sub_actor_op_wf C op" "encode_SubActorOp op = Some b"
  shows "decode_SubActorOp C b = Ok op"
proof -
  from assms(2) obtain d cp ip where e: "encode_DidId (so_root_did op) = Some d"
      "encode_ConsistencyProof (so_consistency op) = Some cp" "encode_InclusionProof (so_inclusion op) = Some ip"
    and b: "b = d @ tag_code (so_tag op) # u32_be (so_index op) @ so_control_key op @ so_operating_key op @
       so_new_root op @ cp @ ip @ sig_bytes (so_signature op) @ [so_signed_by op]"
    by (auto simp: encode_SubActorOp_def bind_eq_Some_conv)
  have wf: "did_wf (so_root_did op)" "so_index op < MAX_ACTOR_INDEX_PLUS_ONE"
    using assms(1) by (auto simp: sub_actor_op_wf_def so_actor_id_def)
  show ?thesis
    using assms(1) wf decode_encode_DidId [OF wf(1) e(1)]
      consistency_codec.dec_enc [OF _ e(2)] inclusion_codec.dec_enc [OF _ e(3)]
    by (simp add: b decode_SubActorOp_def sub_actor_op_wf_def signature_wf_def)
qed

lemma decode_encode_RebindOp:
  assumes "rebind_op_wf C op" "encode_RebindOp op = Some b"
  shows "decode_RebindOp C b = Ok op"
proof -
  from assms(2) obtain i where i: "encode_ActorId (ro_actor_id op) = Some i"
    and b: "b = i @ ro_new_operating_key op @ sig_bytes (ro_pop op) @ sig_bytes (ro_authorizing op)"
    by (auto simp: encode_RebindOp_def bind_eq_Some_conv)
  have "res_take 64 (sig_bytes (ro_authorizing op)) = Ok (sig_bytes (ro_authorizing op), [])"
    using assms(1) by (simp add: res_take_Ok_iff rebind_op_wf_def signature_wf_def)
  then show ?thesis
    using assms(1) decode_encode_ActorId [OF _ i]
    by (simp add: b decode_RebindOp_def rebind_op_wf_def signature_wf_def)
qed

end
