(* ===== verification/Membership.thy ===== *)
theory Membership
  imports Canonical
begin

section \<open>Membership registry, membership operations, roster history\<close>

text \<open>
  \<^verbatim>\<open>crypto/src/membership.rs\<close> and the verification of an event against a registry
  (\<^verbatim>\<open>signable_impls.rs\<close>). A registry is a hash map from node to
  Ed25519 and BLS key; its canonical bytes must not depend on the map's iteration order.
\<close>

subsection \<open>The registry\<close>

record MembershipRegistry =
  keys :: "(NodeId, VerifyingKey \<times> bytes) hmap"

definition registry_new :: MembershipRegistry where
  "registry_new = \<lparr> keys = [] \<rparr>"

definition register :: "MembershipRegistry \<Rightarrow> NodeId \<Rightarrow> VerifyingKey \<Rightarrow> bytes \<Rightarrow> MembershipRegistry" where
  "register r node key bls_key = r\<lparr> keys := AList.update node (key, bls_key) (keys r) \<rparr>"

definition key_for :: "MembershipRegistry \<Rightarrow> NodeId \<Rightarrow> (VerifyingKey, CryptoError) result" where
  "key_for r node = ok_or (UnknownSigner node) (map_option fst (map_of (keys r) node))"

definition bls_key_for :: "MembershipRegistry \<Rightarrow> NodeId \<Rightarrow> bytes option" where
  "bls_key_for r node = map_option snd (map_of (keys r) node)"

definition registry_contains :: "MembershipRegistry \<Rightarrow> NodeId \<Rightarrow> bool" where
  "registry_contains r node \<longleftrightarrow> map_of (keys r) node \<noteq> None"

definition member_ids :: "MembershipRegistry \<Rightarrow> NodeId list" where
  "member_ids r = sort (map fst (keys r))"

definition registry_len :: "MembershipRegistry \<Rightarrow> nat" where
  "registry_len r = length (keys r)"

definition registry_is_empty :: "MembershipRegistry \<Rightarrow> bool" where
  "registry_is_empty r \<longleftrightarrow> keys r = []"

definition member_bytes :: "NodeId \<times> VerifyingKey \<times> bytes \<Rightarrow> bytes" where
  "member_bytes = (\<lambda>(n, key, bls_key). u64_be (node_get n) @ key @ bls_key)"

definition registry_to_bytes :: "MembershipRegistry \<Rightarrow> bytes" where
  "registry_to_bytes r = concat (map member_bytes (sort_key fst (keys r)))"

definition take_member :: "('x) crypto_lib_scheme \<Rightarrow> bytes \<Rightarrow> ((NodeId \<times> VerifyingKey \<times> bytes) \<times> bytes) option" where
  "take_member C bs = do {
     (head, rest) \<leftarrow> take_exact 88 bs;
     let key = take 32 (drop 8 head);
     if vk_valid C key then Some ((NodeId (be_u64 (take 8 head)), key, drop 40 head), rest) else None }"

lemma take_member_shorter: "take_member C bs = Some (m, rest) \<Longrightarrow> length rest < length bs"
  by (auto simp: take_member_def take_exact_def Let_def split: if_splits)

function registry_from_bytes_loop ::
    "('x) crypto_lib_scheme \<Rightarrow> MembershipRegistry \<Rightarrow> bytes \<Rightarrow> MembershipRegistry option" where
  "registry_from_bytes_loop C r bs =
     (if bs = [] then Some r
      else case take_member C bs of
        None \<Rightarrow> None
      | Some ((node, key, bls_key), rest) \<Rightarrow> registry_from_bytes_loop C (register r node key bls_key) rest)"
  by pat_completeness auto
termination
  by (relation "measure (\<lambda>(C, r, bs). length bs)") (auto simp: take_member_shorter)

declare registry_from_bytes_loop.simps [simp del]

definition registry_from_bytes :: "('x) crypto_lib_scheme \<Rightarrow> bytes \<Rightarrow> MembershipRegistry option" where
  "registry_from_bytes C bs = registry_from_bytes_loop C registry_new bs"

definition hash_registry :: "hash_fn \<Rightarrow> MembershipRegistry \<Rightarrow> bytes" where
  "hash_registry sha r = sha (registry_to_bytes r)"

text \<open>
  The map a registry stands for, and \<^verbatim>\<open>PartialEq\<close> on it. \<open>registry_wf\<close> is the type
  invariant: one entry per node, 32-byte keys that are Edwards points, 48-byte BLS keys.
\<close>

definition registry_map :: "MembershipRegistry \<Rightarrow> NodeId \<Rightarrow> (VerifyingKey \<times> bytes) option" where
  "registry_map r = map_of (keys r)"

definition registry_eq :: "MembershipRegistry \<Rightarrow> MembershipRegistry \<Rightarrow> bool" where
  "registry_eq a b \<longleftrightarrow> length (keys a) = length (keys b) \<and>
     list_all (\<lambda>(n, v). map_of (keys b) n = Some v) (keys a)"

definition member_wf :: "('x) crypto_lib_scheme \<Rightarrow> NodeId \<times> VerifyingKey \<times> bytes \<Rightarrow> bool" where
  "member_wf C = (\<lambda>(n, key, bls_key). length key = 32 \<and> vk_valid C key \<and> length bls_key = 48)"

definition registry_wf :: "('x) crypto_lib_scheme \<Rightarrow> MembershipRegistry \<Rightarrow> bool" where
  "registry_wf C r \<longleftrightarrow> hm_wf (keys r) \<and> list_all (member_wf C) (keys r)"

subsection \<open>Verification of an event against a registry\<close>

definition verify_Event :: "('x) crypto_lib_scheme \<Rightarrow> Event \<Rightarrow> MembershipRegistry \<Rightarrow> (VerifiedEvent, CryptoError) result" where
  "verify_Event C e registry =
     andThen (key_for registry (ev_creator e)) (\<lambda>verifying_key.
     andThen (map_err Base (encode_UnsignedEvent (unsigned_part e))) (\<lambda>bs.
     if verify_strict C verifying_key bs (sig_bytes (ev_signature e)) then Ok (VerifiedEvent e)
     else Err SignatureVerificationFailed))"

subsection \<open>Facts about the registry\<close>

lemma registry_wf_new [simp, intro]: "registry_wf C registry_new"
  by (simp add: registry_wf_def registry_new_def)

lemma registry_wf_register [simp, intro]:
  assumes "registry_wf C r" "member_wf C (n, key, bls_key)"
  shows "registry_wf C (register r n key bls_key)"
proof -
  have "set (AList.update n (key, bls_key) m) \<subseteq> insert (n, key, bls_key) (set m)" for m
    by (induction m) auto
  with assms show ?thesis
    by (fastforce simp: registry_wf_def register_def list_all_iff)
qed

lemma registry_map_new [simp]: "registry_map registry_new = Map.empty"
  by (simp add: registry_map_def registry_new_def)

lemma registry_map_register [simp]:
  "registry_map (register r n key bls_key) = (registry_map r)(n \<mapsto> (key, bls_key))"
  by (simp add: registry_map_def register_def update_conv')

text \<open>The sorted entries: a sorted map in the sense of the prelude.\<close>

definition sorted_members :: "MembershipRegistry \<Rightarrow> (NodeId, VerifyingKey \<times> bytes) btmap" where
  "sorted_members r = sort_key fst (keys r)"

lemma sorted_members_wf: "hm_wf (keys r) \<Longrightarrow> bt_wf (sorted_members r)"
proof -
  assume "hm_wf (keys r)"
  moreover have "mset (map fst (sorted_members r)) = mset (map fst (keys r))"
    by (simp add: sorted_members_def)
  ultimately have "hm_wf (sorted_members r)"
    by (metis mset_eq_imp_distinct_iff)
  then show ?thesis
    by (simp add: bt_wf_def strict_sorted_iff sorted_members_def)
qed

lemma set_sorted_members [simp]: "set (sorted_members r) = set (keys r)"
  by (simp add: sorted_members_def)

lemma map_of_sorted_members: "hm_wf (keys r) \<Longrightarrow> map_of (sorted_members r) = registry_map r"
  using map_of_inject_set [of "sorted_members r" "keys r"] bt_wf_hm_wf [OF sorted_members_wf [of r]]
  by (simp add: registry_map_def)

lemma sorted_members_eq_iff:
  "hm_wf (keys a) \<Longrightarrow> hm_wf (keys b) \<Longrightarrow>
    sorted_members a = sorted_members b \<longleftrightarrow> registry_map a = registry_map b"
  by (metis bt_eq_of_map_of map_of_sorted_members sorted_members_wf)

lemma registry_eq_iff:
  assumes "hm_wf (keys a)" "hm_wf (keys b)"
  shows "registry_eq a b \<longleftrightarrow> registry_map a = registry_map b"
proof -
  have card: "card (set (keys a)) = length (keys a)" "card (set (keys b)) = length (keys b)"
    using assms by (simp_all add: distinct_card distinct_map)
  have "registry_eq a b \<longleftrightarrow> length (keys a) = length (keys b) \<and> set (keys a) \<subseteq> set (keys b)"
    using assms(2) by (auto simp: registry_eq_def list_all_iff map_of_Some_in)
  also have "\<dots> \<longleftrightarrow> set (keys a) = set (keys b)"
    using card by (metis card_subset_eq finite_set order_refl)
  also have "\<dots> \<longleftrightarrow> registry_map a = registry_map b"
    using map_of_inject_set [OF assms] by (simp add: registry_map_def)
  finally show ?thesis .
qed

text \<open>Reading back what \<open>registry_to_bytes\<close> wrote.\<close>

lemma length_member_bytes: "member_wf C m \<Longrightarrow> length (member_bytes m) = 88"
  by (auto simp: member_wf_def member_bytes_def)

lemma take_member_bytes [simp, codec_simps]:
  "member_wf C m \<Longrightarrow> take_member C (member_bytes m @ rest) = Some (m, rest)"
  by (cases m) (auto simp: take_member_def member_wf_def member_bytes_def take_exact_def)

interpretation member_codec: codec "\<lambda>m. Some (member_bytes m)" "take_member C" "member_wf C"
  for C :: "('x) crypto_lib_scheme"
  by unfold_locales auto

lemma AList_update_append:
  "k \<notin> fst ` set m \<Longrightarrow> AList.update k v m = m @ [(k, v)]"
  by (induction m) auto

lemma from_bytes_loop_members:
  assumes "list_all (member_wf C) ms" "hm_wf (keys r @ ms)"
  shows "registry_from_bytes_loop C r (concat (map member_bytes ms)) = Some (r\<lparr> keys := keys r @ ms \<rparr>)"
  using assms
proof (induction ms arbitrary: r)
  case Nil
  then show ?case by (simp add: registry_from_bytes_loop.simps)
next
  case (Cons m ms)
  obtain n key bls where m: "m = (n, key, bls)" by (cases m)
  have "member_bytes m \<noteq> []"
    using Cons.prems length_member_bytes [of C m] by auto
  moreover have "register r n key bls = r\<lparr> keys := keys r @ [m] \<rparr>"
    using Cons.prems by (simp add: register_def AList_update_append m)
  ultimately show ?case
    using Cons by (simp add: registry_from_bytes_loop.simps m)
qed

lemma registry_from_to_bytes:
  assumes "registry_wf C r"
  shows "registry_from_bytes C (registry_to_bytes r) = Some \<lparr> keys = sorted_members r \<rparr>"
proof -
  have "list_all (member_wf C) (sorted_members r)" "hm_wf (sorted_members r)"
    using assms sorted_members_wf [of r] bt_wf_hm_wf [of "sorted_members r"]
    by (auto simp: registry_wf_def list_all_iff)
  then show ?thesis
    using from_bytes_loop_members [of C "sorted_members r" registry_new]
    by (simp add: registry_from_bytes_def registry_to_bytes_def sorted_members_def registry_new_def)
qed

lemma registry_from_bytes_wf:
  assumes "registry_from_bytes C bs = Some r"
  shows "registry_wf C r"
proof -
  have "registry_wf C r0 \<Longrightarrow> registry_from_bytes_loop C r0 bs = Some r \<Longrightarrow> registry_wf C r" for r0
  proof (induction C r0 bs rule: registry_from_bytes_loop.induct)
    case (1 C r0 bs)
    show ?case
    proof (cases "bs = []")
      case True
      with "1.prems" show ?thesis by (simp add: registry_from_bytes_loop.simps)
    next
      case False
      with "1.prems"(2) obtain n key bls rest
        where t: "take_member C bs = Some ((n, key, bls), rest)"
          and l: "registry_from_bytes_loop C (register r0 n key bls) rest = Some r"
        by (subst (asm) registry_from_bytes_loop.simps) (auto split: option.splits)
      then have "member_wf C (n, key, bls)"
        by (auto simp: take_member_def member_wf_def take_exact_def Let_def split: if_splits)
      with "1.IH" [OF False t refl refl refl] "1.prems" l show ?thesis by blast
    qed
  qed
  from this [of registry_new] assms show ?thesis
    by (simp add: registry_from_bytes_def)
qed

subsection \<open>Properties\<close>

text \<open>
  The canonical roster bytes are a faithful name of the roster: two
  well-formed registries have the same bytes exactly when they are the same map from
  nodes to keys, whatever order their hash maps iterate in.
\<close>

theorem registry_bytes_canonical:
  assumes "registry_wf C a" "registry_wf C b"
  shows "registry_to_bytes a = registry_to_bytes b \<longleftrightarrow> registry_map a = registry_map b"
proof -
  have hm: "hm_wf (keys a)" "hm_wf (keys b)"
    using assms by (simp_all add: registry_wf_def)
  show ?thesis
  proof
    assume "registry_to_bytes a = registry_to_bytes b"
    with registry_from_to_bytes [OF assms(1)] registry_from_to_bytes [OF assms(2)]
    have "sorted_members a = sorted_members b" by simp
    with sorted_members_eq_iff [OF hm] show "registry_map a = registry_map b" by simp
  next
    assume "registry_map a = registry_map b"
    with sorted_members_eq_iff [OF hm] show "registry_to_bytes a = registry_to_bytes b"
      by (simp add: registry_to_bytes_def flip: sorted_members_def)
  qed
qed

theorem registry_bytes_canonical_witness:
  "registry_to_bytes \<lparr> keys = [(NodeId 2, replicate 32 9, replicate 48 1), (NodeId 1, replicate 32 8, replicate 48 2)] \<rparr> =
   registry_to_bytes \<lparr> keys = [(NodeId 1, replicate 32 8, replicate 48 2), (NodeId 2, replicate 32 9, replicate 48 1)] \<rparr>"
  by (subst registry_bytes_canonical [of sample_crypto])
    (auto simp: registry_wf_def member_wf_def sample_crypto_def registry_map_def fun_eq_iff)

text \<open>
  Reading a registry from its canonical bytes gives the same registry back,
  in the sense of the program's equality, and everything that \<^verbatim>\<open>from_bytes\<close> accepts is a
  well-formed registry.
\<close>

theorem registry_from_bytes_roundtrip:
  "(registry_wf C r \<longrightarrow>
     (\<exists>r'. registry_from_bytes C (registry_to_bytes r) = Some r' \<and> registry_eq r' r)) \<and>
   (registry_from_bytes C bs = Some s \<longrightarrow> registry_wf C s)"
proof (intro conjI impI)
  assume wf: "registry_wf C r"
  then have hm: "hm_wf (keys r)" by (simp add: registry_wf_def)
  then have "hm_wf (keys \<lparr> keys = sorted_members r \<rparr>)"
    using bt_wf_hm_wf [OF sorted_members_wf] by simp
  from registry_eq_iff [OF this hm]
  have "registry_eq \<lparr> keys = sorted_members r \<rparr> r"
    using map_of_sorted_members [OF hm] by (simp add: registry_map_def)
  with registry_from_to_bytes [OF wf]
  show "\<exists>r'. registry_from_bytes C (registry_to_bytes r) = Some r' \<and> registry_eq r' r" by blast
qed (rule registry_from_bytes_wf)

theorem registry_from_bytes_roundtrip_witness:
  "\<exists>r'. registry_from_bytes sample_crypto (registry_to_bytes \<lparr> keys = [(NodeId 2, replicate 32 9, replicate 48 1)] \<rparr>) = Some r' \<and>
    registry_eq r' \<lparr> keys = [(NodeId 2, replicate 32 9, replicate 48 1)] \<rparr>"
  using registry_from_bytes_roundtrip [of sample_crypto "\<lparr> keys = [(NodeId 2, replicate 32 9, replicate 48 1)] \<rparr>"]
  by (simp add: registry_wf_def member_wf_def sample_crypto_def)

text \<open>
  Verification accepts an event exactly when its creator is registered, its
  canonical bytes exist and the registered key verifies the signature over them; the
  event handed on is the one that was checked.
\<close>

theorem verify_Event_Ok_iff:
  "verify_Event C e reg = Ok v \<longleftrightarrow>
    (\<exists>key bls bs. registry_map reg (ev_creator e) = Some (key, bls) \<and>
      encode_UnsignedEvent (unsigned_part e) = Ok bs \<and>
      verify_strict C key bs (sig_bytes (ev_signature e)) \<and> v = VerifiedEvent e)"
  by (auto simp: verify_Event_def key_for_def registry_map_def split: if_splits)

end
