(* ===== verification/Roster.thy ===== *)
theory Roster
  imports Membership
begin

section \<open>Membership operations and roster history\<close>

text \<open>
  \<^verbatim>\<open>crypto/src/roster.rs\<close>: the wire format of the membership operations, and the history
  of registries by activation round, with its predecessor lookup and its pruning.
\<close>

subsection \<open>Socket addresses\<close>

text \<open>
  \<^verbatim>\<open>std::net::SocketAddr\<close>. The IPv6 variant also has a flow label and a scope id, which
  \<^verbatim>\<open>SocketAddr::new\<close> sets to zero.
\<close>

datatype IpAddr = IpV4 bytes | IpV6 bytes

datatype SocketAddr =
    SocketAddrV4 bytes u16
  | SocketAddrV6 bytes u16 u32 u32

primrec addr_ip :: "SocketAddr \<Rightarrow> IpAddr" where
  "addr_ip (SocketAddrV4 ip port) = IpV4 ip"
| "addr_ip (SocketAddrV6 ip port flowinfo scope_id) = IpV6 ip"

primrec addr_port :: "SocketAddr \<Rightarrow> u16" where
  "addr_port (SocketAddrV4 ip port) = port"
| "addr_port (SocketAddrV6 ip port flowinfo scope_id) = port"

primrec socket_addr_new :: "IpAddr \<Rightarrow> u16 \<Rightarrow> SocketAddr" where
  "socket_addr_new (IpV4 ip) port = SocketAddrV4 ip port"
| "socket_addr_new (IpV6 ip) port = SocketAddrV6 ip port 0 0"

primrec addr_wf :: "SocketAddr \<Rightarrow> bool" where
  "addr_wf (SocketAddrV4 ip port) \<longleftrightarrow> length ip = 4"
| "addr_wf (SocketAddrV6 ip port flowinfo scope_id) \<longleftrightarrow> length ip = 16"

text \<open>Addresses that the wire format carries in full.\<close>

primrec addr_plain :: "SocketAddr \<Rightarrow> bool" where
  "addr_plain (SocketAddrV4 ip port) \<longleftrightarrow> True"
| "addr_plain (SocketAddrV6 ip port flowinfo scope_id) \<longleftrightarrow> flowinfo = 0 \<and> scope_id = 0"

definition encode_addr :: "SocketAddr \<Rightarrow> bytes" where
  "encode_addr addr =
     (case addr_ip addr of IpV4 ip \<Rightarrow> 0x04 # ip | IpV6 ip \<Rightarrow> 0x06 # ip) @ u16_be (addr_port addr)"

definition decode_ip :: "u8 \<Rightarrow> bytes \<Rightarrow> (IpAddr \<times> bytes) option" where
  "decode_ip tag rest =
     (if tag = 0x04 then map_option (map_prod IpV4 id) (take_exact 4 rest)
      else if tag = 0x06 then map_option (map_prod IpV6 id) (take_exact 16 rest)
      else None)"

definition take_addr :: "bytes \<Rightarrow> (SocketAddr \<times> bytes) option" where
  "take_addr c = do {
     (encoded, c) \<leftarrow> take_prefixed c;
     (tag, rest) \<leftarrow> take_u8 encoded;
     (ip, rest) \<leftarrow> decode_ip tag rest;
     (port, rest) \<leftarrow> take_u16 rest;
     if rest = [] then Some (socket_addr_new ip port, c) else None }"

definition take_optional_addr :: "bytes \<Rightarrow> (SocketAddr option \<times> bytes) option" where
  "take_optional_addr c = do {
     (flag, c) \<leftarrow> take_u8 c;
     if flag = 0x00 then Some (None, c)
     else if flag = 0x01 then do { (a, c) \<leftarrow> take_addr c; Some (Some a, c) }
     else None }"

subsection \<open>Membership operations\<close>

datatype MembershipOp =
    Add NodeId VerifyingKey bytes bytes SocketAddr "SocketAddr option"
  | Remove NodeId

definition take_key :: "('x) crypto_lib_scheme \<Rightarrow> bytes \<Rightarrow> (VerifyingKey \<times> bytes) option" where
  "take_key C c = do { (k, c) \<leftarrow> take_exact 32 c; if vk_valid C k then Some (k, c) else None }"

definition take_add_fields :: "('x) crypto_lib_scheme \<Rightarrow> bytes \<Rightarrow> MembershipOp option" where
  "take_add_fields C c = do {
     (node, c) \<leftarrow> take_u64 c;
     (key, c) \<leftarrow> take_key C c;
     (bls_key, c) \<leftarrow> take_exact 48 c;
     (pop, c) \<leftarrow> take_exact 96 c;
     (addr, c) \<leftarrow> take_addr c;
     (reconnect_addr, c) \<leftarrow> take_optional_addr c;
     if c = [] then Some (Add (NodeId node) key bls_key pop addr reconnect_addr) else None }"

definition take_remove_fields :: "bytes \<Rightarrow> MembershipOp option" where
  "take_remove_fields c = do {
     (node, c) \<leftarrow> take_u64 c;
     if c = [] then Some (Remove (NodeId node)) else None }"

definition decode_MembershipOp :: "('x) crypto_lib_scheme \<Rightarrow> bytes \<Rightarrow> (MembershipOp, CryptoError) result" where
  "decode_MembershipOp C payload = (case payload of
     [] \<Rightarrow> Err MalformedOp
   | opcode # cursor \<Rightarrow>
       if opcode = 0x00 then ok_or MalformedOp (take_add_fields C cursor)
       else if opcode = 0x01 then ok_or MalformedOp (take_remove_fields cursor)
       else Err (UnknownMembershipOpcode opcode))"

text \<open>The encoder; \<open>None\<close> is the panic of \<^verbatim>\<open>write_bytes\<close> on a field over 4 GiB.\<close>

primrec encode_optional_addr :: "SocketAddr option \<Rightarrow> bytes option" where
  "encode_optional_addr None = Some [0x00]"
| "encode_optional_addr (Some a) = do { b \<leftarrow> write_prefixed (encode_addr a); Some (0x01 # b) }"

primrec encode_MembershipOp :: "MembershipOp \<Rightarrow> bytes option" where
  "encode_MembershipOp (Add node key bls_key pop addr reconnect_addr) = do {
     a \<leftarrow> write_prefixed (encode_addr addr);
     r \<leftarrow> encode_optional_addr reconnect_addr;
     Some (0x00 # u64_be (node_get node) @ key @ bls_key @ pop @ a @ r) }"
| "encode_MembershipOp (Remove node) = Some (0x01 # u64_be (node_get node))"

primrec membership_op_wf :: "('x) crypto_lib_scheme \<Rightarrow> MembershipOp \<Rightarrow> bool" where
  "membership_op_wf C (Add node key bls_key pop addr reconnect_addr) \<longleftrightarrow>
     length key = 32 \<and> vk_valid C key \<and> length bls_key = 48 \<and> length pop = 96 \<and>
     addr_wf addr \<and> pred_option addr_wf reconnect_addr"
| "membership_op_wf C (Remove node) \<longleftrightarrow> True"

text \<open>What survives the wire: the flow label and scope id of an IPv6 address do not.\<close>

definition addr_strip :: "SocketAddr \<Rightarrow> SocketAddr" where
  "addr_strip a = socket_addr_new (addr_ip a) (addr_port a)"

primrec op_strip :: "MembershipOp \<Rightarrow> MembershipOp" where
  "op_strip (Add node key bls_key pop addr reconnect_addr) =
     Add node key bls_key pop (addr_strip addr) (map_option addr_strip reconnect_addr)"
| "op_strip (Remove node) = Remove node"

lemma addr_strip_plain: "addr_strip a = a \<longleftrightarrow> addr_plain a"
  by (cases a) (auto simp: addr_strip_def)

lemma length_encode_addr: "addr_wf a \<Longrightarrow> length (encode_addr a) \<le> 19"
  by (cases a) (auto simp: encode_addr_def)

lemma write_addr_total: "addr_wf a \<Longrightarrow> \<exists>b. write_prefixed (encode_addr a) = Some b"
  using length_encode_addr [of a] by (auto simp: write_prefixed_Some_iff)

lemma take_addr_encode [codec_simps]:
  "addr_wf a \<Longrightarrow> write_prefixed (encode_addr a) = Some b \<Longrightarrow>
    take_addr (b @ rest) = Some (addr_strip a, rest)"
  using take_u16_append [of "addr_port a" "[]"]
  by (cases a) (auto simp: take_addr_def encode_addr_def decode_ip_def addr_strip_def)

lemma take_optional_addr_encode [codec_simps]:
  "pred_option addr_wf a \<Longrightarrow> encode_optional_addr a = Some b \<Longrightarrow>
    take_optional_addr (b @ rest) = Some (map_option addr_strip a, rest)"
  by (cases a; cases "write_prefixed (encode_addr (the a))") (auto simp: take_optional_addr_def take_addr_encode)

lemma encode_MembershipOp_total: "membership_op_wf C op \<Longrightarrow> \<exists>b. encode_MembershipOp op = Some b"
proof (cases op)
  case (Add node key bls_key pop addr r)
  moreover assume "membership_op_wf C op"
  ultimately show ?thesis
    using write_addr_total [of addr] write_addr_total by (cases r) fastforce+
qed simp

lemma decode_encode_MembershipOp:
  assumes "membership_op_wf C op" "encode_MembershipOp op = Some b"
  shows "decode_MembershipOp C b = Ok (op_strip op)"
proof (cases op)
  case (Add node key bls_key pop addr reconnect_addr)
  with assms obtain a r where
    a: "write_prefixed (encode_addr addr) = Some a" and r: "encode_optional_addr reconnect_addr = Some r"
    and b: "b = 0x00 # u64_be (node_get node) @ key @ bls_key @ pop @ a @ r"
    by (auto simp: bind_eq_Some_conv)
  have "take_optional_addr r = Some (map_option addr_strip reconnect_addr, [])"
    using take_optional_addr_encode [of reconnect_addr r "[]"] r assms(1) Add by simp
  moreover have "take_addr (a @ r) = Some (addr_strip addr, r)"
    using take_addr_encode [of addr a r] a assms(1) Add by simp
  ultimately show ?thesis
    using assms(1) by (simp add: Add b decode_MembershipOp_def take_add_fields_def take_key_def)
next
  case (Remove node)
  with assms(2) show ?thesis
    using take_u64_append [of "node_get node" "[]"]
    by (auto simp: decode_MembershipOp_def take_remove_fields_def)
qed

text \<open>The other direction: the decoder accepts nothing but encodings.\<close>

lemma take_addr_Some:
  assumes "take_addr c = Some (a, rest)"
  shows "addr_wf a \<and> addr_plain a \<and> (\<exists>b. write_prefixed (encode_addr a) = Some b \<and> c = b @ rest)"
proof -
  from assms obtain e tag body ip port where
    e: "take_prefixed c = Some (e, rest)" "take_u8 e = Some (tag, body)"
    and d: "decode_ip tag body = Some (ip, u16_be port)" and a: "a = socket_addr_new ip port"
    by (auto simp: take_addr_def bind_eq_Some_conv take_u16_Some_iff split: if_splits)
  from d have "addr_wf a" "addr_plain a" "encode_addr a = tag # body"
    by (auto simp: decode_ip_def take_exact_Some_iff a encode_addr_def split: if_splits)
  with e show ?thesis
    by (auto simp: take_prefixed_Some_iff take_u8_Some_iff)
qed

lemma take_optional_addr_Some:
  assumes "take_optional_addr c = Some (a, rest)"
  shows "pred_option addr_wf a \<and> map_option addr_strip a = a \<and>
    (\<exists>b. encode_optional_addr a = Some b \<and> c = b @ rest)"
proof (cases a)
  case None
  with assms show ?thesis
    by (auto simp: take_optional_addr_def bind_eq_Some_conv take_u8_Some_iff split: if_splits)
next
  case (Some x)
  with assms obtain c' where "c = 0x01 # c'" "take_addr c' = Some (x, rest)"
    by (auto simp: take_optional_addr_def bind_eq_Some_conv take_u8_Some_iff split: if_splits)
  with take_addr_Some [of c' x rest] Some show ?thesis
    by (auto simp: addr_strip_plain)
qed

lemma decode_MembershipOp_Ok:
  assumes "decode_MembershipOp C b = Ok op"
  shows "membership_op_wf C op \<and> op_strip op = op \<and> encode_MembershipOp op = Some b"
proof (cases op)
  case (Add node key bls_key pop addr r)
  with assms obtain c where b: "b = 0x00 # c" and f: "take_add_fields C c = Some op"
    by (auto simp: decode_MembershipOp_def take_remove_fields_def bind_eq_Some_conv
        split: list.splits if_splits)
  from f obtain c1 c2 where head: "c = u64_be (node_get node) @ key @ bls_key @ pop @ c1"
      "length key = 32" "vk_valid C key" "length bls_key = 48" "length pop = 96"
    and addr: "take_addr c1 = Some (addr, c2)" and r: "take_optional_addr c2 = Some (r, [])"
    by (auto simp: Add take_add_fields_def take_key_def bind_eq_Some_conv take_u64_Some_iff
        take_exact_Some_iff split: if_splits)
  show ?thesis
    using head take_addr_Some [OF addr] take_optional_addr_Some [OF r]
    by (auto simp: Add b addr_strip_plain)
next
  case (Remove node)
  with assms show ?thesis
    by (auto simp: decode_MembershipOp_def take_add_fields_def take_remove_fields_def
        bind_eq_Some_conv take_u64_Some_iff split: list.splits if_splits)
qed

subsection \<open>Roster history\<close>

record RosterHistory =
  snapshots :: "(u64, MembershipRegistry) btmap"

definition roster_new :: "MembershipRegistry \<Rightarrow> RosterHistory" where
  "roster_new genesis = \<lparr> snapshots = bt_insert 1 genesis [] \<rparr>"

text \<open>The registry active at a round; \<open>None\<close> is the panic of \<^verbatim>\<open>expect\<close>.\<close>

definition roster_for_round :: "RosterHistory \<Rightarrow> u64 \<Rightarrow> MembershipRegistry option" where
  "roster_for_round rh round = map_option snd (bt_last_upto round (snapshots rh))"

definition schedule :: "RosterHistory \<Rightarrow> u64 \<Rightarrow> MembershipRegistry \<Rightarrow> RosterHistory" where
  "schedule rh activation_round registry =
     rh\<lparr> snapshots := bt_insert activation_round registry (snapshots rh) \<rparr>"

definition from_snapshots :: "(u64 \<times> MembershipRegistry) list \<Rightarrow> RosterHistory option" where
  "from_snapshots ps = (let m = bt_of_list ps in if m = [] then None else Some \<lparr> snapshots = m \<rparr>)"

definition prune_before :: "RosterHistory \<Rightarrow> u64 \<Rightarrow> RosterHistory" where
  "prune_before rh keep_from_round = (
     let predecessor = map_option fst (bt_last_below keep_from_round (snapshots rh))
     in rh\<lparr> snapshots :=
          filter (\<lambda>(round, _). keep_from_round \<le> round \<or> Some round = predecessor) (snapshots rh) \<rparr>)"

definition roster_wf :: "RosterHistory \<Rightarrow> bool" where
  "roster_wf rh \<longleftrightarrow> bt_wf (snapshots rh)"

lemma roster_wf_new [simp, intro]: "roster_wf (roster_new g)"
  by (simp add: roster_wf_def roster_new_def bt_wf_def)

lemma snapshots_roster_new [simp]: "snapshots (roster_new g) = [(1, g)]"
  by (simp add: roster_new_def)

lemma roster_for_round_new [simp]:
  "roster_for_round (roster_new g) r = (if 1 \<le> r then Some g else None)"
  by (simp add: roster_for_round_def bt_last_upto_def last_opt_def)

lemma roster_wf_schedule [simp, intro]: "roster_wf rh \<Longrightarrow> roster_wf (schedule rh a reg)"
  by (auto simp: roster_wf_def schedule_def)

lemma roster_wf_prune [simp, intro]: "roster_wf rh \<Longrightarrow> roster_wf (prune_before rh k)"
  by (auto simp: roster_wf_def prune_before_def Let_def)

lemma roster_wf_from_snapshots: "from_snapshots ps = Some rh \<Longrightarrow> roster_wf rh"
  by (auto simp: from_snapshots_def roster_wf_def Let_def split: if_splits)

text \<open>The lookup as the specification states it: the last snapshot at or below the round.\<close>

lemma roster_for_round_Some_iff:
  assumes "roster_wf rh"
  shows "roster_for_round rh r = Some reg \<longleftrightarrow>
    (\<exists>a. a \<le> r \<and> map_of (snapshots rh) a = Some reg \<and>
      (\<forall>b \<in> fst ` set (snapshots rh). b \<le> r \<longrightarrow> b \<le> a))"
  using assms bt_wf_hm_wf [of "snapshots rh"]
  by (auto simp: roster_for_round_def roster_wf_def bt_last_upto_Some_iff map_of_Some_in)

lemma roster_for_round_None_iff:
  "roster_for_round rh r = None \<longleftrightarrow> (\<forall>b \<in> fst ` set (snapshots rh). r < b)"
  by (auto simp: roster_for_round_def bt_last_upto_def last_opt_def filter_empty_conv not_le)

lemma prune_keeps_last:
  assumes wf: "bt_wf m" and "k \<le> r"
  shows "bt_last_upto r (filter (\<lambda>p. k \<le> fst p \<or> Some (fst p) = map_option fst (bt_last_below k m)) m) =
    bt_last_upto r m"
    (is "bt_last_upto r (filter ?P m) = _")
proof (cases "bt_last_upto r m")
  case None
  then show ?thesis
    by (auto simp: bt_last_upto_def last_opt_def filter_empty_conv split: if_splits)
next
  case (Some p)
  with wf have p: "p \<in> set m" "fst p \<le> r" "\<forall>q \<in> set m. fst q \<le> r \<longrightarrow> fst q \<le> fst p"
    by (simp_all add: bt_last_upto_Some_iff)
  have "bt_last_below k m = Some p" if "fst p < k"
    using that p \<open>k \<le> r\<close> by (auto simp: bt_last_below_Some_iff [OF wf])
  then have "?P p" by (cases "k \<le> fst p") (auto simp: not_le)
  then have "bt_last_upto r (filter ?P m) = Some p"
    using p by (simp add: bt_last_upto_Some_iff wf)
  with Some show ?thesis by simp
qed

subsection \<open>Properties\<close>

text \<open>
  The membership wire format: the decoder accepts a payload exactly when it
  is the encoding of a well-formed operation whose addresses carry no flow label or scope
  id, and returns that operation. There is one encoding per operation, and truncated,
  padded or otherwise malformed payloads are rejected.
\<close>

lemma membership_op_codec:
  "decode_MembershipOp C b = Ok op \<longleftrightarrow>
    membership_op_wf C op \<and> op_strip op = op \<and> encode_MembershipOp op = Some b"
  using decode_MembershipOp_Ok [of C b op] decode_encode_MembershipOp [of C op b] by auto

text \<open>
  Encoding never panics on an operation whose arrays have their sizes, and
  decoding the encoding gives the operation back up to the flow label and scope id of its
  IPv6 addresses, which the format drops.
\<close>

theorem membership_op_roundtrip:
  "membership_op_wf C op \<Longrightarrow>
    \<exists>b. encode_MembershipOp op = Some b \<and> decode_MembershipOp C b = Ok (op_strip op)"
  using encode_MembershipOp_total [of C op] decode_encode_MembershipOp [of C op] by blast

theorem membership_op_roundtrip_witness:
  "\<exists>b. encode_MembershipOp (Remove (NodeId 7)) = Some b \<and>
    decode_MembershipOp sample_crypto b = Ok (Remove (NodeId 7))"
  using membership_op_roundtrip [of sample_crypto "Remove (NodeId 7)"] by simp

text \<open>
  The roster lookup after a scheduled change: the new registry is active
  exactly from its activation round on, up to the next later activation; every other
  round keeps the registry it had.
\<close>

theorem roster_for_round_schedule:
  assumes "roster_wf rh"
  shows "roster_for_round (schedule rh a reg) r =
    (if a \<le> r \<and> (\<forall>p \<in> set (snapshots rh). fst p \<le> r \<longrightarrow> fst p \<le> a) then Some reg
     else roster_for_round rh r)"
  using assms by (auto simp: roster_for_round_def schedule_def roster_wf_def bt_last_upto_insert)

theorem roster_for_round_schedule_witness:
  "roster_for_round (schedule (roster_new registry_new) 5 \<lparr> keys = [(NodeId 1, [], [])] \<rparr>) 7 =
    Some \<lparr> keys = [(NodeId 1, [], [])] \<rparr> \<and>
   roster_for_round (schedule (roster_new registry_new) 5 \<lparr> keys = [(NodeId 1, [], [])] \<rparr>) 4 =
    Some registry_new"
  using roster_for_round_schedule [of "roster_new registry_new" 5 _ 7]
    roster_for_round_schedule [of "roster_new registry_new" 5 _ 4]
  by simp

text \<open>
  Pruning the roster history below a round keeps the registry of every round
  at or above it, and leaves at most one snapshot below it.
\<close>

theorem prune_before_preserves:
  assumes "roster_wf rh"
  shows "(k \<le> r \<longrightarrow> roster_for_round (prune_before rh k) r = roster_for_round rh r) \<and>
    length (filter (\<lambda>p. fst p < k) (snapshots (prune_before rh k))) \<le> 1"
proof
  let ?P = "\<lambda>p. k \<le> fst p \<or> Some (fst p) = map_option fst (bt_last_below k (snapshots rh))"
  have eq: "snapshots (prune_before rh k) = filter ?P (snapshots rh)"
    by (simp add: prune_before_def case_prod_unfold)
  then show "k \<le> r \<longrightarrow> roster_for_round (prune_before rh k) r = roster_for_round rh r"
    using assms prune_keeps_last [of "snapshots rh" k r]
    unfolding roster_for_round_def roster_wf_def by metis
  have one: "length (filter (\<lambda>p. fst p < k \<and> Some (fst p) = z) m) \<le> 1" if "hm_wf m"
    for z and m :: "(u64 \<times> MembershipRegistry) list"
    using that by (induction m) (auto simp: filter_empty_conv image_iff split: if_splits)
  have "filter (\<lambda>p. fst p < k) (snapshots (prune_before rh k)) =
      filter (\<lambda>p. fst p < k \<and> Some (fst p) = map_option fst (bt_last_below k (snapshots rh))) (snapshots rh)"
    unfolding eq filter_filter by (rule filter_cong) (auto simp: not_le)
  then show "length (filter (\<lambda>p. fst p < k) (snapshots (prune_before rh k))) \<le> 1"
    using one [OF bt_wf_hm_wf] assms by (simp only: roster_wf_def)
qed

theorem prune_before_preserves_witness:
  "roster_for_round (prune_before (roster_new registry_new) 4) 6 = Some registry_new"
  using prune_before_preserves [of "roster_new registry_new" 4 6] by simp

end
