(* ===== verification/Executor.thy ===== *)
theory Executor
  imports Actors Roster
begin

section \<open>The deterministic executor\<close>

text \<open>
  \<^verbatim>\<open>executor/state/src/executor.rs\<close> and the dispatch of \<^verbatim>\<open>op.rs\<close>: decoding a transaction
  into one of the five kinds of operations, applying it to the state, and bucketing the
  membership operations of finalized events by round. The outer result carries storage
  errors and panics, which abort; the inner one carries the semantic outcome.
\<close>

subsection \<open>Decoding\<close>

datatype DecodedOp = Kv Op | MembershipChange MembershipOp | DidChange DidOp | SubActorMint SubActorOp | Rebind RebindOp

definition decode_DecodedOp :: "('x) crypto_lib_scheme \<Rightarrow> bytes \<Rightarrow> (DecodedOp, ExecutorError) result" where
  "decode_DecodedOp C pl = (case pl of
     [] \<Rightarrow> Err EmptyPayload
   | opcode # c \<Rightarrow>
       if opcode = 0x00 then map_ok Kv (decode_put c)
       else if opcode = 0x01 then map_ok Kv (decode_delete c)
       else if opcode = 0x02 then map_err (\<lambda>_. MalformedMembershipOp) (map_ok MembershipChange (decode_MembershipOp C c))
       else if opcode = 0x03 then map_err (\<lambda>_. MalformedDidOp) (map_ok DidChange (decode_DidOp C c))
       else if opcode = 0x04 then map_err (\<lambda>_. MalformedSubActorOp) (map_ok SubActorMint (decode_SubActorOp C c))
       else if opcode = 0x05 then map_err (\<lambda>_. MalformedRebindOp) (map_ok Rebind (decode_RebindOp C c))
       else Err (UnknownOpcode opcode))"

subsection \<open>Semantic errors and outcomes\<close>

datatype DidError =
    DidUnknownSigner | DidInvalidSignature | IdentifierAlreadyExists | UnknownIdentifier
  | AlreadyDeactivated | CreationDeactivated

datatype ActorError =
    UnknownRootDid | RootDeactivated | UnknownRootActor | SubActorAlreadyExists | UnknownSubActor
  | ExpectedSubActorId | ActorUnknownSigner | ActorInvalidSignature | InclusionProofInvalid
  | ConsistencyProofInvalid | InvalidProofOfPossession | InvalidAuthorization

datatype OpError = DidFailed DidError | ActorFailed ActorError

record ExecuteResult =
  errors :: "ExecutorError list"
  membership_ops :: "MembershipOp list"
  op_errors :: "OpError list"

type_synonym image = "bytes \<times> bytes"

subsection \<open>Reading records from state\<close>

text \<open>A stored record counts only when it decodes and nothing is left over.\<close>

definition read_document :: "('x) crypto_lib_scheme \<Rightarrow> bytes \<Rightarrow> DidDocument option" where
  "read_document C bs = (case decode_DidDocument C bs of Ok (d, []) \<Rightarrow> Some d | _ \<Rightarrow> None)"

definition read_root :: "('x) crypto_lib_scheme \<Rightarrow> bytes \<Rightarrow> RootActor option" where
  "read_root C bs = (case decode_RootActor C bs of Ok (r, []) \<Rightarrow> Some r | _ \<Rightarrow> None)"

definition read_sub :: "('x) crypto_lib_scheme \<Rightarrow> bytes \<Rightarrow> SubActor option" where
  "read_sub C bs = (case decode_SubActor C bs of Ok (s, []) \<Rightarrow> Some s | _ \<Rightarrow> None)"

subsection \<open>DID operations\<close>

definition check_signed :: "('x) crypto_lib_scheme \<Rightarrow> DidDocument \<Rightarrow> DidOp \<Rightarrow> bytes \<Rightarrow> (unit, DidError) result" where
  "check_signed C doc op msg = (case signing_key doc (unat (signed_by op)) of
     None \<Rightarrow> Err DidUnknownSigner
   | Some k \<Rightarrow> if vk_verify C k msg (sig_bytes (did_signature op)) then Ok () else Err DidInvalidSignature)"

definition verify_did_op ::
    "('x) crypto_lib_scheme \<Rightarrow> DidOp \<Rightarrow> bytes \<Rightarrow> bytes option \<Rightarrow> (unit, DidError) result" where
  "verify_did_op C op msg stored = (case (is_creation op, stored) of
     (True, Some _) \<Rightarrow> Err IdentifierAlreadyExists
   | (False, None) \<Rightarrow> Err UnknownIdentifier
   | (True, None) \<Rightarrow>
       if deactivated (document op) then Err CreationDeactivated
       else check_signed C (document op) op msg
   | (False, Some encoded) \<Rightarrow> (case read_document C encoded of
         None \<Rightarrow> Err DidInvalidSignature
       | Some prior \<Rightarrow>
           if deactivated prior then Err AlreadyDeactivated
           else check_signed C prior op msg))"

definition root_after_did_op ::
    "'ks keyspace_ops \<Rightarrow> ('x) crypto_lib_scheme \<Rightarrow> 'ks State \<Rightarrow> DidOp \<Rightarrow> (image option, StateDbError) result" where
  "root_after_did_op K C st op =
     (if deactivated (document op) then Ok None
      else andThen (ok_or_panic (actor_state_key (RootId (did_id op)))) (\<lambda>root_key.
        let control = doc_control_key (document op);
            fresh = \<lparr> ra_did = did_id op, merkle_root = EMPTY_ROOT, ra_leaf_count = 0, ra_control_key = control \<rparr>;
            updated =
              (if is_creation op then fresh
               else case Option.bind (state_get K st root_key) (read_root C) of
                 Some r \<Rightarrow> \<lparr> ra_did = did_id op, merkle_root = merkle_root r, ra_leaf_count = ra_leaf_count r,
                             ra_control_key = control \<rparr>
               | None \<Rightarrow> fresh)
        in map_ok (\<lambda>v. Some (root_key, v)) (ok_or_panic (encode_RootActor updated))))"

definition apply_did_op ::
    "'ks keyspace_ops \<Rightarrow> ('x) crypto_lib_scheme \<Rightarrow> 'ks State \<Rightarrow> DidOp \<Rightarrow>
     ('ks State \<times> (image option, DidError) result, StateDbError) result" where
  "apply_did_op K C st op =
     andThen (ok_or_panic (did_state_key (did_id op))) (\<lambda>key.
     andThen (ok_or_panic (did_signed_payload op)) (\<lambda>msg.
     case verify_did_op C op msg (state_get K st key) of
       Err e \<Rightarrow> Ok (st, Err e)
     | Panic \<Rightarrow> Panic
     | Ok _ \<Rightarrow>
         andThen (root_after_did_op K C st op) (\<lambda>root_write.
         andThen (state_apply K (sha256 C) st (Put key (encode_DidDocument (document op)))) (\<lambda>st.
         case root_write of
           None \<Rightarrow> Ok (st, Ok None)
         | Some (rk, rv) \<Rightarrow>
             map_ok (\<lambda>st. (st, Ok (Some (rk, rv)))) (state_apply K (sha256 C) st (Put rk rv))))))"

subsection \<open>Sub-actor operations\<close>

text \<open>The proof checks of a mint; \<open>Panic\<close> is the overflow of \<open>old_leaf_count + 1\<close>.\<close>

definition check_mint_proofs ::
    "hash_fn \<Rightarrow> SubActorOp \<Rightarrow> RootActor \<Rightarrow> bytes \<Rightarrow> (u64, ActorError) result" where
  "check_mint_proofs sha op root leaf =
     (let old = ra_leaf_count root; ip = so_inclusion op; cp = so_consistency op
      in if leaf_index ip \<noteq> old then Err InclusionProofInvalid
         else andThen (ok_or_panic (u64_checked_add old 1)) (\<lambda>n.
           if leaf_count ip \<noteq> n \<or> \<not> verify_inclusion sha leaf ip (so_new_root op) then Err InclusionProofInvalid
           else if old_leaf_count cp \<noteq> old \<or> new_leaf_count cp \<noteq> n \<or>
               \<not> verify_consistency sha (merkle_root root) cp (so_new_root op) then Err ConsistencyProofInvalid
           else Ok n))"

definition check_mint ::
    "'ks keyspace_ops \<Rightarrow> ('x) crypto_lib_scheme \<Rightarrow> 'ks State \<Rightarrow> SubActorOp \<Rightarrow> bytes \<Rightarrow> bytes \<Rightarrow> bytes \<Rightarrow>
     (RootActor \<times> u64, ActorError) result" where
  "check_mint K C st op sub_key did_key root_key =
     (if state_contains K st sub_key then Err SubActorAlreadyExists
      else andThen (ok_or UnknownRootDid (Option.bind (state_get K st did_key) (read_document C))) (\<lambda>doc.
      if deactivated doc then Err RootDeactivated
      else andThen (ok_or UnknownRootActor (Option.bind (state_get K st root_key) (read_root C))) (\<lambda>root.
      andThen (ok_or_panic (subactor_signed_payload op)) (\<lambda>msg.
      andThen (ok_or ActorUnknownSigner (signing_key doc (unat (so_signed_by op)))) (\<lambda>k.
      if \<not> vk_verify C k msg (sig_bytes (so_signature op)) then Err ActorInvalidSignature
      else andThen (ok_or_panic (subactor_leaf_hash (sha256 C) (so_actor_id op) (so_control_key op))) (\<lambda>leaf.
        map_ok (\<lambda>n. (root, n)) (check_mint_proofs (sha256 C) op root leaf)))))))"

definition apply_sub_actor_op ::
    "'ks keyspace_ops \<Rightarrow> ('x) crypto_lib_scheme \<Rightarrow> 'ks State \<Rightarrow> SubActorOp \<Rightarrow>
     ('ks State \<times> (image \<times> image, ActorError) result, StateDbError) result" where
  "apply_sub_actor_op K C st op =
     andThen (ok_or_panic (actor_state_key (so_actor_id op))) (\<lambda>sub_key.
     andThen (ok_or_panic (did_state_key (so_root_did op))) (\<lambda>did_key.
     andThen (ok_or_panic (actor_state_key (RootId (so_root_did op)))) (\<lambda>root_key.
     case check_mint K C st op sub_key did_key root_key of
       Err e \<Rightarrow> Ok (st, Err e)
     | Panic \<Rightarrow> Panic
     | Ok (root, n) \<Rightarrow> (case sub_actor_new (so_actor_id op) (so_control_key op) (so_operating_key op) of
           Err _ \<Rightarrow> Ok (st, Err ExpectedSubActorId)
         | Panic \<Rightarrow> Panic
         | Ok sub \<Rightarrow>
             andThen (ok_or_panic (encode_SubActor sub)) (\<lambda>sub_value.
             andThen (ok_or_panic (encode_RootActor \<lparr> ra_did = so_root_did op, merkle_root = so_new_root op,
                 ra_leaf_count = n, ra_control_key = ra_control_key root \<rparr>)) (\<lambda>root_value.
             andThen (state_apply K (sha256 C) st (Put sub_key sub_value)) (\<lambda>st.
             andThen (state_apply K (sha256 C) st (Put root_key root_value)) (\<lambda>st.
             Ok (st, Ok ((sub_key, sub_value), (root_key, root_value)))))))))))"

definition check_rebind ::
    "'ks keyspace_ops \<Rightarrow> ('x) crypto_lib_scheme \<Rightarrow> 'ks State \<Rightarrow> RebindOp \<Rightarrow> bytes \<Rightarrow> bytes \<Rightarrow> bytes \<Rightarrow>
     (SubActor \<times> RootActor, ActorError) result" where
  "check_rebind K C st op sub_key did_key root_key =
     andThen (ok_or UnknownSubActor (Option.bind (state_get K st sub_key) (read_sub C))) (\<lambda>sub.
     andThen (ok_or UnknownRootDid (Option.bind (state_get K st did_key) (read_document C))) (\<lambda>doc.
     if deactivated doc then Err RootDeactivated
     else andThen (ok_or UnknownRootActor (Option.bind (state_get K st root_key) (read_root C))) (\<lambda>root.
     Ok (sub, root))))"

definition check_rebind_sigs ::
    "('x) crypto_lib_scheme \<Rightarrow> RebindOp \<Rightarrow> RootActor \<Rightarrow> bytes \<Rightarrow> (unit, ActorError) result" where
  "check_rebind_sigs C op root msg =
     (if \<not> vk_verify C (ro_new_operating_key op) msg (sig_bytes (ro_pop op)) then Err InvalidProofOfPossession
      else if \<not> vk_verify C (ra_control_key root) msg (sig_bytes (ro_authorizing op)) then Err InvalidAuthorization
      else Ok ())"

definition apply_rebind_op ::
    "'ks keyspace_ops \<Rightarrow> ('x) crypto_lib_scheme \<Rightarrow> 'ks State \<Rightarrow> RebindOp \<Rightarrow>
     ('ks State \<times> (image, ActorError) result, StateDbError) result" where
  "apply_rebind_op K C st op = (case ro_actor_id op of
     RootId _ \<Rightarrow> Ok (st, Err ExpectedSubActorId)
   | SubId root_did _ _ \<Rightarrow>
     andThen (ok_or_panic (actor_state_key (ro_actor_id op))) (\<lambda>sub_key.
     andThen (ok_or_panic (did_state_key root_did)) (\<lambda>did_key.
     andThen (ok_or_panic (actor_state_key (RootId root_did))) (\<lambda>root_key.
     case check_rebind K C st op sub_key did_key root_key of
       Err e \<Rightarrow> Ok (st, Err e)
     | Panic \<Rightarrow> Panic
     | Ok (sub, root) \<Rightarrow>
         andThen (ok_or_panic (rebind_signed_payload op (sa_operating_key sub))) (\<lambda>msg.
         case check_rebind_sigs C op root msg of
           Err e \<Rightarrow> Ok (st, Err e)
         | Panic \<Rightarrow> Panic
         | Ok _ \<Rightarrow> (case sub_actor_new (ro_actor_id op) (sa_control_key sub) (ro_new_operating_key op) of
               Err _ \<Rightarrow> Ok (st, Err ExpectedSubActorId)
             | Panic \<Rightarrow> Panic
             | Ok updated \<Rightarrow>
                 andThen (ok_or_panic (encode_SubActor updated)) (\<lambda>v.
                 andThen (state_apply K (sha256 C) st (Put sub_key v)) (\<lambda>st.
                 Ok (st, Ok (sub_key, v))))))))))"

subsection \<open>Events\<close>

definition no_result :: ExecuteResult where
  "no_result = \<lparr> errors = [], membership_ops = [], op_errors = [] \<rparr>"

text \<open>One transaction of an event, with the state and the results collected so far.\<close>

definition execute_tx ::
    "'ks keyspace_ops \<Rightarrow> ('x) crypto_lib_scheme \<Rightarrow> Transaction \<Rightarrow> 'ks State \<times> ExecuteResult \<Rightarrow>
     ('ks State \<times> ExecuteResult, StateDbError) result" where
  "execute_tx K C tx s = (case s of (st, res) \<Rightarrow>
     case decode_DecodedOp C (tx_payload tx) of
       Ok (Kv op) \<Rightarrow> map_ok (\<lambda>st. (st, res)) (state_apply K (sha256 C) st op)
     | Ok (MembershipChange m) \<Rightarrow> Ok (st, res\<lparr> membership_ops := membership_ops res @ [m] \<rparr>)
     | Ok (DidChange op) \<Rightarrow> map_ok (\<lambda>(st, out). (st, case out of
           Err e \<Rightarrow> res\<lparr> op_errors := op_errors res @ [DidFailed e] \<rparr> | _ \<Rightarrow> res)) (apply_did_op K C st op)
     | Ok (SubActorMint op) \<Rightarrow> map_ok (\<lambda>(st, out). (st, case out of
           Err e \<Rightarrow> res\<lparr> op_errors := op_errors res @ [ActorFailed e] \<rparr> | _ \<Rightarrow> res)) (apply_sub_actor_op K C st op)
     | Ok (Rebind op) \<Rightarrow> map_ok (\<lambda>(st, out). (st, case out of
           Err e \<Rightarrow> res\<lparr> op_errors := op_errors res @ [ActorFailed e] \<rparr> | _ \<Rightarrow> res)) (apply_rebind_op K C st op)
     | Err e \<Rightarrow> Ok (st, res\<lparr> errors := errors res @ [e] \<rparr>)
     | Panic \<Rightarrow> Panic)"

primrec execute_txs ::
    "'ks keyspace_ops \<Rightarrow> ('x) crypto_lib_scheme \<Rightarrow> Transaction list \<Rightarrow> 'ks State \<times> ExecuteResult \<Rightarrow>
     ('ks State \<times> ExecuteResult, StateDbError) result" where
  "execute_txs K C [] s = Ok s"
| "execute_txs K C (tx # txs) s = andThen (execute_tx K C tx s) (execute_txs K C txs)"

definition execute_event ::
    "'ks keyspace_ops \<Rightarrow> ('x) crypto_lib_scheme \<Rightarrow> 'ks State \<Rightarrow> Event \<Rightarrow>
     ('ks State \<times> ExecuteResult, StateDbError) result" where
  "execute_event K C st e = execute_txs K C (ev_payload e) (st, no_result)"

subsection \<open>After-images\<close>

text \<open>A diff maps each key to its last written value, \<open>None\<close> for a delete.\<close>

type_synonym diffs = "(bytes, bytes option) btmap"

definition execute_tx_diffs ::
    "'ks keyspace_ops \<Rightarrow> ('x) crypto_lib_scheme \<Rightarrow> Transaction \<Rightarrow> 'ks State \<times> ExecuteResult \<times> diffs \<Rightarrow>
     ('ks State \<times> ExecuteResult \<times> diffs, StateDbError) result" where
  "execute_tx_diffs K C tx s = (case s of (st, res, ds) \<Rightarrow>
     case decode_DecodedOp C (tx_payload tx) of
       Ok (Kv op) \<Rightarrow> map_ok (\<lambda>st. (st, res, case op of
           Put key val \<Rightarrow> bt_insert key (Some val) ds | Delete key \<Rightarrow> bt_insert key None ds))
         (state_apply K (sha256 C) st op)
     | Ok (MembershipChange m) \<Rightarrow> Ok (st, res\<lparr> membership_ops := membership_ops res @ [m] \<rparr>, ds)
     | Ok (DidChange op) \<Rightarrow>
         andThen (ok_or_panic (did_state_key (did_id op))) (\<lambda>did_key.
         map_ok (\<lambda>(st, out). case out of
             Ok root_write \<Rightarrow> (st, res, (case root_write of
                 Some (rk, rv) \<Rightarrow> bt_insert rk (Some rv) | None \<Rightarrow> id)
               (bt_insert did_key (Some (encode_DidDocument (document op))) ds))
           | Err e \<Rightarrow> (st, res\<lparr> op_errors := op_errors res @ [DidFailed e] \<rparr>, ds)
           | Panic \<Rightarrow> (st, res, ds))
         (apply_did_op K C st op))
     | Ok (SubActorMint op) \<Rightarrow> map_ok (\<lambda>(st, out). case out of
             Ok ((sk, sv), (rk, rv)) \<Rightarrow> (st, res, bt_insert rk (Some rv) (bt_insert sk (Some sv) ds))
           | Err e \<Rightarrow> (st, res\<lparr> op_errors := op_errors res @ [ActorFailed e] \<rparr>, ds)
           | Panic \<Rightarrow> (st, res, ds))
         (apply_sub_actor_op K C st op)
     | Ok (Rebind op) \<Rightarrow> map_ok (\<lambda>(st, out). case out of
             Ok (key, val) \<Rightarrow> (st, res, bt_insert key (Some val) ds)
           | Err e \<Rightarrow> (st, res\<lparr> op_errors := op_errors res @ [ActorFailed e] \<rparr>, ds)
           | Panic \<Rightarrow> (st, res, ds))
         (apply_rebind_op K C st op)
     | Err e \<Rightarrow> Ok (st, res\<lparr> errors := errors res @ [e] \<rparr>, ds)
     | Panic \<Rightarrow> Panic)"

primrec execute_txs_diffs ::
    "'ks keyspace_ops \<Rightarrow> ('x) crypto_lib_scheme \<Rightarrow> Transaction list \<Rightarrow> 'ks State \<times> ExecuteResult \<times> diffs \<Rightarrow>
     ('ks State \<times> ExecuteResult \<times> diffs, StateDbError) result" where
  "execute_txs_diffs K C [] s = Ok s"
| "execute_txs_diffs K C (tx # txs) s = andThen (execute_tx_diffs K C tx s) (execute_txs_diffs K C txs)"

definition execute_event_with_diffs ::
    "'ks keyspace_ops \<Rightarrow> ('x) crypto_lib_scheme \<Rightarrow> 'ks State \<Rightarrow> Event \<Rightarrow> diffs \<Rightarrow>
     ('ks State \<times> ExecuteResult \<times> diffs, StateDbError) result" where
  "execute_event_with_diffs K C st e ds = execute_txs_diffs K C (ev_payload e) (st, no_result, ds)"

subsection \<open>Finalized events\<close>

record 'ks Executor =
  ex_state :: "'ks State"
  executed :: "EventHash list"

definition executor_new :: "hash_fn \<Rightarrow> 'ks \<Rightarrow> 'ks Executor" where
  "executor_new sha ks = \<lparr> ex_state = state_new sha ks, executed = [] \<rparr>"

definition from_state :: "'ks State \<Rightarrow> 'ks Executor" where
  "from_state st = \<lparr> ex_state = st, executed = [] \<rparr>"

type_synonym pending = "(u64, MembershipOp list) btmap"

text \<open>\<^verbatim>\<open>pending.entry(round).or_default().extend(ops)\<close>.\<close>

definition pending_extend :: "u64 \<Rightarrow> MembershipOp list \<Rightarrow> pending \<Rightarrow> pending" where
  "pending_extend round ops p = bt_insert round (case_option [] id (map_of p round) @ ops) p"

primrec bucket_loop ::
    "'ks keyspace_ops \<Rightarrow> ('x) crypto_lib_scheme \<Rightarrow> (Event \<times> u64) list \<Rightarrow> 'ks Executor \<times> pending \<times> bool \<Rightarrow>
     ('ks Executor \<times> pending \<times> bool, StateDbError) result" where
  "bucket_loop K C [] s = Ok s"
| "bucket_loop K C (er # rest) s = (case (er, s) of ((event, round), (ex, pend, any_new)) \<Rightarrow>
     case hash_Event (sha256 C) event of
       Ok h \<Rightarrow>
         if h \<in> set (executed ex) then bucket_loop K C rest s
         else andThen (execute_event K C (ex_state ex) event) (\<lambda>(st, res).
           bucket_loop K C rest
             (ex\<lparr> ex_state := st, executed := h # executed ex \<rparr>,
              if membership_ops res \<noteq> [] then pending_extend round (membership_ops res) pend else pend,
              True))
     | _ \<Rightarrow> Panic)"

definition bucket_finalized ::
    "'ks keyspace_ops \<Rightarrow> ('x) crypto_lib_scheme \<Rightarrow> 'ks Executor \<Rightarrow> pending \<Rightarrow> u64 \<Rightarrow> (Event \<times> u64) list \<Rightarrow>
     ('ks Executor \<times> pending \<times> u64, StateDbError) result" where
  "bucket_finalized K C ex pend through finalized =
     (if finalized = [] then Ok (ex, pend, through)
      else let new_max = fold max (map snd finalized) 0
           in map_ok (\<lambda>(ex, pend, any_new). (ex, pend, if any_new \<and> through < new_max then new_max else through))
             (bucket_loop K C finalized (ex, pend, False)))"

text \<open>The variant that also collects the after-images of each round.\<close>

type_synonym round_diffs = "(u64, diffs) btmap"

primrec bucket_diffs_loop ::
    "'ks keyspace_ops \<Rightarrow> ('x) crypto_lib_scheme \<Rightarrow> (Event \<times> u64) list \<Rightarrow>
     'ks Executor \<times> pending \<times> round_diffs \<times> bool \<Rightarrow>
     ('ks Executor \<times> pending \<times> round_diffs \<times> bool, StateDbError) result" where
  "bucket_diffs_loop K C [] s = Ok s"
| "bucket_diffs_loop K C (er # rest) s = (case (er, s) of ((event, round), (ex, pend, rds, any_new)) \<Rightarrow>
     case hash_Event (sha256 C) event of
       Ok h \<Rightarrow>
         if h \<in> set (executed ex) then bucket_diffs_loop K C rest s
         else andThen (execute_event_with_diffs K C (ex_state ex) event (case_option [] id (map_of rds round)))
           (\<lambda>(st, res, ds).
           bucket_diffs_loop K C rest
             (ex\<lparr> ex_state := st, executed := h # executed ex \<rparr>,
              if membership_ops res \<noteq> [] then pending_extend round (membership_ops res) pend else pend,
              bt_insert round ds rds,
              True))
     | _ \<Rightarrow> Panic)"

definition bucket_finalized_with_diffs ::
    "'ks keyspace_ops \<Rightarrow> ('x) crypto_lib_scheme \<Rightarrow> 'ks Executor \<Rightarrow> pending \<Rightarrow> u64 \<Rightarrow> (Event \<times> u64) list \<Rightarrow>
     ('ks Executor \<times> pending \<times> u64 \<times> round_diffs, StateDbError) result" where
  "bucket_finalized_with_diffs K C ex pend through finalized =
     (if finalized = [] then Ok (ex, pend, through, [])
      else let new_max = fold max (map snd finalized) 0
           in map_ok (\<lambda>(ex, pend, rds, any_new).
               (ex, pend, if any_new \<and> through < new_max then new_max else through,
                filter (\<lambda>(_, ds). ds \<noteq> []) rds))
             (bucket_diffs_loop K C finalized (ex, pend, [], False)))"

subsection \<open>What each operation writes\<close>

definition image_put :: "image option \<Rightarrow> Op list" where
  "image_put w = (case w of None \<Rightarrow> [] | Some (k, v) \<Rightarrow> [Put k v])"

lemma case_result_Ok_iff:
  "(case r of Ok x \<Rightarrow> f x | Err e \<Rightarrow> g e | Panic \<Rightarrow> Panic) = Ok y \<longleftrightarrow>
   (\<exists>x. r = Ok x \<and> f x = Ok y) \<or> (\<exists>e. r = Err e \<and> g e = Ok y)"
  by (cases r) auto

lemma apply_did_op_Ok:
  assumes "apply_did_op K C st op = Ok (st', Ok w)"
  obtains key msg where "did_state_key (did_id op) = Some key" "did_signed_payload op = Some msg"
    "verify_did_op C op msg (state_get K st key) = Ok ()" "root_after_did_op K C st op = Ok w"
    "state_run K (sha256 C) (Put key (encode_DidDocument (document op)) # image_put w) st = Ok st'"
proof -
  from assms obtain key msg where keys: "did_state_key (did_id op) = Some key" "did_signed_payload op = Some msg"
    by (auto simp: apply_did_op_def)
  with assms have ver: "verify_did_op C op msg (state_get K st key) = Ok ()"
    by (cases "verify_did_op C op msg (state_get K st key)") (auto simp: apply_did_op_def)
  with assms keys obtain w' where w': "root_after_did_op K C st op = Ok w'"
    by (auto simp: apply_did_op_def)
  with assms keys ver have "w' = w"
    by (cases w') (auto simp: apply_did_op_def simp del: state_apply.simps)
  with assms keys ver w' show thesis
    by (intro that [of key msg])
      (auto simp: apply_did_op_def image_put_def simp del: state_apply.simps split: option.splits)
qed

lemma apply_did_op_not_Ok:
  "apply_did_op K C st op = Ok (st', out) \<Longrightarrow> (\<exists>w. out = Ok w) \<or> (st' = st \<and> (\<exists>e. out = Err e))"
  by (auto simp: apply_did_op_def case_result_Ok_iff split: option.splits)

lemma apply_sub_actor_op_Ok:
  assumes "apply_sub_actor_op K C st op = Ok (st', Ok (s, r))"
  obtains sub_key did_key root_key root n sub where
    "actor_state_key (so_actor_id op) = Some sub_key" "did_state_key (so_root_did op) = Some did_key"
    "actor_state_key (RootId (so_root_did op)) = Some root_key"
    "check_mint K C st op sub_key did_key root_key = Ok (root, n)"
    "sub_actor_new (so_actor_id op) (so_control_key op) (so_operating_key op) = Ok sub"
    "fst s = sub_key" "encode_SubActor sub = Some (snd s)" "fst r = root_key"
    "encode_RootActor \<lparr> ra_did = so_root_did op, merkle_root = so_new_root op, ra_leaf_count = n,
       ra_control_key = ra_control_key root \<rparr> = Some (snd r)"
    "state_run K (sha256 C) [Put (fst s) (snd s), Put (fst r) (snd r)] st = Ok st'"
proof -
  from assms obtain sub_key did_key root_key where keys:
    "actor_state_key (so_actor_id op) = Some sub_key" "did_state_key (so_root_did op) = Some did_key"
    "actor_state_key (RootId (so_root_did op)) = Some root_key"
    by (auto simp: apply_sub_actor_op_def)
  with assms obtain root n where chk: "check_mint K C st op sub_key did_key root_key = Ok (root, n)"
    by (auto simp: apply_sub_actor_op_def case_result_Ok_iff simp del: state_apply.simps)
  with assms keys obtain sub
    where sub: "sub_actor_new (so_actor_id op) (so_control_key op) (so_operating_key op) = Ok sub"
    by (auto simp: apply_sub_actor_op_def case_result_Ok_iff simp del: state_apply.simps)
  show thesis
    using assms keys chk sub
    by (intro that [of sub_key did_key root_key root n sub])
      (auto simp: apply_sub_actor_op_def simp del: state_apply.simps)
qed

lemma apply_sub_actor_op_not_Ok:
  "apply_sub_actor_op K C st op = Ok (st', out) \<Longrightarrow> (\<exists>w. out = Ok w) \<or> (st' = st \<and> (\<exists>e. out = Err e))"
  by (auto simp: apply_sub_actor_op_def case_result_Ok_iff simp del: state_apply.simps)

lemma apply_rebind_op_Ok:
  assumes "apply_rebind_op K C st op = Ok (st', Ok w)"
  obtains root_did t i sub_key did_key root_key sub root msg new where
    "ro_actor_id op = SubId root_did t i"
    "actor_state_key (ro_actor_id op) = Some sub_key" "did_state_key root_did = Some did_key"
    "actor_state_key (RootId root_did) = Some root_key"
    "check_rebind K C st op sub_key did_key root_key = Ok (sub, root)"
    "rebind_signed_payload op (sa_operating_key sub) = Some msg" "check_rebind_sigs C op root msg = Ok ()"
    "sub_actor_new (ro_actor_id op) (sa_control_key sub) (ro_new_operating_key op) = Ok new"
    "fst w = sub_key" "encode_SubActor new = Some (snd w)"
    "state_run K (sha256 C) [Put (fst w) (snd w)] st = Ok st'"
proof -
  from assms obtain root_did t i sub_key did_key root_key where keys: "ro_actor_id op = SubId root_did t i"
    "actor_state_key (ro_actor_id op) = Some sub_key" "did_state_key root_did = Some did_key"
    "actor_state_key (RootId root_did) = Some root_key"
    by (auto simp: apply_rebind_op_def split: ActorId.splits)
  with assms obtain sub root where chk: "check_rebind K C st op sub_key did_key root_key = Ok (sub, root)"
    by (auto simp: apply_rebind_op_def split: result.splits)
  with assms keys obtain msg where msg: "rebind_signed_payload op (sa_operating_key sub) = Some msg"
    by (auto simp: apply_rebind_op_def)
  with assms keys chk have sigs: "check_rebind_sigs C op root msg = Ok ()"
    by (cases "check_rebind_sigs C op root msg") (auto simp: apply_rebind_op_def)
  with assms keys chk msg obtain new
    where new: "sub_actor_new (ro_actor_id op) (sa_control_key sub) (ro_new_operating_key op) = Ok new"
    by (auto simp: apply_rebind_op_def split: result.splits)
  show thesis
    using assms keys chk msg sigs new
    by (intro that [of root_did t i sub_key did_key root_key sub root msg new])
      (auto simp: apply_rebind_op_def simp del: state_apply.simps)
qed

lemma apply_rebind_op_not_Ok:
  "apply_rebind_op K C st op = Ok (st', out) \<Longrightarrow> (\<exists>w. out = Ok w) \<or> (st' = st \<and> (\<exists>e. out = Err e))"
  by (auto simp: apply_rebind_op_def case_result_Ok_iff simp del: state_apply.simps split: ActorId.splits)

text \<open>One transaction, read backwards.\<close>

lemma execute_tx_cases:
  assumes "execute_tx K C tx (st, res) = Ok (st', res')"
  obtains (unchanged) "st' = st" "\<And>ds. execute_tx_diffs K C tx (st, res, ds) = Ok (st', res', ds)"
  | (kv) op where "decode_DecodedOp C (tx_payload tx) = Ok (Kv op)" "state_apply K (sha256 C) st op = Ok st'"
  | (did) op w where "decode_DecodedOp C (tx_payload tx) = Ok (DidChange op)" "apply_did_op K C st op = Ok (st', Ok w)"
  | (mint) op w where "decode_DecodedOp C (tx_payload tx) = Ok (SubActorMint op)"
      "apply_sub_actor_op K C st op = Ok (st', Ok w)"
  | (rebind) op w where "decode_DecodedOp C (tx_payload tx) = Ok (Rebind op)" "apply_rebind_op K C st op = Ok (st', Ok w)"
  using assms
proof (cases "decode_DecodedOp C (tx_payload tx)")
  case (Ok d)
  show ?thesis
  proof (cases d)
    case (Kv op)
    with assms Ok kv show ?thesis by (auto simp: execute_tx_def)
  next
    case (MembershipChange m)
    with assms Ok unchanged show ?thesis by (auto simp: execute_tx_def execute_tx_diffs_def)
  next
    case (DidChange op)
    with assms Ok obtain out where o: "apply_did_op K C st op = Ok (st', out)" by (auto simp: execute_tx_def)
    then obtain key where "did_state_key (did_id op) = Some key" by (auto simp: apply_did_op_def)
    with apply_did_op_not_Ok [OF o] o assms Ok DidChange did unchanged show ?thesis
      by (auto simp: execute_tx_def execute_tx_diffs_def)
  next
    case (SubActorMint op)
    with assms Ok obtain out where o: "apply_sub_actor_op K C st op = Ok (st', out)" by (auto simp: execute_tx_def)
    with apply_sub_actor_op_not_Ok [OF o] assms Ok SubActorMint mint unchanged show ?thesis
      by (auto simp: execute_tx_def execute_tx_diffs_def)
  next
    case (Rebind op)
    with assms Ok obtain out where o: "apply_rebind_op K C st op = Ok (st', out)" by (auto simp: execute_tx_def)
    with apply_rebind_op_not_Ok [OF o] assms Ok Rebind rebind unchanged show ?thesis
      by (auto simp: execute_tx_def execute_tx_diffs_def)
  qed
qed (use unchanged in \<open>auto simp: execute_tx_def execute_tx_diffs_def\<close>)

subsection \<open>After-images mirror the writes\<close>

fun diff_insert :: "Op \<Rightarrow> diffs \<Rightarrow> diffs" where
  "diff_insert (Put k v) ds = bt_insert k (Some v) ds"
| "diff_insert (Delete k) ds = bt_insert k None ds"

lemma state_run_append:
  "state_run K sha (a @ b) st = andThen (state_run K sha a st) (state_run K sha b)"
proof (induction a arbitrary: st)
  case (Cons op a)
  then show ?case by (cases "state_apply K sha st op") auto
qed simp

lemma map_ok_map_ok [simp]: "map_ok f (map_ok g m) = map_ok (\<lambda>x. f (g x)) m"
  by (cases m) auto

lemma map_ok_cong: "(\<And>x. m = Ok x \<Longrightarrow> f x = g x) \<Longrightarrow> map_ok f m = map_ok g m"
  by (cases m) auto

lemma execute_tx_forget:
  "execute_tx K C tx (st, res) = map_ok (\<lambda>(st, res, _). (st, res)) (execute_tx_diffs K C tx (st, res, ds))"
proof (cases "decode_DecodedOp C (tx_payload tx)")
  case (Ok d)
  show ?thesis
  proof (cases d)
    case (DidChange op)
    with Ok show ?thesis
      by (cases "did_state_key (did_id op)")
        (auto simp: execute_tx_def execute_tx_diffs_def apply_did_op_def [of K C st op]
          intro!: map_ok_cong split: result.splits)
  qed (use Ok in \<open>auto simp: execute_tx_def execute_tx_diffs_def intro!: map_ok_cong split: result.splits\<close>)
qed (auto simp: execute_tx_def execute_tx_diffs_def)

lemma execute_txs_forget:
  "execute_txs K C txs (st, res) = map_ok (\<lambda>(st, res, _). (st, res)) (execute_txs_diffs K C txs (st, res, ds))"
proof (induction txs arbitrary: st res ds)
  case (Cons tx txs)
  show ?case
    by (cases "execute_tx_diffs K C tx (st, res, ds)")
      (auto simp: execute_tx_forget [of K C tx st res ds] Cons split: prod.splits)
qed simp

lemma did_diffs_run:
  assumes "apply_did_op K C st op = Ok (st', Ok w)" "did_state_key (did_id op) = Some key"
  shows "state_run K (sha256 C) (Put key (encode_DidDocument (document op)) # image_put w) st = Ok st'"
  using apply_did_op_Ok [OF assms(1)] assms(2) by (metis option.inject)

lemma mint_diffs_run:
  assumes "apply_sub_actor_op K C st op = Ok (st', Ok ((sk, sv), (rk, rv)))"
  shows "state_run K (sha256 C) [Put sk sv, Put rk rv] st = Ok st'"
  using apply_sub_actor_op_Ok [OF assms] by (metis fst_conv snd_conv)

lemma rebind_diffs_run:
  assumes "apply_rebind_op K C st op = Ok (st', Ok (k, v))"
  shows "state_run K (sha256 C) [Put k v] st = Ok st'"
  using apply_rebind_op_Ok [OF assms] by (metis fst_conv snd_conv)

lemma execute_tx_diffs_run:
  assumes "execute_tx_diffs K C tx (st, res, ds) = Ok (st', res', ds')"
  shows "\<exists>ops. state_run K (sha256 C) ops st = Ok st' \<and> ds' = fold diff_insert ops ds"
proof -
  from assms execute_tx_forget [of K C tx st res ds] have "execute_tx K C tx (st, res) = Ok (st', res')" by simp
  then show ?thesis
  proof (cases rule: execute_tx_cases)
    case unchanged
    with assms show ?thesis by (intro exI [of _ "[]"]) simp
  next
    case (kv op)
    with assms show ?thesis
      by (cases op) (auto simp: execute_tx_diffs_def simp del: state_apply.simps intro!: exI [of _ "[op]"])
  next
    case (did op w)
    then obtain key where key: "did_state_key (did_id op) = Some key" by (elim apply_did_op_Ok) auto
    with did_diffs_run [OF did(2) key] did assms show ?thesis
      by (intro exI [of _ "Put key (encode_DidDocument (document op)) # image_put w"])
        (auto simp: execute_tx_diffs_def image_put_def split: option.splits)
  next
    case (mint op w)
    obtain sk sv rk rv where w: "w = ((sk, sv), (rk, rv))" by (metis surj_pair)
    with mint_diffs_run [of K C st op st' sk sv rk rv] mint assms show ?thesis
      by (intro exI [of _ "[Put sk sv, Put rk rv]"]) (auto simp: execute_tx_diffs_def simp del: state_apply.simps)
  next
    case (rebind op w)
    obtain k v where w: "w = (k, v)" by (rule prod.exhaust)
    with rebind_diffs_run [of K C st op st' k v] rebind assms show ?thesis
      by (intro exI [of _ "[Put k v]"]) (auto simp: execute_tx_diffs_def simp del: state_apply.simps)
  qed
qed

lemma execute_txs_diffs_run:
  assumes "execute_txs_diffs K C txs (st, res, ds) = Ok (st', res', ds')"
  shows "\<exists>ops. state_run K (sha256 C) ops st = Ok st' \<and> ds' = fold diff_insert ops ds"
  using assms
proof (induction txs arbitrary: st res ds)
  case Nil
  then show ?case by (intro exI [of _ "[]"]) simp
next
  case (Cons tx txs)
  then obtain st1 res1 ds1 where one: "execute_tx_diffs K C tx (st, res, ds) = Ok (st1, res1, ds1)"
    and rest: "execute_txs_diffs K C txs (st1, res1, ds1) = Ok (st', res', ds')"
    by auto
  from execute_tx_diffs_run [OF one] Cons.IH [OF rest] obtain a b
    where "state_run K (sha256 C) a st = Ok st1" "ds1 = fold diff_insert a ds"
      and "state_run K (sha256 C) b st1 = Ok st'" "ds' = fold diff_insert b ds1"
    by blast
  then show ?case
    by (intro exI [of _ "a @ b"]) (simp add: state_run_append)
qed

text \<open>Reading a map through a diff.\<close>

definition overlay :: "diffs \<Rightarrow> (bytes \<Rightarrow> bytes option) \<Rightarrow> bytes \<Rightarrow> bytes option" where
  "overlay ds m k = (case map_of ds k of None \<Rightarrow> m k | Some v \<Rightarrow> v)"

lemma overlay_Nil [simp]: "overlay [] m = m"
  by (simp add: overlay_def fun_eq_iff)

lemma bt_wf_diff_insert [simp]: "bt_wf ds \<Longrightarrow> bt_wf (diff_insert op ds)"
  by (cases op) auto

lemma overlay_diff_insert: "bt_wf ds \<Longrightarrow> overlay (diff_insert op ds) m = op_effect op (overlay ds m)"
  by (cases op) (auto simp: overlay_def fun_eq_iff)

lemma overlay_fold:
  "bt_wf ds \<Longrightarrow> overlay (fold diff_insert ops ds) m = fold op_effect ops (overlay ds m) \<and>
    bt_wf (fold diff_insert ops ds)"
  by (induction ops arbitrary: ds) (auto simp: overlay_diff_insert)

context keyspace
begin

lemma state_run_contents:
  "state_run K sha ops st = Ok st' \<Longrightarrow> contents (kv st') = fold op_effect ops (contents (kv st))"
proof (induction ops arbitrary: st)
  case (Cons op ops)
  then obtain st1 where st1: "state_apply K sha st op = Ok st1" "state_run K sha ops st1 = Ok st'" by auto
  have "contents (kv st1) = op_effect op (contents (kv st))"
    using st1(1) by (cases op) (auto dest: insert_contents remove_contents)
  with Cons.IH [OF st1(2)] show ?case by simp
qed simp

lemma execute_event_with_diffs_contents:
  assumes "execute_event_with_diffs K C st e ds = Ok (st', res, ds')" "bt_wf ds"
    and "contents (kv st) = overlay ds m"
  shows "bt_wf ds' \<and> contents (kv st') = overlay ds' m"
proof -
  from execute_txs_diffs_run assms(1) obtain ops
    where "state_run K (sha256 C) ops st = Ok st'" "ds' = fold diff_insert ops ds"
    unfolding execute_event_with_diffs_def by blast
  with state_run_contents overlay_fold [OF assms(2)] assms(3) show ?thesis by simp
qed

end

subsection \<open>Rounds of after-images\<close>

text \<open>Applying the after-images of the rounds in ascending order.\<close>

definition replay :: "round_diffs \<Rightarrow> (bytes \<Rightarrow> bytes option) \<Rightarrow> bytes \<Rightarrow> bytes option" where
  "replay rds m = fold (\<lambda>(_, ds) m. overlay ds m) rds m"

lemma bucket_loop_forget:
  "bucket_loop K C fin (ex, pend, new) =
    map_ok (\<lambda>(ex, pend, _, new). (ex, pend, new)) (bucket_diffs_loop K C fin (ex, pend, rds, new))"
proof (induction fin arbitrary: ex pend rds new)
  case (Cons er fin)
  obtain e r where er: "er = (e, r)" by (rule prod.exhaust)
  have *: "execute_event K C (ex_state ex) e = map_ok (\<lambda>(st, res, _). (st, res))
      (execute_event_with_diffs K C (ex_state ex) e (case_option [] id (map_of rds r)))"
    unfolding execute_event_def execute_event_with_diffs_def by (rule execute_txs_forget)
  show ?case
  proof (cases "hash_Event (sha256 C) e")
    case (Ok h)
    then show ?thesis
      using Cons by (cases "execute_event_with_diffs K C (ex_state ex) e (case_option [] id (map_of rds r))")
        (auto simp: er * split: prod.splits)
  qed (simp_all add: er)
qed simp

text \<open>The diffs of the last round are the tail of a sorted list of rounds.\<close>

lemma split_last_round:
  assumes "bt_wf rds" "\<forall>q \<in> fst ` set rds. q \<le> r"
  obtains init where "replay rds m = overlay (case_option [] id (map_of rds r)) (replay init m)"
    "\<And>ds. bt_insert r ds rds = init @ [(r, ds)]" "\<forall>q \<in> set init. q \<in> set rds"
proof (cases "r \<in> fst ` set rds")
  case False
  with assms have lt: "\<forall>q \<in> set rds. fst q < r" by force
  moreover have "map_of rds r = None" using False by (simp add: map_of_eq_None_iff)
  ultimately show thesis
    by (intro that [of rds]) (auto simp: bt_insert_append)
next
  case True
  then obtain ds0 where "(r, ds0) \<in> set rds" by auto
  then obtain a b where rds: "rds = a @ (r, ds0) # b" by (meson split_list)
  have b: "b = []"
  proof (rule ccontr)
    assume "b \<noteq> []"
    then obtain q where "q \<in> set b" by (cases b) auto
    with assms rds have "r < fst q" "fst q \<le> r" by (auto simp: bt_wf_def sorted_wrt_append)
    then show False by simp
  qed
  have lt: "\<forall>q \<in> set a. fst q < r" using assms(1) rds by (auto simp: bt_wf_def sorted_wrt_append)
  then have "bt_insert r ds rds = a @ [(r, ds)]" for ds
    unfolding rds b by (induction a) auto
  moreover have "map_of rds r = Some ds0"
    using lt by (auto simp: rds map_add_def map_of_eq_None_iff split: option.splits dest!: map_of_SomeD)
  ultimately show thesis
    by (intro that [of a]) (auto simp: rds b replay_def)
qed

context keyspace
begin

lemma bucket_diffs_loop_replay:
  assumes "bucket_diffs_loop K C fin (ex, pend, rds, new) = Ok (ex', pend', rds', new')"
    and "sorted (map snd fin)" "bt_wf rds" "list_all (\<lambda>q. bt_wf (snd q)) rds"
    and "\<forall>q \<in> fst ` set rds. \<forall>r \<in> snd ` set fin. q \<le> r"
    and "contents (kv (ex_state ex)) = replay rds m"
  shows "contents (kv (ex_state ex')) = replay rds' m"
  using assms
proof (induction fin arbitrary: ex pend rds new)
  case (Cons er fin)
  obtain e r where er: "er = (e, r)" by (rule prod.exhaust)
  let ?old = "case_option [] id (map_of rds r)"
  from Cons.prems(1) er obtain h where h: "hash_Event (sha256 C) e = Ok h" by (auto split: result.splits)
  show ?case
  proof (cases "h \<in> set (executed ex)")
    case True
    with Cons h er show ?thesis by (auto intro!: Cons.IH)
  next
    case False
    with Cons.prems(1) h er obtain st res ds
      where one: "execute_event_with_diffs K C (ex_state ex) e ?old = Ok (st, res, ds)"
        and rest: "bucket_diffs_loop K C fin
          (ex\<lparr> ex_state := st, executed := h # executed ex \<rparr>,
           if membership_ops res \<noteq> [] then pending_extend r (membership_ops res) pend else pend,
           bt_insert r ds rds, True) = Ok (ex', pend', rds', new')"
      by (simp only: bucket_diffs_loop.simps prod.case result.case if_False andThen_Ok_iff) (auto split: prod.splits)
    have "\<forall>q \<in> fst ` set rds. q \<le> r" using Cons.prems(5) er by auto
    from split_last_round [OF Cons.prems(3) this, of m] obtain init where
      init: "replay rds m = overlay ?old (replay init m)" "bt_insert r ds rds = init @ [(r, ds)]"
        "\<forall>q \<in> set init. q \<in> set rds"
      by metis
    have "bt_wf ?old"
      using Cons.prems(4) by (auto simp: list_all_iff split: option.splits dest!: map_of_SomeD)
    from execute_event_with_diffs_contents [OF one this, of "replay init m"] Cons.prems(6) init(1)
    have ds: "bt_wf ds" "contents (kv st) = overlay ds (replay init m)" by simp_all
    show ?thesis
    proof (rule Cons.IH [OF rest])
      show "sorted (map snd fin)" using Cons.prems(2) by simp
      show "bt_wf (bt_insert r ds rds)" using Cons.prems(3) by simp
      show "list_all (\<lambda>q. bt_wf (snd q)) (bt_insert r ds rds)"
        using Cons.prems(4) init(2,3) ds(1) by (auto simp: list_all_iff)
      show "\<forall>q \<in> fst ` set (bt_insert r ds rds). \<forall>r' \<in> snd ` set fin. q \<le> r'"
        using Cons.prems(2,5) er by (auto simp: set_bt_insert_keys)
      show "contents (kv (ex_state (ex\<lparr> ex_state := st, executed := h # executed ex \<rparr>))) =
          replay (bt_insert r ds rds) m"
        using ds(2) init(2) by (simp add: replay_def)
    qed
  qed
qed simp

end

lemma replay_filter: "replay (filter (\<lambda>(_, ds). ds \<noteq> []) rds) m = replay rds m"
  unfolding replay_def by (induction rds arbitrary: m) auto

subsection \<open>Replicas agree\<close>

text \<open>
  A keyspace whose reads never fail. \<^verbatim>\<open>State::get\<close> turns a failed read into an absent
  key, so agreement between replicas needs this of the storage engine.
\<close>

locale readable_keyspace = keyspace +
  assumes get_total: "ks_get K s k \<noteq> None"
begin

lemma state_get_eq: "state_get K st k = contents (kv st) k"
  using get_total [of "kv st" k] get_contents [of "kv st" k] by (auto simp: state_get_def)

end

interpretation list_rks: readable_keyspace list_keyspace "\<lambda>s. map_of (bt_of_list s)"
  by unfold_locales (simp add: list_keyspace_def)

definition same_state ::
    "('a \<Rightarrow> bytes \<Rightarrow> bytes option) \<Rightarrow> ('b \<Rightarrow> bytes \<Rightarrow> bytes option) \<Rightarrow> 'a State \<Rightarrow> 'b State \<Rightarrow> bool" where
  "same_state contents contents' st st' \<longleftrightarrow> contents (kv st) = contents' (kv st') \<and> tree st = tree st'"

text \<open>Two replicas, each with its own storage engine.\<close>

locale replica_pair = l: readable_keyspace K contents + r: readable_keyspace L contents'
  for K :: "'a keyspace_ops" and contents and L :: "'b keyspace_ops" and contents'
begin

abbreviation same :: "'a State \<Rightarrow> 'b State \<Rightarrow> bool" where
  "same \<equiv> same_state contents contents'"

lemma same_get: "same st st' \<Longrightarrow> state_get K st = state_get L st'"
  by (simp add: same_state_def fun_eq_iff l.state_get_eq r.state_get_eq)

lemma same_apply:
  assumes "same a b" "state_apply K sha a op = Ok a'" "state_apply L sha b op = Ok b'"
  shows "same a' b'"
  using assms l.insert_contents r.insert_contents l.remove_contents r.remove_contents
  by (cases op) (auto simp: same_state_def)

lemma same_run:
  "same a b \<Longrightarrow> state_run K sha ops a = Ok a' \<Longrightarrow> state_run L sha ops b = Ok b' \<Longrightarrow> same a' b'"
proof (induction ops arbitrary: a b)
  case (Cons op ops)
  then obtain a1 b1 where "state_apply K sha a op = Ok a1" "state_apply L sha b op = Ok b1"
    and "state_run K sha ops a1 = Ok a'" "state_run L sha ops b1 = Ok b'"
    by (auto simp del: state_apply.simps)
  with Cons same_apply show ?case by blast
qed simp

lemma same_root_after:
  assumes "same a b"
  shows "root_after_did_op K C a op = root_after_did_op L C b op"
  unfolding root_after_did_op_def same_get [OF assms] ..

lemma same_check_mint:
  assumes "same a b"
  shows "check_mint K C a op k d r = check_mint L C b op k d r"
  unfolding check_mint_def state_contains_def same_get [OF assms] ..

lemma same_check_rebind:
  assumes "same a b"
  shows "check_rebind K C a op k d r = check_rebind L C b op k d r"
  unfolding check_rebind_def same_get [OF assms] ..

lemmas same_reads = same_get same_root_after same_check_mint same_check_rebind

lemma same_did:
  assumes "same a b" "apply_did_op K C a op = Ok (a', x)" "apply_did_op L C b op = Ok (b', y)"
  shows "same a' b' \<and> x = y"
  using assms
  by (auto simp: apply_did_op_def same_reads [OF assms(1)] case_result_Ok_iff simp del: state_apply.simps
      split: option.splits) (meson same_apply)+

lemma same_mint:
  assumes "same a b" "apply_sub_actor_op K C a op = Ok (a', x)" "apply_sub_actor_op L C b op = Ok (b', y)"
  shows "same a' b' \<and> x = y"
  using assms
  by (auto simp: apply_sub_actor_op_def same_reads [OF assms(1)] case_result_Ok_iff simp del: state_apply.simps)
    (meson same_apply)+

lemma same_rebind:
  assumes "same a b" "apply_rebind_op K C a op = Ok (a', x)" "apply_rebind_op L C b op = Ok (b', y)"
  shows "same a' b' \<and> x = y"
  using assms
  by (auto simp: apply_rebind_op_def same_reads [OF assms(1)] case_result_Ok_iff simp del: state_apply.simps
      split: ActorId.splits) (meson same_apply)+

lemma same_tx:
  assumes "same a b" "execute_tx K C tx (a, res) = Ok (a', x)" "execute_tx L C tx (b, res) = Ok (b', y)"
  shows "same a' b' \<and> x = y"
proof (cases "decode_DecodedOp C (tx_payload tx)")
  case (Ok d)
  then show ?thesis
  proof (cases d)
    case (Kv op)
    with Ok assms same_apply [OF assms(1)] show ?thesis by (auto simp: execute_tx_def simp del: state_apply.simps)
  next
    case (DidChange op)
    with Ok assms(2,3) show ?thesis by (auto simp: execute_tx_def dest: same_did [OF assms(1)])
  next
    case (SubActorMint op)
    with Ok assms(2,3) show ?thesis by (auto simp: execute_tx_def dest: same_mint [OF assms(1)])
  next
    case (Rebind op)
    with Ok assms(2,3) show ?thesis by (auto simp: execute_tx_def dest: same_rebind [OF assms(1)])
  qed (use Ok assms in \<open>auto simp: execute_tx_def\<close>)
qed (use assms in \<open>auto simp: execute_tx_def\<close>)

lemma same_txs:
  "same a b \<Longrightarrow> execute_txs K C txs (a, res) = Ok (a', x) \<Longrightarrow> execute_txs L C txs (b, res) = Ok (b', y) \<Longrightarrow>
    same a' b' \<and> x = y"
proof (induction txs arbitrary: a b res)
  case (Cons tx txs)
  then obtain a1 r1 b1 r2 where one: "execute_tx K C tx (a, res) = Ok (a1, r1)" "execute_tx L C tx (b, res) = Ok (b1, r2)"
    and rest: "execute_txs K C txs (a1, r1) = Ok (a', x)" "execute_txs L C txs (b1, r2) = Ok (b', y)"
    by auto
  from same_tx [OF Cons.prems(1) one] Cons.IH rest show ?case by blast
qed simp

lemma same_bucket:
  assumes "same (ex_state ex) (ex_state ey)" "executed ex = executed ey"
    and "bucket_loop K C fin (ex, p, new) = Ok (ex', p', new')"
    and "bucket_loop L C fin (ey, p, new) = Ok (ey', q', new'')"
  shows "same (ex_state ex') (ex_state ey') \<and> executed ex' = executed ey' \<and> p' = q' \<and> new' = new''"
  using assms
proof (induction fin arbitrary: ex ey p new)
  case (Cons er fin)
  obtain e r where er: "er = (e, r)" by (rule prod.exhaust)
  from Cons.prems(3) er obtain h where h: "hash_Event (sha256 C) e = Ok h" by (auto split: result.splits)
  show ?case
  proof (cases "h \<in> set (executed ex)")
    case True
    with Cons h er show ?thesis by auto
  next
    case False
    with Cons.prems h er obtain a x b y
      where one: "execute_event K C (ex_state ex) e = Ok (a, x)" "execute_event L C (ex_state ey) e = Ok (b, y)"
        and rest: "bucket_loop K C fin (ex\<lparr> ex_state := a, executed := h # executed ex \<rparr>,
            if membership_ops x \<noteq> [] then pending_extend r (membership_ops x) p else p, True) = Ok (ex', p', new')"
          "bucket_loop L C fin (ey\<lparr> ex_state := b, executed := h # executed ey \<rparr>,
            if membership_ops y \<noteq> [] then pending_extend r (membership_ops y) p else p, True) = Ok (ey', q', new'')"
      by (simp only: bucket_loop.simps prod.case result.case if_False andThen_Ok_iff) (auto split: prod.splits)
    from same_txs [OF Cons.prems(1)] one have ab: "same a b" "x = y"
      unfolding execute_event_def by blast+
    show ?thesis
      by (rule Cons.IH [OF _ _ rest(1) rest(2) [folded ab(2)]]) (simp_all add: ab Cons.prems(2))
  qed
qed simp

end

text \<open>Two nodes of the same binary: the list instance against itself.\<close>

interpretation list_pair: replica_pair list_keyspace "\<lambda>s. map_of (bt_of_list s)"
    list_keyspace "\<lambda>s. map_of (bt_of_list s)" ..

subsection \<open>Re-delivery\<close>

lemma bucket_loop_append:
  "bucket_loop K C (a @ b) s = andThen (bucket_loop K C a s) (bucket_loop K C b)"
proof (induction a arbitrary: s)
  case (Cons er a)
  obtain e r ex p n where er: "er = (e, r)" "s = (ex, p, n)" by (metis prod.exhaust)
  show ?case
  proof (cases "hash_Event (sha256 C) e")
    case (Ok h)
    then show ?thesis
      by (cases "execute_event K C (ex_state ex) e") (auto simp: er Cons split: prod.splits)
  qed (simp_all add: er)
qed simp

text \<open>The flag that something was executed does not influence the execution.\<close>

lemma bucket_loop_flag:
  "map_ok (\<lambda>(ex, p, _). (ex, p)) (bucket_loop K C fin (ex, p, n)) =
    map_ok (\<lambda>(ex, p, _). (ex, p)) (bucket_loop K C fin (ex, p, m))"
proof (induction fin arbitrary: ex p n m)
  case (Cons er fin)
  obtain e r where er: "er = (e, r)" by (rule prod.exhaust)
  show ?case
  proof (cases "hash_Event (sha256 C) e")
    case (Ok h)
    with Cons [of ex p n m] show ?thesis
      by (cases "execute_event K C (ex_state ex) e") (auto simp: er split: prod.splits)
  qed (simp_all add: er)
qed simp

definition delivered :: "('x) crypto_lib_scheme \<Rightarrow> EventHash list \<Rightarrow> (Event \<times> u64) list \<Rightarrow> bool" where
  "delivered C hs fin \<longleftrightarrow> list_all (\<lambda>(e, _). \<exists>h \<in> set hs. hash_Event (sha256 C) e = Ok h) fin"

lemma bucket_loop_executed:
  "bucket_loop K C fin (ex, p, n) = Ok (ex', p', n') \<Longrightarrow>
    set (executed ex) \<subseteq> set (executed ex') \<and> delivered C (executed ex') fin"
proof (induction fin arbitrary: ex p n)
  case (Cons er fin)
  obtain e r where er: "er = (e, r)" by (rule prod.exhaust)
  from Cons.prems er obtain h where h: "hash_Event (sha256 C) e = Ok h" by (auto split: result.splits)
  show ?case
  proof (cases "h \<in> set (executed ex)")
    case True
    with Cons.prems h er have "bucket_loop K C fin (ex, p, n) = Ok (ex', p', n')" by simp
    from Cons.IH [OF this] True h er show ?thesis by (auto simp: delivered_def)
  next
    case False
    with Cons.prems h er obtain st p1 where
      "bucket_loop K C fin (ex\<lparr> ex_state := st, executed := h # executed ex \<rparr>, p1, True) = Ok (ex', p', n')"
      by (auto split: prod.splits)
    from Cons.IH [OF this] h er show ?thesis by (auto simp: delivered_def)
  qed
qed (simp add: delivered_def)

lemma bucket_loop_delivered:
  "delivered C (executed ex) fin \<Longrightarrow> bucket_loop K C fin (ex, p, n) = Ok (ex, p, n)"
  by (induction fin) (auto simp: delivered_def)

subsection \<open>A sample event\<close>

text \<open>An event that puts \<open>[2]\<close> under \<open>[1]\<close>.\<close>

definition sample_event :: Event where
  "sample_event = \<lparr> unsigned_part = \<lparr> ue_creator = NodeId 1, ue_self_parent = None, ue_other_parent = None,
     ue_timestamp = Timestamp 5, ue_payload = [\<lparr> tx_payload = [0, 0, 0, 0, 1, 1, 0, 0, 0, 1, 2] \<rparr>] \<rparr>,
     ev_signature = Signature (replicate 64 0) \<rparr>"

lemma sample_event_payload: "ev_payload sample_event = [\<lparr> tx_payload = [0, 0, 0, 0, 1, 1, 0, 0, 0, 1, 2] \<rparr>]"
  by (simp add: sample_event_def ev_payload_def)

lemma u32_be_one: "u32_be 1 = [0, 0, 0, 1]"
proof -
  have "(4 :: nat) = Suc (Suc (Suc (Suc 0)))" by simp
  then show ?thesis by (simp only: u32_be_def nat_to_be.simps) simp
qed

lemma sample_event_decodes: "decode_DecodedOp C [0, 0, 0, 0, 1, 1, 0, 0, 0, 1, 2] = Ok (Kv (Put [1] [2]))"
  by (simp add: decode_DecodedOp_def decode_put_Ok_iff reserved_key_def write_prefixed_def u32_try_from_def
      RESERVED_DID_PREFIX_def RESERVED_ACTOR_PREFIX_def u32_be_one)

lemma sample_event_hash: "\<exists>h. hash_Event sha sample_event = Ok h"
  by (simp add: hash_Event_def sample_event_def encode_Event_def encode_UnsignedEvent_def encode_Transactions_def
      encode_Transaction_def u32_try_from_def)

lemma sample_event_executes: "\<exists>st'. execute_event list_keyspace C st sample_event = Ok (st', no_result)"
  using state_run_total [of "[Put [1] [2]]" "sha256 C" st]
  by (auto simp: execute_event_def sample_event_payload execute_tx_def sample_event_decodes)

lemma sample_bucket:
  obtains ex' where "bucket_finalized list_keyspace C ex p t [(sample_event, r)] = Ok ex'"
proof -
  obtain h where h: "hash_Event (sha256 C) sample_event = Ok h" using sample_event_hash ..
  obtain st where "execute_event list_keyspace C (ex_state ex) sample_event = Ok (st, no_result)"
    using sample_event_executes ..
  with h show thesis
    by (cases "h \<in> set (executed ex)")
      (auto simp: bucket_finalized_def Let_def intro: that simp del: ex_simps)
qed

subsection \<open>Properties\<close>

text \<open>
  Exactly once: delivering the whole finalized list again, extended by new
  events, has the effect of delivering it once. Whatever was executed before is skipped,
  so the state and the pending membership operations do not depend on how the consensus
  order was cut into batches.
\<close>

lemma bucket_finalized_cumulative:
  assumes "bucket_finalized K C ex p t a = Ok (ex1, p1, t1)"
  shows "map_ok (\<lambda>(ex, p, _). (ex, p)) (bucket_finalized K C ex1 p1 t1 (a @ b)) =
    map_ok (\<lambda>(ex, p, _). (ex, p)) (bucket_finalized K C ex p t (a @ b))"
proof (cases "a = []")
  case True
  with assms show ?thesis by (simp add: bucket_finalized_def)
next
  case False
  have step: "map_ok (\<lambda>(ex, p, _). (ex, p)) (bucket_finalized K C x q u (a @ b)) =
      map_ok (\<lambda>(ex, p, _). (ex, p)) (bucket_loop K C (a @ b) (x, q, False))" for x q u
    using False by (auto simp: bucket_finalized_def Let_def intro!: map_ok_cong)
  from assms False obtain n where n: "bucket_loop K C a (ex, p, False) = Ok (ex1, p1, n)"
    by (auto simp: bucket_finalized_def Let_def)
  then have "bucket_loop K C a (ex1, p1, False) = Ok (ex1, p1, False)"
    using bucket_loop_executed bucket_loop_delivered by blast
  with n show ?thesis
    unfolding step bucket_loop_append using bucket_loop_flag [of K C b ex1 p1 False n] by simp
qed

lemma bucket_finalized_cumulative_witness:
  "\<exists>ex1 p1 t1. bucket_finalized list_keyspace sample_crypto (executor_new sample_sha []) [] 0 [(sample_event, 1)] =
      Ok (ex1, p1, t1) \<and>
    map_ok (\<lambda>(ex, p, _). (ex, p)) (bucket_finalized list_keyspace sample_crypto ex1 p1 t1
      ([(sample_event, 1)] @ [(sample_event, 2)])) =
    map_ok (\<lambda>(ex, p, _). (ex, p)) (bucket_finalized list_keyspace sample_crypto (executor_new sample_sha []) [] 0
      ([(sample_event, 1)] @ [(sample_event, 2)]))"
proof -
  obtain r where r: "bucket_finalized list_keyspace sample_crypto (executor_new sample_sha []) [] 0 [(sample_event, 1)] = Ok r"
    by (rule sample_bucket)
  obtain ex1 p1 t1 where r': "r = (ex1, p1, t1)" by (metis prod.exhaust)
  from bucket_finalized_cumulative [OF r [unfolded r'], of "[(sample_event, 2)]"] r r' show ?thesis by blast
qed

text \<open>
  Property C35. The after-images mirror execution: collecting them changes neither the
  state nor the results, and applying the images of the rounds in ascending order to the
  old contents gives exactly the new contents. This is what a follower that only receives
  the diffs relies on.
\<close>

theorem bucket_diffs_replay:
  assumes "keyspace K contents" "sorted (map snd fin)"
    and "bucket_finalized_with_diffs K C ex p t fin = Ok (ex', p', t', rds)"
  shows "bucket_finalized K C ex p t fin = Ok (ex', p', t') \<and>
    contents (kv (ex_state ex')) = replay rds (contents (kv (ex_state ex)))"
proof (cases "fin = []")
  case True
  with assms show ?thesis by (auto simp: bucket_finalized_with_diffs_def bucket_finalized_def replay_def)
next
  case False
  with assms(3) obtain rds1 n where loop: "bucket_diffs_loop K C fin (ex, p, [], False) = Ok (ex', p', rds1, n)"
    and rds: "rds = filter (\<lambda>(_, ds). ds \<noteq> []) rds1"
    and t': "t' = (if n \<and> t < fold max (map snd fin) 0 then fold max (map snd fin) 0 else t)"
    by (auto simp: bucket_finalized_with_diffs_def Let_def split: prod.splits)
  have "contents (kv (ex_state ex')) = replay rds1 (contents (kv (ex_state ex)))"
    by (rule keyspace.bucket_diffs_loop_replay [OF assms(1) loop assms(2)]) (simp_all add: replay_def)
  moreover have "bucket_finalized K C ex p t fin = Ok (ex', p', t')"
    using False loop t' by (simp add: bucket_finalized_def Let_def bucket_loop_forget [of K C fin ex p False "[]"])
  ultimately show ?thesis by (simp add: rds replay_filter)
qed

theorem bucket_diffs_replay_witness:
  "\<exists>ex' p' t' rds. bucket_finalized_with_diffs list_keyspace sample_crypto (executor_new sample_sha []) [] 0
      [(sample_event, 1)] = Ok (ex', p', t', rds) \<and>
    map_of (bt_of_list (kv (ex_state ex'))) = replay rds Map.empty"
proof -
  let ?ex = "executor_new sample_sha [] :: (bytes, bytes) btmap Executor"
  obtain r where "bucket_finalized list_keyspace sample_crypto ?ex [] 0 [(sample_event, 1)] = Ok r"
    by (rule sample_bucket)
  then obtain q where "bucket_diffs_loop list_keyspace sample_crypto [(sample_event, 1)] (?ex, [], [], False) = Ok q"
    using bucket_loop_forget [of list_keyspace sample_crypto "[(sample_event, 1)]" ?ex "[]" False "[]"]
    by (auto simp: bucket_finalized_def Let_def)
  then obtain ex' p' t' rds where r: "bucket_finalized_with_diffs list_keyspace sample_crypto ?ex [] 0
      [(sample_event, 1)] = Ok (ex', p', t', rds)"
    by (cases q) (auto simp: bucket_finalized_with_diffs_def Let_def)
  from bucket_diffs_replay [OF list_ks.keyspace_axioms _ r] r show ?thesis
    by (auto simp: executor_new_def state_new_def bt_of_list_def)
qed



end
