(* ===== verification/Identity.thy ===== *)
theory Identity
  imports Executor
begin

section \<open>Who may change an identity record\<close>

text \<open>
  What the executor (\<^verbatim>\<open>executor/state/src/executor.rs\<close>) promises about the reserved part of
  the state: which operations can touch a DID document or an actor record, who must have
  signed them, that deactivation is final, that a mint appends exactly one leaf to the
  membership log of its root, and what the missing nonce of a DID operation allows.
\<close>

subsection \<open>One appended leaf\<close>

text \<open>The strings a consistency proof hashes on its way to the old root.\<close>

function old_preimages :: "hash_fn \<Rightarrow> nat \<Rightarrow> nat \<Rightarrow> bool \<Rightarrow> bytes list \<Rightarrow> bytes \<Rightarrow> bytes list" where
  "old_preimages sha m n b pf known =
     (if n \<le> 1 \<or> n \<le> m then []
      else let k = largest_pow2_below n
           in if m \<le> k then old_preimages sha m k b pf known
              else (case consistency_rec sha (m - k) (n - k) False pf known of
                  Some ((old, new), s # rest) \<Rightarrow>
                    (0x01 # s @ old) # old_preimages sha (m - k) (n - k) False pf known
                | _ \<Rightarrow> []))"
  by pat_completeness auto
termination
  by (relation "measure (\<lambda>(_, _, n, _, _, _). n)") (auto simp: not_le)

declare old_preimages.simps [simp del]

definition append_preimages :: "hash_fn \<Rightarrow> bytes list \<Rightarrow> bytes list \<Rightarrow> bytes \<Rightarrow> bytes \<Rightarrow> bytes list \<Rightarrow> bytes set" where
  "append_preimages sha xs cp known leaf ip =
     (let n = length xs
      in set (mth_preimages sha xs) \<union> set (consistency_preimages sha n (Suc n) True cp known) \<union>
         set (old_preimages sha n (Suc n) True cp known) \<union> set (inclusion_preimages sha n (Suc n) leaf ip))"

lemma largest_pow2_below_le: "0 < n \<Longrightarrow> largest_pow2_below (Suc n) \<le> n"
  using largest_pow2_below_less [of "Suc n"] by (simp add: less_Suc_eq_le)

lemma append_one_sound:
  assumes "digest sha" "length known = 32" "hashes32 cp" "length leaf = 32" "hashes32 ip" "inj_on sha X"
    and "xs \<noteq> []" "hashes32 xs"
    and "consistency_rec sha (length xs) (Suc (length xs)) b cp known = Some ((mth sha xs, new), rest)"
    and "inclusion_rec sha (length xs) (Suc (length xs)) leaf ip = Some (new, rest')"
    and "set (mth_preimages sha xs) \<subseteq> X"
      "set (consistency_preimages sha (length xs) (Suc (length xs)) b cp known) \<subseteq> X"
      "set (old_preimages sha (length xs) (Suc (length xs)) b cp known) \<subseteq> X"
      "set (inclusion_preimages sha (length xs) (Suc (length xs)) leaf ip) \<subseteq> X"
  shows "new = mth sha (xs @ [leaf])"
  using assms(7-14)
proof (induction "length xs" arbitrary: xs b new rest rest' rule: less_induct)
  case less
  define n where "n = length xs"
  define k where "k = largest_pow2_below (Suc n)"
  have n: "0 < n" "1 < Suc n" "n < Suc n" using less.prems(1) by (simp_all add: n_def)
  have k: "k \<le> n" "0 < k" using n largest_pow2_below_le by (simp_all add: k_def)
  note incl = less.prems(4) [folded n_def] and cons = less.prems(3) [folded n_def]
    and pre = less.prems(5-8) [folded n_def]
  from inclusion_rec_step [OF n(2) incl k_def] k obtain q s
    where q: "inclusion_rec sha (n - k) (Suc n - k) leaf ip = Some (q, s # rest')" "new = node_hash sha s q"
    by auto
  have qpre: "0x01 # s @ q \<in> X" "set (inclusion_preimages sha (n - k) (Suc n - k) leaf ip) \<subseteq> X"
    using pre(4) n k q unfolding inclusion_preimages.simps [of sha n "Suc n"] by (simp_all add: Let_def flip: k_def)
  have slen: "length s = 32" using inclusion_rec_lengths [OF assms(1,4,5) q(1)] by simp
  have split: "mth sha (xs @ [leaf]) = node_hash sha (mth sha (take k xs)) (mth sha (drop k xs @ [leaf]))"
    using n k by (subst mth_split [of "xs @ [leaf]" k]) (simp_all add: k_def n_def)
  show ?case
  proof (cases "n = k")
    case True
    with consistency_rec_step [OF n(3,2) cons k_def] obtain l t
      where l: "consistency_rec sha n k b cp known = Some ((mth sha xs, l), t # rest)" "new = node_hash sha l t"
      by auto
    have lpre: "0x01 # l @ t \<in> X"
      using pre(2) n l k(1) True [symmetric] unfolding consistency_preimages.simps [of sha n "Suc n"]
      by (auto simp: Let_def simp flip: k_def)
    have "length l = 32" using consistency_rec_lengths [OF assms(1-3) l(1)] by simp
    then have "s = l" "q = t" using node_hash_inject [OF _ _ assms(6) qpre(1) lpre] q(2) l(2) slen by simp_all
    moreover have "l = mth sha xs"
      using l(1) True by (subst (asm) consistency_rec.simps) (auto simp: bind_eq_Some_conv split: if_splits)
    moreover have "q = leaf" using q(1) True by (simp add: inclusion_rec.simps)
    ultimately show ?thesis using True q(2) split by (simp add: n_def)
  next
    case False
    then have kn: "k < n" using k by simp
    with consistency_rec_step [OF n(3,2) cons k_def] obtain old t u
      where u: "consistency_rec sha (n - k) (Suc n - k) False cp known = Some ((old, u), t # rest)"
        "mth sha xs = node_hash sha t old" "new = node_hash sha t u"
      by auto
    have upre: "0x01 # t @ u \<in> X" "set (consistency_preimages sha (n - k) (Suc n - k) False cp known) \<subseteq> X"
      "0x01 # t @ old \<in> X" "set (old_preimages sha (n - k) (Suc n - k) False cp known) \<subseteq> X"
      using pre(2,3) n kn u unfolding consistency_preimages.simps [of sha n "Suc n"] old_preimages.simps [of sha n "Suc n"]
      by (simp_all add: Let_def flip: k_def)
    have tlen: "length t = 32" using consistency_rec_lengths [OF assms(1-3) u(1)] by simp
    have eq: "s = t" "q = u"
      using node_hash_inject [OF _ _ assms(6) qpre(1) upre(1)] q(2) u(3) slen tlen by simp_all
    have kk: "largest_pow2_below n = k"
      unfolding k_def using kn n by (intro largest_pow2_below_prefix) (simp_all add: k_def)
    have old: "mth sha xs = node_hash sha (mth sha (take k xs)) (mth sha (drop k xs))"
      and tree: "0x01 # mth sha (take k xs) @ mth sha (drop k xs) \<in> X" "set (mth_preimages sha (drop k xs)) \<subseteq> X"
      using kn k mth_split [of xs k sha] mth_preimages_split [of xs k sha] pre(1) kk [symmetric] by (auto simp: n_def)
    have "length (mth sha (take k xs)) = 32" using assms(1) less.prems(2) by (simp add: length_mth)
    then have t: "t = mth sha (take k xs)" "old = mth sha (drop k xs)"
      using node_hash_inject [OF _ _ assms(6) upre(3) tree(1)] u(2) old tlen by simp_all
    have "length (drop k xs) = n - k" "Suc n - k = Suc (n - k)" using kn by (simp_all add: n_def)
    with less.hyps [of "drop k xs" False u "t # rest" "s # rest'"] kn k u(1) q(1) eq t qpre(2) upre(2,4) tree(2) less.prems(2)
    have "u = mth sha (drop k xs @ [leaf])" by (simp add: n_def)
    then show ?thesis using q(2) eq t split by simp
  qed
qed

subsection \<open>Three disjoint key spaces\<close>

lemma did_key_head: "did_state_key d = Some k \<Longrightarrow> \<exists>b. k = RESERVED_DID_PREFIX # b"
  by (auto simp: did_state_key_def bind_eq_Some_conv)

lemma actor_key_head: "actor_state_key a = Some k \<Longrightarrow> \<exists>b. k = RESERVED_ACTOR_PREFIX # b"
  by (auto simp: actor_state_key_def bind_eq_Some_conv)

lemma prefixes_differ: "RESERVED_DID_PREFIX \<noteq> RESERVED_ACTOR_PREFIX"
  by (simp add: RESERVED_DID_PREFIX_def RESERVED_ACTOR_PREFIX_def)

lemma did_not_actor_key: "did_state_key d = Some k \<Longrightarrow> actor_state_key a \<noteq> Some k"
  using did_key_head actor_key_head prefixes_differ by (metis list.inject)

lemma did_state_key_inj: "did_wf d \<Longrightarrow> did_wf d' \<Longrightarrow> did_state_key d = Some k \<Longrightarrow> did_state_key d' = Some k \<Longrightarrow> d = d'"
  by (auto simp: did_state_key_def bind_eq_Some_conv intro: did_id_codec.enc_inj)

lemma actor_state_key_inj:
  "actor_id_wf a \<Longrightarrow> actor_id_wf a' \<Longrightarrow> actor_state_key a = Some k \<Longrightarrow> actor_state_key a' = Some k \<Longrightarrow> a = a'"
  by (auto simp: actor_state_key_def bind_eq_Some_conv intro: actor_id_codec.enc_inj)

lemma decoded_kv_unreserved: "decode_DecodedOp C pl = Ok (Kv op) \<Longrightarrow> \<not> reserved_key (op_key op)"
  by (auto simp: decode_DecodedOp_def decode_put_Ok_iff decode_delete_Ok_iff split: list.splits if_splits)

lemma decoded_did_wf: "decode_DecodedOp C pl = Ok (DidChange op) \<Longrightarrow> did_wf (did_id op) \<and> document_wf C (document op)"
  by (auto simp: decode_DecodedOp_def map_err_Ok_iff decode_DidOp_def
      dest!: decode_DidId_Ok decode_DidDocument_Ok split: list.splits if_splits)

lemma decoded_mint_wf: "decode_DecodedOp C pl = Ok (SubActorMint op) \<Longrightarrow> sub_actor_op_wf C op"
  by (auto simp: decode_DecodedOp_def map_err_Ok_iff decode_SubActorOp_def so_actor_id_def res_tag_Ok_iff
      res_index_Ok_iff decode_key_Ok_iff res_take_Ok_iff sub_actor_op_wf_def signature_wf_def bind_eq_Some_conv
      decode_ConsistencyProof_from_def decode_InclusionProof_from_def
      dest!: decode_DidId_Ok read_hashes_Some split: list.splits if_splits)

lemma decoded_rebind_wf:
  "decode_DecodedOp C pl = Ok (Rebind op) \<Longrightarrow> actor_id_wf (ro_actor_id op) \<and>
    length (ro_new_operating_key op) = 32 \<and> vk_valid C (ro_new_operating_key op)"
  by (auto simp: decode_DecodedOp_def map_err_Ok_iff decode_RebindOp_def decode_key_Ok_iff
      dest!: decode_ActorId_Ok split: list.splits if_splits)

lemma read_sub_wf:
  assumes "read_sub C bs = Some s"
  shows "sub_actor_wf C s"
proof -
  from assms have "decode_SubActor C bs = Ok (s, [])"
    by (auto simp: read_sub_def split: result.splits list.splits)
  then obtain i c where i: "decode_ActorId bs = Ok (i, c)" by (auto simp: decode_SubActor_def)
  with \<open>decode_SubActor C bs = Ok (s, [])\<close> decode_ActorId_Ok [OF i] show ?thesis
    by (cases i) (auto simp: decode_SubActor_def sub_actor_wf_def decode_key_Ok_iff)
qed

lemma read_root_wf: "read_root C bs = Some r \<Longrightarrow> root_actor_wf C r"
  by (auto simp: read_root_def decode_RootActor_def root_actor_wf_def decode_key_Ok_iff res_take_Ok_iff
      dest!: decode_DidId_Ok split: result.splits list.splits)

lemma read_sub_encode: "sub_actor_wf C s \<Longrightarrow> encode_SubActor s = Some b \<Longrightarrow> read_sub C b = Some s"
  using decode_encode_SubActor [of C s b "[]"] by (simp add: read_sub_def)

lemma read_root_encode: "root_actor_wf C r \<Longrightarrow> encode_RootActor r = Some b \<Longrightarrow> read_root C b = Some r"
  using decode_encode_RootActor [of C r b "[]"] by (simp add: read_root_def)

subsection \<open>Who signs\<close>

text \<open>The document whose keys may sign an operation, given what is stored.\<close>

definition did_signer :: "('x) crypto_lib_scheme \<Rightarrow> DidOp \<Rightarrow> bytes option \<Rightarrow> DidDocument option" where
  "did_signer C op stored = (case stored of
     None \<Rightarrow> if is_creation op \<and> \<not> deactivated (document op) then Some (document op) else None
   | Some bs \<Rightarrow> if is_creation op then None
       else case read_document C bs of
         None \<Rightarrow> None
       | Some prior \<Rightarrow> if deactivated prior then None else Some prior)"

lemma verify_did_op_Ok_iff:
  "verify_did_op C op msg stored = Ok () \<longleftrightarrow>
    (\<exists>signer k. did_signer C op stored = Some signer \<and> signing_key signer (unat (signed_by op)) = Some k \<and>
      vk_verify C k msg (sig_bytes (did_signature op)))"
  by (auto simp: verify_did_op_def did_signer_def check_signed_def split: option.splits bool.splits)

lemma op_effect_frame: "k \<notin> op_key ` set ops \<Longrightarrow> fold op_effect ops m k = m k"
proof (induction ops arbitrary: m)
  case (Cons op ops)
  then show ?case by (cases op) auto
qed simp

context readable_keyspace
begin

lemma run_frame:
  "state_run K sha ops st = Ok st' \<Longrightarrow> key \<notin> op_key ` set ops \<Longrightarrow> contents (kv st') key = contents (kv st) key"
  by (simp add: state_run_contents op_effect_frame)

lemma kv_frame:
  assumes "decode_DecodedOp C pl = Ok (Kv op)" "state_apply K sha st op = Ok st'" "reserved_key key"
  shows "contents (kv st') key = contents (kv st) key"
  using run_frame [of sha "[op]" st st' key] decoded_kv_unreserved [OF assms(1)] assms(2,3)
  by (auto simp del: state_apply.simps)

lemma did_change:
  assumes "did_wf d" "did_state_key d = Some key"
    and "execute_tx K C tx (st, res) = Ok (st', res')" "contents (kv st') key \<noteq> contents (kv st) key"
  obtains op msg signer k where "decode_DecodedOp C (tx_payload tx) = Ok (DidChange op)" "did_id op = d"
    "did_signed_payload op = Some msg" "did_signer C op (contents (kv st) key) = Some signer"
    "signing_key signer (unat (signed_by op)) = Some k" "vk_verify C k msg (sig_bytes (did_signature op))"
    "contents (kv st') key = Some (encode_DidDocument (document op))"
proof -
  have res: "reserved_key key" using did_key_head [OF assms(2)] by (auto simp: reserved_key_def)
  note not_actor = did_not_actor_key [OF assms(2)]
  from assms(3) show thesis
  proof (cases rule: execute_tx_cases)
    case (kv op)
    with kv_frame res assms(4) show thesis by blast
  next
    case (did op w)
    from apply_did_op_Ok [OF did(2)] obtain key' msg where key': "did_state_key (did_id op) = Some key'"
      and msg: "did_signed_payload op = Some msg" "verify_did_op C op msg (state_get K st key') = Ok ()"
      and w: "root_after_did_op K C st op = Ok w"
      and run: "state_run K (sha256 C) (Put key' (encode_DidDocument (document op)) # image_put w) st = Ok st'"
      by blast
    have w_key: "key \<notin> op_key ` set (image_put w)"
      using w not_actor by (auto simp: root_after_did_op_def image_put_def Let_def split: if_splits)
    with run_frame [OF run, of key] assms(4) have "key' = key" by auto
    moreover from this have "did_id op = d"
      using did_state_key_inj [OF _ assms(1) key'] assms(2) decoded_did_wf [OF did(1)] by simp
    moreover from this have "contents (kv st') key = Some (encode_DidDocument (document op))"
      using state_run_contents [OF run] w_key \<open>key' = key\<close> by (simp add: op_effect_frame)
    ultimately show thesis
      using msg did(1) that by (auto simp: verify_did_op_Ok_iff state_get_eq)
  next
    case (mint op w)
    obtain sk sv rk rv where w: "w = ((sk, sv), (rk, rv))" by (metis surj_pair)
    have "actor_state_key (so_actor_id op) = Some sk" "actor_state_key (RootId (so_root_did op)) = Some rk"
      using apply_sub_actor_op_Ok [OF mint(2) [unfolded w]] by (metis fst_conv)+
    with run_frame [OF mint_diffs_run [OF mint(2) [unfolded w]], of key] not_actor assms(4) show thesis by auto
  next
    case (rebind op w)
    obtain sk v where w: "w = (sk, v)" by (rule prod.exhaust)
    have "actor_state_key (ro_actor_id op) = Some sk"
      using apply_rebind_op_Ok [OF rebind(2)] w by (metis fst_conv)
    with run_frame [OF rebind_diffs_run [OF rebind(2) [unfolded w]], of key] not_actor assms(4) show thesis by auto
  qed (use assms(4) in simp)
qed

lemma did_op_accepted:
  assumes "did_state_key (did_id op) = Some key" "did_signed_payload op = Some msg"
    and "verify_did_op C op msg (contents (kv st) key) = Ok ()" "apply_did_op K C st op = Ok (st', out)"
  shows "(\<exists>w. out = Ok w) \<and> contents (kv st') key = Some (encode_DidDocument (document op))"
proof -
  from assms obtain w where w: "root_after_did_op K C st op = Ok w"
    by (auto simp: apply_did_op_def state_get_eq simp del: state_apply.simps)
  with assms have out: "out = Ok w" "root_after_did_op K C st op = Ok w"
    by (cases w; auto simp: apply_did_op_def state_get_eq simp del: state_apply.simps)+
  have "key \<notin> op_key ` set (image_put w)"
    using out(2) did_not_actor_key [OF assms(1)]
    by (auto simp: root_after_did_op_def image_put_def Let_def split: if_splits)
  with state_run_contents [OF did_diffs_run [OF assms(4) [unfolded out(1)] assms(1)]] out(1) show ?thesis
    by (simp add: op_effect_frame)
qed

lemma check_rebind_Ok:
  "check_rebind K C st op sk dk rk = Ok (sub, root) \<Longrightarrow>
    (\<exists>b. contents (kv st) sk = Some b \<and> read_sub C b = Some sub) \<and>
    (\<exists>b. contents (kv st) rk = Some b \<and> read_root C b = Some root)"
  by (auto simp: check_rebind_def state_get_eq bind_eq_Some_conv split: if_splits)

lemma rebind_effect:
  assumes "decode_DecodedOp C pl = Ok (Rebind op)" "apply_rebind_op K C st op = Ok (st', Ok (sk, v))"
    and "contents (kv st) sk = Some bs" "read_sub C bs = Some s"
  obtains d t i rk rb root msg where "ro_actor_id op = SubId d t i" "actor_state_key (ro_actor_id op) = Some sk"
    "actor_state_key (RootId d) = Some rk" "contents (kv st) rk = Some rb" "read_root C rb = Some root"
    "rebind_signed_payload op (sa_operating_key s) = Some msg"
    "vk_verify C (ra_control_key root) msg (sig_bytes (ro_authorizing op))"
    "vk_verify C (ro_new_operating_key op) msg (sig_bytes (ro_pop op))"
    "contents (kv st') sk = Some v"
    "read_sub C v = Some \<lparr> sa_actor_id = ro_actor_id op, sa_control_key = sa_control_key s,
      sa_operating_key = ro_new_operating_key op \<rparr>"
proof -
  from apply_rebind_op_Ok [OF assms(2)] obtain d t i dk rk sub root msg new where
    id: "ro_actor_id op = SubId d t i" "actor_state_key (ro_actor_id op) = Some sk"
      "actor_state_key (RootId d) = Some rk"
    and chk: "check_rebind K C st op sk dk rk = Ok (sub, root)"
    and msg: "rebind_signed_payload op (sa_operating_key sub) = Some msg" "check_rebind_sigs C op root msg = Ok ()"
    and new: "sub_actor_new (ro_actor_id op) (sa_control_key sub) (ro_new_operating_key op) = Ok new"
      "encode_SubActor new = Some v"
    by (metis fst_conv snd_conv)
  from check_rebind_Ok [OF chk] assms(3,4) obtain rb
    where sub: "sub = s" and rb: "contents (kv st) rk = Some rb" "read_root C rb = Some root" by auto
  have eq: "new = \<lparr> sa_actor_id = ro_actor_id op, sa_control_key = sa_control_key s,
      sa_operating_key = ro_new_operating_key op \<rparr>"
    using new(1) id(1) sub by (simp add: sub_actor_new_def)
  have "sub_actor_wf C new"
    using eq id(1) decoded_rebind_wf [OF assms(1)] read_sub_wf [OF assms(4)] by (auto simp: sub_actor_wf_def)
  then have "read_sub C v = Some new" using new(2) by (rule read_sub_encode)
  moreover have "contents (kv st') sk = Some v"
    using state_run_contents [OF rebind_diffs_run [OF assms(2)]] by simp
  moreover have "vk_verify C (ra_control_key root) msg (sig_bytes (ro_authorizing op))"
    "vk_verify C (ro_new_operating_key op) msg (sig_bytes (ro_pop op))"
    using msg(2) by (auto simp: check_rebind_sigs_def split: if_splits)
  ultimately show thesis using that id rb msg(1) sub eq by blast
qed

lemma check_mint_absent: "check_mint K C st op sk dk rk = Ok r \<Longrightarrow> contents (kv st) sk = None"
  by (auto simp: check_mint_def state_contains_def state_get_eq split: if_splits)

lemma sub_record_kept_or_rebound:
  assumes "actor_id_wf (SubId d t i)" "actor_state_key (SubId d t i) = Some key"
    and "execute_tx K C tx (st, res) = Ok (st', res')"
    and "contents (kv st) key = Some bs" "read_sub C bs = Some s"
    and "contents (kv st') key \<noteq> Some bs"
  obtains op v where "decode_DecodedOp C (tx_payload tx) = Ok (Rebind op)" "ro_actor_id op = SubId d t i"
    "apply_rebind_op K C st op = Ok (st', Ok (key, v))"
proof -
  have reserved: "reserved_key key" using actor_key_head [OF assms(2)] by (auto simp: reserved_key_def)
  have not_root: "actor_state_key (RootId d') \<noteq> Some key" for d'
    using assms(2) by (auto simp: actor_state_key_def bind_eq_Some_conv)
  from assms(3) show thesis
  proof (cases rule: execute_tx_cases)
    case (kv op)
    with kv_frame reserved assms(4,6) show thesis by metis
  next
    case (did op w)
    from apply_did_op_Ok [OF did(2)] obtain key' where key': "did_state_key (did_id op) = Some key'"
      and w: "root_after_did_op K C st op = Ok w"
      and run: "state_run K (sha256 C) (Put key' (encode_DidDocument (document op)) # image_put w) st = Ok st'"
      by metis
    have "key \<noteq> key'" using did_not_actor_key [OF key'] assms(2) by auto
    moreover have "key \<notin> op_key ` set (image_put w)"
      using w not_root by (auto simp: root_after_did_op_def image_put_def Let_def split: if_splits)
    ultimately show thesis using run_frame [OF run, of key] assms(4,6) by auto
  next
    case (mint op w)
    obtain sk sv rk rv where w: "w = ((sk, sv), (rk, rv))" by (metis surj_pair)
    from apply_sub_actor_op_Ok [OF mint(2) [unfolded w]] obtain dk root n where
      rk: "actor_state_key (RootId (so_root_did op)) = Some rk" and chk: "check_mint K C st op sk dk rk = Ok (root, n)"
      by (metis fst_conv)
    have "sk \<noteq> key" using check_mint_absent [OF chk] assms(4) by auto
    moreover have "rk \<noteq> key" using rk not_root by auto
    ultimately show thesis
      using run_frame [OF mint_diffs_run [OF mint(2) [unfolded w]], of key] assms(4,6) by auto
  next
    case (rebind op w)
    obtain sk v where w: "w = (sk, v)" by (rule prod.exhaust)
    have sk: "actor_state_key (ro_actor_id op) = Some sk"
      using apply_rebind_op_Ok [OF rebind(2)] w by (metis fst_conv)
    from run_frame [OF rebind_diffs_run [OF rebind(2) [unfolded w]], of key] assms(4,6) have "sk = key" by auto
    moreover from this have "ro_actor_id op = SubId d t i"
      using actor_state_key_inj [OF _ assms(1) sk] assms(2) decoded_rebind_wf [OF rebind(1)] by simp
    ultimately show thesis using that rebind w by blast
  qed (use assms(4,6) in simp)
qed

end

subsection \<open>Whole batches\<close>

text \<open>What every transaction keeps, every batch of finalized events keeps.\<close>

lemma txs_preserve:
  assumes "\<And>tx st res st' res'. execute_tx K C tx (st, res) = Ok (st', res') \<Longrightarrow> P st \<Longrightarrow> P st'"
    and "execute_txs K C txs (st, res) = Ok (st', res')" "P st"
  shows "P st'"
  using assms(2,3)
proof (induction txs arbitrary: st res)
  case (Cons tx txs)
  then obtain st1 res1 where "execute_tx K C tx (st, res) = Ok (st1, res1)" "execute_txs K C txs (st1, res1) = Ok (st', res')"
    by auto
  with Cons.IH Cons.prems(2) assms(1) show ?case by blast
qed simp

lemma bucket_loop_preserves:
  assumes "\<And>tx st res st' res'. execute_tx K C tx (st, res) = Ok (st', res') \<Longrightarrow> P st \<Longrightarrow> P st'"
    and "bucket_loop K C fin (ex, p, n) = Ok (ex', p', n')" "P (ex_state ex)"
  shows "P (ex_state ex')"
  using assms(2,3)
proof (induction fin arbitrary: ex p n)
  case (Cons er fin)
  obtain e r where er: "er = (e, r)" by (rule prod.exhaust)
  from Cons.prems(1) er obtain h where h: "hash_Event (sha256 C) e = Ok h" by (auto split: result.splits)
  show ?case
  proof (cases "h \<in> set (executed ex)")
    case True
    with Cons h er show ?thesis by simp
  next
    case False
    with Cons.prems(1) h er obtain st x p1
      where one: "execute_txs K C (ev_payload e) (ex_state ex, no_result) = Ok (st, x)"
        and rest: "bucket_loop K C fin (ex\<lparr> ex_state := st, executed := h # executed ex \<rparr>, p1, True) = Ok (ex', p', n')"
      by (auto simp: execute_event_def split: prod.splits)
    have "P st" using txs_preserve [of K C P, OF assms(1) one Cons.prems(2)] .
    with Cons.IH [OF rest] show ?thesis by simp
  qed
qed simp

lemma bucket_preserves:
  assumes "\<And>tx st res st' res'. execute_tx K C tx (st, res) = Ok (st', res') \<Longrightarrow> P st \<Longrightarrow> P st'"
    and "bucket_finalized K C ex p t fin = Ok (ex', p', t')" "P (ex_state ex)"
  shows "P (ex_state ex')"
proof (cases "fin = []")
  case False
  with assms(2) obtain n where "bucket_loop K C fin (ex, p, False) = Ok (ex', p', n)"
    by (auto simp: bucket_finalized_def Let_def)
  from bucket_loop_preserves [of K C P, OF assms(1) this assms(3)] show ?thesis .
qed (use assms in \<open>auto simp: bucket_finalized_def\<close>)

subsection \<open>Minting\<close>

lemma check_mint_Ok:
  assumes "check_mint K C st op sk dk rk = Ok (root, n)"
  obtains leaf where "Option.bind (state_get K st rk) (read_root C) = Some root"
    "subactor_leaf_hash (sha256 C) (so_actor_id op) (so_control_key op) = Some leaf"
    "check_mint_proofs (sha256 C) op root leaf = Ok n"
  using assms by (auto simp: check_mint_def split: if_splits)

lemma check_mint_proofs_Ok:
  assumes "check_mint_proofs sha op root leaf = Ok n"
  shows "leaf_index (so_inclusion op) = ra_leaf_count root \<and> leaf_count (so_inclusion op) = n \<and>
    old_leaf_count (so_consistency op) = ra_leaf_count root \<and> new_leaf_count (so_consistency op) = n \<and>
    unat n = Suc (unat (ra_leaf_count root)) \<and>
    verify_inclusion sha leaf (so_inclusion op) (so_new_root op) \<and>
    verify_consistency sha (merkle_root root) (so_consistency op) (so_new_root op)"
proof -
  from assms have n: "u64_checked_add (ra_leaf_count root) 1 = Some n"
    by (auto simp: check_mint_proofs_def Let_def split: if_splits)
  then have "unat n = Suc (unat (ra_leaf_count root))"
    by (auto simp: u64_checked_add_def unat_word_ariths split: if_splits)
  with assms n show ?thesis
    by (auto simp: check_mint_proofs_def Let_def split: if_splits)
qed

lemma mint_root_appends:
  assumes "digest sha" "check_mint_proofs sha op root leaf = Ok n" "length leaf = 32"
    and "hashes32 (cp_nodes (so_consistency op))" "hashes32 (ip_nodes (so_inclusion op))"
    and "merkle_root root = mth sha leaves" "unat (ra_leaf_count root) = length leaves" "hashes32 leaves"
    and "inj_on sha (append_preimages sha leaves (cp_nodes (so_consistency op)) (merkle_root root) leaf
      (ip_nodes (so_inclusion op)))"
  shows "so_new_root op = mth sha (leaves @ [leaf])"
proof -
  note chk = check_mint_proofs_Ok [OF assms(2)]
  have n: "unat n = Suc (length leaves)" using chk assms(7) by simp
  obtain rest where incl: "inclusion_rec sha (length leaves) (Suc (length leaves)) leaf (ip_nodes (so_inclusion op)) =
      Some (so_new_root op, rest)"
    using chk n assms(7) by (auto simp: verify_inclusion_def split: if_splits option.splits)
  show ?thesis
  proof (cases "leaves = []")
    case True
    with incl show ?thesis by (simp add: inclusion_rec.simps)
  next
    case False
    have "ra_leaf_count root \<noteq> 0" "ra_leaf_count root \<noteq> n"
      using False assms(7) n by (auto simp: unat_eq_zero)
    then obtain rest' where cons: "consistency_rec sha (length leaves) (Suc (length leaves)) True
        (cp_nodes (so_consistency op)) (merkle_root root) = Some ((mth sha leaves, so_new_root op), rest')"
      using chk n assms(6,7) by (auto simp: verify_consistency_def Let_def split: if_splits option.splits)
    show ?thesis
      by (rule append_one_sound [OF assms(1) _ assms(4,3,5,9) False assms(8) cons incl])
        (auto simp: append_preimages_def Let_def assms(6) length_mth assms(1,8))
  qed
qed

lemma length_subactor_leaf: "digest sha \<Longrightarrow> subactor_leaf_hash sha i k = Some leaf \<Longrightarrow> length leaf = 32"
  by (auto simp: subactor_leaf_hash_def leaf_hash_def)

subsection \<open>Sample records\<close>

text \<open>A signed creation of the sample document.\<close>

definition sample_creation :: DidOp where
  "sample_creation = sample_did_op\<lparr> did_signature :=
     Signature (replicate 32 2 @ sample_sha (case did_signed_payload sample_did_op of Some m \<Rightarrow> m | None \<Rightarrow> [])) \<rparr>"

definition sample_sub :: SubActor where
  "sample_sub = \<lparr> sa_actor_id = SubId sample_did Defi 0, sa_control_key = replicate 32 1,
     sa_operating_key = replicate 32 2 \<rparr>"

text \<open>A mint of the second leaf below a root whose only leaf is \<open>replicate 32 9\<close>.\<close>

definition sample_root :: RootActor where
  "sample_root = \<lparr> ra_did = sample_did, merkle_root = replicate 32 9, ra_leaf_count = 1, ra_control_key = replicate 32 1 \<rparr>"

definition sample_mint :: "bytes \<Rightarrow> bytes \<Rightarrow> SubActorOp" where
  "sample_mint leaf msg = \<lparr> so_root_did = sample_did, so_tag = Defi, so_index = 0, so_control_key = replicate 32 1,
     so_operating_key = replicate 32 2, so_new_root = node_hash sample_sha (replicate 32 9) leaf,
     so_consistency = \<lparr> old_leaf_count = 1, new_leaf_count = 2, cp_nodes = [leaf] \<rparr>,
     so_inclusion = \<lparr> leaf_index = 1, leaf_count = 2, ip_nodes = [replicate 32 9] \<rparr>,
     so_signature = Signature (replicate 32 2 @ sample_sha msg), so_signed_by = 0 \<rparr>"

lemma sample_creation_simps [simp]:
  "did_id sample_creation = sample_did" "document sample_creation = sample_document" "is_creation sample_creation"
  "signed_by sample_creation = 0"
  by (simp_all add: sample_creation_def sample_did_op_def)

lemma sample_creation_wf: "did_op_wf sample_crypto sample_creation"
  using sample_did_op_wf by (simp add: did_op_wf_def sample_creation_def signature_wf_def sample_did_op_def)

lemma sample_did_encodes: "encode_DidId sample_did = Some ([0, 0, 0, 1, 0x6D, 0, 0, 0, 1, 0x61] @ replicate 16 7)"
  by (simp add: encode_DidId_def sample_did_def write_prefixed_def u32_try_from_def u32_be_one)

lemma sample_creation_verifies:
  "\<exists>m. did_signed_payload sample_creation = Some m \<and> verify_did_op sample_crypto sample_creation m None = Ok ()"
  by (simp add: did_signed_payload_def sample_did_encodes verify_did_op_Ok_iff did_signer_def sample_document_def
      signing_key_def signing_methods_def map_filter_simps sample_creation_def sample_did_op_def sample_crypto_def)

lemma sample_creation_applies:
  "\<exists>st' w. apply_did_op list_keyspace sample_crypto (state_new sample_sha []) sample_creation = Ok (st', Ok w)"
proof -
  obtain m where m: "did_signed_payload sample_creation = Some m"
    "verify_did_op sample_crypto sample_creation m None = Ok ()"
    using sample_creation_verifies by blast
  obtain key where key: "did_state_key sample_did = Some key" "length key < 2 ^ 32"
    by (simp add: did_state_key_def sample_did_encodes)
  obtain rk where rk: "actor_state_key (RootId sample_did) = Some rk" "length rk < 2 ^ 32"
    by (simp add: actor_state_key_def sample_did_encodes)
  obtain rv where rv: "root_after_did_op list_keyspace sample_crypto (state_new sample_sha []) sample_creation = Ok (Some (rk, rv))"
      "length rv < 2 ^ 32"
    by (simp add: root_after_did_op_def rk sample_document_def encode_RootActor_def sample_did_encodes)
  have doc: "length (encode_DidDocument sample_document) < 2 ^ 32"
    by (simp add: encode_DidDocument_def sample_document_def encode_method_def)
  have none: "state_get list_keyspace (state_new sample_sha []) key = None"
    by (simp add: list_rks.state_get_eq state_new_def bt_of_list_def)
  obtain st' where "state_run list_keyspace sample_sha [Put key (encode_DidDocument sample_document), Put rk rv]
      (state_new sample_sha []) = Ok st'"
    using state_run_total [of "[Put key (encode_DidDocument sample_document), Put rk rv]"] key(2) rk(2) rv(2) doc
    by (auto simp del: state_run.simps)
  then show ?thesis
    using m key(1) rv(1) none
    by (auto simp: apply_did_op_def sample_crypto_def simp del: state_apply.simps)
qed

lemma sample_proofs:
  "check_mint_proofs sample_sha (sample_mint leaf msg) sample_root leaf = Ok 2"
proof -
  have "consistency_rec sample_sha 1 2 True [leaf] (replicate 32 9) =
      Some ((replicate 32 9, node_hash sample_sha (replicate 32 9) leaf), [])"
    by (subst consistency_rec.simps, subst consistency_rec.simps) (simp add: Let_def largest_pow2_below_2 [simplified])
  moreover have "inclusion_rec sample_sha 1 2 leaf [replicate 32 9] = Some (node_hash sample_sha (replicate 32 9) leaf, [])"
    by (subst inclusion_rec.simps, subst inclusion_rec.simps) (simp add: Let_def largest_pow2_below_2 [simplified])
  ultimately show ?thesis
    by (simp add: check_mint_proofs_def Let_def sample_mint_def sample_root_def u64_checked_add_def
        verify_inclusion_def verify_consistency_def word_le_nat_alt word_less_nat_alt)
qed

lemma sample_crypto_simps:
  "sha256 sample_crypto = sample_sha" "vk_verify sample_crypto k m sg \<longleftrightarrow> sg = k @ sample_sha m"
  "vk_valid sample_crypto k \<longleftrightarrow> length k = 32"
  by (simp_all add: sample_crypto_def)

lemma sample_mint_simps:
  "so_actor_id (sample_mint leaf msg) = SubId sample_did Defi 0" "so_root_did (sample_mint leaf msg) = sample_did"
  "so_control_key (sample_mint leaf msg) = replicate 32 1" "so_operating_key (sample_mint leaf msg) = replicate 32 2"
  "so_signed_by (sample_mint leaf msg) = 0" "so_signature (sample_mint leaf msg) = Signature (replicate 32 2 @ sample_sha msg)"
  "so_new_root (sample_mint leaf msg) = node_hash sample_sha (replicate 32 9) leaf"
  "cp_nodes (so_consistency (sample_mint leaf msg)) = [leaf]"
  "ip_nodes (so_inclusion (sample_mint leaf msg)) = [replicate 32 9]"
  by (simp_all add: sample_mint_def so_actor_id_def)

lemma sample_wf: "did_wf sample_did" "document_wf sample_crypto sample_document"
  using sample_creation_wf by (simp_all add: did_op_wf_def)

lemma sample_mint_wf: "length leaf = 32 \<Longrightarrow> sub_actor_op_wf sample_crypto (sample_mint leaf msg)"
  using sample_wf(1)
  by (simp add: sub_actor_op_wf_def sample_mint_simps sample_crypto_simps MAX_ACTOR_INDEX_PLUS_ONE_def node_hash_def signature_wf_def)

lemma sample_document_key: "signing_key sample_document 0 = Some (replicate 32 2)" "\<not> deactivated sample_document"
  by (simp_all add: sample_document_def signing_key_def signing_methods_def map_filter_simps)

lemma sample_mint_checks:
  assumes "map_of (bt_of_list (kv st)) dk = Some (encode_DidDocument sample_document)"
    and "map_of (bt_of_list (kv st)) rk = Some rb" "map_of (bt_of_list (kv st)) sk = None"
    and "read_root sample_crypto rb = Some sample_root" "subactor_signed_payload (sample_mint leaf msg) = Some msg"
    and "subactor_leaf_hash sample_sha (SubId sample_did Defi 0) (replicate 32 1) = Some leaf"
  shows "check_mint list_keyspace sample_crypto st (sample_mint leaf msg) sk dk rk = Ok (sample_root, 2)"
proof -
  have "read_document sample_crypto (encode_DidDocument sample_document) = Some sample_document"
    using decode_encode_DidDocument [OF sample_wf(2), of "[]"] by (simp add: read_document_def)
  with assms show ?thesis
    by (simp add: check_mint_def state_contains_def list_rks.state_get_eq sample_document_key sample_mint_simps
        sample_crypto_simps sample_proofs)
qed

lemma sample_mint_accepted:
  obtains leaf msg dk rk rb st st' w where
    "subactor_leaf_hash sample_sha (SubId sample_did Defi 0) (replicate 32 1) = Some leaf"
    "st = \<lparr> kv = [(dk, encode_DidDocument sample_document), (rk, rb)], tree = smt_new sample_sha \<rparr>"
    "actor_state_key (RootId sample_did) = Some rk" "map_of (bt_of_list (kv st)) rk = Some rb"
    "read_root sample_crypto rb = Some sample_root"
    "apply_sub_actor_op list_keyspace sample_crypto st (sample_mint leaf msg) = Ok (st', Ok w)"
proof -
  obtain leaf where leaf: "subactor_leaf_hash sample_sha (SubId sample_did Defi 0) (replicate 32 1) = Some leaf"
    by (simp add: subactor_leaf_hash_def subactor_leaf_data_def sample_did_encodes write_prefixed_def u32_try_from_def)
  obtain msg where payload: "subactor_signed_payload (sample_mint leaf m) = Some msg" for m
    by (simp add: subactor_signed_payload_def sample_mint_simps sample_did_encodes write_prefixed_def u32_try_from_def)
  obtain sk dk rk where keys: "actor_state_key (SubId sample_did Defi 0) = Some sk" "did_state_key sample_did = Some dk"
      "actor_state_key (RootId sample_did) = Some rk"
    and diff: "sk \<noteq> rk" "dk \<noteq> rk" "dk \<noteq> sk" and short: "length sk < 2 ^ 32" "length rk < 2 ^ 32"
    by (simp add: actor_state_key_def did_state_key_def sample_did_encodes RESERVED_DID_PREFIX_def RESERVED_ACTOR_PREFIX_def)
  obtain rb where rb: "encode_RootActor sample_root = Some rb"
    by (simp add: encode_RootActor_def sample_root_def sample_did_encodes)
  have root: "read_root sample_crypto rb = Some sample_root"
    using sample_wf(1) rb by (intro read_root_encode) (simp_all add: root_actor_wf_def sample_root_def sample_crypto_simps)
  define st :: "(bytes, bytes) btmap State"
    where "st = \<lparr> kv = [(dk, encode_DidDocument sample_document), (rk, rb)], tree = smt_new sample_sha \<rparr>"
  have get: "map_of (bt_of_list (kv st)) dk = Some (encode_DidDocument sample_document)"
    "map_of (bt_of_list (kv st)) rk = Some rb" "map_of (bt_of_list (kv st)) sk = None"
    using diff by (simp_all add: st_def bt_of_list_def)
  obtain sv rv where sv: "encode_SubActor sample_sub = Some sv" "length sv < 2 ^ 32"
    and rv: "encode_RootActor \<lparr> ra_did = sample_did, merkle_root = node_hash sample_sha (replicate 32 9) leaf,
      ra_leaf_count = 2, ra_control_key = replicate 32 1 \<rparr> = Some rv" "length rv < 2 ^ 32"
    by (simp add: encode_SubActor_def encode_RootActor_def sample_sub_def sample_did_encodes node_hash_def)
  obtain st' where "state_run list_keyspace sample_sha [Put sk sv, Put rk rv] st = Ok st'"
    using state_run_total [of "[Put sk sv, Put rk rv]"] short sv(2) rv(2) by (auto simp del: state_run.simps)
  then have "apply_sub_actor_op list_keyspace sample_crypto st (sample_mint leaf msg) = Ok (st', Ok ((sk, sv), (rk, rv)))"
    using sample_mint_checks [OF get root payload leaf] sv(1) rv(1)
    by (auto simp: apply_sub_actor_op_def sample_mint_simps keys sub_actor_new_def sample_root_def sample_sub_def
        sample_crypto_simps simp del: state_apply.simps)
  with that leaf st_def keys(3) get(2) root show thesis by blast
qed

subsection \<open>Properties\<close>

text \<open>
  Property C37. A DID document changes only through a DID operation for exactly that
  identifier, signed by a key of the document it replaces, or of its own document when it
  creates a record that did not exist; a deactivated document has no signer, so it is
  final. No other kind of transaction, valid or not, touches the record.
\<close>

theorem did_record_guarded:
  assumes "readable_keyspace K contents" "did_wf d" "did_state_key d = Some key"
    and "execute_tx K C tx (st, res) = Ok (st', res')" "contents (kv st') key \<noteq> contents (kv st) key"
  shows "\<exists>op msg signer k. decode_DecodedOp C (tx_payload tx) = Ok (DidChange op) \<and> did_id op = d \<and>
    did_signed_payload op = Some msg \<and> did_signer C op (contents (kv st) key) = Some signer \<and>
    signing_key signer (unat (signed_by op)) = Some k \<and> vk_verify C k msg (sig_bytes (did_signature op)) \<and>
    contents (kv st') key = Some (encode_DidDocument (document op))"
  using readable_keyspace.did_change [OF assms] by metis

theorem did_record_guarded_witness:
  "\<exists>key tx st' res' op. did_state_key sample_did = Some key \<and>
    execute_tx list_keyspace sample_crypto tx (state_new sample_sha [], no_result) = Ok (st', res') \<and>
    map_of (bt_of_list (kv st')) key \<noteq> None \<and>
    decode_DecodedOp sample_crypto (tx_payload tx) = Ok (DidChange op) \<and> did_id op = sample_did"
proof -
  obtain b where b: "encode_DidOp sample_creation = Some b"
    by (simp add: encode_DidOp_def sample_did_encodes)
  obtain st' w where st': "apply_did_op list_keyspace sample_crypto (state_new sample_sha []) sample_creation = Ok (st', Ok w)"
    using sample_creation_applies by blast
  let ?tx = "\<lparr> tx_payload = 0x03 # b \<rparr>"
  have "decode_DecodedOp sample_crypto (tx_payload ?tx) = Ok (DidChange sample_creation)"
    using decode_encode_DidOp [OF sample_creation_wf b] by (simp add: decode_DecodedOp_def)
  then have tx: "execute_tx list_keyspace sample_crypto ?tx (state_new sample_sha [], no_result) = Ok (st', no_result)"
    by (simp add: execute_tx_def st')
  obtain key where key: "did_state_key sample_did = Some key" by (simp add: did_state_key_def sample_did_encodes)
  have wf: "did_wf sample_did" using sample_creation_wf by (simp add: did_op_wf_def)
  obtain m where "did_signed_payload sample_creation = Some m" "verify_did_op sample_crypto sample_creation m None = Ok ()"
    using sample_creation_verifies by blast
  then have new: "map_of (bt_of_list (kv st')) key = Some (encode_DidDocument sample_document)"
    using list_rks.did_op_accepted [OF _ _ _ st'] key by (simp add: state_new_def bt_of_list_def)
  then have "map_of (bt_of_list (kv st')) key \<noteq> map_of (bt_of_list (kv (state_new sample_sha []))) key"
    by (simp add: state_new_def bt_of_list_def)
  from did_record_guarded [OF list_rks.readable_keyspace_axioms wf key tx this] key tx new show ?thesis by blast
qed

text \<open>
  Property C38. Deactivation is final: whatever finalized events follow, a deactivated
  document stays in the state byte for byte.
\<close>

theorem deactivation_final:
  assumes "readable_keyspace K contents" "did_wf d" "did_state_key d = Some key"
    and "contents (kv (ex_state ex)) key = Some bs" "read_document C bs = Some doc" "deactivated doc"
    and "bucket_finalized K C ex p t fin = Ok (ex', p', t')"
  shows "contents (kv (ex_state ex')) key = Some bs"
proof (rule bucket_preserves [of K C "\<lambda>st. contents (kv st) key = Some bs", OF _ assms(7,4)])
  fix tx st res st' res'
  assume tx: "execute_tx K C tx (st, res) = Ok (st', res')" and bs: "contents (kv st) key = Some bs"
  show "contents (kv st') key = Some bs"
  proof (rule ccontr)
    assume "contents (kv st') key \<noteq> Some bs"
    with bs obtain op signer where "did_signer C op (Some bs) = Some signer"
      using readable_keyspace.did_change [OF assms(1-3) tx] by metis
    with assms(5,6) show False by (simp add: did_signer_def split: if_splits)
  qed
qed

theorem deactivation_final_witness:
  "\<exists>key ex' p' t'. did_state_key sample_did = Some key \<and>
    bucket_finalized list_keyspace sample_crypto
      (executor_new sample_sha [(key, encode_DidDocument (sample_document\<lparr> deactivated := True \<rparr>))]) [] 0
      [(sample_event, 1)] = Ok (ex', p', t') \<and>
    map_of (bt_of_list (kv (ex_state ex'))) key = Some (encode_DidDocument (sample_document\<lparr> deactivated := True \<rparr>))"
proof -
  let ?doc = "sample_document\<lparr> deactivated := True \<rparr>"
  obtain key where key: "did_state_key sample_did = Some key" by (simp add: did_state_key_def sample_did_encodes)
  have wf: "did_wf sample_did" "document_wf sample_crypto ?doc"
    using sample_creation_wf by (simp_all add: did_op_wf_def document_wf_def)
  have read: "read_document sample_crypto (encode_DidDocument ?doc) = Some ?doc"
    using decode_encode_DidDocument [OF wf(2), of "[]"] by (simp add: read_document_def)
  obtain r where r: "bucket_finalized list_keyspace sample_crypto (executor_new sample_sha [(key, encode_DidDocument ?doc)])
      [] 0 [(sample_event, 1)] = Ok r"
    by (rule sample_bucket)
  obtain ex' p' t' where r': "r = (ex', p', t')" by (metis prod.exhaust)
  from deactivation_final [OF list_rks.readable_keyspace_axioms wf(1) key _ read _ r [unfolded r']] r r' key
  show ?thesis by (auto simp: executor_new_def state_new_def bt_of_list_def)
qed

text \<open>
  Property C39. The control key of a sub-actor never changes: whatever finalized events
  follow, the record stays readable with the control key it was minted with.
\<close>

theorem sub_actor_control_key_fixed:
  assumes "readable_keyspace K contents" "actor_id_wf (SubId d t i)" "actor_state_key (SubId d t i) = Some key"
    and "contents (kv (ex_state ex)) key = Some bs" "read_sub C bs = Some s"
    and "bucket_finalized K C ex p r fin = Ok (ex', p', r')"
  shows "\<exists>bs' s'. contents (kv (ex_state ex')) key = Some bs' \<and> read_sub C bs' = Some s' \<and>
    sa_control_key s' = sa_control_key s"
proof (rule bucket_preserves [of K C "\<lambda>st. \<exists>bs' s'. contents (kv st) key = Some bs' \<and>
    read_sub C bs' = Some s' \<and> sa_control_key s' = sa_control_key s", OF _ assms(6)])
  fix tx st res st' res'
  assume tx: "execute_tx K C tx (st, res) = Ok (st', res')"
    and "\<exists>bs' s'. contents (kv st) key = Some bs' \<and> read_sub C bs' = Some s' \<and> sa_control_key s' = sa_control_key s"
  then obtain b s' where b: "contents (kv st) key = Some b" "read_sub C b = Some s'" "sa_control_key s' = sa_control_key s"
    by blast
  show "\<exists>bs' s'. contents (kv st') key = Some bs' \<and> read_sub C bs' = Some s' \<and> sa_control_key s' = sa_control_key s"
  proof (cases "contents (kv st') key = Some b")
    case False
    then obtain op v where op: "decode_DecodedOp C (tx_payload tx) = Ok (Rebind op)"
      "apply_rebind_op K C st op = Ok (st', Ok (key, v))"
      using readable_keyspace.sub_record_kept_or_rebound [OF assms(1-3) tx b(1,2)] by metis
    from readable_keyspace.rebind_effect [OF assms(1) op b(1,2)] b(3) show ?thesis
      by (metis SubActor.select_convs(2))
  qed (use b in blast)
qed (use assms(4,5) in blast)

theorem sub_actor_control_key_fixed_witness:
  "\<exists>key bs ex' p' t' bs' s'. actor_state_key (SubId sample_did Defi 0) = Some key \<and> encode_SubActor sample_sub = Some bs \<and>
    bucket_finalized list_keyspace sample_crypto (executor_new sample_sha [(key, bs)]) [] 0
      [(sample_event, 1)] = Ok (ex', p', t') \<and>
    map_of (bt_of_list (kv (ex_state ex'))) key = Some bs' \<and> read_sub sample_crypto bs' = Some s' \<and>
    sa_control_key s' = replicate 32 1"
proof -
  obtain key where key: "actor_state_key (SubId sample_did Defi 0) = Some key"
    by (simp add: actor_state_key_def sample_did_encodes)
  obtain bs where bs: "encode_SubActor sample_sub = Some bs"
    by (simp add: encode_SubActor_def sample_sub_def sample_did_encodes)
  have wf: "actor_id_wf (SubId sample_did Defi 0)"
    using sample_creation_wf by (simp add: did_op_wf_def MAX_ACTOR_INDEX_PLUS_ONE_def)
  then have "sub_actor_wf sample_crypto sample_sub" by (auto simp: sub_actor_wf_def sample_sub_def sample_crypto_def)
  then have read: "read_sub sample_crypto bs = Some sample_sub" using bs by (rule read_sub_encode)
  obtain r where r: "bucket_finalized list_keyspace sample_crypto (executor_new sample_sha [(key, bs)]) [] 0
      [(sample_event, 1)] = Ok r"
    by (rule sample_bucket)
  obtain ex' p' t' where r': "r = (ex', p', t')" by (metis prod.exhaust)
  from sub_actor_control_key_fixed [OF list_rks.readable_keyspace_axioms wf key _ read r [unfolded r']]
  obtain bs' s' where "map_of (bt_of_list (kv (ex_state ex'))) key = Some bs'" "read_sub sample_crypto bs' = Some s'"
    "sa_control_key s' = replicate 32 1"
    by (auto simp: executor_new_def state_new_def bt_of_list_def sample_sub_def)
  with key bs r r' show ?thesis by blast
qed

text \<open>
  Property C40. A mint appends exactly one leaf: if the root record commits to a list of
  leaves, the record after an accepted mint commits to that list with the leaf of the new
  sub-actor at its end, counts one more, and keeps its control key. The client supplies
  the new root and the proofs; that it can choose nothing else follows from the inclusion
  and the consistency check together, unless two of the strings they hash collide.
\<close>

theorem mint_appends_leaf:
  assumes "readable_keyspace K contents" "digest (sha256 C)" "sub_actor_op_wf C op"
    and "apply_sub_actor_op K C st op = Ok (st', Ok w)"
    and "actor_state_key (RootId (so_root_did op)) = Some rk" "contents (kv st) rk = Some bs" "read_root C bs = Some root"
    and "subactor_leaf_hash (sha256 C) (so_actor_id op) (so_control_key op) = Some leaf"
    and "merkle_root root = mth (sha256 C) leaves" "unat (ra_leaf_count root) = length leaves" "hashes32 leaves"
    and "inj_on (sha256 C) (append_preimages (sha256 C) leaves (cp_nodes (so_consistency op)) (merkle_root root) leaf
      (ip_nodes (so_inclusion op)))"
  shows "\<exists>bs' root'. contents (kv st') rk = Some bs' \<and> read_root C bs' = Some root' \<and>
    merkle_root root' = mth (sha256 C) (leaves @ [leaf]) \<and> unat (ra_leaf_count root') = length (leaves @ [leaf]) \<and>
    ra_control_key root' = ra_control_key root"
proof -
  obtain sk sv rk' rv where w: "w = ((sk, sv), (rk', rv))" by (metis surj_pair)
  from apply_sub_actor_op_Ok [OF assms(4) [unfolded w]] assms(5) obtain dk r n where rk': "rk' = rk"
    and chk: "check_mint K C st op sk dk rk = Ok (r, n)"
    and enc: "encode_RootActor \<lparr> ra_did = so_root_did op, merkle_root = so_new_root op, ra_leaf_count = n,
       ra_control_key = ra_control_key r \<rparr> = Some rv"
    by (metis fst_conv snd_conv option.inject)
  have r: "r = root" and proofs: "check_mint_proofs (sha256 C) op root leaf = Ok n"
    using check_mint_Ok [OF chk] assms(6-8) readable_keyspace.state_get_eq [OF assms(1), of st rk]
    by (metis Option.bind.bind_lunit option.inject)+
  have new: "so_new_root op = mth (sha256 C) (leaves @ [leaf])"
    using mint_root_appends [OF assms(2) proofs length_subactor_leaf [OF assms(2,8)] _ _ assms(9-12)] assms(3)
    by (simp add: sub_actor_op_wf_def)
  have "unat n = length (leaves @ [leaf])"
    using check_mint_proofs_Ok [OF proofs] assms(10) by simp
  moreover have "root_actor_wf C \<lparr> ra_did = so_root_did op, merkle_root = so_new_root op, ra_leaf_count = n,
       ra_control_key = ra_control_key root \<rparr>"
    using assms(3) read_root_wf [OF assms(7)] by (auto simp: root_actor_wf_def sub_actor_op_wf_def so_actor_id_def)
  moreover have "contents (kv st') rk = Some rv"
    using keyspace.state_run_contents [OF readable_keyspace.axioms(1) [OF assms(1)] mint_diffs_run [OF assms(4) [unfolded w]]]
    by (simp add: rk')
  ultimately show ?thesis using enc new r read_root_encode by fastforce
qed

theorem mint_appends_leaf_witness:
  "\<exists>did_key rk rb leaf msg st st' w bs' root'.
    st = \<lparr> kv = [(did_key, encode_DidDocument sample_document), (rk, rb)], tree = smt_new sample_sha \<rparr> \<and>
    apply_sub_actor_op list_keyspace sample_crypto st (sample_mint leaf msg) = Ok (st', Ok w) \<and>
    map_of (bt_of_list (kv st')) rk = Some bs' \<and> read_root sample_crypto bs' = Some root' \<and>
    merkle_root root' = mth sample_sha [replicate 32 9, leaf] \<and> unat (ra_leaf_count root') = 2"
proof -
  obtain leaf msg dk rk rb st st' w where leaf: "subactor_leaf_hash sample_sha (SubId sample_did Defi 0) (replicate 32 1) = Some leaf"
    and st: "st = \<lparr> kv = [(dk, encode_DidDocument sample_document), (rk, rb)], tree = smt_new sample_sha \<rparr>"
    and rk: "actor_state_key (RootId sample_did) = Some rk" "map_of (bt_of_list (kv st)) rk = Some rb"
      "read_root sample_crypto rb = Some sample_root"
    and run: "apply_sub_actor_op list_keyspace sample_crypto st (sample_mint leaf msg) = Ok (st', Ok w)"
    by (rule sample_mint_accepted)
  have leaf32: "length leaf = 32" using leaf by (rule length_subactor_leaf [rotated]) simp
  have pre: "append_preimages sample_sha [replicate 32 9] [leaf] (replicate 32 9) leaf [replicate 32 9] =
      {0x01 # replicate 32 9 @ leaf}"
    using two_leaves(4) [of sample_sha leaf "replicate 32 9" "[]"] two_leaves(6) [of sample_sha leaf "[]" "replicate 32 9"]
    by (simp add: append_preimages_def Let_def mth_preimages.simps old_preimages.simps largest_pow2_below_2 numeral_2_eq_2)
  have new: "\<exists>bs' root'. map_of (bt_of_list (kv st')) rk = Some bs' \<and> read_root sample_crypto bs' = Some root' \<and>
      merkle_root root' = mth (sha256 sample_crypto) ([replicate 32 9] @ [leaf]) \<and>
      unat (ra_leaf_count root') = length ([replicate 32 9] @ [leaf]) \<and> ra_control_key root' = ra_control_key sample_root"
    by (rule mint_appends_leaf [OF list_rks.readable_keyspace_axioms _ sample_mint_wf [OF leaf32] run _ rk(2,3)])
      (simp_all add: sample_mint_simps sample_crypto_simps rk leaf sample_root_def pre)
  have "length ([replicate 32 9] @ [leaf]) = 2" "[replicate 32 9] @ [leaf] = [replicate 32 9, leaf]" by simp_all
  with new run st show ?thesis unfolding sample_crypto_simps(1) by metis
qed

text \<open>
  A DID operation carries no nonce and its signature does not cover \<^verbatim>\<open>is_creation\<close>. So the
  signed creation of a document can be sent again as an update: as long as the signing key
  stands at its index in the current document, anyone who saw the creation can roll the
  document back to it.
\<close>

lemma did_creation_replay:
  assumes "readable_keyspace K contents" "did_state_key (did_id op) = Some key" "did_signed_payload op = Some msg"
    and "signing_key (document op) (unat (signed_by op)) = Some k" "vk_verify C k msg (sig_bytes (did_signature op))"
    and "contents (kv st) key = Some bs" "read_document C bs = Some later" "\<not> deactivated later"
    and "signing_key later (unat (signed_by op)) = Some k"
    and "apply_did_op K C st (op\<lparr> is_creation := False \<rparr>) = Ok (st', out)"
  shows "(\<exists>w. out = Ok w) \<and> contents (kv st') key = Some (encode_DidDocument (document op))"
proof -
  let ?op = "op\<lparr> is_creation := False \<rparr>"
  have "did_signed_payload ?op = Some msg" using assms(3) by (simp add: did_signed_payload_def)
  moreover have "verify_did_op C ?op msg (Some bs) = Ok ()"
    unfolding verify_did_op_Ok_iff using assms(5,7-9) by (simp add: did_signer_def)
  ultimately show ?thesis
    using readable_keyspace.did_op_accepted [OF assms(1) _ _ _ assms(10), of key msg] assms(2,6) by simp
qed

text \<open>
  The batches of \<^verbatim>\<open>bucket_finalized\<close> do not commute: an event that arrives after one of a
  later round is executed last, so when both write the same key the state differs from
  that of a node which had it from the start. The documented convergence of late events
  holds for distinct keys only.
\<close>

definition put_event :: "u8 \<Rightarrow> Event" where
  "put_event v = \<lparr> unsigned_part = \<lparr> ue_creator = NodeId 1, ue_self_parent = None, ue_other_parent = None,
     ue_timestamp = Timestamp 5, ue_payload = [\<lparr> tx_payload = [0, 0, 0, 0, 1, 1, 0, 0, 0, 1, v] \<rparr>] \<rparr>,
     ev_signature = Signature (replicate 63 0 @ [v]) \<rparr>"

lemma put_event_executes:
  "\<exists>st'. execute_event list_keyspace C st (put_event v) = Ok (st', no_result) \<and>
    map_of (bt_of_list (kv st')) = (map_of (bt_of_list (kv st)))([1] \<mapsto> [v])"
proof -
  have dec: "decode_DecodedOp C [0, 0, 0, 0, 1, 1, 0, 0, 0, 1, v] = Ok (Kv (Put [1] [v]))"
    by (simp add: decode_DecodedOp_def decode_put_Ok_iff reserved_key_def write_prefixed_def u32_try_from_def
      RESERVED_DID_PREFIX_def RESERVED_ACTOR_PREFIX_def u32_be_one)
  obtain st' where run: "state_run list_keyspace (sha256 C) [Put [1] [v]] st = Ok st'"
    using state_run_total [of "[Put [1] [v]]" "sha256 C" st] by (auto simp del: state_run.simps)
  from list_ks.state_run_contents [OF run] run dec show ?thesis
    by (auto simp: execute_event_def put_event_def ev_payload_def execute_tx_def simp del: state_apply.simps)
qed

lemma put_event_hash: "\<exists>h. hash_Event sha (put_event v) = Ok h"
  by (simp add: hash_Event_def put_event_def encode_Event_def encode_UnsignedEvent_def encode_Transactions_def
      encode_Transaction_def u32_try_from_def)

lemma late_event_diverges:
  assumes "hash_Event (sha256 C) (put_event 2) \<noteq> hash_Event (sha256 C) (put_event 3)"
  shows "\<exists>x p t y q u z r v.
    bucket_finalized list_keyspace C (executor_new (sha256 C) []) [] 0 [(put_event 2, 1), (put_event 3, 2)] = Ok (x, p, t) \<and>
    bucket_finalized list_keyspace C (executor_new (sha256 C) []) [] 0 [(put_event 3, 2)] = Ok (y, q, u) \<and>
    bucket_finalized list_keyspace C y q u [(put_event 2, 1), (put_event 3, 2)] = Ok (z, r, v) \<and>
    map_of (bt_of_list (kv (ex_state x))) [1] = Some [3] \<and> map_of (bt_of_list (kv (ex_state z))) [1] = Some [2]"
proof -
  obtain h2 h3 where h: "hash_Event (sha256 C) (put_event 2) = Ok h2" "hash_Event (sha256 C) (put_event 3) = Ok h3"
    using put_event_hash by blast
  with assms have neq: "h2 \<noteq> h3" by simp
  let ?st = "state_new (sha256 C) [] :: (bytes, bytes) btmap State"
  obtain a where a: "execute_event list_keyspace C ?st (put_event 2) = Ok (a, no_result)"
    using put_event_executes by blast
  obtain b where b: "execute_event list_keyspace C a (put_event 3) = Ok (b, no_result)"
      "map_of (bt_of_list (kv b)) [1] = Some [3]"
    using put_event_executes [of C a 3] by auto
  obtain c where c: "execute_event list_keyspace C ?st (put_event 3) = Ok (c, no_result)"
    using put_event_executes by blast
  obtain d where d: "execute_event list_keyspace C c (put_event 2) = Ok (d, no_result)"
      "map_of (bt_of_list (kv d)) [1] = Some [2]"
    using put_event_executes [of C c 2] by auto
  show ?thesis
    using h neq a b c d by (auto simp: bucket_finalized_def Let_def executor_new_def no_result_def)
qed

end
