(* ===== verification/Hashgraph.thy ===== *)
theory Hashgraph
  imports Roster
begin

section \<open>The hashgraph\<close>

text \<open>
  The storage layer of \<^verbatim>\<open>protocol/consensus/src/hashgraph.rs\<close>: the record of a stored event,
  the graph with its incremental indexes, and the small operations that the round, fame
  and order machinery uses. Profiling timers and walk counters are diagnostics without
  influence on the result and are left out. A \<^verbatim>\<open>HashMap\<close> is an association list in some
  order; theorems hold for every order.
\<close>

subsection \<open>Data\<close>

datatype FameStatus = Undecided | Famous | NotFamous

datatype ConsensusError =
    AlreadyPresent EventHash
  | MissingParent EventHash
  | UnknownCreator
  | UnknownEvent EventHash
  | AncestorSeqsMismatch nat nat
  | EncodingFailed CryptoError
  | InvalidSelfParent
  | InvalidRetainedSeq u64 u64
  | InvalidRetainedAncestors
  | InvalidRetainedRound u64 u64
  | InvalidRetainedOrder
  | DecidedRoundBeyondRetained u64 u64

record EventRecord =
  er_event :: Event
  er_seq :: u64
  er_ancestor_seqs :: "u64 list"
  er_round :: u64
  er_is_witness :: bool
  er_votes :: "(EventHash, bool) hmap"
  er_fame :: FameStatus
  er_round_received :: "u64 option"
  er_timestamp :: "Timestamp option"

record Hashgraph =
  events :: "(EventHash, EventRecord) hmap"
  children :: "(EventHash, EventHash list) hmap"
  first_child :: "(NodeId \<times> EventHash option, EventHash) hmap"
  by_creator_seq :: "(NodeId \<times> u64, EventHash) hmap"
  latest_by_creator :: "(NodeId, EventHash) hmap"
  member_index :: "(NodeId, nat) hmap"
  member_count :: nat
  roster_history :: RosterHistory
  known_forkers :: "bool list"
  witnesses_by_round :: "(u64, EventHash list) hmap"
  undecided_witnesses :: "(EventHash, u64) hmap"
  highest_witness_round :: u64
  fully_decided_rounds :: "u64 set"
  next_round_to_order :: u64

type_synonym 'a hg_result = "('a, ConsensusError) result"

subsection \<open>Map entries\<close>

text \<open>
  \<^verbatim>\<open>entry(k).or_insert(v)\<close>, \<^verbatim>\<open>entry(k).or_default().push(v)\<close>, \<^verbatim>\<open>get_mut(k)\<close> followed by an
  update, and an index expression \<^verbatim>\<open>xs[i]\<close>, which panics out of range.
\<close>

definition or_insert :: "'k \<Rightarrow> 'v \<Rightarrow> ('k, 'v) hmap \<Rightarrow> ('k, 'v) hmap" where
  "or_insert k v m = (case map_of m k of None \<Rightarrow> AList.update k v m | Some _ \<Rightarrow> m)"

definition entry_push :: "'k \<Rightarrow> 'v \<Rightarrow> ('k, 'v list) hmap \<Rightarrow> ('k, 'v list) hmap" where
  "entry_push k v m = AList.update k (case_option [] id (map_of m k) @ [v]) m"

definition modify :: "'k \<Rightarrow> ('v \<Rightarrow> 'v) \<Rightarrow> ('k, 'v) hmap \<Rightarrow> ('k, 'v) hmap" where
  "modify k f m = (case map_of m k of None \<Rightarrow> m | Some v \<Rightarrow> AList.update k (f v) m)"

definition index_at :: "'a list \<Rightarrow> nat \<Rightarrow> ('a, 'e) result" where
  "index_at xs i = (if i < length xs then Ok (xs ! i) else Panic)"

subsection \<open>Construction\<close>

definition hg_new :: "MembershipRegistry \<Rightarrow> Hashgraph" where
  "hg_new registry = (let ids = member_ids registry in \<lparr>
     events = [], children = [], first_child = [], by_creator_seq = [], latest_by_creator = [],
     member_index = zip ids [0..<length ids],
     member_count = length ids,
     roster_history = roster_new registry,
     known_forkers = replicate (length ids) False,
     witnesses_by_round = [], undecided_witnesses = [], highest_witness_round = 0,
     fully_decided_rounds = {}, next_round_to_order = 1 \<rparr>)"

subsection \<open>Lookups\<close>

definition hg_get :: "Hashgraph \<Rightarrow> EventHash \<Rightarrow> EventRecord option" where
  "hg_get g h = map_of (events g) h"

definition ancestor_seq :: "EventRecord \<Rightarrow> nat \<Rightarrow> u64 hg_result" where
  "ancestor_seq r i = index_at (er_ancestor_seqs r) i"

definition vote_for :: "EventRecord \<Rightarrow> EventHash \<Rightarrow> bool option" where
  "vote_for r w = map_of (er_votes r) w"

definition highest_decided_round :: "Hashgraph \<Rightarrow> u64" where
  "highest_decided_round g = (if fully_decided_rounds g = {} then 0 else Max (fully_decided_rounds g))"

definition latest_event_by :: "Hashgraph \<Rightarrow> NodeId \<Rightarrow> EventHash option" where
  "latest_event_by g node = map_of (latest_by_creator g) node"

definition children_of :: "Hashgraph \<Rightarrow> EventHash \<Rightarrow> EventHash list" where
  "children_of g h = case_option [] id (map_of (children g) h)"

definition pending_order_events :: "Hashgraph \<Rightarrow> EventHash list" where
  "pending_order_events g = map fst (filter (\<lambda>(_, r). er_round_received r = None) (events g))"

definition all_event_hashes :: "Hashgraph \<Rightarrow> EventHash list" where
  "all_event_hashes g = map fst (events g)"

definition witnesses_of_round :: "Hashgraph \<Rightarrow> u64 \<Rightarrow> EventHash list" where
  "witnesses_of_round g round = case_option [] id (map_of (witnesses_by_round g) round)"

definition fame_of :: "Hashgraph \<Rightarrow> EventHash \<Rightarrow> FameStatus option" where
  "fame_of g w = do { r \<leftarrow> hg_get g w; if er_is_witness r then Some (er_fame r) else None }"

definition member_count_at_round :: "Hashgraph \<Rightarrow> u64 \<Rightarrow> nat hg_result" where
  "member_count_at_round g round = map_ok registry_len (ok_or_panic (roster_for_round (roster_history g) round))"

definition registry_at_round :: "Hashgraph \<Rightarrow> u64 \<Rightarrow> MembershipRegistry hg_result" where
  "registry_at_round g round = ok_or_panic (roster_for_round (roster_history g) round)"

definition max_ordered_round :: "Hashgraph \<Rightarrow> u64" where
  "max_ordered_round g = fold max (List.map_filter (\<lambda>(_, r). er_round_received r) (events g)) 0"

definition is_member :: "Hashgraph \<Rightarrow> NodeId \<Rightarrow> bool" where
  "is_member g node \<longleftrightarrow> map_of (member_index g) node \<noteq> None"

definition is_round_decided :: "Hashgraph \<Rightarrow> u64 \<Rightarrow> bool" where
  "is_round_decided g round \<longleftrightarrow> round \<in> fully_decided_rounds g"

definition member_index_of :: "Hashgraph \<Rightarrow> NodeId \<Rightarrow> nat option" where
  "member_index_of g node = map_of (member_index g) node"

definition creator_has_known_fork :: "Hashgraph \<Rightarrow> nat \<Rightarrow> bool hg_result" where
  "creator_has_known_fork g i = index_at (known_forkers g) i"

definition event_for_creator_seq :: "Hashgraph \<Rightarrow> NodeId \<Rightarrow> u64 \<Rightarrow> EventHash option" where
  "event_for_creator_seq g creator seq = map_of (by_creator_seq g) (creator, seq)"

definition canonical_child :: "Hashgraph \<Rightarrow> NodeId \<Rightarrow> EventHash option \<Rightarrow> EventHash option" where
  "canonical_child g creator self_parent = map_of (first_child g) (creator, self_parent)"

subsection \<open>Updates\<close>

definition set_event_order :: "Hashgraph \<Rightarrow> EventHash \<Rightarrow> u64 \<Rightarrow> Timestamp \<Rightarrow> Hashgraph" where
  "set_event_order g h round ts =
     g\<lparr> events := modify h (\<lambda>r. r\<lparr> er_round_received := Some round, er_timestamp := Some ts \<rparr>) (events g) \<rparr>"

definition record_witness :: "Hashgraph \<Rightarrow> u64 \<Rightarrow> EventHash \<Rightarrow> Hashgraph" where
  "record_witness g round h = g\<lparr>
     witnesses_by_round := entry_push round h (witnesses_by_round g),
     undecided_witnesses := AList.update h round (undecided_witnesses g),
     highest_witness_round := max (highest_witness_round g) round \<rparr>"

definition record_vote :: "Hashgraph \<Rightarrow> EventHash \<Rightarrow> EventHash \<Rightarrow> bool \<Rightarrow> Hashgraph" where
  "record_vote g voter candidate vote =
     g\<lparr> events := modify voter (\<lambda>r. r\<lparr> er_votes := AList.update candidate vote (er_votes r) \<rparr>) (events g) \<rparr>"

definition set_event_round :: "Hashgraph \<Rightarrow> EventHash \<Rightarrow> u64 \<Rightarrow> bool \<Rightarrow> Hashgraph" where
  "set_event_round g h round is_witness =
     g\<lparr> events := modify h (\<lambda>r. r\<lparr> er_round := round, er_is_witness := is_witness \<rparr>) (events g) \<rparr>"

definition set_fame :: "Hashgraph \<Rightarrow> EventHash \<Rightarrow> FameStatus \<Rightarrow> Hashgraph" where
  "set_fame g h status = g\<lparr>
     events := modify h (\<lambda>r. r\<lparr> er_fame := status \<rparr>) (events g),
     undecided_witnesses := AList.delete h (undecided_witnesses g) \<rparr>"

definition add_member :: "Hashgraph \<Rightarrow> NodeId \<Rightarrow> u64 \<Rightarrow> MembershipRegistry \<Rightarrow> Hashgraph hg_result" where
  "add_member g node activation_round new_registry =
     (if map_of (member_index g) node \<noteq> None then Panic
      else Ok (g\<lparr>
        member_index := AList.update node (member_count g) (member_index g),
        member_count := member_count g + 1,
        known_forkers := known_forkers g @ [False],
        events := map (\<lambda>(h, r). (h, r\<lparr> er_ancestor_seqs := er_ancestor_seqs r @ [0] \<rparr>)) (events g),
        roster_history := schedule (roster_history g) (u64_saturating_add activation_round 1) new_registry \<rparr>))"

subsection \<open>Lemmas\<close>

lemma map_of_or_insert:
  "map_of (or_insert k v m) k' = (if k' = k \<and> map_of m k = None then Some v else map_of m k')"
  by (auto simp: or_insert_def update_conv' split: option.splits)

lemma map_of_entry_push:
  "map_of (entry_push k v m) k' = (if k' = k then Some (case_option [] id (map_of m k) @ [v]) else map_of m k')"
  by (simp add: entry_push_def update_conv')

lemma map_of_modify: "map_of (modify k f m) k' = (if k' = k then map_option f (map_of m k) else map_of m k')"
  by (auto simp: modify_def update_conv' split: option.splits)

lemma keys_update_present: "map_of m k \<noteq> None \<Longrightarrow> map fst (AList.update k v m) = map fst m"
  by (induction m) auto

lemma keys_modify [simp]: "map fst (modify k f m) = map fst m"
  by (auto simp: modify_def keys_update_present split: option.splits)

lemma hm_wf_modify [simp]: "hm_wf (modify k f m) \<longleftrightarrow> hm_wf m"
  by simp

lemma hm_wf_or_insert [simp]: "hm_wf m \<Longrightarrow> hm_wf (or_insert k v m)"
  by (auto simp: or_insert_def split: option.splits)

lemma hm_wf_entry_push [simp]: "hm_wf m \<Longrightarrow> hm_wf (entry_push k v m)"
  by (simp add: entry_push_def)

lemma index_at_Ok_iff [simp]: "index_at xs i = Ok x \<longleftrightarrow> i < length xs \<and> x = xs ! i"
  by (auto simp: index_at_def)

end
