(* ===== verification/Ancestry.thy ===== *)
theory Ancestry
  imports Hashgraph
begin

section \<open>Ancestry: see and strongly see\<close>

text \<open>
  \<^verbatim>\<open>protocol/consensus/src/ancestry.rs\<close>: the ancestor test over the cached sequence numbers,
  its fallback traversals for creators with fork evidence, and the strongly-see count over
  the members' chains. The traversals are breadth first over the declared parents; a parent
  that is not stored (pruned) is a dead end.
\<close>

subsection \<open>Traversals\<close>

definition event_parents :: "Event \<Rightarrow> EventHash list" where
  "event_parents e = List.map_filter id [ev_self_parent e, ev_other_parent e]"

definition parents_of :: "EventRecord \<Rightarrow> EventHash list" where
  "parents_of r = event_parents (er_event r)"

lemma length_parents_of: "length (parents_of r) \<le> 2"
  by (simp add: parents_of_def event_parents_def map_filter_simps split: option.splits)

text \<open>
  The measure of a traversal: every stored event is expanded once and adds at most two
  entries to the queue.
\<close>

definition bfs_measure :: "Hashgraph \<Rightarrow> EventHash list \<Rightarrow> EventHash list \<Rightarrow> nat" where
  "bfs_measure g visited queue = 3 * card (fst ` set (events g) - set visited) + length queue"

lemma bfs_measure_skip: "bfs_measure g visited queue < bfs_measure g visited (h # queue)"
  by (simp add: bfs_measure_def)

lemma bfs_measure_absent: "bfs_measure g (h # visited) queue < bfs_measure g visited (h # queue)"
proof -
  have "card (fst ` set (events g) - set (h # visited)) \<le> card (fst ` set (events g) - set visited)"
    by (rule card_mono) auto
  then show ?thesis by (simp add: bfs_measure_def)
qed

lemma bfs_measure_expand:
  assumes "hg_get g h = Some r" "h \<notin> set visited"
  shows "bfs_measure g (h # visited) (queue @ parents_of r) < bfs_measure g visited (h # queue)"
proof -
  let ?A = "fst ` set (events g) - set visited"
  have "h \<in> ?A" using assms by (force simp: hg_get_def dest: map_of_SomeD)
  moreover have "finite ?A" by simp
  ultimately have "card (?A - {h}) < card ?A" by (metis card_Diff1_less)
  moreover have "fst ` set (events g) - set (h # visited) = ?A - {h}" by auto
  ultimately show ?thesis using length_parents_of [of r] by (simp add: bfs_measure_def)
qed

function ancestor_event_loop ::
    "Hashgraph \<Rightarrow> NodeId \<Rightarrow> u64 \<Rightarrow> EventHash list \<Rightarrow> EventHash list \<Rightarrow> EventHash option" where
  "ancestor_event_loop g creator seq visited [] = None"
| "ancestor_event_loop g creator seq visited (current # queue) =
     (if current \<in> set visited then ancestor_event_loop g creator seq visited queue
      else case hg_get g current of
        None \<Rightarrow> ancestor_event_loop g creator seq (current # visited) queue
      | Some rec \<Rightarrow>
          if ev_creator (er_event rec) = creator \<and> er_seq rec = seq then Some current
          else ancestor_event_loop g creator seq (current # visited) (queue @ parents_of rec))"
  by pat_completeness auto
termination
  by (relation "measure (\<lambda>(g, _, _, visited, queue). bfs_measure g visited queue)")
    (auto simp: bfs_measure_skip bfs_measure_absent bfs_measure_expand)

definition ancestor_event_for_creator :: "Hashgraph \<Rightarrow> EventHash \<Rightarrow> NodeId \<Rightarrow> u64 \<Rightarrow> EventHash option" where
  "ancestor_event_for_creator g x creator seq = ancestor_event_loop g creator seq [] [x]"

function contains_event_loop :: "Hashgraph \<Rightarrow> EventHash \<Rightarrow> EventHash list \<Rightarrow> EventHash list \<Rightarrow> bool" where
  "contains_event_loop g target visited [] = False"
| "contains_event_loop g target visited (current # queue) =
     (if current = target then True
      else if current \<in> set visited then contains_event_loop g target visited queue
      else case hg_get g current of
        None \<Rightarrow> contains_event_loop g target (current # visited) queue
      | Some rec \<Rightarrow> contains_event_loop g target (current # visited) (queue @ parents_of rec))"
  by pat_completeness auto
termination
  by (relation "measure (\<lambda>(g, _, visited, queue). bfs_measure g visited queue)")
    (auto simp: bfs_measure_skip bfs_measure_absent bfs_measure_expand)

definition ancestry_contains_event :: "Hashgraph \<Rightarrow> EventHash \<Rightarrow> EventHash \<Rightarrow> bool" where
  "ancestry_contains_event g x target = contains_event_loop g target [] [x]"

function contains_fork_loop ::
    "Hashgraph \<Rightarrow> NodeId \<Rightarrow> (u64, EventHash) hmap \<Rightarrow> EventHash list \<Rightarrow> EventHash list \<Rightarrow> bool" where
  "contains_fork_loop g creator seen_seqs visited [] = False"
| "contains_fork_loop g creator seen_seqs visited (current # queue) =
     (if current \<in> set visited then contains_fork_loop g creator seen_seqs visited queue
      else case hg_get g current of
        None \<Rightarrow> contains_fork_loop g creator seen_seqs (current # visited) queue
      | Some rec \<Rightarrow>
          if ev_creator (er_event rec) = creator then
            (if map_of seen_seqs (er_seq rec) \<noteq> None \<and> map_of seen_seqs (er_seq rec) \<noteq> Some current then True
             else contains_fork_loop g creator (AList.update (er_seq rec) current seen_seqs)
               (current # visited) (queue @ parents_of rec))
          else contains_fork_loop g creator seen_seqs (current # visited) (queue @ parents_of rec))"
  by pat_completeness auto
termination
  by (relation "measure (\<lambda>(g, _, _, visited, queue). bfs_measure g visited queue)")
    (auto simp: bfs_measure_skip bfs_measure_absent bfs_measure_expand)

definition ancestry_contains_fork_of :: "Hashgraph \<Rightarrow> EventHash \<Rightarrow> NodeId \<Rightarrow> bool" where
  "ancestry_contains_fork_of g x creator = contains_fork_loop g creator [] [] [x]"

subsection \<open>Ancestor and see\<close>

definition is_ancestor :: "Hashgraph \<Rightarrow> EventHash \<Rightarrow> EventHash \<Rightarrow> bool hg_result" where
  "is_ancestor g x y =
     (if x = y then Ok True
      else andThen (ok_or (UnknownEvent x) (hg_get g x)) (\<lambda>x_rec.
      andThen (ok_or (UnknownEvent y) (hg_get g y)) (\<lambda>y_rec.
      andThen (ok_or (UnknownEvent y) (member_index_of g (ev_creator (er_event y_rec)))) (\<lambda>creator_idx.
      andThen (ancestor_seq x_rec creator_idx) (\<lambda>s.
      if s < er_seq y_rec then Ok False
      else andThen (creator_has_known_fork g creator_idx) (\<lambda>fork.
        if \<not> fork then Ok True else Ok (ancestry_contains_event g x y)))))))"

definition see :: "Hashgraph \<Rightarrow> EventHash \<Rightarrow> EventHash \<Rightarrow> bool hg_result" where
  "see g x y =
     andThen (is_ancestor g x y) (\<lambda>a.
     if \<not> a then Ok False
     else andThen (ok_or (UnknownEvent y) (hg_get g y)) (\<lambda>y_rec.
     andThen (ok_or (UnknownEvent y) (member_index_of g (ev_creator (er_event y_rec)))) (\<lambda>creator_idx.
     andThen (creator_has_known_fork g creator_idx) (\<lambda>fork.
     if \<not> fork then Ok True
     else Ok (\<not> ancestry_contains_fork_of g x (ev_creator (er_event y_rec)))))))"

subsection \<open>Strongly see\<close>

text \<open>
  The walk along a member's self-parents. It ends because sequence numbers fall along the
  chain, which is an invariant of the graph and not visible here, so the walk has fuel:
  one step per stored event. \<open>Panic\<close> on empty fuel stands for not returning.
\<close>

primrec member_chain_walk :: "Hashgraph \<Rightarrow> EventHash \<Rightarrow> nat \<Rightarrow> EventHash \<Rightarrow> bool hg_result" where
  "member_chain_walk g y 0 h = Panic"
| "member_chain_walk g y (Suc fuel) h =
     andThen (see g h y) (\<lambda>sees.
     if sees then Ok True
     else case Option.bind (hg_get g h) (\<lambda>r. ev_self_parent (er_event r)) of
       None \<Rightarrow> Ok False
     | Some parent \<Rightarrow> if hg_get g parent = None then Ok False else member_chain_walk g y fuel parent)"

definition member_chain_reaches ::
    "Hashgraph \<Rightarrow> EventHash \<Rightarrow> NodeId \<Rightarrow> nat \<Rightarrow> u64 \<Rightarrow> EventHash \<Rightarrow> bool hg_result" where
  "member_chain_reaches g x creator member_idx up_to_seq y =
     andThen (creator_has_known_fork g member_idx) (\<lambda>fork.
     let current = (if fork then ancestor_event_for_creator g x creator up_to_seq
                    else event_for_creator_seq g creator up_to_seq)
     in case current of
       None \<Rightarrow> Ok False
     | Some h \<Rightarrow> member_chain_walk g y (length (events g)) h)"

primrec count_chains ::
    "Hashgraph \<Rightarrow> EventHash \<Rightarrow> EventHash \<Rightarrow> EventRecord \<Rightarrow> (NodeId \<times> nat) list \<Rightarrow> nat hg_result" where
  "count_chains g x y x_rec [] = Ok 0"
| "count_chains g x y x_rec (m # ms) =
     andThen (ancestor_seq x_rec (snd m)) (\<lambda>latest_seq.
     andThen (if latest_seq = 0 then Ok False
       else member_chain_reaches g x (fst m) (snd m) latest_seq y) (\<lambda>b.
     map_ok (\<lambda>n. if b then Suc n else n) (count_chains g x y x_rec ms)))"

definition strongly_see_at :: "Hashgraph \<Rightarrow> EventHash \<Rightarrow> EventHash \<Rightarrow> u64 \<Rightarrow> bool hg_result" where
  "strongly_see_at g x y roster_round =
     andThen (see g x y) (\<lambda>sees.
     if \<not> sees then Ok False
     else andThen (ok_or (UnknownEvent x) (hg_get g x)) (\<lambda>x_rec.
     andThen (count_chains g x y x_rec (member_index g)) (\<lambda>count.
     map_ok (\<lambda>n. n * 2 < count * 3) (member_count_at_round g roster_round))))"

definition strongly_see :: "Hashgraph \<Rightarrow> EventHash \<Rightarrow> EventHash \<Rightarrow> bool hg_result" where
  "strongly_see g x y = strongly_see_at g x y (case hg_get g y of None \<Rightarrow> 1 | Some r \<Rightarrow> er_round r)"

end
