(* ===== verification/Order.thy ===== *)
theory Order
  imports Ancestry "HOL-Library.Option_ord" "HOL-Library.Product_Lexorder"
begin

section \<open>Order finalization\<close>

text \<open>
  \<^verbatim>\<open>protocol/consensus/src/order.rs\<close> with the part of \<^verbatim>\<open>hashgraph.rs\<close> that drives it: the
  canonical famous witnesses of a round, the first-seen timestamps and their median, the
  assignment of an order to the pending events, the view-completeness gate, and the
  consensus order of a finalized round.
\<close>

unbundle bit_operations_syntax

subsection \<open>Tie break and median\<close>

definition u64_le :: "bytes \<Rightarrow> u64" where
  "u64_le bs = be_u64 (rev bs)"

fun chunks8 :: "bytes \<Rightarrow> bytes list" where
  "chunks8 (b0 # b1 # b2 # b3 # b4 # b5 # b6 # b7 # rest) = [b0, b1, b2, b3, b4, b5, b6, b7] # chunks8 rest"
| "chunks8 _ = []"

definition signature_tie_break :: "Signature \<Rightarrow> u64" where
  "signature_tie_break s = fold (\<lambda>chunk acc. acc XOR u64_le chunk) (chunks8 (sig_bytes s)) 0"

text \<open>\<open>Panic\<close> is the assertion that the list is not empty. The sum is taken in 128 bits.\<close>

definition median_timestamp :: "u64 list \<Rightarrow> Timestamp hg_result" where
  "median_timestamp first_seen =
     (let xs = sort first_seen; len = length xs
      in if len = 0 then Panic
         else if len mod 2 = 1 then Ok (Timestamp (xs ! (len div 2)))
         else let mid = len div 2
              in Ok (Timestamp (word_of_nat ((unat (xs ! (mid - 1)) + unat (xs ! mid)) div 2))))"

subsection \<open>Famous witnesses and first-seen timestamps\<close>

definition is_canonical_famous :: "Hashgraph \<Rightarrow> EventHash \<Rightarrow> bool" where
  "is_canonical_famous g w \<longleftrightarrow> fame_of g w = Some Famous \<and>
     (case hg_get g w of
        None \<Rightarrow> False
      | Some r \<Rightarrow> canonical_child g (ev_creator (er_event r)) (ev_self_parent (er_event r)) = Some w)"

definition famous_witnesses_of_round :: "Hashgraph \<Rightarrow> u64 \<Rightarrow> EventHash list" where
  "famous_witnesses_of_round g round = filter (is_canonical_famous g) (witnesses_of_round g round)"

text \<open>\<^verbatim>\<open>unwrap_or(false)\<close> on a fallible test.\<close>

primrec unwrap_or_false :: "bool hg_result \<Rightarrow> bool hg_result" where
  "unwrap_or_false (Ok b) = Ok b"
| "unwrap_or_false (Err e) = Ok False"
| "unwrap_or_false Panic = Panic"

definition creator_chain_event :: "Hashgraph \<Rightarrow> EventHash \<Rightarrow> NodeId \<Rightarrow> nat \<Rightarrow> u64 \<Rightarrow> EventHash option hg_result" where
  "creator_chain_event g witness creator i seq =
     map_ok (\<lambda>fork. if fork then ancestor_event_for_creator g witness creator seq
                    else event_for_creator_seq g creator seq)
       (creator_has_known_fork g i)"

definition chain_sees :: "Hashgraph \<Rightarrow> EventHash \<Rightarrow> NodeId \<times> nat \<Rightarrow> EventHash \<Rightarrow> u64 \<Rightarrow> bool hg_result" where
  "chain_sees g witness m target seq =
     andThen (creator_chain_event g witness (fst m) (snd m) seq) (\<lambda>e.
     case e of None \<Rightarrow> Ok False | Some event \<Rightarrow> unwrap_or_false (see g event target))"

lemma search_mid:
  fixes low high :: u64
  assumes "low < high"
  shows "unat (low + (high - low) div 2) = unat low + (unat high - unat low) div 2"
proof -
  have lt: "unat low < unat high" using assms by (simp add: word_less_nat_alt)
  have h: "unat ((high - low) div 2) = (unat high - unat low) div 2"
    using lt by (simp add: unat_div_distrib unat_sub_if_size)
  have "unat high < 2 ^ 64" using unsigned_less [of high] by simp
  with lt h show ?thesis by (simp add: unat_word_ariths)
qed

text \<open>The binary search for the first event of a chain that sees the target.\<close>

function first_seen_search ::
    "Hashgraph \<Rightarrow> EventHash \<Rightarrow> NodeId \<times> nat \<Rightarrow> EventHash \<Rightarrow> u64 \<Rightarrow> u64 \<Rightarrow> u64 hg_result" where
  "first_seen_search g witness m target low high =
     (if low < high then
        let mid = low + (high - low) div 2
        in andThen (chain_sees g witness m target mid) (\<lambda>b.
           if b then first_seen_search g witness m target low mid
           else first_seen_search g witness m target (mid + 1) high)
      else Ok low)"
  by pat_completeness auto
termination
proof (relation "measure (\<lambda>(_, _, _, _, low, high). unat high - unat low)", goal_cases)
  case (2 g witness m target low high mid b)
  then have "unat mid = unat low + (unat high - unat low) div 2" "unat low < unat high"
    by (simp_all add: search_mid word_less_nat_alt)
  then show ?case by simp
next
  case (3 g witness m target low high mid b)
  then have mid: "unat mid = unat low + (unat high - unat low) div 2" and lt: "unat low < unat high"
    by (simp_all add: search_mid word_less_nat_alt)
  have "unat high < 2 ^ 64" using unsigned_less [of high] by simp
  with mid lt have "unat (mid + 1) = unat mid + 1" by (simp add: unat_word_ariths)
  with mid lt show ?case by simp
qed simp

declare first_seen_search.simps [simp del]

text \<open>
  The scan over the members. The accumulator is \<open>None\<close> after the early return on a
  missing boundary event, otherwise the best candidate so far.
\<close>

primrec first_seen_scan ::
    "Hashgraph \<Rightarrow> EventHash \<Rightarrow> EventRecord \<Rightarrow> EventHash \<Rightarrow> (NodeId \<times> nat) list \<Rightarrow> (u64 \<times> EventHash) option \<Rightarrow>
     (u64 \<times> EventHash) option option hg_result" where
  "first_seen_scan g witness wr target [] earliest = Ok (Some earliest)"
| "first_seen_scan g witness wr target (m # ms) earliest =
     andThen (ancestor_seq wr (snd m)) (\<lambda>up_to.
     if up_to = 0 then first_seen_scan g witness wr target ms earliest
     else andThen (chain_sees g witness m target up_to) (\<lambda>b.
     if \<not> b then first_seen_scan g witness wr target ms earliest
     else andThen (first_seen_search g witness m target 1 up_to) (\<lambda>low.
     andThen (creator_chain_event g witness (fst m) (snd m) low) (\<lambda>e.
     case e of
       None \<Rightarrow> Ok None
     | Some event \<Rightarrow>
         let replace = (case earliest of
               None \<Rightarrow> True
             | Some (best_seq, best_event) \<Rightarrow> low < best_seq \<or> (low = best_seq \<and> event < best_event))
         in first_seen_scan g witness wr target ms (if replace then Some (low, event) else earliest)))))"

definition first_seen_timestamp :: "Hashgraph \<Rightarrow> EventHash \<Rightarrow> EventHash \<Rightarrow> u64 option hg_result" where
  "first_seen_timestamp g witness target = (case hg_get g witness of
     None \<Rightarrow> Ok None
   | Some wr \<Rightarrow> map_ok (\<lambda>out. do {
         earliest \<leftarrow> out;
         (_, event) \<leftarrow> earliest;
         r \<leftarrow> hg_get g event;
         Some (ts_get (ev_timestamp (er_event r))) })
       (first_seen_scan g witness wr target (member_index g) None))"

subsection \<open>Assigning the order\<close>

primrec all_see :: "Hashgraph \<Rightarrow> EventHash list \<Rightarrow> EventHash \<Rightarrow> bool hg_result" where
  "all_see g [] event = Ok True"
| "all_see g (w # ws) event =
     andThen (unwrap_or_false (see g w event)) (\<lambda>b. if b then all_see g ws event else Ok False)"

primrec collect_first_seen :: "Hashgraph \<Rightarrow> EventHash list \<Rightarrow> EventHash \<Rightarrow> u64 list hg_result" where
  "collect_first_seen g [] event = Ok []"
| "collect_first_seen g (w # ws) event =
     andThen (first_seen_timestamp g w event) (\<lambda>ts.
     map_ok (\<lambda>rest. (case ts of None \<Rightarrow> rest | Some t \<Rightarrow> t # rest)) (collect_first_seen g ws event))"

primrec assign_events :: "u64 \<Rightarrow> EventHash list \<Rightarrow> EventHash list \<Rightarrow> Hashgraph \<Rightarrow> Hashgraph hg_result" where
  "assign_events round famous [] g = Ok g"
| "assign_events round famous (event # pending) g =
     andThen (all_see g famous event) (\<lambda>b.
     if \<not> b then assign_events round famous pending g
     else andThen (collect_first_seen g famous event) (\<lambda>first_seen.
     andThen (median_timestamp first_seen) (\<lambda>ts.
     assign_events round famous pending (set_event_order g event round ts))))"

definition assign_order :: "Hashgraph \<Rightarrow> u64 \<Rightarrow> Hashgraph hg_result" where
  "assign_order g round =
     (let famous = famous_witnesses_of_round g round
      in if famous = [] then Ok g else assign_events round famous (pending_order_events g) g)"

subsection \<open>Deciding rounds\<close>

definition round_view_complete :: "Hashgraph \<Rightarrow> u64 \<Rightarrow> bool hg_result" where
  "round_view_complete g round =
     map_ok (\<lambda>reg. list_all (\<lambda>member.
         case Option.bind (map_of (latest_by_creator g) member) (hg_get g) of
           None \<Rightarrow> False | Some r \<Rightarrow> round < er_round r) (member_ids reg))
       (registry_at_round g round)"

lemma assign_events_next: "assign_events round famous ps g = Ok g' \<Longrightarrow> next_round_to_order g' = next_round_to_order g"
  by (induction ps arbitrary: g) (auto simp: set_event_order_def split: if_splits)

lemma assign_order_next: "assign_order g round = Ok g' \<Longrightarrow> next_round_to_order g' = next_round_to_order g"
  by (auto simp: assign_order_def Let_def assign_events_next split: if_splits)

text \<open>\<open>Panic\<close> is the overflow of \<^verbatim>\<open>next_round_to_order += 1\<close>.\<close>

function order_decided_rounds :: "Hashgraph \<Rightarrow> Hashgraph hg_result" where
  "order_decided_rounds g =
     (if next_round_to_order g \<in> fully_decided_rounds g then
        (case u64_checked_add (next_round_to_order g) 1 of
           None \<Rightarrow> Panic
         | Some n \<Rightarrow> (case assign_order (g\<lparr> next_round_to_order := n \<rparr>) (next_round_to_order g) of
               Ok g' \<Rightarrow> order_decided_rounds g'
             | Err e \<Rightarrow> Err e
             | Panic \<Rightarrow> Panic))
      else Ok g)"
  by pat_completeness auto
termination
proof (relation "measure (\<lambda>g. 2 ^ 64 - unat (next_round_to_order g))", goal_cases)
  case (2 g n g')
  then have "unat n = unat (next_round_to_order g) + 1" by (simp add: unat_u64_checked_add)
  moreover have "next_round_to_order g' = n" using 2 assign_order_next by fastforce
  moreover have "unat n < 2 ^ 64" using unsigned_less [of n] by simp
  ultimately show ?case by simp
qed simp

declare order_decided_rounds.simps [simp del]

definition note_round_decided_if_complete :: "Hashgraph \<Rightarrow> u64 \<Rightarrow> Hashgraph hg_result" where
  "note_round_decided_if_complete g round =
     (if round = 0 then Ok g
      else if round \<in> snd ` set (undecided_witnesses g) then Ok g
      else andThen (round_view_complete g round) (\<lambda>complete.
        if \<not> complete then Ok g
        else order_decided_rounds (g\<lparr> fully_decided_rounds := insert round (fully_decided_rounds g) \<rparr>)))"

definition decide_fame :: "Hashgraph \<Rightarrow> EventHash \<Rightarrow> FameStatus \<Rightarrow> Hashgraph hg_result" where
  "decide_fame g candidate status =
     (let g = set_fame g candidate status
      in note_round_decided_if_complete g (case hg_get g candidate of None \<Rightarrow> 0 | Some r \<Rightarrow> er_round r))"

text \<open>Rounds marked as decided by a reconnect: the range \<^verbatim>\<open>next_round_to_order..=round\<close>.\<close>

definition mark_decided_through :: "Hashgraph \<Rightarrow> u64 \<Rightarrow> Hashgraph hg_result" where
  "mark_decided_through g round =
     (let rounds = map (\<lambda>(_, r). er_round r) (events g)
      in if rounds \<noteq> [] \<and> fold max rounds 0 < round then Err (DecidedRoundBeyondRetained round (fold max rounds 0))
         else order_decided_rounds
           (g\<lparr> fully_decided_rounds := fully_decided_rounds g \<union> {next_round_to_order g..round} \<rparr>))"

subsection \<open>The consensus order\<close>

definition round_received :: "Hashgraph \<Rightarrow> EventHash \<Rightarrow> u64 option" where
  "round_received g h = Option.bind (hg_get g h) er_round_received"

definition consensus_timestamp :: "Hashgraph \<Rightarrow> EventHash \<Rightarrow> Timestamp option" where
  "consensus_timestamp g h = Option.bind (hg_get g h) er_timestamp"

text \<open>
  The comparison of \<^verbatim>\<open>sort_by\<close> is lexicographic on the optional timestamp, the tie break
  and the hash, so it is a sort by this key.
\<close>

definition order_key :: "Hashgraph \<Rightarrow> EventHash \<Rightarrow> Timestamp option \<times> u64 \<times> EventHash" where
  "order_key g h = (case hg_get g h of
     None \<Rightarrow> (None, 0, h)
   | Some r \<Rightarrow> (er_timestamp r, signature_tie_break (ev_signature (er_event r)), h))"

definition consensus_order :: "Hashgraph \<Rightarrow> u64 \<Rightarrow> EventHash list" where
  "consensus_order g round =
     sort_key (order_key g) (filter (\<lambda>h. round_received g h = Some round) (all_event_hashes g))"

end
