(* ===== verification/Fame.thy ===== *)
theory Fame
  imports Order
begin

section \<open>Virtual voting\<close>

text \<open>
  \<^verbatim>\<open>protocol/consensus/src/fame.rs\<close>: the memoized vote of a witness on a candidate, the
  eager decision from a complete tally of the next round, and the voting step of a newly
  inserted witness.
\<close>

unbundle bit_operations_syntax

definition COIN_ROUND_FREQUENCY :: u64 where
  "COIN_ROUND_FREQUENCY = 12"

datatype VoteOutcome = Cast bool | Decided FameStatus

text \<open>\<open>Panic\<close> when the voter is absent or its signature is shorter than 33 bytes.\<close>

definition coin_round_vote :: "Hashgraph \<Rightarrow> EventHash \<Rightarrow> bool hg_result" where
  "coin_round_vote g voter =
     andThen (ok_or_panic (hg_get g voter)) (\<lambda>r.
     map_ok (\<lambda>b. b AND 0x01 = 0x01) (index_at (sig_bytes (ev_signature (er_event r))) 32))"

subsection \<open>The vote of a witness\<close>

definition vote_yes :: "bool list \<Rightarrow> nat" where
  "vote_yes vs = length (filter id vs)"

definition vote_no :: "bool list \<Rightarrow> nat" where
  "vote_no vs = length (filter Not vs)"

text \<open>
  What a witness does with the votes it collected, once every prerequisite has voted:
  decide on a supermajority, toss the coin in a coin round, otherwise follow the majority.
\<close>

definition conclude_vote :: "Hashgraph \<Rightarrow> EventHash \<Rightarrow> EventHash \<Rightarrow> u64 \<Rightarrow> u64 \<Rightarrow> bool list \<Rightarrow> (Hashgraph \<times> VoteOutcome) hg_result" where
  "conclude_vote g y w y_round w_round votes =
     (let yes = vote_yes votes; no = vote_no votes; v = (no \<le> yes); stake = (if v then yes else no);
          is_coin_round = ((y_round - w_round) mod COIN_ROUND_FREQUENCY = 0)
      in andThen (member_count_at_round g y_round) (\<lambda>n.
         let has_supermajority = (n * 2 < stake * 3)
         in if is_coin_round \<and> \<not> has_supermajority then
              map_ok (\<lambda>vote. (record_vote g y w vote, Cast vote)) (coin_round_vote g y)
            else if has_supermajority then
              (let status = (if v then Famous else NotFamous)
               in map_ok (\<lambda>g. (g, Decided status)) (decide_fame g w status))
            else Ok (record_vote g y w v, Cast v)))"

definition strongly_seen_below :: "Hashgraph \<Rightarrow> EventHash \<Rightarrow> u64 \<Rightarrow> EventHash list hg_result" where
  "strongly_seen_below g y below =
     foldr (\<lambda>s acc. andThen (unwrap_or_false (strongly_see g y s)) (\<lambda>b.
       map_ok (\<lambda>rest. if b then s # rest else rest) acc)) (witnesses_of_round g below) (Ok [])"

text \<open>
  The recursion descends one round at a time, so the round of the voter is enough fuel;
  \<open>Panic\<close> on empty fuel stands for not returning. The second function is the loop over
  the strongly seen witnesses: \<open>Inl\<close> is the early return of a decision.
\<close>

fun vote_of_fuel :: "nat \<Rightarrow> Hashgraph \<Rightarrow> EventHash \<Rightarrow> EventHash \<Rightarrow> (Hashgraph \<times> VoteOutcome) hg_result"
and collect_votes :: "nat \<Rightarrow> Hashgraph \<Rightarrow> EventHash list \<Rightarrow> EventHash \<Rightarrow> bool list \<Rightarrow> (Hashgraph \<times> (FameStatus + bool list)) hg_result"
where
  "vote_of_fuel 0 g y w = Panic"
| "vote_of_fuel (Suc fuel) g y w =
     andThen (ok_or (UnknownEvent y) (hg_get g y)) (\<lambda>y_rec.
     andThen (ok_or (UnknownEvent w) (hg_get g w)) (\<lambda>w_rec.
     let y_round = er_round y_rec; w_round = er_round w_rec;
         w_fame = (case fame_of g w of None \<Rightarrow> Undecided | Some s \<Rightarrow> s)
     in if w_fame \<noteq> Undecided then Ok (g, Decided w_fame)
        else case vote_for y_rec w of
          Some vote \<Rightarrow> Ok (g, Cast vote)
        | None \<Rightarrow>
            andThen (ok_or_panic (u64_checked_add w_round 1)) (\<lambda>next.
            if y_round = next then map_ok (\<lambda>vote. (record_vote g y w vote, Cast vote)) (see g y w)
            else if y_round \<le> next then Panic
            else andThen (strongly_seen_below g y (y_round - 1)) (\<lambda>seen.
            andThen (collect_votes fuel g seen w []) (\<lambda>(g, out).
            case out of
              Inl status \<Rightarrow> Ok (g, Decided status)
            | Inr votes \<Rightarrow> conclude_vote g y w y_round w_round votes)))))"
| "collect_votes fuel g [] w acc = Ok (g, Inr acc)"
| "collect_votes fuel g (s # ss) w acc =
     andThen (vote_of_fuel fuel g s w) (\<lambda>(g, out).
     case out of
       Decided status \<Rightarrow> Ok (g, Inl status)
     | Cast vote \<Rightarrow> collect_votes fuel g ss w (acc @ [vote]))"

definition vote_of :: "Hashgraph \<Rightarrow> EventHash \<Rightarrow> EventHash \<Rightarrow> (Hashgraph \<times> VoteOutcome) hg_result" where
  "vote_of g y w = vote_of_fuel (Suc (case hg_get g y of None \<Rightarrow> 0 | Some r \<Rightarrow> unat (er_round r))) g y w"

subsection \<open>The eager decision\<close>

definition is_decided :: "Hashgraph \<Rightarrow> EventHash \<Rightarrow> bool" where
  "is_decided g y \<longleftrightarrow> (case fame_of g y of None \<Rightarrow> False | Some s \<Rightarrow> s \<noteq> Undecided)"

text \<open>The callers drop the returned status, so the model returns the graph only.\<close>

definition eager_tally :: "Hashgraph \<Rightarrow> EventHash list \<Rightarrow> EventHash \<Rightarrow> bool list" where
  "eager_tally g voters w = List.map_filter (\<lambda>v. Option.bind (hg_get g v) (\<lambda>r. vote_for r w)) voters"

definition try_eager_decide :: "Hashgraph \<Rightarrow> EventHash \<Rightarrow> Hashgraph hg_result" where
  "try_eager_decide g w =
     (if is_decided g w then Ok g
      else case hg_get g w of None \<Rightarrow> Ok g | Some w_rec \<Rightarrow>
        andThen (ok_or_panic (u64_checked_add (er_round w_rec) 2)) (\<lambda>agg.
        if highest_witness_round g < agg then Ok g
        else let voters = witnesses_of_round g (er_round w_rec + 1)
        in if voters = [] then Ok g
        else andThen (member_count_at_round g (er_round w_rec + 1)) (\<lambda>count_next.
        andThen (member_count_at_round g agg) (\<lambda>count_agg.
        if count_next \<noteq> count_agg then Ok g
        else if length voters * 3 \<le> count_agg * 2 then Ok g
        else let votes = eager_tally g voters w
        in if length votes * 3 \<le> count_agg * 2 then Ok g
        else if length votes \<noteq> length voters then Ok g
        else if count_agg * 2 < vote_yes votes * 3 then decide_fame g w Famous
        else if count_agg * 2 < vote_no votes * 3 then decide_fame g w NotFamous
        else Ok g))))"

subsection \<open>The voting step\<close>

primrec vote_on_candidates :: "Hashgraph \<Rightarrow> EventHash \<Rightarrow> EventHash list \<Rightarrow> Hashgraph hg_result" where
  "vote_on_candidates g y [] = Ok g"
| "vote_on_candidates g y (c # cs) =
     andThen (vote_of g y c) (\<lambda>(g, _).
     andThen (try_eager_decide g c) (\<lambda>g.
     vote_on_candidates g y cs))"

primrec backfill_round :: "Hashgraph \<Rightarrow> EventHash list \<Rightarrow> EventHash \<Rightarrow> Hashgraph hg_result" where
  "backfill_round g [] y = Ok g"
| "backfill_round g (v # vs) y = andThen (vote_of g v y) (\<lambda>(g, _). backfill_round g vs y)"

text \<open>The loop over the rounds above the witness, from \<open>round\<close> up to \<open>highest\<close>.\<close>

function backfill_loop :: "Hashgraph \<Rightarrow> EventHash \<Rightarrow> u64 \<Rightarrow> u64 \<Rightarrow> Hashgraph hg_result" where
  "backfill_loop g y round highest =
     (if highest < round then Ok g
      else if is_decided g y then Ok g
      else andThen (backfill_round g (witnesses_of_round g round) y) (\<lambda>g.
        andThen (if fame_of g y = Some Undecided then try_eager_decide g y else Ok g) (\<lambda>g'.
        if fame_of g y = Some Undecided \<and> is_decided g' y then Ok g'
        else if round = highest then Ok g'
        else backfill_loop g' y (round + 1) highest)))"
  by pat_completeness auto
termination
proof (relation "measure (\<lambda>(_, _, round, highest). unat highest - unat round)", goal_cases)
  case (2 g y round highest g1 g2)
  then have "round < highest" by (metis less_le not_less)
  then have lt: "unat round < unat highest" by (simp add: word_less_nat_alt)
  have "unat highest < 2 ^ 64" using unsigned_less [of highest] by simp
  with lt have "unat (round + 1) = unat round + 1" by (simp add: unat_word_ariths)
  with lt show ?case by simp
qed simp

declare backfill_loop.simps [simp del]

definition vote_as_witness :: "Hashgraph \<Rightarrow> EventHash \<Rightarrow> Hashgraph hg_result" where
  "vote_as_witness g y =
     andThen (ok_or_panic (hg_get g y)) (\<lambda>y_rec.
     let y_round = er_round y_rec;
         candidates = map fst (filter (\<lambda>(_, round). round < y_round) (undecided_witnesses g))
     in andThen (vote_on_candidates g y candidates) (\<lambda>g.
        andThen (ok_or_panic (u64_checked_add y_round 1)) (\<lambda>above.
        andThen (backfill_loop g y above (highest_witness_round g)) (\<lambda>g.
        if fame_of g y = Some Undecided then try_eager_decide g y else Ok g))))"

end
