(* ===== verification/Insert.thy ===== *)
theory Insert
  imports Fame
begin

section \<open>Inserting, accepting and pruning events\<close>

text \<open>
  \<^verbatim>\<open>round.rs\<close> and the state-changing operations of \<^verbatim>\<open>hashgraph.rs\<close>: the insertion of a
  verified event with the round, fame and order machinery behind it, the acceptance of a
  retained event of a reconnect, and pruning. An \<open>Err\<close> carries no graph. The checks of
  both insertions come before the first write; an error of the round or fame computation
  comes after it and would leave the partly updated graph behind.
\<close>

subsection \<open>Rounds\<close>

definition base_round :: "u64 option \<Rightarrow> u64 option \<Rightarrow> u64" where
  "base_round a b = (case (a, b) of
     (None, None) \<Rightarrow> 1
   | (Some x, None) \<Rightarrow> x
   | (None, Some y) \<Rightarrow> y
   | (Some x, Some y) \<Rightarrow> max x y)"

primrec count_strongly_seen :: "Hashgraph \<Rightarrow> EventHash \<Rightarrow> u64 \<Rightarrow> EventHash list \<Rightarrow> nat hg_result" where
  "count_strongly_seen g h round [] = Ok 0"
| "count_strongly_seen g h round (w # ws) =
     andThen (strongly_see_at g h w round) (\<lambda>b.
     map_ok (\<lambda>n. if b then Suc n else n) (count_strongly_seen g h round ws))"

definition finalize_round :: "Hashgraph \<Rightarrow> EventHash \<Rightarrow> u64 \<Rightarrow> u64 option \<Rightarrow> Hashgraph hg_result" where
  "finalize_round g h base self_parent_round =
     andThen (count_strongly_seen g h base (witnesses_of_round g base)) (\<lambda>count.
     andThen (member_count_at_round g base) (\<lambda>n.
     andThen (if n * 2 < count * 3 then ok_or_panic (u64_checked_add base 1) else Ok base) (\<lambda>final_round.
     let is_witness = (case self_parent_round of None \<Rightarrow> True | Some spr \<Rightarrow> spr < final_round);
         g = set_event_round g h final_round is_witness
     in Ok (if is_witness then record_witness g final_round h else g))))"

subsection \<open>Rows and indexes\<close>

text \<open>
  \<^verbatim>\<open>copy_from_slice\<close> panics on different lengths, an indexed write out of range; the
  elementwise maximum stops at the shorter row, as \<^verbatim>\<open>zip\<close> does.
\<close>

definition copy_from_slice :: "nat \<Rightarrow> 'a list \<Rightarrow> ('a list, 'e) result" where
  "copy_from_slice n row = (if length row = n then Ok row else Panic)"

definition write_at :: "'a list \<Rightarrow> nat \<Rightarrow> 'a \<Rightarrow> ('a list, 'e) result" where
  "write_at xs i v = (if i < length xs then Ok (xs[i := v]) else Panic)"

fun row_max :: "u64 list \<Rightarrow> u64 list \<Rightarrow> u64 list" where
  "row_max (x # xs) (y # ys) = max x y # row_max xs ys"
| "row_max xs _ = xs"

definition parents_row :: "nat \<Rightarrow> EventRecord option \<Rightarrow> EventRecord option \<Rightarrow> u64 list hg_result" where
  "parents_row n sp op =
     map_ok (\<lambda>row. case op of None \<Rightarrow> row | Some r \<Rightarrow> row_max row (er_ancestor_seqs r))
       (case sp of None \<Rightarrow> Ok (replicate n 0) | Some r \<Rightarrow> copy_from_slice n (er_ancestor_seqs r))"

definition note_branch :: "Hashgraph \<Rightarrow> NodeId \<times> EventHash option \<Rightarrow> nat \<Rightarrow> EventHash \<Rightarrow> Hashgraph hg_result" where
  "note_branch g branch_key creator_idx h = (case map_of (first_child g) branch_key of
     Some existing \<Rightarrow>
       if existing \<noteq> h then map_ok (\<lambda>ks. g\<lparr> known_forkers := ks \<rparr>) (write_at (known_forkers g) creator_idx True)
       else Ok g
   | None \<Rightarrow> Ok (g\<lparr> first_child := or_insert branch_key h (first_child g) \<rparr>))"

definition note_seq :: "Hashgraph \<Rightarrow> NodeId \<Rightarrow> u64 \<Rightarrow> EventHash \<Rightarrow> Hashgraph" where
  "note_seq g creator seq h = g\<lparr> by_creator_seq := or_insert (creator, seq) h (by_creator_seq g) \<rparr>"

definition note_latest :: "Hashgraph \<Rightarrow> NodeId \<Rightarrow> u64 \<Rightarrow> EventHash \<Rightarrow> Hashgraph" where
  "note_latest g creator seq h = (case map_of (latest_by_creator g) creator of
     Some latest \<Rightarrow>
       if (case hg_get g latest of None \<Rightarrow> 0 | Some r \<Rightarrow> er_seq r) < seq
       then g\<lparr> latest_by_creator := AList.update creator h (latest_by_creator g) \<rparr> else g
   | None \<Rightarrow> g\<lparr> latest_by_creator := AList.update creator h (latest_by_creator g) \<rparr>)"

definition link_children :: "EventHash list \<Rightarrow> EventHash \<Rightarrow> Hashgraph \<Rightarrow> Hashgraph" where
  "link_children parents h g = g\<lparr> children := fold (\<lambda>p. entry_push p h) parents (children g) \<rparr>"

definition store_event :: "Hashgraph \<Rightarrow> EventHash \<Rightarrow> EventRecord \<Rightarrow> Hashgraph" where
  "store_event g h r = g\<lparr> events := AList.update h r (events g) \<rparr>"

subsection \<open>Insertion\<close>

definition find_parent :: "Hashgraph \<Rightarrow> EventHash option \<Rightarrow> EventRecord option hg_result" where
  "find_parent g p = (case p of
     None \<Rightarrow> Ok None
   | Some h \<Rightarrow> map_ok Some (ok_or (MissingParent h) (hg_get g h)))"

definition fresh_record :: "Event \<Rightarrow> u64 \<Rightarrow> u64 list \<Rightarrow> u64 \<Rightarrow> EventRecord" where
  "fresh_record event seq row round = \<lparr> er_event = event, er_seq = seq, er_ancestor_seqs = row,
     er_round = round, er_is_witness = False, er_votes = [], er_fame = Undecided,
     er_round_received = None, er_timestamp = None \<rparr>"

text \<open>The indexes and the provisional record: everything before \<^verbatim>\<open>finalize_round\<close>.\<close>

definition place_event ::
    "Hashgraph \<Rightarrow> Event \<Rightarrow> EventHash \<Rightarrow> nat \<Rightarrow> EventRecord option \<Rightarrow> EventRecord option \<Rightarrow> Hashgraph hg_result" where
  "place_event g event h creator_idx sp op =
     andThen (case sp of None \<Rightarrow> Ok 1 | Some r \<Rightarrow> ok_or_panic (u64_checked_add (er_seq r) 1)) (\<lambda>seq.
     andThen (parents_row (member_count g) sp op) (\<lambda>row.
     andThen (write_at row creator_idx seq) (\<lambda>row.
     andThen (note_branch g (ev_creator event, ev_self_parent event) creator_idx h) (\<lambda>g.
     Ok (store_event
       (link_children (event_parents event) h (note_latest (note_seq g (ev_creator event) seq h) (ev_creator event) seq h))
       h (fresh_record event seq row (base_round (map_option er_round sp) (map_option er_round op))))))))"

definition hg_insert :: "hash_fn \<Rightarrow> Hashgraph \<Rightarrow> VerifiedEvent \<Rightarrow> (Hashgraph \<times> EventHash) hg_result" where
  "hg_insert sha g verified =
     (let event = into_inner verified
      in andThen (map_err EncodingFailed (hash_Event sha event)) (\<lambda>h.
      if hg_get g h \<noteq> None then Err (AlreadyPresent h)
      else andThen (ok_or UnknownCreator (map_of (member_index g) (ev_creator event))) (\<lambda>creator_idx.
      andThen (find_parent g (ev_self_parent event)) (\<lambda>sp.
      andThen (find_parent g (ev_other_parent event)) (\<lambda>op.
      if (case sp of None \<Rightarrow> False | Some r \<Rightarrow> ev_creator (er_event r) \<noteq> ev_creator event) then Err InvalidSelfParent
      else andThen (place_event g event h creator_idx sp op) (\<lambda>g.
      andThen (finalize_round g h (base_round (map_option er_round sp) (map_option er_round op)) (map_option er_round sp)) (\<lambda>g.
      andThen (if (case hg_get g h of None \<Rightarrow> False | Some r \<Rightarrow> er_is_witness r) then vote_as_witness g h else Ok g) (\<lambda>g.
      map_ok (\<lambda>g. (g, h)) (note_round_decided_if_complete g (next_round_to_order g))))))))))"

subsection \<open>Accepting retained events\<close>

record RetainedEvent =
  re_event :: Event
  re_seq :: u64
  re_round :: u64
  re_ancestor_seqs :: "u64 list"
  re_round_received :: "u64 option"
  re_timestamp :: "Timestamp option"

definition resize_row :: "nat \<Rightarrow> u64 list \<Rightarrow> u64 list" where
  "resize_row n row = take n row @ replicate (n - length row) 0"

definition check_retained_seq :: "EventRecord option \<Rightarrow> Event \<Rightarrow> u64 \<Rightarrow> unit hg_result" where
  "check_retained_seq sp event seq = (case sp of
     Some r \<Rightarrow> (case u64_checked_add (er_seq r) 1 of
         None \<Rightarrow> Err (InvalidRetainedSeq (- 1) seq)
       | Some expected \<Rightarrow> if seq \<noteq> expected then Err (InvalidRetainedSeq expected seq) else Ok ())
   | None \<Rightarrow>
       if ev_self_parent event = None then (if seq \<noteq> 1 then Err (InvalidRetainedSeq 1 seq) else Ok ())
       else if seq < 1 then Err (InvalidRetainedSeq 1 seq) else Ok ())"

definition check_retained_row ::
    "nat \<Rightarrow> EventRecord option \<Rightarrow> EventRecord option \<Rightarrow> Event \<Rightarrow> nat \<Rightarrow> u64 \<Rightarrow> u64 list \<Rightarrow> unit hg_result" where
  "check_retained_row n sp op event creator_idx seq row =
     (let self_pruned = (ev_self_parent event \<noteq> None \<and> sp = None);
          other_pruned = (ev_other_parent event \<noteq> None \<and> op = None)
      in if self_pruned \<or> other_pruned then
           andThen (parents_row n sp op) (\<lambda>floor.
           andThen (index_at row creator_idx) (\<lambda>own.
           if own \<noteq> seq \<or> list_ex (\<lambda>(v, low). v < low) (zip row floor) then Err InvalidRetainedAncestors else Ok ()))
         else if sp \<noteq> None \<or> op \<noteq> None then
           andThen (parents_row n sp op) (\<lambda>expected.
           andThen (write_at expected creator_idx seq) (\<lambda>expected.
           if row \<noteq> expected then Err InvalidRetainedAncestors else Ok ()))
         else andThen (index_at row creator_idx) (\<lambda>own.
           if own \<noteq> seq then Err InvalidRetainedAncestors else Ok ()))"

definition check_retained_order :: "u64 \<Rightarrow> u64 option \<Rightarrow> Timestamp option \<Rightarrow> u64 \<Rightarrow> unit hg_result" where
  "check_retained_order round received ts decided_round = (case (received, ts) of
     (Some rr, _) \<Rightarrow> if rr < round \<or> decided_round < rr then Err InvalidRetainedOrder else Ok ()
   | (None, None) \<Rightarrow> Ok ()
   | (None, Some _) \<Rightarrow> Err InvalidRetainedOrder)"

definition stored_parent :: "Hashgraph \<Rightarrow> EventHash option \<Rightarrow> EventRecord option" where
  "stored_parent g p = Option.bind p (hg_get g)"

definition insert_accepted :: "hash_fn \<Rightarrow> Hashgraph \<Rightarrow> RetainedEvent \<Rightarrow> u64 \<Rightarrow> (Hashgraph \<times> EventHash) hg_result" where
  "insert_accepted sha g rec decided_round =
     (let event = re_event rec; seq = re_seq rec; round = re_round rec; creator = ev_creator event
      in andThen (map_err EncodingFailed (hash_Event sha event)) (\<lambda>h.
      if hg_get g h \<noteq> None then Err (AlreadyPresent h)
      else andThen (ok_or UnknownCreator (map_of (member_index g) creator)) (\<lambda>creator_idx.
      if member_count g < length (re_ancestor_seqs rec)
      then Err (AncestorSeqsMismatch (member_count g) (length (re_ancestor_seqs rec)))
      else let row = resize_row (member_count g) (re_ancestor_seqs rec);
               sp = stored_parent g (ev_self_parent event); op = stored_parent g (ev_other_parent event);
               base = base_round (map_option er_round sp) (map_option er_round op)
      in if (case sp of None \<Rightarrow> False | Some r \<Rightarrow> ev_creator (er_event r) \<noteq> creator) then Err InvalidSelfParent
      else andThen (check_retained_seq sp event seq) (\<lambda>_.
      andThen (check_retained_row (member_count g) sp op event creator_idx seq row) (\<lambda>_.
      if round < base then Err (InvalidRetainedRound base round)
      else andThen (check_retained_order round (re_round_received rec) (re_timestamp rec) decided_round) (\<lambda>_.
      map_ok (\<lambda>g. (store_event
          (link_children (filter (\<lambda>p. hg_get g p \<noteq> None) (event_parents event)) h
            (note_latest (note_seq g creator seq h) creator seq h))
          h ((fresh_record event seq row round)\<lparr>
               er_round_received := re_round_received rec,
               er_timestamp := (case (re_round_received rec, re_timestamp rec) of
                  (Some _, Some ts) \<Rightarrow> Some ts
                | (Some _, None) \<Rightarrow> Some (Timestamp 0)
                | (None, _) \<Rightarrow> None) \<rparr>), h))
        (note_branch g (creator, ev_self_parent event) creator_idx h)))))))"

definition retained_events :: "Hashgraph \<Rightarrow> RetainedEvent list" where
  "retained_events g = map (\<lambda>(_, r). \<lparr> re_event = er_event r, re_seq = er_seq r, re_round = er_round r,
     re_ancestor_seqs = er_ancestor_seqs r, re_round_received = er_round_received r,
     re_timestamp = er_timestamp r \<rparr>) (events g)"

subsection \<open>Pruning\<close>

definition expired :: "u64 \<Rightarrow> EventRecord \<Rightarrow> bool" where
  "expired threshold r \<longleftrightarrow> (case er_round_received r of None \<Rightarrow> False | Some rr \<Rightarrow> rr < threshold)"

text \<open>The expired events that are not a parent of a live one, in the order of a \<^verbatim>\<open>BTreeSet\<close>.\<close>

definition prune_set :: "Hashgraph \<Rightarrow> u64 \<Rightarrow> EventHash list" where
  "prune_set g threshold =
     (let anchors = concat (map (\<lambda>(_, r). event_parents (er_event r)) (filter (\<lambda>(_, r). \<not> expired threshold r) (events g)))
      in sort (filter (\<lambda>h. h \<notin> set anchors) (map fst (filter (\<lambda>(_, r). expired threshold r) (events g)))))"

definition remove_if_points :: "'k \<Rightarrow> 'v \<Rightarrow> ('k, 'v) hmap \<Rightarrow> ('k, 'v) hmap" where
  "remove_if_points k v m = (if map_of m k = Some v then AList.delete k m else m)"

definition remove_event :: "EventHash \<Rightarrow> Hashgraph \<Rightarrow> Hashgraph" where
  "remove_event h g = (case hg_get g h of
     None \<Rightarrow> g
   | Some r \<Rightarrow> (let event = er_event r; creator = ev_creator event in g\<lparr>
       events := AList.delete h (events g),
       children := AList.delete h (fold (\<lambda>p. modify p (filter (\<lambda>c. c \<noteq> h))) (event_parents event) (children g)),
       first_child := remove_if_points (creator, ev_self_parent event) h (first_child g),
       by_creator_seq := remove_if_points (creator, er_seq r) h (by_creator_seq g),
       latest_by_creator := remove_if_points creator h (latest_by_creator g) \<rparr>))"

definition best_survivor :: "Hashgraph \<Rightarrow> NodeId \<Rightarrow> (u64 \<times> EventHash) option" where
  "best_survivor g creator = fold (\<lambda>((c, seq), h) best.
       if c \<noteq> creator then best
       else case best of
         Some (best_seq, _) \<Rightarrow> if seq \<le> best_seq then best else Some (seq, h)
       | None \<Rightarrow> Some (seq, h)) (by_creator_seq g) None"

definition repoint_tip :: "NodeId \<Rightarrow> Hashgraph \<Rightarrow> Hashgraph" where
  "repoint_tip creator g =
     (if map_of (latest_by_creator g) creator \<noteq> None then g
      else case best_survivor g creator of
        None \<Rightarrow> g
      | Some (_, h) \<Rightarrow> g\<lparr> latest_by_creator := AList.update creator h (latest_by_creator g) \<rparr>)"

definition drop_witnesses :: "EventHash list \<Rightarrow> Hashgraph \<Rightarrow> Hashgraph" where
  "drop_witnesses pruned g = g\<lparr>
     undecided_witnesses := fold AList.delete pruned (undecided_witnesses g),
     witnesses_by_round := map (\<lambda>(round, hs). (round, filter (\<lambda>h. hg_get g h \<noteq> None) hs)) (witnesses_by_round g) \<rparr>"

definition prune_before_round :: "Hashgraph \<Rightarrow> u64 \<Rightarrow> (Hashgraph \<times> EventHash list) hg_result" where
  "prune_before_round g threshold =
     (if next_round_to_order g \<le> threshold then Panic
      else if \<not> list_ex (\<lambda>(_, r). expired threshold r) (events g) then Ok (g, [])
      else let pruned = prune_set g threshold;
               pruned_tips = map fst (filter (\<lambda>(_, tip). tip \<in> set pruned) (latest_by_creator g));
               g = drop_witnesses pruned (fold repoint_tip pruned_tips (fold remove_event pruned g))
           in Ok (g\<lparr> roster_history := prune_before (roster_history g) threshold \<rparr>, pruned))"

end
