(* ===== verification/SampleRun.thy ===== *)
theory SampleRun
  imports Insert
begin

section \<open>Concrete insertions\<close>

text \<open>
  Used by the witnesses only: a member that inserts its first event into a new graph and
  then its second, and the same second insertion into a graph in which the first event is
  already ordered, evaluated step by step. The digest tells the two events apart by the
  length of their encodings, so their hashes are known.
\<close>

definition sample_hash :: "u8 \<Rightarrow> EventHash" where
  "sample_hash n = EventHash (replicate 32 n)"

definition sample_digest :: hash_fn where
  "sample_digest bs = replicate 32 (if length bs < 100 then 1 else 2)"

definition sample_node_event :: "EventHash option \<Rightarrow> Event" where
  "sample_node_event sp = \<lparr> unsigned_part = \<lparr> ue_creator = NodeId 0, ue_self_parent = sp, ue_other_parent = None,
     ue_timestamp = Timestamp 5, ue_payload = [] \<rparr>, ev_signature = signature_default \<rparr>"

definition sample_member :: MembershipRegistry where
  "sample_member = \<lparr> keys = [(NodeId 0, ([], []))] \<rparr>"

lemma sample_hash_eq [simp]: "sample_hash a = sample_hash b \<longleftrightarrow> a = b"
  by (simp add: sample_hash_def)

lemma sample_digest_Event:
  "hash_Event sample_digest (sample_node_event None) = Ok (sample_hash 1)"
  "hash_Event sample_digest (sample_node_event (Some (sample_hash 1))) = Ok (sample_hash 2)"
  by (simp_all add: hash_Event_def sample_node_event_def encode_Event_def encode_UnsignedEvent_def encode_Transactions_def
      sample_hash_def u32_try_from_def sample_digest_def encode_Signature_def signature_default_def encode_EventHash_def
      encode_NodeId_def encode_Timestamp_def)

lemma sample_node_event_simps [simp]:
  "ev_creator (sample_node_event sp) = NodeId 0" "ev_self_parent (sample_node_event sp) = sp"
  "ev_other_parent (sample_node_event sp) = None"
  by (simp_all add: sample_node_event_def event_accessor_defs)

subsection \<open>A graph with one event\<close>

definition sample_record :: "FameStatus \<Rightarrow> u64 option \<Rightarrow> Timestamp option \<Rightarrow> EventRecord" where
  "sample_record f rr ts = (fresh_record (sample_node_event None) 1 [1] 1)\<lparr> er_is_witness := True, er_fame := f,
     er_round_received := rr, er_timestamp := ts \<rparr>"

text \<open>The first argument is the record, the others are the bookkeeping of undecided and decided rounds.\<close>

definition sample_base :: "EventRecord \<Rightarrow> (EventHash, u64) hmap \<Rightarrow> u64 set \<Rightarrow> u64 \<Rightarrow> Hashgraph" where
  "sample_base r undecided decided next = (hg_new sample_member)\<lparr>
     events := [(sample_hash 1, r)], first_child := [((NodeId 0, None), sample_hash 1)],
     by_creator_seq := [((NodeId 0, 1), sample_hash 1)], latest_by_creator := [(NodeId 0, sample_hash 1)],
     witnesses_by_round := [(1, [sample_hash 1])], undecided_witnesses := undecided,
     highest_witness_round := 1, fully_decided_rounds := decided, next_round_to_order := next \<rparr>"

definition sample_graph :: Hashgraph where
  "sample_graph = sample_base (sample_record Famous (Some 1) (Some (Timestamp 5))) [] {1} 2"

definition sample_one :: Hashgraph where
  "sample_one = sample_base (sample_record Undecided None None) [(sample_hash 1, 1)] {} 1"

lemma sample_base_get:
  "hg_get (sample_base r u d n) (sample_hash 1) = Some r" "hg_get (sample_base r u d n) (sample_hash 2) = None"
  by (simp_all add: sample_base_def hg_get_def)

lemma sample_roster: "1 \<le> k \<Longrightarrow> roster_for_round (roster_history (hg_new sample_member)) k = Some sample_member"
  by (simp add: hg_new_def roster_for_round_def roster_new_def bt_last_upto_def Let_def last_opt_def)

text \<open>Every record of the first event that differs only in what the election and the ordering write.\<close>

lemma sample_record_simps:
  "er_event (sample_record f rr ts) = sample_node_event None" "er_seq (sample_record f rr ts) = 1"
  "er_ancestor_seqs (sample_record f rr ts) = [1]" "er_round (sample_record f rr ts) = 1"
  "er_is_witness (sample_record f rr ts)" "er_fame (sample_record f rr ts) = f"
  "er_round_received (sample_record f rr ts) = rr" "er_votes (sample_record f rr ts) = []"
  by (simp_all add: sample_record_def fresh_record_def)

subsection \<open>The first insertion\<close>

definition sample_genesis :: Hashgraph where
  "sample_genesis = (hg_new sample_member)\<lparr>
     events := [(sample_hash 1, fresh_record (sample_node_event None) 1 [1] 1)],
     first_child := [((NodeId 0, None), sample_hash 1)],
     by_creator_seq := [((NodeId 0, 1), sample_hash 1)], latest_by_creator := [(NodeId 0, sample_hash 1)] \<rparr>"

lemma sample_new_fields:
  "events (hg_new sample_member) = []" "member_index (hg_new sample_member) = [(NodeId 0, 0)]"
  "member_count (hg_new sample_member) = 1" "known_forkers (hg_new sample_member) = [False]"
  "first_child (hg_new sample_member) = []" "by_creator_seq (hg_new sample_member) = []" "children (hg_new sample_member) = []"
  "latest_by_creator (hg_new sample_member) = []" "witnesses_by_round (hg_new sample_member) = []"
  "undecided_witnesses (hg_new sample_member) = []" "highest_witness_round (hg_new sample_member) = 0"
  "fully_decided_rounds (hg_new sample_member) = {}" "next_round_to_order (hg_new sample_member) = 1"
  by (simp_all add: hg_new_def sample_member_def member_ids_def Let_def)

lemma sample_place_genesis:
  "place_event (hg_new sample_member) (sample_node_event None) (sample_hash 1) 0 None None = Ok sample_genesis"
  by (simp add: place_event_def parents_row_def write_at_def note_branch_def or_insert_def note_seq_def note_latest_def
      link_children_def event_parents_def store_event_def map_filter_simps base_round_def sample_new_fields sample_genesis_def)

lemma sample_finalize_genesis: "finalize_round sample_genesis (sample_hash 1) 1 None = Ok sample_one"
proof -
  have "member_count_at_round sample_genesis 1 = Ok 1"
    using sample_roster [of 1] by (simp add: member_count_at_round_def sample_genesis_def registry_len_def sample_member_def)
  then have "finalize_round sample_genesis (sample_hash 1) 1 None =
      Ok (record_witness (set_event_round sample_genesis (sample_hash 1) 1 True) 1 (sample_hash 1))"
    by (simp add: finalize_round_def witnesses_of_round_def sample_genesis_def sample_new_fields)
  also have "record_witness (set_event_round sample_genesis (sample_hash 1) 1 True) 1 (sample_hash 1) = sample_one"
    by (simp add: record_witness_def set_event_round_def sample_genesis_def sample_one_def sample_base_def modify_def
        entry_push_def sample_new_fields sample_record_def fresh_record_def)
  finally show ?thesis .
qed

lemma sample_insert_genesis:
  "hg_insert sample_digest (hg_new sample_member) (VerifiedEvent (sample_node_event None)) = Ok (sample_one, sample_hash 1)"
proof -
  have fields: "undecided_witnesses sample_one = [(sample_hash 1, 1)]" "highest_witness_round sample_one = 1"
    "next_round_to_order sample_one = 1" "hg_get sample_one (sample_hash 1) = Some (sample_record Undecided None None)"
    by (simp_all add: sample_one_def sample_base_def hg_get_def)
  then have "fame_of sample_one (sample_hash 1) = Some Undecided" by (simp add: fame_of_def sample_record_simps)
  with fields have "vote_as_witness sample_one (sample_hash 1) = Ok sample_one"
    by (simp add: vote_as_witness_def sample_record_simps Let_def u64_checked_add_def backfill_loop.simps [of sample_one]
        try_eager_decide_def is_decided_def)
  moreover have "hg_get (hg_new sample_member) (sample_hash 1) = None" by (simp add: hg_get_def sample_new_fields)
  ultimately show ?thesis
    using fields sample_place_genesis sample_finalize_genesis
    by (simp add: hg_insert_def sample_digest_Event find_parent_def base_round_def Let_def sample_new_fields
        sample_record_simps note_round_decided_if_complete_def)
qed

subsection \<open>The second insertion\<close>

definition sample_placed :: "EventRecord \<Rightarrow> (EventHash, u64) hmap \<Rightarrow> u64 set \<Rightarrow> u64 \<Rightarrow> Hashgraph" where
  "sample_placed r u d n = (sample_base r u d n)\<lparr>
     events := [(sample_hash 1, r), (sample_hash 2, fresh_record (sample_node_event (Some (sample_hash 1))) 2 [2] 1)],
     children := [(sample_hash 1, [sample_hash 2])],
     first_child := [((NodeId 0, None), sample_hash 1), ((NodeId 0, Some (sample_hash 1)), sample_hash 2)],
     by_creator_seq := [((NodeId 0, 1), sample_hash 1), ((NodeId 0, 2), sample_hash 2)],
     latest_by_creator := [(NodeId 0, sample_hash 2)] \<rparr>"

definition sample_finalized :: "EventRecord \<Rightarrow> (EventHash, u64) hmap \<Rightarrow> u64 set \<Rightarrow> u64 \<Rightarrow> Hashgraph" where
  "sample_finalized r u d n = record_witness (set_event_round (sample_placed r u d n) (sample_hash 2) 2 True) 2 (sample_hash 2)"

lemma sample_place:
  "place_event (sample_base (sample_record f rr ts) u d n) (sample_node_event (Some (sample_hash 1))) (sample_hash 2) 0
     (Some (sample_record f rr ts)) None = Ok (sample_placed (sample_record f rr ts) u d n)"
  by (simp add: place_event_def sample_record_simps u64_checked_add_def parents_row_def copy_from_slice_def write_at_def
      note_branch_def or_insert_def note_seq_def note_latest_def hg_get_def link_children_def event_parents_def store_event_def
      map_filter_simps entry_push_def base_round_def sample_placed_def sample_base_def sample_new_fields)

lemma sample_placed_get:
  "hg_get (sample_placed r u d n) (sample_hash 1) = Some r"
  "hg_get (sample_placed r u d n) (sample_hash 2) = Some (fresh_record (sample_node_event (Some (sample_hash 1))) 2 [2] 1)"
  by (simp_all add: sample_placed_def hg_get_def)

lemma sample_placed_fields:
  "member_index (sample_placed r u d n) = [(NodeId 0, 0)]" "known_forkers (sample_placed r u d n) = [False]"
  "by_creator_seq (sample_placed r u d n) = [((NodeId 0, 1), sample_hash 1), ((NodeId 0, 2), sample_hash 2)]"
  "length (events (sample_placed r u d n)) = Suc (Suc 0)" "witnesses_by_round (sample_placed r u d n) = [(1, [sample_hash 1])]"
  "undecided_witnesses (sample_placed r u d n) = u" "highest_witness_round (sample_placed r u d n) = 1"
  "next_round_to_order (sample_placed r u d n) = n"
  by (simp_all add: sample_placed_def sample_base_def sample_new_fields)

lemma sample_count: "1 \<le> k \<Longrightarrow> member_count_at_round (sample_placed r u d n) k = Ok 1"
  using sample_roster [of k]
  by (simp add: member_count_at_round_def sample_placed_def sample_base_def sample_member_def registry_len_def)

lemma sample_see: "see (sample_placed (sample_record f rr ts) u d n) (sample_hash 2) (sample_hash 1) = Ok True"
  by (simp add: see_def is_ancestor_def sample_placed_get sample_record_simps fresh_record_def member_index_of_def
      sample_placed_fields ancestor_seq_def index_at_def creator_has_known_fork_def)

lemma sample_strongly_see:
  "strongly_see_at (sample_placed (sample_record f rr ts) u d n) (sample_hash 2) (sample_hash 1) 1 = Ok True"
  by (simp add: strongly_see_at_def sample_see sample_placed_get sample_placed_fields fresh_record_def ancestor_seq_def
      index_at_def member_chain_reaches_def creator_has_known_fork_def event_for_creator_seq_def sample_count)

lemma sample_finalize:
  "finalize_round (sample_placed (sample_record f rr ts) u d n) (sample_hash 2) 1 (Some 1) =
     Ok (sample_finalized (sample_record f rr ts) u d n)"
  by (simp add: finalize_round_def witnesses_of_round_def sample_placed_fields sample_strongly_see sample_count
      u64_checked_add_def sample_finalized_def)

lemma sample_finalized_get:
  "hg_get (sample_finalized r u d n) (sample_hash 1) = Some r"
  "hg_get (sample_finalized r u d n) (sample_hash 2) =
     Some ((fresh_record (sample_node_event (Some (sample_hash 1))) 2 [2] 1)\<lparr> er_round := 2, er_is_witness := True \<rparr>)"
  using sample_placed_get [of r u d n]
  by (simp_all add: sample_finalized_def record_witness_def hg_get_def set_event_round_def map_of_modify)

lemma sample_finalized_fields:
  "undecided_witnesses (sample_finalized r u d n) = AList.update (sample_hash 2) 2 u"
  "highest_witness_round (sample_finalized r u d n) = 2" "next_round_to_order (sample_finalized r u d n) = n"
  "member_index (sample_finalized r u d n) = [(NodeId 0, 0)]" "known_forkers (sample_finalized r u d n) = [False]"
  by (simp_all add: sample_finalized_def record_witness_def set_event_round_def sample_placed_fields)

lemma sample_insert_second:
  assumes "vote_as_witness (sample_finalized (sample_record f rr ts) u d n) (sample_hash 2) = Ok g"
    and "note_round_decided_if_complete g (next_round_to_order g) = Ok g'"
  shows "hg_insert sample_digest (sample_base (sample_record f rr ts) u d n)
     (VerifiedEvent (sample_node_event (Some (sample_hash 1)))) = Ok (g', sample_hash 2)"
proof -
  have "map_of (member_index (sample_base (sample_record f rr ts) u d n)) (NodeId 0) = Some 0"
    by (simp add: sample_base_def sample_new_fields)
  then show ?thesis
    using assms sample_place sample_finalize
    by (simp add: hg_insert_def sample_digest_Event sample_base_get find_parent_def base_round_def Let_def
      sample_record_simps sample_finalized_get)
qed

text \<open>After an ordered first event there is nothing to vote on.\<close>

definition sample_final :: Hashgraph where
  "sample_final = sample_finalized (sample_record Famous (Some 1) (Some (Timestamp 5))) [] {1} 2"

lemma sample_insert:
  "hg_insert sample_digest sample_graph (VerifiedEvent (sample_node_event (Some (sample_hash 1)))) = Ok (sample_final, sample_hash 2)"
proof -
  have "fame_of sample_final (sample_hash 2) = Some Undecided"
    by (simp add: fame_of_def sample_final_def sample_finalized_get fresh_record_def)
  then have "vote_as_witness sample_final (sample_hash 2) = Ok sample_final"
    by (simp add: vote_as_witness_def sample_final_def sample_finalized_get sample_finalized_fields fresh_record_def Let_def
        u64_checked_add_def backfill_loop.simps [of "sample_finalized _ _ _ _"] try_eager_decide_def is_decided_def)
  moreover have "note_round_decided_if_complete sample_final (next_round_to_order sample_final) = Ok sample_final"
    by (simp add: note_round_decided_if_complete_def sample_final_def sample_finalized_fields)
  ultimately show ?thesis unfolding sample_graph_def sample_final_def by (rule sample_insert_second)
qed

text \<open>The second event of the run votes on the first.\<close>

definition sample_two :: Hashgraph where
  "sample_two = record_vote (sample_finalized (sample_record Undecided None None) [(sample_hash 1, 1)] {} 1)
     (sample_hash 2) (sample_hash 1) True"

lemma sample_insert_two:
  "hg_insert sample_digest sample_one (VerifiedEvent (sample_node_event (Some (sample_hash 1)))) = Ok (sample_two, sample_hash 2)"
proof -
  let ?r = "sample_record Undecided None None"
  let ?g = "sample_finalized ?r [(sample_hash 1, 1)] {} 1"
  have get: "hg_get sample_two (sample_hash 1) = Some ?r" "hg_get sample_two (sample_hash 2) = Some
      ((fresh_record (sample_node_event (Some (sample_hash 1))) 2 [2] 1)\<lparr> er_round := 2, er_is_witness := True,
         er_votes := [(sample_hash 1, True)] \<rparr>)"
    using sample_finalized_get [of ?r "[(sample_hash 1, 1)]" "{}" 1]
    by (simp_all add: sample_two_def record_vote_def hg_get_def map_of_modify fresh_record_def)
  have fields: "undecided_witnesses sample_two = [(sample_hash 1, 1), (sample_hash 2, 2)]"
    "highest_witness_round sample_two = 2" "next_round_to_order sample_two = 1"
    by (simp_all add: sample_two_def record_vote_def sample_finalized_fields)
  have fame: "fame_of sample_two (sample_hash 2) = Some Undecided" "fame_of sample_two (sample_hash 1) = Some Undecided"
    by (simp_all add: fame_of_def get sample_record_simps fresh_record_def)
  have see: "see ?g (sample_hash 2) (sample_hash 1) = Ok True"
    by (simp add: see_def is_ancestor_def sample_finalized_get sample_record_simps fresh_record_def member_index_of_def
        sample_finalized_fields ancestor_seq_def index_at_def creator_has_known_fork_def)
  have vote: "vote_of ?g (sample_hash 2) (sample_hash 1) = Ok (sample_two, Cast True)"
    by (simp add: vote_of_def sample_finalized_get sample_record_simps fame_of_def vote_for_def fresh_record_def Let_def
        u64_checked_add_def see sample_two_def numeral_3_eq_3)
  have eager: "try_eager_decide sample_two (sample_hash 1) = Ok sample_two" "try_eager_decide sample_two (sample_hash 2) = Ok sample_two"
    by (simp_all add: try_eager_decide_def is_decided_def fame get fields sample_record_simps fresh_record_def u64_checked_add_def)
  have "vote_as_witness ?g (sample_hash 2) = Ok sample_two"
    by (simp add: vote_as_witness_def sample_finalized_get sample_finalized_fields fresh_record_def Let_def u64_checked_add_def
        vote eager fields fame backfill_loop.simps [of sample_two])
  moreover have "note_round_decided_if_complete sample_two (next_round_to_order sample_two) = Ok sample_two"
    by (simp add: note_round_decided_if_complete_def fields)
  ultimately show ?thesis unfolding sample_one_def by (rule sample_insert_second)
qed

end
