(* ===== verification/Finality.thy ===== *)
theory Finality
  imports SampleRun
begin

section \<open>Finality\<close>

text \<open>
  What never changes once it is decided. The relation \<open>settles\<close> relates a graph to one that
  the voting and ordering machinery makes of it: the same events with the same rounds and
  ancestor rows (a row only grows by zero slots, when a member joins), the same indexes, every decided fame and every assigned order kept, and new orders only in
  rounds that had not been ordered before. \<open>extends\<close> is the weaker relation that also
  allows new events; \<open>insert\<close> establishes it.
\<close>

subsection \<open>The relations\<close>

definition row_grows :: "u64 list \<Rightarrow> u64 list \<Rightarrow> bool" where
  "row_grows xs ys \<longleftrightarrow> (\<exists>n. ys = xs @ replicate n 0)"

lemma row_grows_refl [simp, intro]: "row_grows xs xs"
  by (auto simp: row_grows_def intro: exI [of _ 0])

lemma row_grows_slot [simp, intro]: "row_grows xs (xs @ [0])"
  by (auto simp: row_grows_def intro: exI [of _ 1])

lemma row_grows_trans [trans]: "row_grows xs ys \<Longrightarrow> row_grows ys zs \<Longrightarrow> row_grows xs zs"
  by (auto simp: row_grows_def simp flip: replicate_add)

definition rec_settles :: "EventRecord \<Rightarrow> EventRecord \<Rightarrow> bool" where
  "rec_settles r r' \<longleftrightarrow>
     er_event r' = er_event r \<and> er_seq r' = er_seq r \<and>
     er_round r' = er_round r \<and> er_is_witness r' = er_is_witness r \<and>
     row_grows (er_ancestor_seqs r) (er_ancestor_seqs r') \<and>
     (er_is_witness r \<and> er_fame r \<noteq> Undecided \<longrightarrow> er_fame r' = er_fame r) \<and>
     (er_round_received r \<noteq> None \<longrightarrow>
       er_round_received r' = er_round_received r \<and> er_timestamp r' = er_timestamp r)"

definition keeps_records :: "Hashgraph \<Rightarrow> Hashgraph \<Rightarrow> bool" where
  "keeps_records g g' \<longleftrightarrow> (\<forall>h r. hg_get g h = Some r \<longrightarrow> (\<exists>r'. hg_get g' h = Some r' \<and> rec_settles r r'))"

definition orders_forward :: "Hashgraph \<Rightarrow> Hashgraph \<Rightarrow> bool" where
  "orders_forward g g' \<longleftrightarrow> next_round_to_order g \<le> next_round_to_order g' \<and>
     fully_decided_rounds g \<subseteq> fully_decided_rounds g' \<and>
     (\<forall>h k. round_received g' h = Some k \<longrightarrow> round_received g h = Some k \<or>
        next_round_to_order g \<le> k \<and> k < next_round_to_order g')"

definition same_rows :: "Hashgraph \<Rightarrow> Hashgraph \<Rightarrow> bool" where
  "same_rows g g' \<longleftrightarrow> (\<forall>h. map_option er_ancestor_seqs (hg_get g' h) = map_option er_ancestor_seqs (hg_get g h))"

definition same_indexes :: "Hashgraph \<Rightarrow> Hashgraph \<Rightarrow> bool" where
  "same_indexes g g' \<longleftrightarrow>
     map fst (events g') = map fst (events g) \<and>
     same_rows g g' \<and> children g' = children g \<and> first_child g' = first_child g \<and>
     by_creator_seq g' = by_creator_seq g \<and> latest_by_creator g' = latest_by_creator g \<and>
     member_index g' = member_index g \<and> member_count g' = member_count g \<and>
     roster_history g' = roster_history g \<and> known_forkers g' = known_forkers g \<and>
     witnesses_by_round g' = witnesses_by_round g \<and> highest_witness_round g' = highest_witness_round g"

definition extends :: "Hashgraph \<Rightarrow> Hashgraph \<Rightarrow> bool" where
  "extends g g' \<longleftrightarrow> keeps_records g g' \<and> orders_forward g g'"

definition settles :: "Hashgraph \<Rightarrow> Hashgraph \<Rightarrow> bool" where
  "settles g g' \<longleftrightarrow> extends g g' \<and> same_indexes g g'"

lemma rec_settles_refl [simp, intro]: "rec_settles r r"
  by (simp add: rec_settles_def)

lemma rec_settles_trans [trans]: "rec_settles r s \<Longrightarrow> rec_settles s t \<Longrightarrow> rec_settles r t"
  by (auto simp: rec_settles_def intro: row_grows_trans)

lemma extends_refl [simp, intro]: "extends g g"
  by (auto simp: extends_def keeps_records_def orders_forward_def)

lemma extends_trans [trans]: "extends g h \<Longrightarrow> extends h k \<Longrightarrow> extends g k"
  unfolding extends_def keeps_records_def orders_forward_def
  by (intro conjI allI impI) (meson rec_settles_trans order_trans less_le_trans subset_trans)+

lemma settles_refl [simp, intro]: "settles g g"
  by (simp add: settles_def same_indexes_def same_rows_def)

lemma settles_trans [trans]: "settles g h \<Longrightarrow> settles h k \<Longrightarrow> settles g k"
  unfolding settles_def same_indexes_def same_rows_def using extends_trans [of g h k] by simp

lemma settles_extends: "settles g g' \<Longrightarrow> extends g g'"
  by (simp add: settles_def)

subsection \<open>Elementary updates\<close>

lemma hg_get_record_vote:
  "hg_get (record_vote g y w v) h =
     (if h = y then map_option (\<lambda>r. r\<lparr> er_votes := AList.update w v (er_votes r) \<rparr>) (hg_get g y) else hg_get g h)"
  by (simp add: hg_get_def record_vote_def map_of_modify)

lemma hg_get_set_fame:
  "hg_get (set_fame g y s) h = (if h = y then map_option (\<lambda>r. r\<lparr> er_fame := s \<rparr>) (hg_get g y) else hg_get g h)"
  by (simp add: hg_get_def set_fame_def map_of_modify)

lemma hg_get_set_event_order:
  "hg_get (set_event_order g y k ts) h =
     (if h = y then map_option (\<lambda>r. r\<lparr> er_round_received := Some k, er_timestamp := Some ts \<rparr>) (hg_get g y)
      else hg_get g h)"
  by (simp add: hg_get_def set_event_order_def map_of_modify)

lemma hg_get_set_event_round:
  "hg_get (set_event_round g y k w) h =
     (if h = y then map_option (\<lambda>r. r\<lparr> er_round := k, er_is_witness := w \<rparr>) (hg_get g y) else hg_get g h)"
  by (simp add: hg_get_def set_event_round_def map_of_modify)

lemma hg_get_store_event: "hg_get (store_event g y r) h = (if h = y then Some r else hg_get g h)"
  by (simp add: hg_get_def store_event_def update_conv')

lemmas hg_get_updates = hg_get_record_vote hg_get_set_fame hg_get_set_event_order hg_get_set_event_round hg_get_store_event

lemma same_rows_updates [simp]:
  "same_rows g (record_vote g y w v)" "same_rows g (set_fame g y s)"
  by (auto simp: same_rows_def hg_get_updates option.map_comp comp_def)

lemma settles_record_vote [simp, intro]: "settles g (record_vote g y w v)"
  unfolding settles_def extends_def keeps_records_def orders_forward_def round_received_def hg_get_record_vote
  using same_rows_updates(1) [of g y w v]
  by (auto simp: rec_settles_def same_indexes_def record_vote_def Option.bind_map_option comp_def)

lemma settles_set_fame:
  assumes "\<not> is_decided g w"
  shows "settles g (set_fame g w s)"
proof -
  have "rec_settles r (r\<lparr> er_fame := s \<rparr>)" if "hg_get g w = Some r" for r
    using assms that by (auto simp: rec_settles_def is_decided_def fame_of_def)
  then show ?thesis
    unfolding settles_def extends_def keeps_records_def orders_forward_def round_received_def hg_get_set_fame
    using same_rows_updates(2) [of g w s] by (auto simp: same_indexes_def set_fame_def Option.bind_map_option comp_def)
qed

lemma fame_of_record_vote [simp]: "fame_of (record_vote g y w v) = fame_of g"
proof (rule ext)
  show "fame_of (record_vote g y w v) h = fame_of g h" for h
    by (cases "hg_get g h") (auto simp: fame_of_def hg_get_record_vote)
qed

subsection \<open>Ordering\<close>

text \<open>The loop of \<^verbatim>\<open>assign_order\<close> writes an order into pending records only, and nothing else.\<close>

definition orders_in :: "u64 \<Rightarrow> EventHash set \<Rightarrow> Hashgraph \<Rightarrow> Hashgraph \<Rightarrow> bool" where
  "orders_in round A g g' \<longleftrightarrow> (\<exists>es. g' = g\<lparr> events := es \<rparr> \<and> map fst es = map fst (events g)) \<and>
     (\<forall>h. hg_get g' h = hg_get g h \<or> h \<in> A \<and> (\<exists>ts. hg_get g' h =
        map_option (\<lambda>r. r\<lparr> er_round_received := Some round, er_timestamp := Some ts \<rparr>) (hg_get g h)))"

lemma orders_in_refl [simp]: "orders_in k A g g"
  by (auto simp: orders_in_def intro: exI [of _ "events g"])

lemma orders_in_set:
  assumes "orders_in k A g g'" "h \<in> A"
  shows "orders_in k A g (set_event_order g' h k ts)"
proof -
  from assms obtain es where es: "g' = g\<lparr> events := es \<rparr>" "map fst es = map fst (events g)"
    by (auto simp: orders_in_def)
  then have "set_event_order g' h k ts = g\<lparr> events := modify h (\<lambda>r. r\<lparr> er_round_received := Some k, er_timestamp := Some ts \<rparr>) es \<rparr>"
    by (simp add: set_event_order_def)
  moreover have "\<exists>t. hg_get (set_event_order g' h k ts) h =
      map_option (\<lambda>r. r\<lparr> er_round_received := Some k, er_timestamp := Some t \<rparr>) (hg_get g h)"
  proof -
    have "hg_get g' h = hg_get g h \<or> (\<exists>t. hg_get g' h =
        map_option (\<lambda>r. r\<lparr> er_round_received := Some k, er_timestamp := Some t \<rparr>) (hg_get g h))"
      using assms(1) by (auto simp: orders_in_def)
    then show ?thesis by (cases "hg_get g h") (auto simp: hg_get_set_event_order)
  qed
  moreover have "hg_get (set_event_order g' h k ts) h' = hg_get g' h'" if "h' \<noteq> h" for h'
    using that by (simp add: hg_get_set_event_order)
  ultimately show ?thesis
    using assms es(2) unfolding orders_in_def by (metis keys_modify)
qed

lemma assign_events_orders:
  "assign_events k famous ps g' = Ok g'' \<Longrightarrow> orders_in k A g g' \<Longrightarrow> set ps \<subseteq> A \<Longrightarrow> orders_in k A g g''"
  by (induction ps arbitrary: g') (auto simp: orders_in_set split: if_splits)

lemma assign_order_orders: "assign_order g k = Ok g' \<Longrightarrow> orders_in k (set (pending_order_events g)) g g'"
  by (auto simp: assign_order_def Let_def split: if_splits intro: assign_events_orders)

lemma orders_in_row: "orders_in k A g g' \<Longrightarrow> map_option er_ancestor_seqs (hg_get g' h) = map_option er_ancestor_seqs (hg_get g h)"
  unfolding orders_in_def by (elim conjE allE [of _ h] disjE exE) (auto simp: option.map_comp comp_def)

lemma orders_in_settles:
  assumes ord: "orders_in k A g g'" and pend: "\<And>h r. h \<in> A \<Longrightarrow> hg_get g h = Some r \<Longrightarrow> er_round_received r = None"
    and k: "next_round_to_order g = k" "next_round_to_order g < n"
  shows "settles g (g'\<lparr> next_round_to_order := n \<rparr>)"
proof -
  have get: "hg_get (g'\<lparr> next_round_to_order := n \<rparr>) = hg_get g'" by (simp add: fun_eq_iff hg_get_def)
  have "keeps_records g (g'\<lparr> next_round_to_order := n \<rparr>)"
    unfolding keeps_records_def get
  proof (intro allI impI)
    fix h r assume r: "hg_get g h = Some r"
    from ord have "hg_get g' h = hg_get g h \<or> h \<in> A \<and> (\<exists>ts. hg_get g' h =
        map_option (\<lambda>r. r\<lparr> er_round_received := Some k, er_timestamp := Some ts \<rparr>) (hg_get g h))"
      by (simp add: orders_in_def)
    with r pend [of h r] show "\<exists>r'. hg_get g' h = Some r' \<and> rec_settles r r'"
      by (auto simp: rec_settles_def)
  qed
  moreover have "orders_forward g (g'\<lparr> next_round_to_order := n \<rparr>)"
    unfolding orders_forward_def
  proof (intro conjI allI impI)
    fix h i assume i: "round_received (g'\<lparr> next_round_to_order := n \<rparr>) h = Some i"
    from ord have "hg_get g' h = hg_get g h \<or> (\<exists>ts. hg_get g' h =
        map_option (\<lambda>r. r\<lparr> er_round_received := Some k, er_timestamp := Some ts \<rparr>) (hg_get g h))"
      by (auto simp: orders_in_def)
    with i have "round_received g h = Some i \<or> i = k"
      by (auto simp: round_received_def get bind_eq_Some_conv)
    with k show "round_received g h = Some i \<or> next_round_to_order g \<le> i \<and> i < next_round_to_order (g'\<lparr> next_round_to_order := n \<rparr>)"
      by auto
  qed (use ord k in \<open>auto simp: orders_in_def\<close>)
  moreover have "same_rows g (g'\<lparr> next_round_to_order := n \<rparr>)"
    unfolding same_rows_def get using ord by (metis (no_types, lifting) orders_in_row)
  ultimately show ?thesis using ord by (auto simp: settles_def extends_def same_indexes_def orders_in_def)
qed

lemma hg_get_next [simp]: "hg_get (g\<lparr> next_round_to_order := n \<rparr>) = hg_get g"
  by (simp add: fun_eq_iff hg_get_def)

lemma hg_get_decided [simp]: "hg_get (g\<lparr> fully_decided_rounds := n \<rparr>) = hg_get g"
  by (simp add: fun_eq_iff hg_get_def)

lemma pending_None:
  assumes "hm_wf (events g)" "h \<in> set (pending_order_events g)" "hg_get g h = Some r"
  shows "er_round_received r = None"
proof -
  from assms(2) obtain s where "(h, s) \<in> set (events g)" "er_round_received s = None"
    by (auto simp: pending_order_events_def)
  with assms(1,3) show ?thesis by (metis hg_get_def map_of_Some_in option.inject)
qed

lemma assign_order_settles:
  assumes "assign_order (g\<lparr> next_round_to_order := n \<rparr>) k = Ok g1" "hm_wf (events g)"
    and "next_round_to_order g = k" "k < n"
  shows "settles g g1"
proof -
  let ?A = "set (pending_order_events g)"
  have *: "orders_in k ?A (g\<lparr> next_round_to_order := n \<rparr>) g1"
    using assign_order_orders [OF assms(1)] by (simp add: pending_order_events_def)
  then obtain es where es: "g1 = g\<lparr> next_round_to_order := n \<rparr>\<lparr> events := es \<rparr>" "map fst es = map fst (events g)"
    by (auto simp: orders_in_def)
  then have g1: "g1 = g\<lparr> events := es \<rparr>\<lparr> next_round_to_order := n \<rparr>" by simp
  have ord: "orders_in k ?A g (g\<lparr> events := es \<rparr>)"
    using * es by (auto simp: orders_in_def hg_get_def intro: exI [of _ es])
  show ?thesis
    unfolding g1 using assms(3,4) by (intro orders_in_settles [OF ord pending_None [OF assms(2)]]) auto
qed

lemma settles_hm_wf: "settles g g' \<Longrightarrow> hm_wf (events g') = hm_wf (events g)"
  by (simp add: settles_def same_indexes_def)

lemma u64_checked_add_1_less: "u64_checked_add a 1 = Some b \<Longrightarrow> a < b"
  using unat_u64_checked_add [of a 1 b] by (simp add: word_less_nat_alt)

lemma order_decided_rounds_settles:
  "order_decided_rounds g = Ok g' \<Longrightarrow> hm_wf (events g) \<Longrightarrow> settles g g'"
proof (induction g rule: order_decided_rounds.induct)
  case (1 g)
  note step = order_decided_rounds.simps [of g]
  show ?case
  proof (cases "next_round_to_order g \<in> fully_decided_rounds g")
    case False
    with 1(2) step show ?thesis by simp
  next
    case True
    with 1(2) step obtain n g1 where n: "u64_checked_add (next_round_to_order g) 1 = Some n"
      and g1: "assign_order (g\<lparr> next_round_to_order := n \<rparr>) (next_round_to_order g) = Ok g1"
      and rest: "order_decided_rounds g1 = Ok g'"
      by (auto split: option.splits result.splits)
    have "settles g g1" using assign_order_settles [OF g1 1(3) refl] u64_checked_add_1_less [OF n] by simp
    moreover have "settles g1 g'" using 1(1) [OF True n g1 rest] 1(3) settles_hm_wf calculation by blast
    ultimately show ?thesis by (rule settles_trans)
  qed
qed

lemma settles_mark_decided: "settles g (g\<lparr> fully_decided_rounds := D \<rparr>)" if "fully_decided_rounds g \<subseteq> D"
  using that by (auto simp: settles_def extends_def keeps_records_def orders_forward_def same_indexes_def same_rows_def round_received_def)

lemma note_round_settles:
  assumes "note_round_decided_if_complete g k = Ok g'" "hm_wf (events g)"
  shows "settles g g'"
proof -
  let ?g = "g\<lparr> fully_decided_rounds := insert k (fully_decided_rounds g) \<rparr>"
  from assms(1) have "g' = g \<or> order_decided_rounds ?g = Ok g'"
    by (auto simp: note_round_decided_if_complete_def split: if_splits)
  then show ?thesis
    using order_decided_rounds_settles [of ?g g'] settles_mark_decided [of g] settles_trans [of g ?g g'] assms(2) by auto
qed

lemma decide_fame_settles:
  assumes "decide_fame g w s = Ok g'" "hm_wf (events g)" "\<not> is_decided g w"
  shows "settles g g'"
proof -
  have "settles g (set_fame g w s)" by (rule settles_set_fame [OF assms(3)])
  moreover have "settles (set_fame g w s) g'"
    using assms(1,2) by (intro note_round_settles) (auto simp: decide_fame_def Let_def set_fame_def)
  ultimately show ?thesis by (rule settles_trans)
qed

subsection \<open>Voting\<close>

lemma conclude_vote_settles:
  assumes "conclude_vote g y w ry rw votes = Ok (g', out)" "hm_wf (events g)" "\<not> is_decided g w"
  shows "settles g g' \<and> (\<forall>v. out = Cast v \<longrightarrow> fame_of g' = fame_of g)"
  using assms by (auto simp: conclude_vote_def Let_def decide_fame_settles split: if_splits)

text \<open>The ways in which a vote ends: a value at hand, a fresh first-round vote, or an aggregation.\<close>

lemma vote_of_fuel_cases:
  assumes "vote_of_fuel (Suc fuel) g y w = Ok (g', out)"
  obtains (known) "g' = g"
  | (first) v where "g' = record_vote g y w v" "out = Cast v"
  | (aggregate) seen g1 o1 ry rw where "\<not> is_decided g w" "collect_votes fuel g seen w [] = Ok (g1, o1)"
      "case o1 of Inl s \<Rightarrow> g' = g1 \<and> out = Decided s | Inr vs \<Rightarrow> conclude_vote g1 y w ry rw vs = Ok (g', out)"
proof -
  from assms obtain yr wr where rec: "hg_get g y = Some yr" "hg_get g w = Some wr" by auto
  let ?fame = "case fame_of g w of None \<Rightarrow> Undecided | Some s \<Rightarrow> s"
  show thesis
  proof (cases "?fame \<noteq> Undecided \<or> vote_for yr w \<noteq> None")
    case True
    with assms rec known show ?thesis by (auto simp: Let_def split: if_splits option.splits)
  next
    case False
    then have und: "\<not> is_decided g w" by (auto simp: is_decided_def split: option.splits)
    from False assms rec obtain k where k: "u64_checked_add (er_round wr) 1 = Some k"
      by (auto simp: Let_def)
    show ?thesis
    proof (cases "er_round yr = k")
      case True
      with False assms rec k first show ?thesis by (auto simp: Let_def)
    next
      case False': False
      with False assms rec k obtain seen g1 o1 where "collect_votes fuel g seen w [] = Ok (g1, o1)"
        "(case o1 of Inl status \<Rightarrow> Ok (g1, Decided status)
          | Inr votes \<Rightarrow> conclude_vote g1 y w (er_round yr) (er_round wr) votes) = Ok (g', out)"
        by (auto simp: Let_def split: if_splits)
      with und show ?thesis
        by (intro aggregate [of seen g1 o1 "er_round yr" "er_round wr"]) (auto split: sum.splits)
    qed
  qed
qed

lemma is_decided_cong: "fame_of g' = fame_of g \<Longrightarrow> is_decided g' w = is_decided g w"
  by (simp add: is_decided_def)

lemma collect_votes_settles:
  assumes "\<And>g y g' out. vote_of_fuel n g y w = Ok (g', out) \<Longrightarrow> hm_wf (events g) \<Longrightarrow>
      settles g g' \<and> (\<forall>v. out = Cast v \<longrightarrow> fame_of g' = fame_of g)"
    and "collect_votes n g ss w acc = Ok (g', out)" "hm_wf (events g)"
  shows "settles g g' \<and> (\<forall>vs. out = Inr vs \<longrightarrow> fame_of g' = fame_of g)"
  using assms(2,3)
proof (induction ss arbitrary: g acc)
  case (Cons s ss)
  then obtain g1 o1 where v: "vote_of_fuel n g s w = Ok (g1, o1)"
    and rest: "(case o1 of Decided status \<Rightarrow> Ok (g1, Inl status) | Cast vote \<Rightarrow> collect_votes n g1 ss w (acc @ [vote])) = Ok (g', out)"
    by auto
  from assms(1) [OF v Cons.prems(2)] have "settles g g1" "\<And>x. o1 = Cast x \<Longrightarrow> fame_of g1 = fame_of g" by auto
  with rest Cons.IH [of g1] Cons.prems(2) show ?case
    by (cases o1) (auto simp: settles_hm_wf intro: settles_trans)
qed auto

lemma vote_of_fuel_settles:
  "vote_of_fuel n g y w = Ok (g', out) \<Longrightarrow> hm_wf (events g) \<Longrightarrow>
    settles g g' \<and> (\<forall>v. out = Cast v \<longrightarrow> fame_of g' = fame_of g)"
proof (induction n arbitrary: g y g' out)
  case (Suc n)
  from Suc.prems(1) show ?case
  proof (cases rule: vote_of_fuel_cases)
    case (aggregate seen g1 o1 ry rw)
    from collect_votes_settles [OF Suc.IH aggregate(2) Suc.prems(2)]
    have 1: "settles g g1" "\<And>vs. o1 = Inr vs \<Longrightarrow> fame_of g1 = fame_of g" by auto
    show ?thesis
    proof (cases o1)
      case (Inr vs)
      with aggregate(3) have c: "conclude_vote g1 y w ry rw vs = Ok (g', out)" by simp
      have "\<not> is_decided g1 w" using is_decided_cong [OF 1(2) [OF Inr]] aggregate(1) by simp
      from conclude_vote_settles [OF c _ this] Suc.prems(2) 1 Inr settles_hm_wf [OF 1(1)]
      show ?thesis by (auto intro: settles_trans)
    qed (use aggregate(3) 1 in auto)
  qed (use Suc.prems in auto)
qed simp

lemma vote_of_settles: "vote_of g y w = Ok (g', out) \<Longrightarrow> hm_wf (events g) \<Longrightarrow> settles g g'"
  unfolding vote_of_def using vote_of_fuel_settles by blast

lemma try_eager_decide_settles: "try_eager_decide g w = Ok g' \<Longrightarrow> hm_wf (events g) \<Longrightarrow> settles g g'"
  by (auto simp: try_eager_decide_def Let_def decide_fame_settles split: if_splits option.splits)

lemma vote_on_candidates_settles: "vote_on_candidates g y cs = Ok g' \<Longrightarrow> hm_wf (events g) \<Longrightarrow> settles g g'"
proof (induction cs arbitrary: g)
  case (Cons c cs)
  then obtain g1 o1 g2 where run: "vote_of g y c = Ok (g1, o1)" "try_eager_decide g1 c = Ok g2" "vote_on_candidates g2 y cs = Ok g'"
    by auto
  have s1: "settles g g1" by (rule vote_of_settles [OF run(1) Cons.prems(2)])
  have s2: "settles g1 g2" using run(2) Cons.prems(2) settles_hm_wf [OF s1] by (intro try_eager_decide_settles) auto
  have "settles g2 g'" using Cons.IH [OF run(3)] Cons.prems(2) settles_hm_wf [OF s1] settles_hm_wf [OF s2] by simp
  with s1 s2 show ?case by (blast intro: settles_trans)
qed auto

lemma backfill_round_settles: "backfill_round g vs y = Ok g' \<Longrightarrow> hm_wf (events g) \<Longrightarrow> settles g g'"
proof (induction vs arbitrary: g)
  case (Cons v vs)
  then obtain g1 o1 where run: "vote_of g v y = Ok (g1, o1)" "backfill_round g1 vs y = Ok g'" by auto
  have s1: "settles g g1" by (rule vote_of_settles [OF run(1) Cons.prems(2)])
  have "settles g1 g'" using Cons.IH [OF run(2)] Cons.prems(2) settles_hm_wf [OF s1] by simp
  with s1 show ?case by (rule settles_trans)
qed auto

lemma backfill_loop_settles: "backfill_loop g y k n = Ok g' \<Longrightarrow> hm_wf (events g) \<Longrightarrow> settles g g'"
proof (induction g y k n rule: backfill_loop.induct)
  case (1 g y k n)
  show ?case
  proof (cases "n < k \<or> is_decided g y")
    case True
    with 1(2) show ?thesis by (auto simp: backfill_loop.simps [of g] split: if_splits)
  next
    case False
    with 1(2) obtain g1 g2 where g1: "backfill_round g (witnesses_of_round g k) y = Ok g1"
      and g2: "(if fame_of g1 y = Some Undecided then try_eager_decide g1 y else Ok g1) = Ok g2"
      and rest: "(if fame_of g1 y = Some Undecided \<and> is_decided g2 y then Ok g2
        else if k = n then Ok g2 else backfill_loop g2 y (k + 1) n) = Ok g'"
      by (auto simp: backfill_loop.simps [of g])
    have s1: "settles g g1" by (rule backfill_round_settles [OF g1 1(3)])
    have s2: "settles g1 g2" using g2 try_eager_decide_settles [of g1 y g2] 1(3) settles_hm_wf [OF s1] by (auto split: if_splits)
    have "settles g2 g'"
      using rest 1(1) [of g1 g2] False g1 g2 1(3) settles_hm_wf [OF s1] settles_hm_wf [OF s2] by (auto split: if_splits)
    with s1 s2 show ?thesis by (blast intro: settles_trans)
  qed
qed

lemma vote_as_witness_settles:
  assumes "vote_as_witness g y = Ok g'" "hm_wf (events g)"
  shows "settles g g'"
proof -
  from assms(1) obtain cs k g1 g2 where "vote_on_candidates g y cs = Ok g1" "backfill_loop g1 y k (highest_witness_round g1) = Ok g2"
    and "(if fame_of g2 y = Some Undecided then try_eager_decide g2 y else Ok g2) = Ok g'"
    by (auto simp: vote_as_witness_def Let_def)
  note run = this
  have s1: "settles g g1" by (rule vote_on_candidates_settles [OF run(1) assms(2)])
  have s2: "settles g1 g2" using run(2) assms(2) settles_hm_wf [OF s1] by (intro backfill_loop_settles) auto
  have "settles g2 g'"
    using run(3) assms(2) settles_hm_wf [OF s1] settles_hm_wf [OF s2] by (auto simp: try_eager_decide_settles split: if_splits)
  with s1 s2 show ?thesis by (blast intro: settles_trans)
qed

subsection \<open>Insertion\<close>

lemma if_Err_Ok_iff: "(if b then Err e else m) = Ok x \<longleftrightarrow> \<not> b \<and> m = Ok x"
  by simp

lemma hg_insert_OkE:
  assumes "hg_insert sha g ev = Ok (g', h)"
  obtains idx sp op g1 g2 g3 where "hash_Event sha (into_inner ev) = Ok h" "hg_get g h = None"
    "map_of (member_index g) (ev_creator (into_inner ev)) = Some idx"
    "find_parent g (ev_self_parent (into_inner ev)) = Ok sp" "find_parent g (ev_other_parent (into_inner ev)) = Ok op"
    "\<And>r. sp = Some r \<Longrightarrow> ev_creator (er_event r) = ev_creator (into_inner ev)"
    "place_event g (into_inner ev) h idx sp op = Ok g1"
    "finalize_round g1 h (base_round (map_option er_round sp) (map_option er_round op)) (map_option er_round sp) = Ok g2"
    "(if (case hg_get g2 h of None \<Rightarrow> False | Some r \<Rightarrow> er_is_witness r) then vote_as_witness g2 h else Ok g2) = Ok g3"
    "note_round_decided_if_complete g3 (next_round_to_order g3) = Ok g'"
proof -
  let ?bad = "\<lambda>sp. case sp of None \<Rightarrow> False | Some r \<Rightarrow> ev_creator (er_event r) \<noteq> ev_creator (into_inner ev)"
  from assms obtain idx sp op g1 g2 g3 where run: "hash_Event sha (into_inner ev) = Ok h" "hg_get g h = None"
    "map_of (member_index g) (ev_creator (into_inner ev)) = Some idx"
    "find_parent g (ev_self_parent (into_inner ev)) = Ok sp" "find_parent g (ev_other_parent (into_inner ev)) = Ok op"
    "\<not> ?bad sp" "place_event g (into_inner ev) h idx sp op = Ok g1"
    "finalize_round g1 h (base_round (map_option er_round sp) (map_option er_round op)) (map_option er_round sp) = Ok g2"
    "(if (case hg_get g2 h of None \<Rightarrow> False | Some r \<Rightarrow> er_is_witness r) then vote_as_witness g2 h else Ok g2) = Ok g3"
    "note_round_decided_if_complete g3 (next_round_to_order g3) = Ok g'"
    unfolding hg_insert_def Let_def andThen_Ok_iff map_ok_Ok_iff map_err_Ok_iff ok_or_Ok_iff if_Err_Ok_iff by blast
  from run(6) have "ev_creator (er_event r) = ev_creator (into_inner ev)" if "sp = Some r" for r
    using that by simp
  then show thesis by (rule that [OF run(1-5) _ run(7-10)])
qed

lemma note_branch_OkE:
  assumes "note_branch g key idx h = Ok g'"
  obtains fc ks where "g' = g\<lparr> first_child := fc, known_forkers := ks \<rparr>"
proof -
  have "\<exists>fc ks. g' = g\<lparr> first_child := fc, known_forkers := ks \<rparr>"
    using assms by (auto simp: note_branch_def write_at_def split: option.splits if_splits)
      (metis Hashgraph.surjective Hashgraph.update_convs(3,9))+
  then show thesis using that by blast
qed

lemma place_event_OkE:
  assumes "place_event g event h idx sp op = Ok g1"
  obtains seq row where
    "events g1 = AList.update h (fresh_record event seq row (base_round (map_option er_round sp) (map_option er_round op))) (events g)"
    "next_round_to_order g1 = next_round_to_order g" "fully_decided_rounds g1 = fully_decided_rounds g"
    "witnesses_by_round g1 = witnesses_by_round g" "undecided_witnesses g1 = undecided_witnesses g"
    "highest_witness_round g1 = highest_witness_round g" "member_index g1 = member_index g"
    "member_count g1 = member_count g" "roster_history g1 = roster_history g"
proof -
  from assms obtain seq row g0 where g0: "note_branch g (ev_creator event, ev_self_parent event) idx h = Ok g0"
    and g1: "g1 = store_event (link_children (event_parents event) h
      (note_latest (note_seq g0 (ev_creator event) seq h) (ev_creator event) seq h))
       h (fresh_record event seq row (base_round (map_option er_round sp) (map_option er_round op)))"
    unfolding place_event_def by auto
  from g0 obtain fc ks where "g0 = g\<lparr> first_child := fc, known_forkers := ks \<rparr>" by (rule note_branch_OkE)
  with g1 show thesis
    by (intro that [of seq row]) (auto simp: store_event_def link_children_def note_latest_def note_seq_def split: option.splits)
qed

lemma finalize_round_OkE:
  assumes "finalize_round g h base spr = Ok g'"
  obtains k w where "events g' = events (set_event_round g h k w)"
    "next_round_to_order g' = next_round_to_order g" "fully_decided_rounds g' = fully_decided_rounds g"
    "k = base \<or> u64_checked_add base 1 = Some k" "w = (case spr of None \<Rightarrow> True | Some r \<Rightarrow> r < k)"
    "g' = (if w then record_witness (set_event_round g h k w) k h else set_event_round g h k w)"
proof -
  from assms obtain c n k where k: "(if (n :: nat) * 2 < c * 3 then ok_or_panic (u64_checked_add base 1) else Ok base) = (Ok k :: u64 hg_result)"
    and g': "Ok (if (case spr of None \<Rightarrow> True | Some r \<Rightarrow> r < k)
       then record_witness (set_event_round g h k (case spr of None \<Rightarrow> True | Some r \<Rightarrow> r < k)) k h
       else set_event_round g h k (case spr of None \<Rightarrow> True | Some r \<Rightarrow> r < k)) = (Ok g' :: Hashgraph hg_result)"
    unfolding finalize_round_def Let_def andThen_Ok_iff by blast
  from k have "k = base \<or> u64_checked_add base 1 = Some k" by (auto split: if_splits)
  with g' show thesis
    by (intro that [of k "case spr of None \<Rightarrow> True | Some r \<Rightarrow> r < k"])
      (auto simp: record_witness_def set_event_round_def split: if_splits)
qed

text \<open>A stored event is new until its round is fixed, and unordered.\<close>

lemma placed_extends:
  assumes place: "place_event g event h idx sp op = Ok g1" and final: "finalize_round g1 h base spr = Ok g2"
    and new: "hg_get g h = None"
  shows "extends g g2" "hm_wf (events g) \<Longrightarrow> hm_wf (events g2)"
proof -
  from place obtain seq row r0 where ev: "events g1 = AList.update h r0 (events g)" and r0: "er_round_received r0 = None"
    and same: "next_round_to_order g1 = next_round_to_order g" "fully_decided_rounds g1 = fully_decided_rounds g"
    by (rule place_event_OkE) (auto simp: fresh_record_def)
  from final obtain k w where ev2: "events g2 = events (set_event_round g1 h k w)"
    and same2: "next_round_to_order g2 = next_round_to_order g1" "fully_decided_rounds g2 = fully_decided_rounds g1"
    by (rule finalize_round_OkE) blast
  have get: "hg_get g2 h' = (if h' = h then Some (r0\<lparr> er_round := k, er_is_witness := w \<rparr>) else hg_get g h')" for h'
    using ev ev2 by (simp add: hg_get_def set_event_round_def map_of_modify update_conv')
  show "extends g g2"
    using new r0 same same2 by (auto simp: extends_def keeps_records_def orders_forward_def round_received_def get)
  show "hm_wf (events g) \<Longrightarrow> hm_wf (events g2)"
    using ev ev2 by (simp add: set_event_round_def)
qed

lemma hg_insert_extends:
  assumes "hg_insert sha g ev = Ok (g', h)" "hm_wf (events g)"
  shows "extends g g' \<and> hm_wf (events g')"
  using assms(1)
proof (rule hg_insert_OkE)
  fix idx sp op g1 g2 g3
  assume run: "hg_get g h = None" "place_event g (into_inner ev) h idx sp op = Ok g1"
    "finalize_round g1 h (base_round (map_option er_round sp) (map_option er_round op)) (map_option er_round sp) = Ok g2"
    "(if (case hg_get g2 h of None \<Rightarrow> False | Some r \<Rightarrow> er_is_witness r) then vote_as_witness g2 h else Ok g2) = Ok g3"
    "note_round_decided_if_complete g3 (next_round_to_order g3) = Ok g'"
  have 2: "extends g g2" "hm_wf (events g2)" using placed_extends [OF run(2,3,1)] assms(2) by auto
  have 3: "settles g2 g3" using run(4) vote_as_witness_settles [OF _ 2(2)] by (auto split: if_splits)
  have 4: "settles g3 g'" using note_round_settles [OF run(5)] settles_hm_wf [OF 3] 2(2) by simp
  show ?thesis
    using 2 settles_extends [OF 3] settles_extends [OF 4] settles_hm_wf [OF 3] settles_hm_wf [OF 4] extends_trans by metis
qed

subsection \<open>The consensus order\<close>

lemma map_of_rev_wf: "hm_wf m \<Longrightarrow> map_of (rev m) = map_of m"
  by (subst map_of_inject_set) (simp_all flip: rev_map)

lemma inj_order_key: "inj_on (order_key g) A"
  by (rule inj_onI) (auto simp: order_key_def split: option.splits)

lemma sort_key_cong_set: "(\<And>x. x \<in> set xs \<Longrightarrow> f x = f' x) \<Longrightarrow> sort_key f xs = sort_key f' xs"
proof (induction xs)
  case (Cons x xs)
  have "insort_key f x ys = insort_key f' x ys" if "\<forall>y \<in> insert x (set ys). f y = f' y" for ys
    using that by (induction ys) auto
  with Cons show ?case by simp
qed simp

lemma consensus_order_set: "set (consensus_order g k) = {h. round_received g h = Some k}"
  by (force simp: consensus_order_def all_event_hashes_def round_received_def hg_get_def bind_eq_Some_conv dest: map_of_SomeD)

lemma consensus_order_sorted: "sorted (map (order_key g) (consensus_order g k))"
  by (simp add: consensus_order_def)

lemma consensus_order_distinct: "hm_wf (events g) \<Longrightarrow> distinct (consensus_order g k)"
  by (simp add: consensus_order_def all_event_hashes_def)

text \<open>The order of a round is the sorted list of the records received in it, nothing else.\<close>

lemma consensus_order_cong:
  assumes wf: "hm_wf (events g)" "hm_wf (events g')"
    and "\<And>h. round_received g' h = Some k \<longleftrightarrow> round_received g h = Some k"
    and key: "\<And>h. round_received g h = Some k \<Longrightarrow> order_key g' h = order_key g h"
  shows "consensus_order g' k = consensus_order g k"
proof -
  let ?f = "\<lambda>g. filter (\<lambda>h. round_received g h = Some k) (all_event_hashes g)"
  have same: "set (consensus_order g' k) = set (consensus_order g k)" using assms(3) by (simp add: consensus_order_set)
  then have "mset (consensus_order g' k) = mset (consensus_order g k)"
    using consensus_order_distinct [OF wf(1)] consensus_order_distinct [OF wf(2)] by (metis set_eq_iff_mset_eq_distinct)
  then have "mset (?f g') = mset (consensus_order g k)" by (simp add: consensus_order_def)
  moreover have eq: "map (order_key g') (consensus_order g k) = map (order_key g) (consensus_order g k)"
    using key by (intro map_cong refl) (simp add: consensus_order_set)
  have "sorted (map (order_key g') (consensus_order g k))"
    unfolding eq by (rule consensus_order_sorted)
  ultimately show ?thesis
    unfolding consensus_order_def [of g'] by (intro sort_key_inj_key_eq inj_order_key)
qed

lemma extends_consensus_order:
  assumes ext: "extends g g'" and wf: "hm_wf (events g)" "hm_wf (events g')" and k: "k < next_round_to_order g"
  shows "consensus_order g' k = consensus_order g k"
proof (rule consensus_order_cong [OF wf])
  have keep: "hg_get g h = Some r \<Longrightarrow> \<exists>r'. hg_get g' h = Some r' \<and> rec_settles r r'" for h r
    using ext by (auto simp: extends_def keeps_records_def)
  show "round_received g' h = Some k \<longleftrightarrow> round_received g h = Some k" for h
  proof
    assume "round_received g' h = Some k"
    with ext k show "round_received g h = Some k" unfolding extends_def orders_forward_def by (metis not_le)
  next
    assume "round_received g h = Some k"
    then obtain r where "hg_get g h = Some r" "er_round_received r = Some k" by (auto simp: round_received_def bind_eq_Some_conv)
    with keep show "round_received g' h = Some k" by (fastforce simp: round_received_def rec_settles_def)
  qed
  show "order_key g' h = order_key g h" if "round_received g h = Some k" for h
  proof -
    from that obtain r where "hg_get g h = Some r" "er_round_received r = Some k" by (auto simp: round_received_def bind_eq_Some_conv)
    with keep show ?thesis by (fastforce simp: order_key_def rec_settles_def)
  qed
qed

lemma extends_fame: "extends g g' \<Longrightarrow> fame_of g w = Some s \<Longrightarrow> s \<noteq> Undecided \<Longrightarrow> fame_of g' w = Some s"
  unfolding extends_def keeps_records_def fame_of_def rec_settles_def
  by (auto simp: bind_eq_Some_conv split: if_splits) (metis option.inject)+

subsection \<open>Live steps\<close>

text \<open>
  What a running node does to its graph between two prunings: insert a verified event, admit
  a member, take over a watermark.
\<close>

inductive live_step :: "hash_fn \<Rightarrow> Hashgraph \<Rightarrow> Hashgraph \<Rightarrow> bool" for sha where
  insert_step: "hg_insert sha g ev = Ok (g', h) \<Longrightarrow> live_step sha g g'"
| add_member_step: "add_member g node k reg = Ok g' \<Longrightarrow> live_step sha g g'"
| mark_step: "mark_decided_through g k = Ok g' \<Longrightarrow> live_step sha g g'"

lemma hg_get_map_events: "hg_get (g\<lparr> events := map (\<lambda>(h, r). (h, f r)) (events g) \<rparr>) h = map_option f (hg_get g h)"
  by (simp add: hg_get_def map_of_map)

lemma add_member_extends:
  assumes "add_member g node k reg = Ok g'" "hm_wf (events g)"
  shows "extends g g' \<and> hm_wf (events g')"
proof -
  let ?f = "\<lambda>r. r\<lparr> er_ancestor_seqs := er_ancestor_seqs r @ [0] \<rparr>"
  from assms(1) have g': "hg_get g' h = map_option ?f (hg_get g h)" "next_round_to_order g' = next_round_to_order g"
    "fully_decided_rounds g' = fully_decided_rounds g" "map fst (events g') = map fst (events g)" for h
    by (auto simp: add_member_def hg_get_def map_of_map comp_def split_beta split: if_splits)
  then show ?thesis
    using assms(2) by (auto simp: extends_def keeps_records_def orders_forward_def round_received_def rec_settles_def bind_eq_Some_conv)
qed

lemma mark_decided_extends:
  assumes "mark_decided_through g k = Ok g'" "hm_wf (events g)"
  shows "extends g g' \<and> hm_wf (events g')"
proof -
  let ?g = "g\<lparr> fully_decided_rounds := fully_decided_rounds g \<union> {next_round_to_order g..k} \<rparr>"
  from assms(1) have "order_decided_rounds ?g = Ok g'" by (auto simp: mark_decided_through_def Let_def split: if_splits)
  then have s: "settles ?g g'" using assms(2) by (intro order_decided_rounds_settles) auto
  moreover have "settles g ?g" by (rule settles_mark_decided) auto
  ultimately have "settles g g'" by (rule settles_trans [rotated])
  then show ?thesis using assms(2) settles_hm_wf settles_extends by blast
qed

lemma live_step_extends: "live_step sha g g' \<Longrightarrow> hm_wf (events g) \<Longrightarrow> extends g g' \<and> hm_wf (events g')"
  by (induction rule: live_step.induct) (auto dest: hg_insert_extends add_member_extends mark_decided_extends)

lemma live_steps_extend: "(live_step sha)\<^sup>*\<^sup>* g g' \<Longrightarrow> hm_wf (events g) \<Longrightarrow> extends g g' \<and> hm_wf (events g')"
  by (induction rule: rtranclp_induct) (auto dest: live_step_extends intro: extends_trans)

subsection \<open>Properties\<close>

text \<open>
  Property C1. Finality: whatever a running node does, insert events, admit members,
  take over a watermark, the order of a round that has been ordered is never touched
  again: no event joins it, leaves it or moves in it. A fame decision, once made, stays.
\<close>

theorem order_is_final:
  assumes "(live_step sha)\<^sup>*\<^sup>* g g'" "hm_wf (events g)" "k < next_round_to_order g"
  shows "consensus_order g' k = consensus_order g k \<and>
    (\<forall>w s. fame_of g w = Some s \<and> s \<noteq> Undecided \<longrightarrow> fame_of g' w = Some s)"
  using live_steps_extend [OF assms(1,2)] extends_consensus_order [OF _ assms(2) _ assms(3)] extends_fame by blast

theorem order_is_final_witness:
  "consensus_order sample_graph 1 = [sample_hash 1] \<and> consensus_order sample_final 1 = [sample_hash 1] \<and>
   fame_of sample_final (sample_hash 1) = Some Famous"
proof -
  have step: "(live_step sample_digest)\<^sup>*\<^sup>* sample_graph sample_final"
    using sample_insert by (blast intro: live_step.intros)
  have g: "hm_wf (events sample_graph)" "1 < next_round_to_order sample_graph" "fame_of sample_graph (sample_hash 1) = Some Famous"
    "consensus_order sample_graph 1 = [sample_hash 1]"
    by (simp_all add: sample_graph_def sample_base_def sample_record_simps fame_of_def hg_get_def consensus_order_def
        all_event_hashes_def round_received_def)
  show ?thesis using order_is_final [OF step g(1,2)] g(3,4) by simp
qed

text \<open>
  Property C5. The consensus order of a round is a function of the records alone: it
  lists exactly the events received in the round, each once, in strictly ascending order
  of timestamp, signature fold and hash; two graphs with the same records, in whatever
  order their maps iterate, give the same list.
\<close>

theorem consensus_order_canonical:
  assumes "hm_wf (events g)" "hm_wf (events g')" "map_of (events g) = map_of (events g')"
  shows "set (consensus_order g k) = {h. round_received g h = Some k} \<and>
    sorted_wrt (\<lambda>a b. order_key g a < order_key g b) (consensus_order g k) \<and>
    consensus_order g k = consensus_order g' k"
proof -
  have "distinct (map (order_key g) (consensus_order g k))"
    using consensus_order_distinct [OF assms(1)] by (simp add: distinct_map inj_order_key)
  then have "sorted_wrt (<) (map (order_key g) (consensus_order g k))"
    using consensus_order_sorted [of g k] by (simp add: strict_sorted_iff)
  then have "sorted_wrt (\<lambda>a b. order_key g a < order_key g b) (consensus_order g k)"
    by (simp add: sorted_wrt_map)
  moreover have "hg_get g' h = hg_get g h" for h using assms(3) by (simp add: hg_get_def)
  then have "consensus_order g' k = consensus_order g k"
    using assms(1,2) by (intro consensus_order_cong) (simp_all add: round_received_def order_key_def)
  ultimately show ?thesis by (simp add: consensus_order_set)
qed

theorem consensus_order_canonical_witness:
  "rev (events sample_final) \<noteq> events sample_final \<and>
   consensus_order sample_final 1 = consensus_order (sample_final\<lparr> events := rev (events sample_final) \<rparr>) 1"
proof -
  have ev: "map fst (events sample_final) = [sample_hash 1, sample_hash 2]"
    by (simp add: sample_final_def sample_finalized_def record_witness_def set_event_round_def sample_placed_def)
  then have wf: "hm_wf (events sample_final)" "hm_wf (rev (events sample_final))" by (simp_all flip: rev_map)
  have "rev (map fst (events sample_final)) \<noteq> map fst (events sample_final)" by (simp add: ev)
  then have "rev (events sample_final) \<noteq> events sample_final" by (metis rev_map)
  with consensus_order_canonical [of sample_final "sample_final\<lparr> events := rev (events sample_final) \<rparr>" 1] wf
  show ?thesis by (simp add: map_of_rev_wf)
qed

end
