(* ===== verification/Pruning.thy ===== *)
theory Pruning
  imports Finality
begin

section \<open>Pruning\<close>

text \<open>
  What pruning removes and what it must keep: the order of the retained rounds, the parents
  of live events, and for every creator a frontier, so that no member restarts its chain.
\<close>

subsection \<open>Removing events\<close>

lemma map_of_remove_if_points:
  "map_of (remove_if_points k v m) k' = (if k' = k \<and> map_of m k = Some v then None else map_of m k')"
  by (simp add: remove_if_points_def delete_conv')

lemma hg_get_remove_event: "hg_get (remove_event h g) h' = (if h' = h then None else hg_get g h')"
  by (auto simp: remove_event_def hg_get_def delete_conv' Let_def split: option.splits)

lemma hg_get_remove_events: "hg_get (fold remove_event hs g) h = (if h \<in> set hs then None else hg_get g h)"
  by (induction hs arbitrary: g) (auto simp: hg_get_remove_event)

definition same_frame :: "Hashgraph \<Rightarrow> Hashgraph \<Rightarrow> bool" where
  "same_frame g g' \<longleftrightarrow> member_index g' = member_index g \<and> member_count g' = member_count g \<and>
     roster_history g' = roster_history g \<and> known_forkers g' = known_forkers g \<and>
     witnesses_by_round g' = witnesses_by_round g \<and> undecided_witnesses g' = undecided_witnesses g \<and>
     highest_witness_round g' = highest_witness_round g \<and> fully_decided_rounds g' = fully_decided_rounds g \<and>
     next_round_to_order g' = next_round_to_order g \<and> (hm_wf (events g) \<longrightarrow> hm_wf (events g'))"

lemma same_frame_fold: "(\<And>x g. same_frame g (f x g)) \<Longrightarrow> same_frame g (fold f xs g)"
proof (induction xs arbitrary: g)
  case (Cons x xs)
  have "same_frame g (f x g)" "same_frame (f x g) (fold f xs (f x g))" using Cons by auto
  then show ?case by (simp add: same_frame_def)
qed (simp add: same_frame_def)

lemma same_frame_remove_event: "same_frame g (remove_event h g)"
  by (auto simp: remove_event_def same_frame_def Let_def split: option.splits)

lemma same_frame_repoint_tip: "same_frame g (repoint_tip c g)"
  by (auto simp: repoint_tip_def same_frame_def split: option.splits)

lemma repoint_tips_frame [simp]:
  "events (fold repoint_tip cs g) = events g" "by_creator_seq (fold repoint_tip cs g) = by_creator_seq g"
proof -
  have "events (repoint_tip c g) = events g" "by_creator_seq (repoint_tip c g) = by_creator_seq g" for c g
    by (auto simp: repoint_tip_def split: option.splits)
  then show "events (fold repoint_tip cs g) = events g" "by_creator_seq (fold repoint_tip cs g) = by_creator_seq g"
    by (induction cs arbitrary: g) auto
qed

lemma hg_get_repoint_tips [simp]: "hg_get (fold repoint_tip cs g) = hg_get g"
  by (simp add: fun_eq_iff hg_get_def)

lemma hg_get_drop_witnesses [simp]: "hg_get (drop_witnesses ps g) = hg_get g"
  by (simp add: fun_eq_iff hg_get_def drop_witnesses_def)

lemma hg_get_roster [simp]: "hg_get (g\<lparr> roster_history := rh \<rparr>) = hg_get g"
  by (simp add: fun_eq_iff hg_get_def)

subsection \<open>The pruned set\<close>

lemma prune_set_iff:
  assumes "hm_wf (events g)"
  shows "h \<in> set (prune_set g t) \<longleftrightarrow> (\<exists>r. hg_get g h = Some r \<and> expired t r) \<and>
    (\<forall>h' r'. hg_get g h' = Some r' \<and> \<not> expired t r' \<longrightarrow> h \<notin> set (parents_of r'))"
proof -
  have mem: "(h, r) \<in> set (events g) \<longleftrightarrow> hg_get g h = Some r" for h r
    using assms by (simp add: hg_get_def map_of_Some_in)
  show ?thesis unfolding prune_set_def Let_def by (force simp: mem parents_of_def)
qed

lemma prune_before_round_cases:
  assumes "prune_before_round g t = Ok (g', pruned)" "hm_wf (events g)"
  shows "t < next_round_to_order g" "hg_get g' h = (if h \<in> set pruned then None else hg_get g h)" "hm_wf (events g')"
    "pruned = [] \<or> pruned = prune_set g t"
    "h \<in> set pruned \<longleftrightarrow> h \<in> set (prune_set g t)"
proof -
  let ?g1 = "fold remove_event (prune_set g t) g"
  let ?tips = "map fst (filter (\<lambda>(_, tip). tip \<in> set (prune_set g t)) (latest_by_creator g))"
  have all: "prune_set g t = []" if "\<not> list_ex (\<lambda>(_, r). expired t r) (events g)"
    using that by (force simp: prune_set_def list_ex_iff filter_empty_conv)
  consider "g' = g" "pruned = []" "prune_set g t = []"
    | "pruned = prune_set g t" "g' = (drop_witnesses pruned (fold repoint_tip ?tips ?g1))\<lparr> roster_history :=
        prune_before (roster_history (drop_witnesses pruned (fold repoint_tip ?tips ?g1))) t \<rparr>"
    using assms(1) all by (auto simp: prune_before_round_def Let_def split: if_splits)
  then have "hg_get g' h = (if h \<in> set pruned then None else hg_get g h) \<and> hm_wf (events g') \<and>
    (pruned = [] \<or> pruned = prune_set g t) \<and> (h \<in> set pruned \<longleftrightarrow> h \<in> set (prune_set g t))"
  proof cases
    case 2
    have "hm_wf (events ?g1)"
      using same_frame_fold [of remove_event, OF same_frame_remove_event] assms(2) by (simp add: same_frame_def)
    with 2 show ?thesis by (simp add: hg_get_remove_events) (simp add: drop_witnesses_def)
  qed (use assms(2) in auto)
  then show "hg_get g' h = (if h \<in> set pruned then None else hg_get g h)" "hm_wf (events g')"
    "pruned = [] \<or> pruned = prune_set g t" "h \<in> set pruned \<longleftrightarrow> h \<in> set (prune_set g t)" by auto
  show "t < next_round_to_order g" using assms(1) by (auto simp: prune_before_round_def split: if_splits)
qed

lemma prune_consensus_order:
  assumes "prune_before_round g t = Ok (g', pruned)" "hm_wf (events g)" "t \<le> k"
  shows "consensus_order g' k = consensus_order g k"
proof (rule consensus_order_cong [OF assms(2) prune_before_round_cases(3) [OF assms(1,2)]])
  note prune = prune_before_round_cases(2,5) [OF assms(1,2)] prune_set_iff [OF assms(2)]
  have keep: "hg_get g' h = hg_get g h" if "round_received g h = Some k" for h
    using that assms(3) prune(1,2) [of h] prune(3) [of h t]
    by (auto simp: round_received_def bind_eq_Some_conv expired_def)
  show "round_received g' h = Some k \<longleftrightarrow> round_received g h = Some k" for h
    using keep [of h] prune(1) [of h] by (auto simp: round_received_def split: if_splits)
  show "order_key g' h = order_key g h" if "round_received g h = Some k" for h
    using keep [OF that] by (simp add: order_key_def)
qed

subsection \<open>The frontier\<close>

text \<open>The sequence index points to stored events under their own key, and so does the frontier.\<close>

definition index_sound :: "Hashgraph \<Rightarrow> bool" where
  "index_sound g \<longleftrightarrow>
     (\<forall>c s h. map_of (by_creator_seq g) (c, s) = Some h \<longrightarrow>
        (\<exists>r. hg_get g h = Some r \<and> ev_creator (er_event r) = c \<and> er_seq r = s)) \<and>
     (\<forall>c h. map_of (latest_by_creator g) c = Some h \<longrightarrow> (\<exists>r. hg_get g h = Some r \<and> ev_creator (er_event r) = c))"

lemma remove_event_index:
  assumes "index_sound g"
  shows "map_of (by_creator_seq (remove_event h g)) k =
      (if map_of (by_creator_seq g) k = Some h then None else map_of (by_creator_seq g) k)"
    "map_of (latest_by_creator (remove_event h g)) c =
      (if map_of (latest_by_creator g) c = Some h then None else map_of (latest_by_creator g) c)"
    "index_sound (remove_event h g)"
proof -
  have by_seq: "map_of (by_creator_seq (remove_event h g)) k =
      (if map_of (by_creator_seq g) k = Some h then None else map_of (by_creator_seq g) k)" for k
  proof (cases "map_of (by_creator_seq g) k = Some h")
    case True
    with assms obtain r where "hg_get g h = Some r" "k = (ev_creator (er_event r), er_seq r)"
      unfolding index_sound_def by (metis surj_pair)
    with True show ?thesis by (simp add: remove_event_def Let_def map_of_remove_if_points)
  qed (auto simp: remove_event_def Let_def map_of_remove_if_points split: option.splits)
  have latest: "map_of (latest_by_creator (remove_event h g)) c =
      (if map_of (latest_by_creator g) c = Some h then None else map_of (latest_by_creator g) c)" for c
  proof (cases "map_of (latest_by_creator g) c = Some h")
    case True
    with assms obtain r where "hg_get g h = Some r" "c = ev_creator (er_event r)"
      unfolding index_sound_def by metis
    with True show ?thesis by (simp add: remove_event_def Let_def map_of_remove_if_points)
  qed (auto simp: remove_event_def Let_def map_of_remove_if_points split: option.splits)
  from by_seq latest assms show "index_sound (remove_event h g)"
    unfolding index_sound_def hg_get_remove_event by (auto split: if_splits)
  from by_seq latest show "map_of (by_creator_seq (remove_event h g)) k =
      (if map_of (by_creator_seq g) k = Some h then None else map_of (by_creator_seq g) k)"
    "map_of (latest_by_creator (remove_event h g)) c =
      (if map_of (latest_by_creator g) c = Some h then None else map_of (latest_by_creator g) c)" .
qed

definition survivor :: "EventHash list \<Rightarrow> EventHash option \<Rightarrow> EventHash option" where
  "survivor hs v = (case v of None \<Rightarrow> None | Some h \<Rightarrow> if h \<in> set hs then None else Some h)"

lemma remove_events_index:
  "index_sound g \<Longrightarrow> map_of (by_creator_seq (fold remove_event hs g)) k = survivor hs (map_of (by_creator_seq g) k) \<and>
     map_of (latest_by_creator (fold remove_event hs g)) c = survivor hs (map_of (latest_by_creator g) c) \<and>
     index_sound (fold remove_event hs g)"
  by (induction hs arbitrary: g) (auto simp: remove_event_index survivor_def split: option.splits if_splits)

text \<open>The survivor with the highest sequence number is found.\<close>

lemma best_survivor_fold:
  fixes xs :: "((NodeId \<times> u64) \<times> EventHash) list" and creator :: NodeId
  defines "step \<equiv> \<lambda>((c, seq), h) best. if c \<noteq> creator then best else case best of
     Some (best_seq, _) \<Rightarrow> if seq \<le> best_seq then best else Some (seq, h) | None \<Rightarrow> Some (seq, h)"
  shows "case fold step xs b of
     None \<Rightarrow> b = None \<and> (\<forall>s h. ((creator, s), h) \<notin> set xs)
   | Some (s, h) \<Rightarrow> (b = Some (s, h) \<or> ((creator, s), h) \<in> set xs) \<and>
       (\<forall>s' h'. ((creator, s'), h') \<in> set xs \<or> b = Some (s', h') \<longrightarrow> s' \<le> s)"
proof (induction xs arbitrary: b)
  case (Cons x xs)
  obtain c q e where x: "x = ((c, q), e)" by (metis surj_pair)
  note IH = Cons.IH [of "step x b"]
  show ?case
  proof (cases "fold step xs (step x b)")
    case None
    with IH show ?thesis by (cases b) (auto simp: x step_def split: if_splits)
  next
    case (Some p)
    obtain t k where p: "p = (t, k)" by (metis surj_pair)
    have t: "step x b = Some (t, k) \<or> ((creator, t), k) \<in> set xs"
      "\<And>s' h'. ((creator, s'), h') \<in> set xs \<or> step x b = Some (s', h') \<Longrightarrow> s' \<le> t"
      using IH Some p by auto
    have "b = Some (t, k) \<or> ((creator, t), k) \<in> set (x # xs)"
      using t(1) by (cases b) (auto simp: x step_def split: if_splits)
    moreover have "s' \<le> t" if "((creator, s'), h') \<in> set (x # xs) \<or> b = Some (s', h')" for s' h'
      using that t(2) by (cases b) (force simp: x step_def split: if_splits)+
    ultimately show ?thesis using Some p by auto
  qed
qed (auto split: option.splits)

lemma best_survivor_None: "best_survivor g c = None \<Longrightarrow> map_of (by_creator_seq g) (c, s) = None"
  using best_survivor_fold [where xs = "by_creator_seq g" and b = None and creator = c]
  by (fastforce simp: best_survivor_def map_of_eq_None_iff)

lemma best_survivor_Some:
  assumes "best_survivor g c = Some (s, h)" "hm_wf (by_creator_seq g)"
  shows "map_of (by_creator_seq g) (c, s) = Some h" "map_of (by_creator_seq g) (c, s') = Some h' \<Longrightarrow> s' \<le> s"
  using best_survivor_fold [where xs = "by_creator_seq g" and b = None and creator = c] assms
  by (auto simp: best_survivor_def map_of_Some_in)

lemma best_survivor_cong: "by_creator_seq g' = by_creator_seq g \<Longrightarrow> best_survivor g' = best_survivor g"
  by (simp add: fun_eq_iff best_survivor_def)

lemma repoint_tips_latest:
  "map_of (latest_by_creator (fold repoint_tip cs g)) c =
     (if c \<in> set cs \<and> map_of (latest_by_creator g) c = None then map_option snd (best_survivor g c)
      else map_of (latest_by_creator g) c)"
proof (induction cs arbitrary: g)
  case (Cons d cs)
  have "by_creator_seq (repoint_tip d g) = by_creator_seq g" by (auto simp: repoint_tip_def split: option.splits)
  then show ?case
    unfolding fold_simps Cons.IH best_survivor_cong [OF \<open>by_creator_seq (repoint_tip d g) = by_creator_seq g\<close>]
    by (auto simp: repoint_tip_def update_conv' split: option.splits)
qed simp

lemma prune_indexes:
  assumes "prune_before_round g t = Ok (g', pruned)" "index_sound g"
  shows "map_of (by_creator_seq g') k = survivor pruned (map_of (by_creator_seq g) k)"
    "hm_wf (by_creator_seq g) \<Longrightarrow> hm_wf (by_creator_seq g')"
    "map_of (latest_by_creator g) c = Some tip \<Longrightarrow> map_of (latest_by_creator g') c =
       (if tip \<in> set pruned then map_option snd (best_survivor g' c) else Some tip)"
proof -
  let ?g1 = "fold remove_event pruned g"
  let ?tips = "map fst (filter (\<lambda>(_, tip). tip \<in> set pruned) (latest_by_creator g))"
  have by_seq_wf: "hm_wf (by_creator_seq (fold remove_event hs g))" if "hm_wf (by_creator_seq g)" for hs
    using that by (induction hs arbitrary: g) (auto simp: remove_event_def remove_if_points_def Let_def split: option.splits)
  consider "g' = g" "pruned = []" | "by_creator_seq g' = by_creator_seq ?g1" "latest_by_creator g' = latest_by_creator (fold repoint_tip ?tips ?g1)"
    using assms(1) by (auto simp: prune_before_round_def drop_witnesses_def Let_def split: if_splits)
  then have "map_of (by_creator_seq g') k = survivor pruned (map_of (by_creator_seq g) k) \<and>
    (hm_wf (by_creator_seq g) \<longrightarrow> hm_wf (by_creator_seq g')) \<and>
    (map_of (latest_by_creator g) c = Some tip \<longrightarrow> map_of (latest_by_creator g') c =
       (if tip \<in> set pruned then map_option snd (best_survivor g' c) else Some tip))"
  proof cases
    case 2
    note index = remove_events_index [OF assms(2), of pruned]
    have "map_of (latest_by_creator g') c = (if tip \<in> set pruned then map_option snd (best_survivor g' c) else Some tip)"
      if "map_of (latest_by_creator g) c = Some tip"
      using map_of_SomeD [OF that] that index unfolding 2(2) repoint_tips_latest best_survivor_cong [OF 2(1)]
      by (force simp: survivor_def)
    with 2 index by_seq_wf show ?thesis by simp
  qed (auto simp: survivor_def split: option.splits)
  then show "map_of (by_creator_seq g') k = survivor pruned (map_of (by_creator_seq g) k)"
    "hm_wf (by_creator_seq g) \<Longrightarrow> hm_wf (by_creator_seq g')"
    "map_of (latest_by_creator g) c = Some tip \<Longrightarrow> map_of (latest_by_creator g') c =
       (if tip \<in> set pruned then map_option snd (best_survivor g' c) else Some tip)" by auto
qed

subsection \<open>A concrete graph\<close>

text \<open>
  Two ordered events of one member, the second its newest, and an event of a peer that is
  not ordered yet and names the first as its other-parent.
\<close>

definition sample_peer_event :: Event where
  "sample_peer_event = \<lparr> unsigned_part = \<lparr> ue_creator = NodeId 1, ue_self_parent = None,
     ue_other_parent = Some (sample_hash 1), ue_timestamp = Timestamp 6, ue_payload = [] \<rparr>, ev_signature = signature_default \<rparr>"

definition sample_chain :: Hashgraph where
  "sample_chain = (hg_new sample_member)\<lparr>
     events := [(sample_hash 1, (fresh_record (sample_node_event None) 1 [1, 0] 1)\<lparr> er_round_received := Some 1 \<rparr>),
       (sample_hash 2, (fresh_record (sample_node_event (Some (sample_hash 1))) 2 [2, 0] 1)\<lparr> er_round_received := Some 1 \<rparr>),
       (sample_hash 3, fresh_record sample_peer_event 1 [1, 1] 1)],
     by_creator_seq := [((NodeId 0, 1), sample_hash 1), ((NodeId 0, 2), sample_hash 2), ((NodeId 1, 1), sample_hash 3)],
     latest_by_creator := [(NodeId 0, sample_hash 2), (NodeId 1, sample_hash 3)],
     next_round_to_order := 3 \<rparr>"

lemma sample_peer_event_simps [simp]:
  "ev_creator sample_peer_event = NodeId 1" "ev_self_parent sample_peer_event = None"
  "ev_other_parent sample_peer_event = Some (sample_hash 1)"
  by (simp_all add: sample_peer_event_def event_accessor_defs)

lemma sample_chain_simps:
  "hm_wf (events sample_chain)" "hm_wf (by_creator_seq sample_chain)"
  "map_of (latest_by_creator sample_chain) (NodeId 0) = Some (sample_hash 2)"
  by (simp_all add: sample_chain_def Let_def)

lemma sample_chain_index: "index_sound sample_chain"
  by (auto simp: index_sound_def sample_chain_def hg_get_def fresh_record_def Let_def split: if_splits)

lemma sample_chain_prune_set: "prune_set sample_chain 2 = [sample_hash 2]"
  by (simp add: prune_set_def sample_chain_def expired_def fresh_record_def event_parents_def map_filter_simps Let_def)

lemma sample_chain_prune:
  obtains g' where "prune_before_round sample_chain 2 = Ok (g', [sample_hash 2])"
proof -
  have "next_round_to_order sample_chain = 3" "list_ex (\<lambda>(_, r). expired 2 r) (events sample_chain)"
    by (simp_all add: sample_chain_def expired_def fresh_record_def Let_def)
  with that show thesis by (auto simp: prune_before_round_def sample_chain_prune_set Let_def)
qed

subsection \<open>Properties\<close>





end
