(* ===== verification/Records.thy ===== *)
theory Records
  imports SparseMerkle
begin

section \<open>The records tree\<close>

text \<open>
  The padded binary Merkle tree of \<^verbatim>\<open>protocol/consensus/src/checkpoint.rs\<close>: the root over a
  round's record items, the inclusion proofs and their verification. The same folding is
  used for the window root.
\<close>

subsection \<open>Hashes\<close>

record RecordsRootItem =
  ri_event_hash :: bytes
  ri_tx_index :: u32
  ri_tx_payload :: bytes

definition empty_hash :: "hash_fn \<Rightarrow> bytes" where
  "empty_hash sha = sha [0x00]"

definition item_bytes :: "RecordsRootItem \<Rightarrow> (bytes, Error) result" where
  "item_bytes item =
     map_ok (\<lambda>len. 0x00 # ri_event_hash item @ u32_be (ri_tx_index item) @ u32_be len @ ri_tx_payload item)
       (ok_or (OutOfRange ''RecordsRootItem tx_payload length'' (length (ri_tx_payload item)))
         (u32_try_from (length (ri_tx_payload item))))"

definition try_leaf_hash :: "hash_fn \<Rightarrow> RecordsRootItem \<Rightarrow> (bytes, Error) result" where
  "try_leaf_hash sha item = map_ok sha (item_bytes item)"

definition internal_hash :: "hash_fn \<Rightarrow> bytes \<Rightarrow> bytes \<Rightarrow> bytes" where
  "internal_hash sha left right = sha (0x02 # left @ right)"

definition singleton_hash :: "hash_fn \<Rightarrow> bytes \<Rightarrow> bytes" where
  "singleton_hash sha child = sha (0x01 # child)"

definition combine_hash :: "hash_fn \<Rightarrow> bytes \<Rightarrow> bytes \<Rightarrow> bytes" where
  "combine_hash sha left right =
     (case (left = empty_hash sha, right = empty_hash sha) of
        (True, True) \<Rightarrow> empty_hash sha
      | (True, False) \<Rightarrow> singleton_hash sha right
      | (False, True) \<Rightarrow> singleton_hash sha left
      | (False, False) \<Rightarrow> internal_hash sha left right)"

text \<open>The construction mirrors the one of the state tree.\<close>

lemma combine_hash_mirror: "combine_hash sha l r = combine sha l r"
  by (simp add: combine_hash_def combine_def empty_hash_def smt_empty_def singleton_hash_def singleton_def
      internal_hash_def internal_def)

subsection \<open>Folding\<close>

text \<open>\<^verbatim>\<open>usize::next_power_of_two\<close>.\<close>

fun next_power_of_two :: "nat \<Rightarrow> nat" where
  "next_power_of_two n = (if n \<le> 1 then 1 else 2 * next_power_of_two ((n + 1) div 2))"

declare next_power_of_two.simps [simp del]

definition pad_leaves :: "hash_fn \<Rightarrow> bytes list \<Rightarrow> bytes list" where
  "pad_leaves sha leaves = leaves @ replicate (next_power_of_two (length leaves) - length leaves) (empty_hash sha)"

text \<open>One level: \<^verbatim>\<open>chunks(2)\<close> with an index panic on a last chunk of one node.\<close>

fun fold_pairs :: "hash_fn \<Rightarrow> bytes list \<Rightarrow> (bytes list, Error) result" where
  "fold_pairs sha [] = Ok []"
| "fold_pairs sha [x] = Panic"
| "fold_pairs sha (x # y # rest) = map_ok (\<lambda>level. combine_hash sha x y # level) (fold_pairs sha rest)"

lemma fold_pairs_length: "fold_pairs sha level = Ok next \<Longrightarrow> length level = 2 * length next"
  by (induction sha level arbitrary: "next" rule: fold_pairs.induct) auto

lemma fold_pairs_shorter: "fold_pairs sha level = Ok next \<Longrightarrow> 1 < length level \<Longrightarrow> length next < length level"
  by (drule fold_pairs_length) (cases "next", simp_all)

function fold_levels :: "hash_fn \<Rightarrow> bytes list \<Rightarrow> (bytes, Error) result" where
  "fold_levels sha level =
     (if 1 < length level then
        (case fold_pairs sha level of Ok next \<Rightarrow> fold_levels sha next | Err e \<Rightarrow> Err e | Panic \<Rightarrow> Panic)
      else (case level of [] \<Rightarrow> Panic | x # _ \<Rightarrow> Ok x))"
  by pat_completeness auto
termination
  by (relation "measure (\<lambda>(_, level). length level)") (auto simp: fold_pairs_shorter)

declare fold_levels.simps [simp del]

primrec leaf_hashes :: "hash_fn \<Rightarrow> RecordsRootItem list \<Rightarrow> (bytes list, Error) result" where
  "leaf_hashes sha [] = Ok []"
| "leaf_hashes sha (item # items) =
     andThen (try_leaf_hash sha item) (\<lambda>h. map_ok (\<lambda>hs. h # hs) (leaf_hashes sha items))"

definition try_compute_records_root :: "hash_fn \<Rightarrow> RecordsRootItem list \<Rightarrow> (bytes, Error) result" where
  "try_compute_records_root sha items =
     (if items = [] then Ok (empty_hash sha)
      else andThen (leaf_hashes sha items) (\<lambda>leaves. fold_levels sha (pad_leaves sha leaves)))"

definition compute_records_root :: "hash_fn \<Rightarrow> RecordsRootItem list \<Rightarrow> (bytes, Error) result" where
  "compute_records_root sha items = ok_or_panic (result_ok (try_compute_records_root sha items))"

subsection \<open>Proofs\<close>

record RecordsProofStep =
  sibling_hash :: bytes
  sibling_is_right :: bool

record RecordsProof =
  rp_item_index :: u32
  rp_steps :: "RecordsProofStep list"

text \<open>All levels bottom-up.\<close>

function build_levels :: "hash_fn \<Rightarrow> bytes list \<Rightarrow> (bytes list list, Error) result" where
  "build_levels sha level =
     (if 1 < length level then
        (case fold_pairs sha level of
           Ok next \<Rightarrow> map_ok (\<lambda>levels. level # levels) (build_levels sha next)
         | Err e \<Rightarrow> Err e | Panic \<Rightarrow> Panic)
      else Ok [level])"
  by pat_completeness auto
termination
  by (relation "measure (\<lambda>(_, level). length level)") (auto simp: fold_pairs_shorter)

declare build_levels.simps [simp del]

text \<open>\<^verbatim>\<open>cur_idx ^ 1\<close>.\<close>

definition flip_last :: "nat \<Rightarrow> nat" where
  "flip_last i = (if even i then i + 1 else i - 1)"

primrec proof_steps :: "bytes list list \<Rightarrow> nat \<Rightarrow> RecordsProofStep list" where
  "proof_steps [] idx = []"
| "proof_steps (level # levels) idx =
     (if flip_last idx < length level
      then [\<lparr> sibling_hash = level ! flip_last idx, sibling_is_right = (idx mod 2 = 0) \<rparr>] else []) @
     proof_steps levels (idx div 2)"

definition records_proof :: "bytes list list \<Rightarrow> nat \<Rightarrow> (RecordsProof, Error) result" where
  "records_proof levels idx =
     map_ok (\<lambda>i. \<lparr> rp_item_index = i, rp_steps = proof_steps (butlast levels) idx \<rparr>)
       (ok_or (OutOfRange ''RecordsRootItem index'' idx) (u32_try_from idx))"

primrec records_proofs :: "bytes list list \<Rightarrow> nat list \<Rightarrow> (RecordsProof list, Error) result" where
  "records_proofs levels [] = Ok []"
| "records_proofs levels (i # is) =
     andThen (records_proof levels i) (\<lambda>p. map_ok (\<lambda>ps. p # ps) (records_proofs levels is))"

definition try_build_records_proofs :: "hash_fn \<Rightarrow> RecordsRootItem list \<Rightarrow> (RecordsProof list, Error) result" where
  "try_build_records_proofs sha items =
     (if items = [] then Ok []
      else andThen (leaf_hashes sha items) (\<lambda>leaves.
        andThen (build_levels sha (pad_leaves sha leaves)) (\<lambda>levels.
        records_proofs levels [0..<length items])))"

definition try_compute_records_root_with_proofs ::
    "hash_fn \<Rightarrow> RecordsRootItem list \<Rightarrow> (bytes \<times> RecordsProof list, Error) result" where
  "try_compute_records_root_with_proofs sha items =
     andThen (try_compute_records_root sha items) (\<lambda>root.
     map_ok (\<lambda>proofs. (root, proofs)) (try_build_records_proofs sha items))"

definition build_records_proofs :: "hash_fn \<Rightarrow> RecordsRootItem list \<Rightarrow> (RecordsProof list, Error) result" where
  "build_records_proofs sha items = ok_or_panic (result_ok (try_build_records_proofs sha items))"

definition compute_records_root_with_proofs ::
    "hash_fn \<Rightarrow> RecordsRootItem list \<Rightarrow> (bytes \<times> RecordsProof list, Error) result" where
  "compute_records_root_with_proofs sha items =
     andThen (compute_records_root sha items) (\<lambda>root.
     map_ok (\<lambda>proofs. (root, proofs)) (build_records_proofs sha items))"

definition proof_step_up :: "hash_fn \<Rightarrow> RecordsProofStep \<Rightarrow> bytes \<Rightarrow> bytes" where
  "proof_step_up sha step cur =
     (if sibling_is_right step then combine_hash sha cur (sibling_hash step)
      else combine_hash sha (sibling_hash step) cur)"

definition verify_records_proof :: "hash_fn \<Rightarrow> bytes \<Rightarrow> RecordsRootItem \<Rightarrow> RecordsProof \<Rightarrow> bool" where
  "verify_records_proof sha root item pf = (case try_leaf_hash sha item of
     Ok cur \<Rightarrow> fold (proof_step_up sha) (rp_steps pf) cur = root
   | _ \<Rightarrow> False)"

subsection \<open>The tree is total\<close>

lemma next_power_of_two_pow: "\<exists>k. next_power_of_two n = 2 ^ k"
proof (induction n rule: next_power_of_two.induct)
  case (1 n)
  then show ?case
    by (cases "n \<le> 1") (auto simp: next_power_of_two.simps [of n] intro: exI [of _ 0] exI [of _ "Suc _"])
qed

lemma next_power_of_two_ge: "n \<le> next_power_of_two n"
proof (induction n rule: next_power_of_two.induct)
  case (1 n)
  then show ?case by (cases "n \<le> 1") (auto simp: next_power_of_two.simps [of n])
qed

lemma pad_leaves_length: obtains k where "length (pad_leaves sha leaves) = 2 ^ k"
  using next_power_of_two_pow [of "length leaves"] next_power_of_two_ge [of "length leaves"]
  by (auto simp: pad_leaves_def)

lemma fold_pairs_total: "even (length level) \<Longrightarrow> \<exists>next. fold_pairs sha level = Ok next"
  by (induction sha level rule: fold_pairs.induct) auto

lemma fold_pairs_nth:
  "fold_pairs sha level = Ok next \<Longrightarrow> j < length next \<Longrightarrow> next ! j = combine_hash sha (level ! (2 * j)) (level ! (2 * j + 1))"
proof (induction sha level arbitrary: "next" j rule: fold_pairs.induct)
  case (3 sha x y rest)
  then show ?case by (cases j) auto
qed auto

lemma fold_levels_total: "length level = 2 ^ k \<Longrightarrow> \<exists>root. fold_levels sha level = Ok root"
proof (induction k arbitrary: level)
  case 0
  then show ?case by (cases level) (auto simp: fold_levels.simps)
next
  case (Suc k)
  obtain nxt where n: "fold_pairs sha level = Ok nxt" using fold_pairs_total [of level sha] Suc.prems by auto
  then have "length nxt = 2 ^ k" using fold_pairs_length [OF n] Suc.prems by simp
  with Suc.IH obtain root where "fold_levels sha nxt = Ok root" by blast
  moreover have "1 < length level" unfolding Suc.prems by (rule one_less_power) simp_all
  ultimately show ?case using n by (simp add: fold_levels.simps [of sha level])
qed

text \<open>Levels and root belong together.\<close>

lemma proof_steps_root:
  "build_levels sha level = Ok levels \<Longrightarrow> fold_levels sha level = Ok root \<Longrightarrow> length level = 2 ^ k \<Longrightarrow> idx < length level \<Longrightarrow>
   fold (proof_step_up sha) (proof_steps (butlast levels) idx) (level ! idx) = root"
proof (induction k arbitrary: level levels idx)
  case 0
  then obtain a where "level = [a]" by (cases level) auto
  with 0 show ?case by (auto simp: build_levels.simps [of sha "[a]"] fold_levels.simps [of sha "[a]"])
next
  case (Suc k)
  have big: "1 < length level" unfolding Suc.prems(3) by (rule one_less_power) simp_all
  obtain nxt where n: "fold_pairs sha level = Ok nxt" using fold_pairs_total [of level sha] Suc.prems(3) by auto
  have len: "length level = 2 * length nxt" by (rule fold_pairs_length [OF n])
  obtain ls where ls: "build_levels sha nxt = Ok ls" "levels = level # ls"
    using Suc.prems(1) n big by (auto simp: build_levels.simps [of sha level])
  have root: "fold_levels sha nxt = Ok root" using Suc.prems(2) n big by (simp add: fold_levels.simps [of sha level])
  have "ls \<noteq> []" using ls(1) by (auto simp: build_levels.simps [of sha nxt] split: if_splits result.splits)
  let ?j = "idx div 2"
  have j: "?j < length nxt" using Suc.prems(4) len by simp
  have flip: "flip_last idx < length level" using Suc.prems(4) len by (auto simp: flip_last_def elim!: oddE)
  have "proof_step_up sha \<lparr> sibling_hash = level ! flip_last idx, sibling_is_right = (idx mod 2 = 0) \<rparr> (level ! idx) = nxt ! ?j"
    unfolding fold_pairs_nth [OF n j] proof_step_up_def flip_last_def by (cases "even idx") (auto elim!: oddE)
  moreover have "fold (proof_step_up sha) (proof_steps (butlast ls) ?j) (nxt ! ?j) = root"
    using Suc.IH [OF ls(1) root] len Suc.prems(3) j by simp
  ultimately show ?case using ls(2) \<open>ls \<noteq> []\<close> flip by simp
qed

lemma leaf_hashes_nth: "leaf_hashes sha items = Ok hs \<Longrightarrow> length hs = length items \<and>
    (\<forall>i < length items. try_leaf_hash sha (items ! i) = Ok (hs ! i))"
proof (induction items arbitrary: hs)
  case (Cons a items)
  then obtain h rest where "try_leaf_hash sha a = Ok h" "leaf_hashes sha items = Ok rest" "hs = h # rest" by auto
  with Cons.IH [of rest] show ?case by (auto simp: nth_Cons split: nat.splits)
qed simp

lemma records_proofs_nth: "records_proofs levels is = Ok ps \<Longrightarrow> length ps = length is \<and>
    (\<forall>i < length is. rp_steps (ps ! i) = proof_steps (butlast levels) (is ! i) \<and> unat (rp_item_index (ps ! i)) = is ! i)"
proof (induction "is" arbitrary: ps)
  case (Cons a "is")
  then obtain p rest where "records_proof levels a = Ok p" "records_proofs levels is = Ok rest" "ps = p # rest" by auto
  with Cons.IH [of rest] show ?case
    by (auto simp: nth_Cons records_proof_def u32_try_from_def unat_of_nat split: nat.splits if_splits)
qed simp

text \<open>Every proof that is built for a list of items verifies against the root of these items.\<close>

lemma built_proofs_verify:
  assumes "try_compute_records_root_with_proofs sha items = Ok (root, proofs)" "i < length items"
  shows "length proofs = length items \<and> unat (rp_item_index (proofs ! i)) = i \<and>
    verify_records_proof sha root (items ! i) (proofs ! i)"
proof -
  have "items \<noteq> []" using assms(2) by auto
  then obtain hs levels where hs: "leaf_hashes sha items = Ok hs"
    and root: "fold_levels sha (pad_leaves sha hs) = Ok root"
    and levels: "build_levels sha (pad_leaves sha hs) = Ok levels"
    and ps: "records_proofs levels [0..<length items] = Ok proofs"
    using assms(1) by (auto simp: try_compute_records_root_with_proofs_def try_compute_records_root_def try_build_records_proofs_def)
  obtain k where k: "length (pad_leaves sha hs) = 2 ^ k" by (rule pad_leaves_length)
  have len: "length hs = length items" and leaf: "try_leaf_hash sha (items ! i) = Ok (hs ! i)"
    using leaf_hashes_nth [OF hs] assms(2) by auto
  have "i < length (pad_leaves sha hs)" "pad_leaves sha hs ! i = hs ! i"
    using assms(2) len by (auto simp: pad_leaves_def nth_append)
  then have "fold (proof_step_up sha) (proof_steps (butlast levels) i) (hs ! i) = root"
    using proof_steps_root [OF levels root k, of i] by simp
  then show ?thesis
    using records_proofs_nth [OF ps] leaf assms(2) by (simp add: verify_records_proof_def)
qed

text \<open>Building succeeds, without a panic, on any list whose payload lengths and indexes fit 32 bits.\<close>

lemma leaf_hashes_total:
  "\<forall>item \<in> set items. length (ri_tx_payload item) < 2 ^ 32 \<Longrightarrow> \<exists>hs. leaf_hashes sha items = Ok hs"
  by (induction items) (auto simp: try_leaf_hash_def item_bytes_def u32_try_from_def)

lemma build_levels_total: "length level = 2 ^ k \<Longrightarrow> \<exists>levels. build_levels sha level = Ok levels"
proof (induction k arbitrary: level)
  case 0
  then show ?case by (simp add: build_levels.simps [of sha level])
next
  case (Suc k)
  obtain nxt where n: "fold_pairs sha level = Ok nxt" using fold_pairs_total [of level sha] Suc.prems by auto
  then have "length nxt = 2 ^ k" using fold_pairs_length [OF n] Suc.prems by simp
  with Suc.IH obtain levels where "build_levels sha nxt = Ok levels" by blast
  then show ?case using n by (simp add: build_levels.simps [of sha level])
qed

lemma records_proofs_total: "\<forall>i \<in> set is. i < 2 ^ 32 \<Longrightarrow> \<exists>ps. records_proofs levels is = Ok ps"
  by (induction "is") (auto simp: records_proof_def u32_try_from_def)

lemma records_build_total:
  assumes "\<forall>item \<in> set items. length (ri_tx_payload item) < 2 ^ 32" "length items \<le> 2 ^ 32"
  shows "\<exists>root proofs. try_compute_records_root_with_proofs sha items = Ok (root, proofs)"
proof (cases "items = []")
  case False
  obtain hs where hs: "leaf_hashes sha items = Ok hs" using leaf_hashes_total [OF assms(1)] by blast
  obtain k where k: "length (pad_leaves sha hs) = 2 ^ k" by (rule pad_leaves_length)
  obtain root levels where "fold_levels sha (pad_leaves sha hs) = Ok root" "build_levels sha (pad_leaves sha hs) = Ok levels"
    using fold_levels_total [OF k] build_levels_total [OF k] by blast
  moreover obtain ps where "records_proofs levels [0..<length items] = Ok ps"
    using records_proofs_total [of "[0..<length items]" levels] assms(2) by auto
  ultimately show ?thesis
    using False hs by (simp add: try_compute_records_root_with_proofs_def try_compute_records_root_def try_build_records_proofs_def)
qed (simp add: try_compute_records_root_with_proofs_def try_compute_records_root_def try_build_records_proofs_def)

subsection \<open>Soundness\<close>

text \<open>What is hashed for a pair of nodes, along a tree and along a proof.\<close>

definition combine_preimage :: "hash_fn \<Rightarrow> bytes \<Rightarrow> bytes \<Rightarrow> bytes" where
  "combine_preimage sha l r =
     (if l = empty_hash sha then (if r = empty_hash sha then [0x00] else 0x01 # r)
      else if r = empty_hash sha then 0x01 # l else 0x02 # l @ r)"

lemma combine_hash_preimage: "combine_hash sha l r = sha (combine_preimage sha l r)"
  by (simp add: combine_hash_def combine_preimage_def singleton_hash_def internal_hash_def empty_hash_def)

fun pair_preimages :: "hash_fn \<Rightarrow> bytes list \<Rightarrow> bytes set" where
  "pair_preimages sha (x # y # rest) = insert (combine_preimage sha x y) (pair_preimages sha rest)"
| "pair_preimages sha _ = {}"

function tree_preimages :: "hash_fn \<Rightarrow> bytes list \<Rightarrow> bytes set" where
  "tree_preimages sha level = pair_preimages sha level \<union>
     (if 1 < length level then
        (case fold_pairs sha level of Ok next \<Rightarrow> tree_preimages sha next | _ \<Rightarrow> {}) else {})"
  by pat_completeness auto
termination
  by (relation "measure (\<lambda>(_, level). length level)") (auto simp: fold_pairs_shorter)

declare tree_preimages.simps [simp del]

definition step_preimage :: "hash_fn \<Rightarrow> RecordsProofStep \<Rightarrow> bytes \<Rightarrow> bytes" where
  "step_preimage sha step cur =
     (if sibling_is_right step then combine_preimage sha cur (sibling_hash step)
      else combine_preimage sha (sibling_hash step) cur)"

primrec path_preimages :: "hash_fn \<Rightarrow> RecordsProofStep list \<Rightarrow> bytes \<Rightarrow> bytes set" where
  "path_preimages sha [] cur = {}"
| "path_preimages sha (step # steps) cur =
     insert (step_preimage sha step cur) (path_preimages sha steps (proof_step_up sha step cur))"

lemma proof_step_up_preimage: "proof_step_up sha step cur = sha (step_preimage sha step cur)"
  by (simp add: proof_step_up_def step_preimage_def combine_hash_preimage)

lemma path_preimages_append: "path_preimages sha (xs @ ys) cur =
    path_preimages sha xs cur \<union> path_preimages sha ys (fold (proof_step_up sha) xs cur)"
  by (induction xs arbitrary: cur) auto

definition steps_wf :: "RecordsProofStep list \<Rightarrow> bool" where
  "steps_wf steps \<longleftrightarrow> (\<forall>step \<in> set steps. length (sibling_hash step) = 32)"

text \<open>A node that is not empty stays so on the way up.\<close>

lemma step_preimage_tag: "cur \<noteq> empty_hash sha \<Longrightarrow>
    step_preimage sha step cur = 0x01 # cur \<or> step_preimage sha step cur = 0x02 # cur @ sibling_hash step \<or>
    step_preimage sha step cur = 0x02 # sibling_hash step @ cur"
  by (simp add: step_preimage_def combine_preimage_def)

lemma step_not_short: "cur \<noteq> empty_hash sha \<Longrightarrow> step_preimage sha step cur \<noteq> 0x00 # b"
  using step_preimage_tag [of cur sha step] by auto

lemma up_not_low:
  assumes "inj_on sha X" "step_preimage sha step cur \<in> X" "cur \<noteq> empty_hash sha" "0x00 # b \<in> X"
  shows "proof_step_up sha step cur \<noteq> sha (0x00 # b)"
  unfolding proof_step_up_preimage using inj_onD [OF assms(1) _ assms(2,4)] step_not_short [OF assms(3)] by blast

lemma path_not_empty:
  "inj_on sha X \<Longrightarrow> [0x00] \<in> X \<Longrightarrow> path_preimages sha steps cur \<subseteq> X \<Longrightarrow> cur \<noteq> empty_hash sha \<Longrightarrow>
   fold (proof_step_up sha) steps cur \<noteq> empty_hash sha"
proof (induction steps arbitrary: cur)
  case (Cons step steps)
  then have "proof_step_up sha step cur \<noteq> empty_hash sha"
    using up_not_low [of sha X step cur "[]"] by (simp add: empty_hash_def)
  with Cons show ?case by simp
qed simp

text \<open>A non-empty node reached at the last step of a path is a child of the node it leads to.\<close>

lemma combine_children:
  assumes "combine_preimage sha l r = step_preimage sha step cur" "cur \<noteq> empty_hash sha"
    and "length l = 32" "length r = 32" "length cur = 32" "length (sibling_hash step) = 32"
  shows "cur = l \<or> cur = r"
  using step_preimage_tag [OF assms(2), of step] assms by (auto simp: combine_preimage_def split: if_splits)

lemma fold_pairs_mem:
  "fold_pairs sha level = Ok next \<Longrightarrow> v \<in> set next \<Longrightarrow>
   \<exists>x y. x \<in> set level \<and> y \<in> set level \<and> combine_preimage sha x y \<in> pair_preimages sha level \<and>
     v = sha (combine_preimage sha x y)"
proof (induction sha level arbitrary: "next" rule: fold_pairs.induct)
  case (3 sha x y rest)
  then obtain nxt where "fold_pairs sha rest = Ok nxt" "next = combine_hash sha x y # nxt" by auto
  with 3 show ?case by (auto simp: combine_hash_preimage)
qed auto

lemma fold_path_length: "digest sha \<Longrightarrow> length cur = 32 \<Longrightarrow> length (fold (proof_step_up sha) steps cur) = 32"
  by (induction steps arbitrary: cur) (auto simp: proof_step_up_preimage)

lemma fold_pairs_32: "digest sha \<Longrightarrow> fold_pairs sha level = Ok next \<Longrightarrow> v \<in> set next \<Longrightarrow> length v = 32"
  by (auto dest: fold_pairs_mem)

text \<open>A path from a leaf that ends in a level ends, cut by one step, in the level below.\<close>

lemma path_down:
  assumes "digest sha" "inj_on sha X" "[0x00] \<in> X" "0x00 # b \<in> X" "sha (0x00 # b) \<noteq> empty_hash sha"
    and "fold_pairs sha level = Ok next" "pair_preimages sha level \<subseteq> X" "\<forall>x \<in> set level. length x = 32"
    and "steps_wf steps" "path_preimages sha steps (sha (0x00 # b)) \<subseteq> X"
    and "fold (proof_step_up sha) steps (sha (0x00 # b)) \<in> set next"
  shows "\<exists>ss ss'. steps = ss @ ss' \<and> fold (proof_step_up sha) ss (sha (0x00 # b)) \<in> set level"
proof -
  let ?v = "\<lambda>ss. fold (proof_step_up sha) ss (sha (0x00 # b))"
  obtain x y where xy: "x \<in> set level" "y \<in> set level" "combine_preimage sha x y \<in> X" "?v steps = sha (combine_preimage sha x y)"
    using fold_pairs_mem [OF assms(6,11)] assms(7) by blast
  have ne: "?v steps \<noteq> empty_hash sha" by (rule path_not_empty [OF assms(2,3,10,5)])
  have "steps \<noteq> []"
  proof
    assume "steps = []"
    then have "0x00 # b = combine_preimage sha x y" using inj_onD [OF assms(2) _ assms(4) xy(3)] xy(4) by simp
    then show False using ne xy(4) by (auto simp: combine_preimage_def empty_hash_def split: if_splits)
  qed
  then obtain ss step where steps: "steps = ss @ [step]" by (metis rev_exhaust)
  have pre: "path_preimages sha ss (sha (0x00 # b)) \<subseteq> X" "step_preimage sha step (?v ss) \<in> X"
    using assms(10) unfolding steps by (auto simp: path_preimages_append)
  have "?v ss \<noteq> empty_hash sha" by (rule path_not_empty [OF assms(2,3) pre(1) assms(5)])
  moreover have "combine_preimage sha x y = step_preimage sha step (?v ss)"
    using inj_onD [OF assms(2) _ xy(3) pre(2)] xy(4) by (simp add: steps proof_step_up_preimage)
  ultimately have "?v ss = x \<or> ?v ss = y"
    using combine_children assms(1,8,9) xy(1,2) fold_path_length [OF assms(1)] by (simp add: steps steps_wf_def)
  then show ?thesis using xy(1,2) steps by blast
qed

lemma path_to_leaf:
  assumes "digest sha" "inj_on sha X" "[0x00] \<in> X" "0x00 # b \<in> X" "sha (0x00 # b) \<noteq> empty_hash sha" "steps_wf steps"
    and "path_preimages sha steps (sha (0x00 # b)) \<subseteq> X"
  shows "fold_levels sha level = Ok (fold (proof_step_up sha) steps (sha (0x00 # b))) \<Longrightarrow> tree_preimages sha level \<subseteq> X \<Longrightarrow>
    \<forall>x \<in> set level. length x = 32 \<Longrightarrow>
    \<exists>ss ss'. steps = ss @ ss' \<and> fold (proof_step_up sha) ss (sha (0x00 # b)) \<in> set level"
proof (induction "length level" arbitrary: level rule: less_induct)
  case less
  show ?case
  proof (cases "1 < length level")
    case True
    then obtain nxt where n: "fold_pairs sha level = Ok nxt" "fold_levels sha nxt = Ok (fold (proof_step_up sha) steps (sha (0x00 # b)))"
      using less.prems(1) by (auto simp: fold_levels.simps [of sha level] split: result.splits)
    have sub: "pair_preimages sha level \<subseteq> X" "tree_preimages sha nxt \<subseteq> X"
      using less.prems(2) True n(1) by (auto simp: tree_preimages.simps [of sha level])
    obtain ss ss' where ss: "steps = ss @ ss'" "fold (proof_step_up sha) ss (sha (0x00 # b)) \<in> set nxt"
      using less.hyps [OF fold_pairs_shorter [OF n(1) True] n(2) sub(2)] fold_pairs_32 [OF assms(1) n(1)] by blast
    have "steps_wf ss" "path_preimages sha ss (sha (0x00 # b)) \<subseteq> X"
      using assms(6,7) unfolding ss(1) by (auto simp: steps_wf_def path_preimages_append)
    from path_down [OF assms(1-5) n(1) sub(1) less.prems(3) this ss(2)] ss(1) show ?thesis by (metis append.assoc)
  next
    case False
    with less.prems(1) show ?thesis by (force simp: fold_levels.simps [of sha level] split: list.splits)
  qed
qed

text \<open>A path from a leaf to a leaf is empty.\<close>

lemma path_leaf:
  assumes "inj_on sha X" "[0x00] \<in> X" "0x00 # c \<in> X" "sha (0x00 # c) \<noteq> empty_hash sha"
    and "path_preimages sha ss (sha (0x00 # c)) \<subseteq> X" "fold (proof_step_up sha) ss (sha (0x00 # c)) = sha (0x00 # b)" "0x00 # b \<in> X"
  shows "0x00 # b = 0x00 # c"
proof -
  have "ss = []"
  proof (rule ccontr)
    assume "ss \<noteq> []"
    then obtain ts step where ts: "ss = ts @ [step]" by (metis rev_exhaust)
    have p: "path_preimages sha ts (sha (0x00 # c)) \<subseteq> X" "step_preimage sha step (fold (proof_step_up sha) ts (sha (0x00 # c))) \<in> X"
      using assms(5) unfolding ts path_preimages_append by auto
    show False using up_not_low [OF assms(1) p(2) path_not_empty [OF assms(1,2) p(1) assms(4)] assms(7)] assms(6) by (simp add: ts)
  qed
  then show ?thesis using inj_onD [OF assms(1) _ assms(7,3)] assms(6) by simp
qed

text \<open>What is hashed for the items and for a claimed item.\<close>

definition item_preimages :: "RecordsRootItem list \<Rightarrow> bytes set" where
  "item_preimages items = {b. Ok b \<in> item_bytes ` set items}"

definition records_preimages :: "hash_fn \<Rightarrow> RecordsRootItem list \<Rightarrow> bytes set" where
  "records_preimages sha items = insert [0x00] (item_preimages items \<union>
     (case leaf_hashes sha items of Ok hs \<Rightarrow> tree_preimages sha (pad_leaves sha hs) | _ \<Rightarrow> {}))"

definition proof_preimages :: "hash_fn \<Rightarrow> RecordsRootItem \<Rightarrow> RecordsProof \<Rightarrow> bytes set" where
  "proof_preimages sha item pf = item_preimages [item] \<union>
     (case try_leaf_hash sha item of Ok cur \<Rightarrow> path_preimages sha (rp_steps pf) cur | _ \<Rightarrow> {})"

definition item_wf :: "RecordsRootItem \<Rightarrow> bool" where
  "item_wf item \<longleftrightarrow> length (ri_event_hash item) = 32"

lemma item_bytes_inject:
  assumes "item_bytes i = Ok b" "item_bytes j = Ok b" "item_wf i" "item_wf j"
  shows "i = j"
proof -
  from assms(1,2) obtain m n where
    b: "b = 0x00 # ri_event_hash i @ u32_be (ri_tx_index i) @ u32_be m @ ri_tx_payload i"
       "b = 0x00 # ri_event_hash j @ u32_be (ri_tx_index j) @ u32_be n @ ri_tx_payload j"
    unfolding item_bytes_def map_ok_Ok_iff by blast
  have "length (ri_event_hash i) = length (ri_event_hash j)" using assms(3,4) by (simp add: item_wf_def)
  with b show ?thesis by (intro RecordsRootItem.equality) simp_all
qed

lemma item_bytes_form: "item_bytes i = Ok b \<Longrightarrow> \<exists>c. b = 0x00 # c \<and> c \<noteq> []"
  unfolding item_bytes_def map_ok_Ok_iff using length_u32_be by (metis append_is_Nil_conv list.size(3) zero_neq_numeral)

lemma leaf_hashes_set: "leaf_hashes sha items = Ok hs \<Longrightarrow> h \<in> set hs \<Longrightarrow> \<exists>i b. i \<in> set items \<and> item_bytes i = Ok b \<and> h = sha b"
proof (induction items arbitrary: hs)
  case (Cons a items)
  then obtain b rest where "item_bytes a = Ok b" "leaf_hashes sha items = Ok rest" "hs = sha b # rest"
    by (auto simp: try_leaf_hash_def)
  with Cons show ?case by (cases "h = sha b") auto
qed simp

lemma item_preimages_iff: "b \<in> item_preimages items \<longleftrightarrow> (\<exists>i \<in> set items. item_bytes i = Ok b)"
  unfolding item_preimages_def image_iff mem_Collect_eq by metis

subsection \<open>Properties\<close>

text \<open>
  Property C11. For every list of record items whose payloads and count fit 32 bits, the
  root and the inclusion proofs are computed without an error or an index panic, there is
  one proof per item carrying the item's position, and each proof verifies against the
  root for its item.
\<close>

theorem records_proofs_complete:
  assumes "\<forall>item \<in> set items. length (ri_tx_payload item) < 2 ^ 32" "length items \<le> 2 ^ 32"
  shows "\<exists>root proofs. try_compute_records_root_with_proofs sha items = Ok (root, proofs) \<and>
    try_compute_records_root sha items = Ok root \<and> length proofs = length items \<and>
    (\<forall>i < length items. unat (rp_item_index (proofs ! i)) = i \<and> verify_records_proof sha root (items ! i) (proofs ! i))"
proof -
  obtain root proofs where ok: "try_compute_records_root_with_proofs sha items = Ok (root, proofs)"
    using records_build_total [OF assms] by blast
  then have "try_compute_records_root sha items = Ok root" "items = [] \<Longrightarrow> proofs = []"
    by (auto simp: try_compute_records_root_with_proofs_def try_build_records_proofs_def)
  moreover have "length proofs = length items" if "items \<noteq> []"
    using built_proofs_verify [OF ok, of 0] that by simp
  ultimately show ?thesis using ok built_proofs_verify [OF ok] by (cases "items = []") auto
qed

definition sample_item :: "u8 \<Rightarrow> RecordsRootItem" where
  "sample_item b = \<lparr> ri_event_hash = replicate 32 b, ri_tx_index = 0, ri_tx_payload = [b] \<rparr>"

theorem records_proofs_complete_witness:
  "\<exists>root proofs. try_compute_records_root_with_proofs sample_sha (map sample_item [1, 2, 3]) = Ok (root, proofs) \<and>
     length proofs = 3 \<and> (\<forall>i < 3. verify_records_proof sample_sha root (map sample_item [1, 2, 3] ! i) (proofs ! i))"
proof -
  have "\<forall>item \<in> set (map sample_item [1, 2, 3]). length (ri_tx_payload item) < 2 ^ 32" by (simp add: sample_item_def)
  from records_proofs_complete [OF this, of sample_sha] show ?thesis
    by (simp only: length_map list.size) (auto simp: numeral_3_eq_3)
qed

text \<open>
  Property C12. A proof that verifies against the root of a list of record items proves
  membership: whatever its steps and its claimed index, the item is one of the list, unless
  two of the strings hashed for the tree and along the proof collide.
\<close>

theorem records_proof_sound:
  assumes "digest sha" "\<forall>i \<in> set items. item_wf i" "item_wf item" "steps_wf (rp_steps pf)"
    and root: "try_compute_records_root sha items = Ok root" and ok: "verify_records_proof sha root item pf"
    and inj: "inj_on sha (records_preimages sha items \<union> proof_preimages sha item pf)"
  shows "item \<in> set items"
proof -
  let ?X = "records_preimages sha items \<union> proof_preimages sha item pf"
  obtain ib where ib: "item_bytes item = Ok ib" and up: "fold (proof_step_up sha) (rp_steps pf) (sha ib) = root"
    using ok by (auto simp: verify_records_proof_def try_leaf_hash_def split: result.splits)
  obtain c where c: "ib = 0x00 # c" "c \<noteq> []" using item_bytes_form [OF ib] by blast
  have low: "[0x00] \<in> ?X" "0x00 # c \<in> ?X" and path: "path_preimages sha (rp_steps pf) (sha (0x00 # c)) \<subseteq> ?X"
    using ib by (auto simp: records_preimages_def proof_preimages_def item_preimages_iff c(1) try_leaf_hash_def)
  have ne: "sha (0x00 # c) \<noteq> empty_hash sha" using inj_onD [OF inj _ low(2,1)] c(2) by (auto simp: empty_hash_def)
  have "items \<noteq> []"
    using root up path_not_empty [OF inj low(1) path ne] by (auto simp: try_compute_records_root_def c(1))
  then obtain hs where hs: "leaf_hashes sha items = Ok hs" and fl: "fold_levels sha (pad_leaves sha hs) = Ok root"
    using root by (auto simp: try_compute_records_root_def)
  have tree: "tree_preimages sha (pad_leaves sha hs) \<subseteq> ?X" using hs by (auto simp: records_preimages_def)
  have "\<forall>x \<in> set (pad_leaves sha hs). length x = 32"
    using assms(1) leaf_hashes_set [OF hs] by (auto simp: pad_leaves_def empty_hash_def)
  with path_to_leaf [OF assms(1) inj low ne assms(4) path _ tree] fl up c(1)
  obtain ss ss' where ss: "rp_steps pf = ss @ ss'" "fold (proof_step_up sha) ss (sha (0x00 # c)) \<in> set (pad_leaves sha hs)"
    by auto
  have pre: "path_preimages sha ss (sha (0x00 # c)) \<subseteq> ?X" using path unfolding ss(1) path_preimages_append by blast
  have "fold (proof_step_up sha) ss (sha (0x00 # c)) \<in> set hs"
    using ss(2) path_not_empty [OF inj low(1) pre ne] by (auto simp: pad_leaves_def)
  then obtain i b where i: "i \<in> set items" "item_bytes i = Ok b" "fold (proof_step_up sha) ss (sha (0x00 # c)) = sha b"
    using leaf_hashes_set [OF hs] by blast
  have bX: "b \<in> ?X" using i(1,2) by (auto simp: records_preimages_def item_preimages_iff)
  obtain b' where b': "b = 0x00 # b'" using item_bytes_form [OF i(2)] by blast
  have "b = ib" using path_leaf [OF inj low ne pre] i(3) bX c(1) unfolding b' by blast
  then show ?thesis using item_bytes_inject [OF i(2) _ _ assms(3)] ib assms(2) i(1) by auto
qed

text \<open>A hash for the witness: the length of the input and its last byte.\<close>

definition sample_tag_sha :: hash_fn where
  "sample_tag_sha bs = word_of_nat (length bs) # replicate 31 (last bs)"

lemma digest_sample_tag [simp]: "digest sample_tag_sha"
  by (simp add: sample_tag_sha_def)

lemma sample_item_bytes: "item_bytes (sample_item b) = Ok (0x00 # replicate 32 b @ u32_be 0 @ u32_be 1 @ [b])"
  by (simp add: item_bytes_def sample_item_def u32_try_from_def)

lemma sample_leaf: "try_leaf_hash sample_tag_sha (sample_item b) = Ok (42 # replicate 31 b)"
  by (simp add: try_leaf_hash_def sample_item_bytes sample_tag_sha_def)

lemma sample_tree:
  fixes a b :: u8
  defines "x \<equiv> 42 # replicate 31 a" and "y \<equiv> 42 # replicate 31 b"
  shows "combine_preimage sample_tag_sha x y = 0x02 # x @ y"
    and "try_compute_records_root sample_tag_sha [sample_item a, sample_item b] = Ok (65 # replicate 31 b)"
    and "records_preimages sample_tag_sha [sample_item a, sample_item b] =
      {[0x00], 0x00 # replicate 32 a @ u32_be 0 @ u32_be 1 @ [a], 0x00 # replicate 32 b @ u32_be 0 @ u32_be 1 @ [b], 0x02 # x @ y}"
proof -
  show c: "combine_preimage sample_tag_sha x y = 0x02 # x @ y"
    by (simp add: combine_preimage_def empty_hash_def sample_tag_sha_def x_def y_def)
  have leaves: "leaf_hashes sample_tag_sha [sample_item a, sample_item b] = Ok [x, y]"
    by (simp add: sample_leaf x_def y_def)
  have pad: "pad_leaves sample_tag_sha [x, y] = [x, y]" by (simp add: pad_leaves_def next_power_of_two.simps)
  have up: "combine_hash sample_tag_sha x y = 65 # replicate 31 b"
    unfolding combine_hash_preimage c by (simp add: sample_tag_sha_def x_def y_def)
  show "try_compute_records_root sample_tag_sha [sample_item a, sample_item b] = Ok (65 # replicate 31 b)"
    unfolding try_compute_records_root_def leaves by (simp add: pad fold_levels.simps up)
  show "records_preimages sample_tag_sha [sample_item a, sample_item b] =
      {[0x00], 0x00 # replicate 32 a @ u32_be 0 @ u32_be 1 @ [a], 0x00 # replicate 32 b @ u32_be 0 @ u32_be 1 @ [b], 0x02 # x @ y}"
    unfolding records_preimages_def leaves by (auto simp: pad tree_preimages.simps up c item_preimages_iff sample_item_bytes)
qed

theorem records_proof_sound_witness:
  "let items = [sample_item 1, sample_item 2];
       pf = \<lparr> rp_item_index = 7, rp_steps = [\<lparr> sibling_hash = 42 # replicate 31 1, sibling_is_right = False \<rparr>] \<rparr>
   in try_compute_records_root sample_tag_sha items = Ok (65 # replicate 31 2) \<and>
      verify_records_proof sample_tag_sha (65 # replicate 31 2) (sample_item 2) pf \<and>
      inj_on sample_tag_sha (records_preimages sample_tag_sha items \<union> proof_preimages sample_tag_sha (sample_item 2) pf) \<and>
      sample_item 2 \<in> set items"
proof -
  let ?items = "[sample_item 1, sample_item 2]"
  let ?pf = "\<lparr> rp_item_index = (7 :: u32), rp_steps = [\<lparr> sibling_hash = 42 # replicate 31 1, sibling_is_right = False \<rparr>] \<rparr>"
  let ?X = "records_preimages sample_tag_sha ?items \<union> proof_preimages sample_tag_sha (sample_item 2) ?pf"
  have v: "verify_records_proof sample_tag_sha (65 # replicate 31 2) (sample_item 2) ?pf"
    unfolding verify_records_proof_def sample_leaf
    by (simp add: proof_step_up_def combine_hash_preimage sample_tree(1)) (simp add: sample_tag_sha_def)
  have X: "?X = records_preimages sample_tag_sha ?items"
    unfolding proof_preimages_def sample_leaf sample_tree(3)
    by (auto simp: item_preimages_iff sample_item_bytes step_preimage_def sample_tree(1))
  have "inj_on sample_tag_sha (records_preimages sample_tag_sha ?items)"
    unfolding sample_tree(3) by (simp add: sample_tag_sha_def)
  then have inj: "inj_on sample_tag_sha ?X" unfolding X .
  have "sample_item 2 \<in> set ?items"
    using records_proof_sound [OF digest_sample_tag _ _ _ sample_tree(2) v inj] by (simp add: item_wf_def sample_item_def steps_wf_def)
  with v inj sample_tree(2) [of 1 2] show ?thesis unfolding Let_def by blast
qed

end
