(* ===== verification/Bls.thy ===== *)
theory Bls
  imports Canonical
begin

section \<open>BLS signatures\<close>

text \<open>
  \<^verbatim>\<open>protocol/crypto/src/bls.rs\<close> over the BLS library, which is a parameter: secret keys,
  public keys and signatures are their byte forms, \<open>bls_sig_ok\<close> and \<open>bls_pk_ok\<close> say which
  bytes parse. A signing or verifying function takes the message and the domain tag.
\<close>

record bls_lib =
  bls_key_gen :: "bytes \<Rightarrow> bytes option"
  bls_sk_to_pk :: "bytes \<Rightarrow> bytes"
  bls_sign :: "bytes \<Rightarrow> bytes \<Rightarrow> bytes \<Rightarrow> bytes"
  bls_sig_ok :: "bytes \<Rightarrow> bool"
  bls_pk_ok :: "bytes \<Rightarrow> bool"
  bls_aggregate :: "bytes list \<Rightarrow> bytes option"
  bls_fast_aggregate_verify :: "bytes \<Rightarrow> bytes \<Rightarrow> bytes \<Rightarrow> bytes list \<Rightarrow> bool"
  bls_verify :: "bytes \<Rightarrow> bytes \<Rightarrow> bytes \<Rightarrow> bytes \<Rightarrow> bool"

definition ascii :: "string \<Rightarrow> bytes" where
  "ascii s = map (\<lambda>c. of_nat (of_char c)) s"

definition CHECKPOINT_DST :: bytes where
  "CHECKPOINT_DST = ascii ''JKAIN-CHECKPOINT-BLS-V1''"

definition POP_DST :: bytes where
  "POP_DST = ascii ''JKAIN-BLS-POP-V1''"

record BlsIdentity =
  bls_secret :: bytes
  bls_public :: bytes

definition bls_from_ikm :: "bls_lib \<Rightarrow> bytes \<Rightarrow> (BlsIdentity, CryptoError) result" where
  "bls_from_ikm B ikm =
     map_ok (\<lambda>sk. \<lparr> bls_secret = sk, bls_public = bls_sk_to_pk B sk \<rparr>) (ok_or BlsKeyGenFailed (bls_key_gen B ikm))"

definition bls_identity_sign :: "bls_lib \<Rightarrow> BlsIdentity \<Rightarrow> bytes \<Rightarrow> bytes" where
  "bls_identity_sign B i msg = bls_sign B (bls_secret i) msg CHECKPOINT_DST"

definition aggregate_sigs :: "bls_lib \<Rightarrow> bytes list \<Rightarrow> (bytes, CryptoError) result" where
  "aggregate_sigs B sigs = ok_or BlsAggregateFailed (bls_aggregate B sigs)"

definition verify_aggregate :: "bls_lib \<Rightarrow> bytes \<Rightarrow> bytes \<Rightarrow> bytes list \<Rightarrow> bool" where
  "verify_aggregate B sig msg pks \<longleftrightarrow> bls_fast_aggregate_verify B sig msg CHECKPOINT_DST pks"

definition pop_message :: "bytes \<Rightarrow> bytes" where
  "pop_message pk = POP_DST @ pk"

definition sign_pop :: "bls_lib \<Rightarrow> BlsIdentity \<Rightarrow> bytes" where
  "sign_pop B i = bls_sign B (bls_secret i) (pop_message (bls_public i)) POP_DST"

definition verify_pop :: "bls_lib \<Rightarrow> bytes \<Rightarrow> bytes \<Rightarrow> bool" where
  "verify_pop B pk pop \<longleftrightarrow> bls_verify B pop (pop_message pk) POP_DST pk"

subsection \<open>What the library promises\<close>

text \<open>
  Correctness of fast aggregate verification: signatures that verify one by one over the
  same message aggregate to one that verifies against all the keys.
\<close>

definition bls_aggregation_correct :: "bls_lib \<Rightarrow> bool" where
  "bls_aggregation_correct B \<longleftrightarrow> (\<forall>sigs pks msg dst agg.
     sigs \<noteq> [] \<and> list_all2 (\<lambda>s pk. bls_verify B s msg dst pk) sigs pks \<and> bls_aggregate B sigs = Some agg \<longrightarrow>
     bls_fast_aggregate_verify B agg msg dst pks)"

text \<open>
  Used by the witnesses only: a signature is a sequence of blocks, each naming a key of one
  byte and the message; aggregation is concatenation.
\<close>

definition sample_block :: "bytes \<Rightarrow> bytes \<Rightarrow> bytes \<Rightarrow> bytes" where
  "sample_block msg dst pk = pk @ msg @ dst"

definition sample_bls :: bls_lib where
  "sample_bls = \<lparr> bls_key_gen = (\<lambda>ikm. Some (take 1 ikm)), bls_sk_to_pk = (\<lambda>sk. sk), bls_sign = (\<lambda>sk m d. sample_block m d sk),
     bls_sig_ok = (\<lambda>_. True), bls_pk_ok = (\<lambda>_. True),
     bls_aggregate = (\<lambda>sigs. if sigs = [] then None else Some (concat sigs)),
     bls_fast_aggregate_verify = (\<lambda>s m d pks. s = concat (map (sample_block m d) pks)),
     bls_verify = (\<lambda>s m d pk. s = sample_block m d pk) \<rparr>"

lemma sample_bls_correct: "bls_aggregation_correct sample_bls"
  unfolding bls_aggregation_correct_def
proof (intro allI impI, elim conjE)
  fix sigs pks msg dst agg
  assume a: "list_all2 (\<lambda>s pk. bls_verify sample_bls s msg dst pk) sigs pks"
    and "bls_aggregate sample_bls sigs = Some agg"
  from a have "sigs = map (sample_block msg dst) pks"
    by (induction rule: list_all2_induct) (auto simp: sample_bls_def)
  with \<open>bls_aggregate sample_bls sigs = Some agg\<close> show "bls_fast_aggregate_verify sample_bls agg msg dst pks"
    by (auto simp: sample_bls_def split: if_splits)
qed

end
