(* ===== verification/Checkpoint.thy ===== *)
theory Checkpoint
  imports Pruning Records Bls
begin

section \<open>Checkpoints\<close>

text \<open>
  \<^verbatim>\<open>protocol/consensus/src/checkpoint.rs\<close>: the roots a checkpoint commits to, the payload every
  node signs, the verification of an aggregate signature and the accumulation of partial
  signatures, with \<^verbatim>\<open>Hashgraph::checkpoint_payload\<close>, \<^verbatim>\<open>Hashgraph::from_checkpoint\<close> and the
  encoding of the roster history (\<^verbatim>\<open>reconnect.rs\<close>), which the roster-history root hashes.
\<close>

subsection \<open>The window root\<close>

definition SIGNED_WINDOW_ROUNDS :: u64 where
  "SIGNED_WINDOW_ROUNDS = 16"

definition RETENTION_ROUNDS :: u64 where
  "RETENTION_ROUNDS = SIGNED_WINDOW_ROUNDS"

definition WINDOW_ROOT_DST :: bytes where
  "WINDOW_ROOT_DST = ascii ''JKAIN-WINDOW-ROOT-V1''"

primrec tagged_u64 :: "u64 option \<Rightarrow> bytes" where
  "tagged_u64 None = [0]"
| "tagged_u64 (Some w) = 1 # u64_be w"

text \<open>A row cut or filled up with zeros to the given width.\<close>

definition normal_row :: "u64 list \<Rightarrow> nat \<Rightarrow> u64 list" where
  "normal_row row width = map (\<lambda>i. if i < length row then row ! i else 0) [0..<width]"

definition window_leaf_bytes :: "EventHash \<Rightarrow> EventRecord \<Rightarrow> nat \<Rightarrow> u32 \<Rightarrow> bytes" where
  "window_leaf_bytes h r canonical_width width_u32 =
     WINDOW_ROOT_DST @ eh_bytes h @ u64_be (er_seq r) @ u64_be (er_round r) @
     tagged_u64 (er_round_received r) @ tagged_u64 (map_option ts_get (er_timestamp r)) @
     u32_be width_u32 @ concat (map u64_be (normal_row (er_ancestor_seqs r) canonical_width))"

definition window_leaf_hash :: "hash_fn \<Rightarrow> EventHash \<Rightarrow> EventRecord \<Rightarrow> nat \<Rightarrow> u32 \<Rightarrow> bytes" where
  "window_leaf_hash sha h r canonical_width width_u32 = sha (window_leaf_bytes h r canonical_width width_u32)"

text \<open>The inclusive range \<^verbatim>\<open>start..=round\<close>.\<close>

definition rounds_between :: "u64 \<Rightarrow> u64 \<Rightarrow> u64 list" where
  "rounds_between start round = map word_of_nat [unat start..<Suc (unat round)]"

definition window_hashes :: "Hashgraph \<Rightarrow> u64 \<Rightarrow> u64 \<Rightarrow> EventHash list" where
  "window_hashes g start round = concat (map (consensus_order g) (rounds_between start round))"

text \<open>The number in the error is the hash, which the code prints in hexadecimal.\<close>

primrec window_leaves :: "hash_fn \<Rightarrow> Hashgraph \<Rightarrow> nat \<Rightarrow> u32 \<Rightarrow> EventHash list \<Rightarrow> (bytes list, Error) result" where
  "window_leaves sha g width width_u32 [] = Ok []"
| "window_leaves sha g width width_u32 (h # hs) =
     andThen (ok_or (OutOfRange ''window_root event'' (be_to_nat (eh_bytes h))) (hg_get g h)) (\<lambda>r.
     map_ok (\<lambda>ls. window_leaf_hash sha h r width width_u32 # ls) (window_leaves sha g width width_u32 hs))"

definition try_compute_window_root :: "hash_fn \<Rightarrow> Hashgraph \<Rightarrow> u64 \<Rightarrow> u64 \<Rightarrow> (bytes, Error) result" where
  "try_compute_window_root sha g round window_rounds = (
     let start = u64_saturating_sub round window_rounds;
         hashes = window_hashes g start round
     in if hashes = [] then Ok (empty_hash sha)
        else andThen (ok_or_panic (result_ok (member_count_at_round g round))) (\<lambda>canonical_width.
          andThen (ok_or (OutOfRange ''window_root member count'' canonical_width) (u32_try_from canonical_width)) (\<lambda>width_u32.
          andThen (window_leaves sha g canonical_width width_u32 hashes) (\<lambda>leaves.
          fold_levels sha (pad_leaves sha leaves)))))"

definition compute_window_root :: "hash_fn \<Rightarrow> Hashgraph \<Rightarrow> u64 \<Rightarrow> u64 \<Rightarrow> (bytes, Error) result" where
  "compute_window_root sha g round window_rounds =
     ok_or_panic (result_ok (try_compute_window_root sha g round window_rounds))"

subsection \<open>The roster-history root\<close>

definition ROSTER_HISTORY_ROOT_DST :: bytes where
  "ROSTER_HISTORY_ROOT_DST = ascii ''JKAIN-ROSTER-HISTORY-ROOT-V1''"

text \<open>The loop that separates the last snapshot below the window from those in it.\<close>

primrec select_snapshots :: "u64 \<Rightarrow> u64 \<Rightarrow> (u64 \<times> MembershipRegistry) list \<Rightarrow>
    (u64 \<times> MembershipRegistry) option \<Rightarrow> (u64 \<times> MembershipRegistry) list \<Rightarrow>
    (u64 \<times> MembershipRegistry) option \<times> (u64 \<times> MembershipRegistry) list" where
  "select_snapshots window_start round [] predecessor selected = (predecessor, selected)"
| "select_snapshots window_start round (p # ps) predecessor selected =
     (if fst p < window_start then select_snapshots window_start round ps (Some p) selected
      else if fst p \<le> round then select_snapshots window_start round ps predecessor (selected @ [p])
      else select_snapshots window_start round ps predecessor selected)"

definition canonical_roster_history :: "RosterHistory \<Rightarrow> u64 \<Rightarrow> u64 \<Rightarrow> RosterHistory option" where
  "canonical_roster_history rh round window_rounds = (
     let window_start = u64_saturating_sub round window_rounds;
         (predecessor, in_window) = select_snapshots window_start round (snapshots rh) None [];
         selected = (case predecessor of Some p \<Rightarrow> p # in_window | None \<Rightarrow> in_window)
     in if selected = [] then None else from_snapshots selected)"

definition encode_snapshot :: "u64 \<times> MembershipRegistry \<Rightarrow> (bytes, Error) result" where
  "encode_snapshot = (\<lambda>(round, registry). let registry_bytes = registry_to_bytes registry in
     map_ok (\<lambda>registry_len. u64_be round @ u32_be registry_len @ registry_bytes)
       (ok_or (OutOfRange ''RosterHistory registry length'' (length registry_bytes)) (u32_try_from (length registry_bytes))))"

primrec encode_snapshots :: "(u64 \<times> MembershipRegistry) list \<Rightarrow> (bytes, Error) result" where
  "encode_snapshots [] = Ok []"
| "encode_snapshots (p # ps) = andThen (encode_snapshot p) (\<lambda>b. map_ok (\<lambda>bs. b @ bs) (encode_snapshots ps))"

definition encode_roster_history :: "RosterHistory \<Rightarrow> (bytes, Error) result" where
  "encode_roster_history rh =
     andThen (ok_or (OutOfRange ''RosterHistory entry count'' (length (snapshots rh))) (u32_try_from (length (snapshots rh))))
       (\<lambda>entry_count. map_ok (\<lambda>bs. u32_be entry_count @ bs) (encode_snapshots (snapshots rh)))"

definition compute_roster_history_root :: "hash_fn \<Rightarrow> RosterHistory \<Rightarrow> u64 \<Rightarrow> u64 \<Rightarrow> (bytes, Error) result" where
  "compute_roster_history_root sha rh round window_rounds =
     (case canonical_roster_history rh round window_rounds of
        None \<Rightarrow> Ok (sha ROSTER_HISTORY_ROOT_DST)
      | Some selection \<Rightarrow> map_ok (\<lambda>encoded. sha (ROSTER_HISTORY_ROOT_DST @ encoded)) (encode_roster_history selection))"

definition roster_history_root :: "hash_fn \<Rightarrow> RosterHistory \<Rightarrow> u64 \<Rightarrow> u64 \<Rightarrow> (bytes, Error) result" where
  "roster_history_root sha rh round window_rounds =
     ok_or_panic (result_ok (compute_roster_history_root sha rh round window_rounds))"

subsection \<open>The payload\<close>

record CheckpointPayload =
  ck_round :: u64
  ck_records_root :: bytes
  ck_state_hash :: bytes
  ck_roster_hash :: bytes
  ck_prev_checkpoint_hash :: bytes
  ck_window_root :: bytes
  ck_roster_history_root :: bytes
  ck_roster_snapshot :: MembershipRegistry

definition checkpoint_payload_new ::
    "hash_fn \<Rightarrow> u64 \<Rightarrow> bytes \<Rightarrow> bytes \<Rightarrow> bytes \<Rightarrow> bytes \<Rightarrow> MembershipRegistry \<Rightarrow> CheckpointPayload" where
  "checkpoint_payload_new sha round records_root state_hash window_root rh_root roster_snapshot = \<lparr>
     ck_round = round, ck_records_root = records_root, ck_state_hash = state_hash,
     ck_roster_hash = hash_registry sha roster_snapshot,
     ck_prev_checkpoint_hash = replicate 32 0,
     ck_window_root = window_root, ck_roster_history_root = rh_root,
     ck_roster_snapshot = roster_snapshot \<rparr>"

definition with_prev_checkpoint_hash :: "CheckpointPayload \<Rightarrow> bytes \<Rightarrow> CheckpointPayload" where
  "with_prev_checkpoint_hash p h = p\<lparr> ck_prev_checkpoint_hash := h \<rparr>"

definition signing_bytes :: "CheckpointPayload \<Rightarrow> bytes" where
  "signing_bytes p = u64_be (ck_round p) @ ck_records_root p @ ck_state_hash p @ ck_roster_hash p @
     ck_prev_checkpoint_hash p @ ck_window_root p @ ck_roster_history_root p"

definition signing_bytes_hash :: "hash_fn \<Rightarrow> CheckpointPayload \<Rightarrow> bytes" where
  "signing_bytes_hash sha p = sha (signing_bytes p)"

text \<open>\<open>Ok None\<close> is the \<^verbatim>\<open>None\<close> of the code.\<close>

definition checkpoint_payload :: "hash_fn \<Rightarrow> Hashgraph \<Rightarrow> u64 \<Rightarrow> bytes \<Rightarrow> bytes \<Rightarrow> CheckpointPayload option hg_result" where
  "checkpoint_payload sha g round records_root state_hash =
     (if \<not> is_round_decided g round then Ok None
      else andThen (registry_at_round g round) (\<lambda>roster_snapshot.
        case try_compute_window_root sha g round SIGNED_WINDOW_ROUNDS of
          Panic \<Rightarrow> Panic
        | Err _ \<Rightarrow> Ok None
        | Ok window_root \<Rightarrow>
            (case compute_roster_history_root sha (roster_history g) round SIGNED_WINDOW_ROUNDS of
               Panic \<Rightarrow> Panic
             | Err _ \<Rightarrow> Ok None
             | Ok rh_root \<Rightarrow>
                 Ok (Some (checkpoint_payload_new sha round records_root state_hash window_root rh_root roster_snapshot)))))"

definition from_checkpoint :: "CheckpointPayload \<Rightarrow> RosterHistory \<Rightarrow> Hashgraph" where
  "from_checkpoint checkpoint rh = (let ids = member_ids (ck_roster_snapshot checkpoint) in \<lparr>
     events = [], children = [], first_child = [], by_creator_seq = [], latest_by_creator = [],
     member_index = zip ids [0..<length ids],
     member_count = length ids,
     roster_history = rh,
     known_forkers = replicate (length ids) False,
     witnesses_by_round = [], undecided_witnesses = [],
     highest_witness_round = ck_round checkpoint,
     fully_decided_rounds = {1..ck_round checkpoint},
     next_round_to_order = u64_saturating_add (ck_round checkpoint) 1 \<rparr>)"

subsection \<open>Signatures\<close>

record CheckpointSig =
  cs_round :: u64
  cs_signer :: NodeId
  cs_sig :: bytes

definition encode_CheckpointSig :: "CheckpointSig \<Rightarrow> bytes" where
  "encode_CheckpointSig s = u64_be (cs_round s) @ u64_be (node_get (cs_signer s)) @ cs_sig s"

definition decode_CheckpointSig :: "bls_lib \<Rightarrow> bytes \<Rightarrow> CheckpointSig option" where
  "decode_CheckpointSig B bs =
     (if length bs \<noteq> 112 then None
      else if bls_sig_ok B (take 96 (drop 16 bs)) then
        Some \<lparr> cs_round = be_u64 (take 8 bs), cs_signer = NodeId (be_u64 (take 8 (drop 8 bs))), cs_sig = take 96 (drop 16 bs) \<rparr>
      else None)"

record SignedCheckpoint =
  sc_payload :: CheckpointPayload
  sc_aggregate_sig :: bytes
  sc_signers :: "NodeId list"

text \<open>The loop over the signers: repeated ones are skipped, a stranger ends it.\<close>

primrec collect_signers :: "MembershipRegistry \<Rightarrow> MembershipRegistry \<Rightarrow> NodeId list \<Rightarrow> NodeId list \<Rightarrow> NodeId list option" where
  "collect_signers snapshot registry [] uniq = Some uniq"
| "collect_signers snapshot registry (s # ss) uniq =
     (if s \<in> set uniq then collect_signers snapshot registry ss uniq
      else if \<not> registry_contains snapshot s then None
      else if \<not> registry_contains registry s then None
      else collect_signers snapshot registry ss (uniq @ [s]))"

definition signer_key :: "bls_lib \<Rightarrow> MembershipRegistry \<Rightarrow> NodeId \<Rightarrow> bytes option" where
  "signer_key B snapshot signer = do {
     bls_bytes \<leftarrow> bls_key_for snapshot signer;
     if bls_pk_ok B bls_bytes then Some bls_bytes else None }"

definition verify_with_registry :: "bls_lib \<Rightarrow> SignedCheckpoint \<Rightarrow> MembershipRegistry \<Rightarrow> bool" where
  "verify_with_registry B sc registry = (
     let snapshot = ck_roster_snapshot (sc_payload sc); count = registry_len snapshot
     in if count = 0 then False
        else case collect_signers snapshot registry (sc_signers sc) [] of
          None \<Rightarrow> False
        | Some uniq \<Rightarrow>
            if length uniq * 3 \<le> count * 2 then False
            else if length uniq \<noteq> length (sc_signers sc) then False
            else case those (map (signer_key B snapshot) (sort uniq)) of
              None \<Rightarrow> False
            | Some pks \<Rightarrow> verify_aggregate B (sc_aggregate_sig sc) (signing_bytes (sc_payload sc)) pks)"

definition verify_SignedCheckpoint :: "bls_lib \<Rightarrow> SignedCheckpoint \<Rightarrow> bool" where
  "verify_SignedCheckpoint B sc = verify_with_registry B sc (ck_roster_snapshot (sc_payload sc))"

subsection \<open>Accumulation\<close>

record CheckpointAccumulator =
  acc_payload :: CheckpointPayload
  acc_snapshot :: bytes
  acc_sigs :: "(NodeId, CheckpointSig) hmap"

definition accumulator_new :: "CheckpointPayload \<Rightarrow> bytes \<Rightarrow> CheckpointAccumulator" where
  "accumulator_new payload snapshot = \<lparr> acc_payload = payload, acc_snapshot = snapshot, acc_sigs = [] \<rparr>"

definition add_sig :: "bls_lib \<Rightarrow> CheckpointSig \<Rightarrow> MembershipRegistry \<Rightarrow> CheckpointAccumulator \<Rightarrow>
    CheckpointAccumulator \<times> SignedCheckpoint option" where
  "add_sig B sig registry acc =
     (if cs_round sig \<noteq> ck_round (acc_payload acc) then (acc, None)
      else if \<not> registry_contains registry (cs_signer sig) then (acc, None)
      else let count = registry_len registry in
        if count * 2 < length (acc_sigs acc) * 3 then (acc, None)
        else let acc = acc\<lparr> acc_sigs := or_insert (cs_signer sig) sig (acc_sigs acc) \<rparr> in
          if count * 2 < length (acc_sigs acc) * 3 then
            let sorted_sigs = sort_key cs_signer (map snd (acc_sigs acc)) in
            case aggregate_sigs B (map cs_sig sorted_sigs) of
              Ok agg \<Rightarrow> (acc, Some \<lparr> sc_payload = acc_payload acc, sc_aggregate_sig = agg,
                sc_signers = sort (map fst (acc_sigs acc)) \<rparr>)
            | _ \<Rightarrow> (acc, None)
          else (acc, None))"

subsection \<open>Verification\<close>

lemma collect_signers_Some:
  "distinct uniq \<Longrightarrow> collect_signers snapshot registry ss uniq = Some out \<Longrightarrow>
   distinct out \<and> set out = set uniq \<union> set ss \<and>
   (\<forall>s \<in> set ss - set uniq. registry_contains snapshot s \<and> registry_contains registry s) \<and> length out \<le> length uniq + length ss"
proof (induction ss arbitrary: uniq)
  case (Cons s ss)
  then show ?case by (fastforce split: if_splits dest: Cons.IH [rotated])
qed simp

lemma collect_signers_all:
  "distinct (uniq @ ss) \<Longrightarrow> \<forall>s \<in> set ss. registry_contains snapshot s \<and> registry_contains registry s \<Longrightarrow>
   collect_signers snapshot registry ss uniq = Some (uniq @ ss)"
  by (induction ss arbitrary: uniq) auto

text \<open>What acceptance means.\<close>

definition quorum_of :: "MembershipRegistry \<Rightarrow> NodeId list \<Rightarrow> bool" where
  "quorum_of registry signers \<longleftrightarrow> distinct signers \<and> (\<forall>s \<in> set signers. registry_contains registry s) \<and>
     supermajority (length signers) (registry_len registry)"

lemma verify_with_registry_iff:
  "verify_with_registry B sc registry \<longleftrightarrow>
     quorum_of (ck_roster_snapshot (sc_payload sc)) (sc_signers sc) \<and> registry_len (ck_roster_snapshot (sc_payload sc)) \<noteq> 0 \<and>
     (\<forall>s \<in> set (sc_signers sc). registry_contains registry s) \<and>
     (\<exists>pks. those (map (signer_key B (ck_roster_snapshot (sc_payload sc))) (sort (sc_signers sc))) = Some pks \<and>
       verify_aggregate B (sc_aggregate_sig sc) (signing_bytes (sc_payload sc)) pks)"
  (is "_ \<longleftrightarrow> ?Q")
proof
  assume v: "verify_with_registry B sc registry"
  then obtain uniq where u: "collect_signers (ck_roster_snapshot (sc_payload sc)) registry (sc_signers sc) [] = Some uniq"
    and n: "registry_len (ck_roster_snapshot (sc_payload sc)) * 2 < length uniq * 3" "length uniq = length (sc_signers sc)"
    and k: "\<exists>pks. those (map (signer_key B (ck_roster_snapshot (sc_payload sc))) (sort uniq)) = Some pks \<and>
       verify_aggregate B (sc_aggregate_sig sc) (signing_bytes (sc_payload sc)) pks" "registry_len (ck_roster_snapshot (sc_payload sc)) \<noteq> 0"
    by (auto simp: verify_with_registry_def Let_def split: if_splits option.splits)
  have d: "distinct uniq" "set uniq = set (sc_signers sc)" using collect_signers_Some [OF _ u] by auto
  then have "distinct (sc_signers sc)" using n(2) by (metis card_distinct distinct_card)
  then have "sort uniq = sort (sc_signers sc)" using d by (simp add: sorted_distinct_set_unique)
  then show ?Q
    using k n d collect_signers_Some [OF _ u] \<open>distinct (sc_signers sc)\<close>
    by (auto simp: quorum_of_def supermajority_def)
next
  assume q: ?Q
  then have "collect_signers (ck_roster_snapshot (sc_payload sc)) registry (sc_signers sc) [] = Some (sc_signers sc)"
    using collect_signers_all [of "[]"] by (simp add: quorum_of_def)
  with q show "verify_with_registry B sc registry"
    by (auto simp: verify_with_registry_def Let_def quorum_of_def supermajority_def)
qed

lemma registry_contains_iff: "registry_contains registry s \<longleftrightarrow> s \<in> fst ` set (keys registry)"
  by (simp add: registry_contains_def map_of_eq_None_iff)

lemma card_members: "hm_wf (keys registry) \<Longrightarrow> card (fst ` set (keys registry)) = registry_len registry"
  unfolding registry_len_def by (metis distinct_card length_map set_map)

lemma quorum_inter:
  assumes "hm_wf (keys registry)" "quorum_of registry ss" "quorum_of registry ts"
  shows "registry_len registry < 3 * card (set ss \<inter> set ts)"
proof -
  have "set ss \<subseteq> fst ` set (keys registry)" "set ts \<subseteq> fst ` set (keys registry)"
    using assms(2,3) by (auto simp: quorum_of_def registry_contains_iff)
  moreover have "card (set ss) = length ss" "card (set ts) = length ts"
    using assms(2,3) by (simp_all add: quorum_of_def distinct_card)
  ultimately show ?thesis
    using supermajority_inter [of "fst ` set (keys registry)" "set ss" "set ts"] assms
    by (simp add: card_members quorum_of_def)
qed

subsection \<open>Accumulation of partial signatures\<close>

text \<open>A sequence of calls of \<^verbatim>\<open>add_sig\<close> with the checkpoints it returns.\<close>

primrec add_sigs :: "bls_lib \<Rightarrow> MembershipRegistry \<Rightarrow> CheckpointSig list \<Rightarrow> CheckpointAccumulator \<Rightarrow>
    CheckpointAccumulator \<times> SignedCheckpoint list" where
  "add_sigs B registry [] acc = (acc, [])"
| "add_sigs B registry (s # ss) acc =
     (let (acc, out) = add_sig B s registry acc; (acc, outs) = add_sigs B registry ss acc
      in (acc, case_option [] (\<lambda>sc. [sc]) out @ outs))"

definition eligible :: "MembershipRegistry \<Rightarrow> CheckpointPayload \<Rightarrow> CheckpointSig \<Rightarrow> bool" where
  "eligible registry p s \<longleftrightarrow> cs_round s = ck_round p \<and> registry_contains registry (cs_signer s)"

definition partial_ok :: "bls_lib \<Rightarrow> MembershipRegistry \<Rightarrow> CheckpointPayload \<Rightarrow> CheckpointSig \<Rightarrow> bool" where
  "partial_ok B registry p s \<longleftrightarrow> (\<exists>pk. signer_key B registry (cs_signer s) = Some pk \<and>
     bls_verify B (cs_sig s) (signing_bytes p) CHECKPOINT_DST pk)"

definition acc_done :: "MembershipRegistry \<Rightarrow> CheckpointAccumulator \<Rightarrow> bool" where
  "acc_done registry acc \<longleftrightarrow> supermajority (length (acc_sigs acc)) (registry_len registry)"

definition acc_inv :: "bls_lib \<Rightarrow> MembershipRegistry \<Rightarrow> CheckpointAccumulator \<Rightarrow> bool" where
  "acc_inv B registry acc \<longleftrightarrow> hm_wf (acc_sigs acc) \<and>
     (\<forall>(n, s) \<in> set (acc_sigs acc). cs_signer s = n \<and> registry_contains registry n \<and> partial_ok B registry (acc_payload acc) s)"

text \<open>The checkpoint that a full accumulator stands for.\<close>

definition acc_checkpoint :: "bls_lib \<Rightarrow> CheckpointAccumulator \<Rightarrow> SignedCheckpoint option" where
  "acc_checkpoint B acc = map_option (\<lambda>agg. \<lparr> sc_payload = acc_payload acc, sc_aggregate_sig = agg,
       sc_signers = sort (map fst (acc_sigs acc)) \<rparr>)
     (bls_aggregate B (map cs_sig (sort_key cs_signer (map snd (acc_sigs acc)))))"

lemma add_sig_cases:
  "add_sig B s registry acc =
     (if \<not> eligible registry (acc_payload acc) s \<or> acc_done registry acc then (acc, None)
      else let acc' = acc\<lparr> acc_sigs := or_insert (cs_signer s) s (acc_sigs acc) \<rparr>
        in (acc', if acc_done registry acc' then acc_checkpoint B acc' else None))"
  by (cases "bls_aggregate B (map cs_sig (sort_key cs_signer (map snd (or_insert (cs_signer s) s (acc_sigs acc)))))")
    (simp_all add: add_sig_def eligible_def acc_done_def supermajority_def Let_def acc_checkpoint_def aggregate_sigs_def)

lemma acc_inv_insert:
  assumes "acc_inv B registry acc" "eligible registry (acc_payload acc) s" "partial_ok B registry (acc_payload acc) s"
  shows "acc_inv B registry (acc\<lparr> acc_sigs := or_insert (cs_signer s) s (acc_sigs acc) \<rparr>)"
proof (cases "map_of (acc_sigs acc) (cs_signer s)")
  case None
  then have "or_insert (cs_signer s) s (acc_sigs acc) = acc_sigs acc @ [(cs_signer s, s)]"
    using AList_update_append [of "cs_signer s" "acc_sigs acc" s] by (simp add: or_insert_def map_of_eq_None_iff [symmetric])
  with assms None show ?thesis by (auto simp: acc_inv_def eligible_def map_of_eq_None_iff)
qed (use assms in \<open>simp add: or_insert_def acc_inv_def\<close>)

lemma keys_or_insert: "fst ` set (or_insert k v m) = insert k (fst ` set m)"
proof -
  have "k' \<in> fst ` set (or_insert k v m) \<longleftrightarrow> k' = k \<or> k' \<in> fst ` set m" for k'
    using map_of_or_insert [of k v m k'] map_of_eq_None_iff [of m k'] map_of_eq_None_iff [of "or_insert k v m" k']
      map_of_eq_None_iff [of m k] by (auto split: if_splits)
  then show ?thesis by blast
qed

text \<open>Sorted signatures and sorted signers are in step.\<close>

lemma sort_key_map: "distinct (map f xs) \<Longrightarrow> map f (sort_key f xs) = sort (map f xs)"
  by (intro sorted_distinct_set_unique) (auto simp: distinct_map)

lemma those_map_signer_key:
  "\<forall>s \<in> set ss. \<exists>pk. f s = Some pk \<Longrightarrow> those (map f ss) = Some (map (\<lambda>s. the (f s)) ss)"
  by (induction ss) auto

lemma acc_checkpoint_verifies:
  assumes "acc_inv B registry acc" "acc_done registry acc" "acc_checkpoint B acc = Some sc" "bls_aggregation_correct B"
    and "registry = ck_roster_snapshot (acc_payload acc)" "registry_len registry \<noteq> 0"
  shows "verify_SignedCheckpoint B sc"
proof -
  let ?sigs = "sort_key cs_signer (map snd (acc_sigs acc))"
  from assms(3) obtain agg where agg: "bls_aggregate B (map cs_sig ?sigs) = Some agg"
    and sc: "sc = \<lparr> sc_payload = acc_payload acc, sc_aggregate_sig = agg, sc_signers = sort (map fst (acc_sigs acc)) \<rparr>"
    by (auto simp: acc_checkpoint_def)
  have ms: "map cs_signer (map snd (acc_sigs acc)) = map fst (acc_sigs acc)"
    using assms(1) by (auto simp: acc_inv_def)
  then have signers: "map cs_signer ?sigs = sort (map fst (acc_sigs acc))"
    using sort_key_map [of cs_signer "map snd (acc_sigs acc)"] assms(1) unfolding acc_inv_def by (simp only: ms)
  have ok: "\<forall>s \<in> set ?sigs. partial_ok B registry (acc_payload acc) s \<and> registry_contains registry (cs_signer s)"
    using assms(1) by (auto simp: acc_inv_def)
  let ?key = "\<lambda>n. the (signer_key B registry n)"
  have keys: "those (map (signer_key B registry) (map cs_signer ?sigs)) = Some (map ?key (map cs_signer ?sigs))"
    using ok by (intro those_map_signer_key) (auto simp: partial_ok_def)
  have "list_all2 (\<lambda>s pk. bls_verify B s (signing_bytes (acc_payload acc)) CHECKPOINT_DST pk)
      (map cs_sig ?sigs) (map ?key (map cs_signer ?sigs))"
    unfolding map_map list.rel_map using ok by (intro list.rel_refl_strong) (force simp: partial_ok_def)
  moreover have "?sigs \<noteq> []" using assms(2) by (auto simp: acc_done_def supermajority_def dest: arg_cong [of _ _ length])
  ultimately have "verify_aggregate B agg (signing_bytes (acc_payload acc)) (map ?key (map cs_signer ?sigs))"
    using assms(4) agg unfolding bls_aggregation_correct_def verify_aggregate_def by blast
  moreover have "quorum_of registry (sort (map fst (acc_sigs acc)))"
    using assms(1,2) by (auto simp: quorum_of_def acc_inv_def acc_done_def)
  ultimately show ?thesis
    using keys assms(5,6) by (auto simp: verify_SignedCheckpoint_def verify_with_registry_iff sc signers quorum_of_def sorted_sort_id)
qed

lemma add_sigs_done: "acc_done registry acc \<Longrightarrow> add_sigs B registry ss acc = (acc, [])"
  by (induction ss) (simp_all add: add_sig_cases)

lemma acc_inv_card: "acc_inv B registry acc \<Longrightarrow> card (fst ` set (acc_sigs acc)) = length (acc_sigs acc)"
  by (metis acc_inv_def distinct_card length_map set_map)

lemma add_sig_completes:
  fixes acc :: CheckpointAccumulator
  defines "acc' s \<equiv> acc\<lparr> acc_sigs := or_insert (cs_signer s) s (acc_sigs acc) \<rparr>"
  assumes "bls_aggregation_correct B" "\<forall>sigs. sigs \<noteq> [] \<longrightarrow> bls_aggregate B sigs \<noteq> None"
    and "eligible registry (acc_payload acc) s" "\<not> acc_done registry acc" "acc_inv B registry (acc' s)"
    and "acc_done registry (acc' s)" "registry_len registry \<noteq> 0" "registry = ck_roster_snapshot (acc_payload acc)"
  shows "\<exists>sc. add_sig B s registry acc = (acc' s, Some sc) \<and> sc_payload sc = acc_payload acc \<and> verify_SignedCheckpoint B sc"
proof -
  have "acc_sigs (acc' s) \<noteq> []" using assms(7) by (auto simp: acc_done_def supermajority_def)
  then have "sort_key cs_signer (map snd (acc_sigs (acc' s))) \<noteq> []" by (metis length_0_conv length_map length_sort)
  then obtain agg where "bls_aggregate B (map cs_sig (sort_key cs_signer (map snd (acc_sigs (acc' s))))) = Some agg"
    using assms(3) by (meson map_is_Nil_conv not_None_eq)
  then obtain sc where sc: "acc_checkpoint B (acc' s) = Some sc" "sc_payload sc = acc_payload acc"
    by (simp add: acc_checkpoint_def acc'_def)
  have "verify_SignedCheckpoint B sc"
    using acc_checkpoint_verifies [OF assms(6,7) sc(1) assms(2)] assms(8,9) by (simp add: acc'_def)
  then show ?thesis using assms(4,5,7) sc by (simp add: add_sig_cases acc'_def Let_def)
qed

lemma add_sigs_run:
  assumes "bls_aggregation_correct B" "\<forall>sigs. sigs \<noteq> [] \<longrightarrow> bls_aggregate B sigs \<noteq> None"
    and "hm_wf (keys registry)" "registry_len registry \<noteq> 0"
  shows "acc_inv B registry acc \<Longrightarrow> \<not> acc_done registry acc \<Longrightarrow> registry = ck_roster_snapshot (acc_payload acc) \<Longrightarrow>
    \<forall>s \<in> set ss. eligible registry (acc_payload acc) s \<longrightarrow> partial_ok B registry (acc_payload acc) s \<Longrightarrow>
    \<exists>acc'. acc_payload acc' = acc_payload acc \<and>
      (if supermajority (card (fst ` set (acc_sigs acc) \<union> {cs_signer s | s. s \<in> set ss \<and> eligible registry (acc_payload acc) s}))
            (registry_len registry)
       then \<exists>sc. add_sigs B registry ss acc = (acc', [sc]) \<and> sc_payload sc = acc_payload acc \<and> verify_SignedCheckpoint B sc
       else add_sigs B registry ss acc = (acc', []))"
proof (induction ss arbitrary: acc)
  case Nil
  then show ?case by (simp add: acc_done_def acc_inv_card)
next
  case (Cons s ss)
  let ?E = "\<lambda>ss. {cs_signer s | s. s \<in> set ss \<and> eligible registry (acc_payload acc) s}"
  have rest: "\<forall>s \<in> set ss. eligible registry (acc_payload acc) s \<longrightarrow> partial_ok B registry (acc_payload acc) s"
    using Cons.prems(4) by simp
  show ?case
  proof (cases "eligible registry (acc_payload acc) s")
    case False
    then have E: "?E (s # ss) = ?E ss" by auto
    have run: "add_sigs B registry (s # ss) acc = add_sigs B registry ss acc"
      using False by (simp add: add_sig_cases split_beta)
    from Cons.IH [OF Cons.prems(1-3) rest] show ?thesis unfolding E run .
  next
    case True
    let ?acc = "acc\<lparr> acc_sigs := or_insert (cs_signer s) s (acc_sigs acc) \<rparr>"
    have inv: "acc_inv B registry ?acc" using acc_inv_insert [OF Cons.prems(1) True] Cons.prems(4) True by simp
    have keys: "fst ` set (acc_sigs ?acc) \<union> ?E ss = fst ` set (acc_sigs acc) \<union> ?E (s # ss)"
      using True by (auto simp: keys_or_insert)
    show ?thesis
    proof (cases "acc_done registry ?acc")
      case False
      then have run: "add_sigs B registry (s # ss) acc = add_sigs B registry ss ?acc"
        using True Cons.prems(2) by (simp add: add_sig_cases Let_def split_beta)
      have pay: "acc_payload ?acc = acc_payload acc" by simp
      from Cons.IH [OF inv False, unfolded pay, OF Cons.prems(3) rest] show ?thesis unfolding run keys [symmetric] .
    next
      case full: True
      from add_sig_completes [OF assms(1,2) True Cons.prems(2) inv full assms(4) Cons.prems(3)]
      obtain sc where sc: "add_sig B s registry acc = (?acc, Some sc)" "sc_payload sc = acc_payload acc" "verify_SignedCheckpoint B sc"
        by (elim exE conjE)
      have le: "card (fst ` set (acc_sigs ?acc)) \<le> card (fst ` set (acc_sigs acc) \<union> ?E (s # ss))"
        unfolding keys [symmetric] by (intro card_mono) auto
      have "supermajority (card (fst ` set (acc_sigs acc) \<union> ?E (s # ss))) (registry_len registry)"
        by (rule supermajority_mono [OF full [unfolded acc_done_def acc_inv_card [OF inv, symmetric]] le])
      then show ?thesis using sc add_sigs_done [OF full] by (intro exI [of _ ?acc]) simp
    qed
  qed
qed

subsection \<open>What a signature binds\<close>

definition payload_wf :: "hash_fn \<Rightarrow> CheckpointPayload \<Rightarrow> bool" where
  "payload_wf sha p \<longleftrightarrow> length (ck_records_root p) = 32 \<and> length (ck_state_hash p) = 32 \<and>
     ck_roster_hash p = hash_registry sha (ck_roster_snapshot p) \<and> length (ck_prev_checkpoint_hash p) = 32 \<and>
     length (ck_window_root p) = 32 \<and> length (ck_roster_history_root p) = 32"

lemma length_signing_bytes: "digest sha \<Longrightarrow> payload_wf sha p \<Longrightarrow> length (signing_bytes p) = 200"
  by (simp add: payload_wf_def signing_bytes_def hash_registry_def)

lemma signing_bytes_inject:
  assumes "digest sha" "payload_wf sha p" "payload_wf sha q" "signing_bytes p = signing_bytes q"
  shows "ck_round p = ck_round q \<and> ck_records_root p = ck_records_root q \<and> ck_state_hash p = ck_state_hash q \<and>
    ck_roster_hash p = ck_roster_hash q \<and> ck_prev_checkpoint_hash p = ck_prev_checkpoint_hash q \<and>
    ck_window_root p = ck_window_root q \<and> ck_roster_history_root p = ck_roster_history_root q"
  using assms by (simp add: payload_wf_def signing_bytes_def hash_registry_def)

lemma encode_decode_CheckpointSig:
  assumes "length (cs_sig s) = 96" "bls_sig_ok B (cs_sig s)"
  shows "decode_CheckpointSig B (encode_CheckpointSig s) = Some s"
  using assms by (simp add: decode_CheckpointSig_def encode_CheckpointSig_def)

lemma decode_CheckpointSig_Some:
  assumes "decode_CheckpointSig B bs = Some s"
  shows "length (cs_sig s) = 96 \<and> bls_sig_ok B (cs_sig s) \<and> bs = encode_CheckpointSig s"
proof -
  from assms have l: "length bs = 112" and s: "s = \<lparr> cs_round = be_u64 (take 8 bs), cs_signer = NodeId (be_u64 (take 8 (drop 8 bs))), cs_sig = take 96 (drop 16 bs) \<rparr>"
    and ok: "bls_sig_ok B (take 96 (drop 16 bs))" by (auto simp: decode_CheckpointSig_def split: if_splits)
  have "drop 8 bs = take 8 (drop 8 bs) @ take 96 (drop 16 bs)"
    using l append_take_drop_id [of 8 "drop 8 bs"] by simp
  then have "bs = take 8 bs @ take 8 (drop 8 bs) @ take 96 (drop 16 bs)"
    by (metis append_take_drop_id)
  then show ?thesis using l ok by (simp add: s encode_CheckpointSig_def u64_be_be_u64)
qed

subsection \<open>Properties\<close>

text \<open>
  Property C7. Two accepted checkpoints over the same roster, for whatever payloads and
  whatever registries they are checked against, are each signed by distinct members making
  up more than two thirds of the roster, so more than a third of the roster signed both: a
  fork of the checkpoint chain costs the equivocation of more than a third.
\<close>

theorem verified_checkpoints_overlap:
  assumes "verify_with_registry B sc registry" "verify_with_registry B sc' registry'"
    and "ck_roster_snapshot (sc_payload sc) = roster" "ck_roster_snapshot (sc_payload sc') = roster" "hm_wf (keys roster)"
  shows "quorum_of roster (sc_signers sc) \<and> quorum_of roster (sc_signers sc') \<and>
    registry_len roster < 3 * card (set (sc_signers sc) \<inter> set (sc_signers sc'))"
  using assms quorum_inter [OF assms(5)] by (auto simp: verify_with_registry_iff)

definition sample_roster4 :: MembershipRegistry where
  "sample_roster4 = \<lparr> keys = map (\<lambda>n. (NodeId n, replicate 32 0, [ucast n])) [1, 2, 3, 4] \<rparr>"

definition sample_payload4 :: CheckpointPayload where
  "sample_payload4 = checkpoint_payload_new sample_sha 5 [1] [2] [3] [4] sample_roster4"

definition sample_partial :: "u64 \<Rightarrow> CheckpointSig" where
  "sample_partial n = \<lparr> cs_round = 5, cs_signer = NodeId n, cs_sig = sample_block (signing_bytes sample_payload4) CHECKPOINT_DST [ucast n] \<rparr>"

definition sample_signed :: "u64 list \<Rightarrow> SignedCheckpoint" where
  "sample_signed ns = \<lparr> sc_payload = sample_payload4,
     sc_aggregate_sig = concat (map (\<lambda>n. sample_block (signing_bytes sample_payload4) CHECKPOINT_DST [ucast n]) ns),
     sc_signers = map NodeId ns \<rparr>"

lemma sample_payload4_roster: "ck_roster_snapshot sample_payload4 = sample_roster4" "ck_round sample_payload4 = 5"
  by (simp_all add: sample_payload4_def checkpoint_payload_new_def)

lemma sample_signed_verifies:
  "verify_with_registry sample_bls (sample_signed [1, 2, 3]) sample_roster4"
  "verify_with_registry sample_bls (sample_signed [2, 3, 4]) sample_roster4"
  by (simp_all add: verify_with_registry_def sample_signed_def sample_payload4_roster sample_roster4_def registry_len_def
      registry_contains_def signer_key_def bls_key_for_def sample_bls_def verify_aggregate_def insort_key.simps)

theorem verified_checkpoints_overlap_witness:
  "registry_len sample_roster4 = 4 \<and> 4 < 3 * card (set (sc_signers (sample_signed [1, 2, 3])) \<inter> set (sc_signers (sample_signed [2, 3, 4])))"
  using verified_checkpoints_overlap [OF sample_signed_verifies, of sample_roster4]
  by (simp add: sample_signed_def sample_payload4_roster sample_roster4_def registry_len_def)

text \<open>
  Property C8. The accumulator: for every sequence of partial signatures over a payload,
  in which those by members for the right round verify, the checkpoint is returned exactly
  once when the distinct members among the signers exceed two thirds of the roster, and
  never otherwise; repeated signers, strangers and signatures for other rounds do not
  count. The returned checkpoint carries the payload and verifies. The signature library is
  assumed to aggregate every non-empty list, correctly.
\<close>

theorem accumulator_exact:
  assumes "bls_aggregation_correct B" "\<forall>sigs. sigs \<noteq> [] \<longrightarrow> bls_aggregate B sigs \<noteq> None"
    and "registry = ck_roster_snapshot p" "hm_wf (keys registry)" "registry_len registry \<noteq> 0"
    and "\<forall>s \<in> set ss. eligible registry p s \<longrightarrow> partial_ok B registry p s"
  shows "if supermajority (card {cs_signer s | s. s \<in> set ss \<and> eligible registry p s}) (registry_len registry)
    then \<exists>acc sc. add_sigs B registry ss (accumulator_new p snapshot) = (acc, [sc]) \<and>
      sc_payload sc = p \<and> verify_SignedCheckpoint B sc
    else \<exists>acc. add_sigs B registry ss (accumulator_new p snapshot) = (acc, [])"
proof -
  have "acc_inv B registry (accumulator_new p snapshot)" "\<not> acc_done registry (accumulator_new p snapshot)"
    by (simp_all add: acc_inv_def accumulator_new_def acc_done_def supermajority_def)
  from add_sigs_run [OF assms(1,2,4,5) this, of ss] show ?thesis
    using assms(3,6) by (auto simp: accumulator_new_def split: if_splits)
qed

lemma sample_partial_ok:
  "n \<in> {1, 2, 3, 4} \<Longrightarrow> partial_ok sample_bls sample_roster4 sample_payload4 (sample_partial n)"
  by (auto simp: partial_ok_def sample_partial_def signer_key_def bls_key_for_def sample_roster4_def sample_bls_def)

theorem accumulator_exact_witness:
  "\<exists>acc sc. add_sigs sample_bls sample_roster4 (map sample_partial [3, 3, 1, 4, 2]) (accumulator_new sample_payload4 []) = (acc, [sc]) \<and>
     sc_payload sc = sample_payload4 \<and> verify_SignedCheckpoint sample_bls sc"
proof -
  let ?ss = "map sample_partial [3, 3, 1, 4, 2]"
  have el: "eligible sample_roster4 sample_payload4 (sample_partial n)" if "n \<in> {1, 2, 3, 4}" for n
    using that by (auto simp: eligible_def sample_partial_def sample_payload4_roster registry_contains_def sample_roster4_def)
  have "{cs_signer s | s. s \<in> set ?ss \<and> eligible sample_roster4 sample_payload4 s} = cs_signer ` set ?ss"
    using el by auto
  moreover have "cs_signer ` set ?ss = {NodeId 3, NodeId 1, NodeId 4, NodeId 2}" by (simp add: sample_partial_def)
  moreover have agg: "\<forall>sigs. sigs \<noteq> [] \<longrightarrow> bls_aggregate sample_bls sigs \<noteq> None" by (simp add: sample_bls_def)
  have wf: "hm_wf (keys sample_roster4)" "registry_len sample_roster4 = 4" by (simp_all add: sample_roster4_def registry_len_def)
  have ok: "\<forall>s \<in> set ?ss. eligible sample_roster4 sample_payload4 s \<longrightarrow> partial_ok sample_bls sample_roster4 sample_payload4 s"
    using sample_partial_ok by simp
  ultimately show ?thesis
    using accumulator_exact [OF sample_bls_correct agg sample_payload4_roster(1) [symmetric] wf(1) _ ok, of "[]"] wf(2)
    by (simp add: supermajority_def)
qed

text \<open>
  Property C10. A signature binds everything: two well-formed payloads with the same
  signing bytes agree on the round, on every root, on the predecessor hash, and, unless the
  roster bytes collide, on the members of the roster and their keys, although the roster
  itself is not among the signed bytes.
\<close>

theorem signing_bytes_bind:
  assumes "digest sha" "payload_wf sha p" "payload_wf sha q" "signing_bytes p = signing_bytes q"
    and "registry_wf C (ck_roster_snapshot p)" "registry_wf C (ck_roster_snapshot q)"
    and "inj_on sha {registry_to_bytes (ck_roster_snapshot p), registry_to_bytes (ck_roster_snapshot q)}"
  shows "length (signing_bytes p) = 200 \<and> registry_map (ck_roster_snapshot p) = registry_map (ck_roster_snapshot q) \<and>
    p\<lparr> ck_roster_snapshot := ck_roster_snapshot q \<rparr> = q"
proof -
  note eq = signing_bytes_inject [OF assms(1-4)]
  have "registry_to_bytes (ck_roster_snapshot p) = registry_to_bytes (ck_roster_snapshot q)"
    using eq assms(2,3,7) by (auto simp: payload_wf_def hash_registry_def dest: inj_onD)
  then have "registry_map (ck_roster_snapshot p) = registry_map (ck_roster_snapshot q)"
    using registry_bytes_canonical [OF assms(5,6)] by simp
  then show ?thesis using eq length_signing_bytes [OF assms(1,2)] by simp
qed

theorem signing_bytes_bind_witness:
  "let members = [(NodeId 2, replicate 32 9, replicate 48 1), (NodeId 1, replicate 32 8, replicate 48 2)];
       p = checkpoint_payload_new sample_sha 3 (replicate 32 1) (replicate 32 2) (replicate 32 3) (replicate 32 4) \<lparr> keys = members \<rparr>;
       q = checkpoint_payload_new sample_sha 3 (replicate 32 1) (replicate 32 2) (replicate 32 3) (replicate 32 4) \<lparr> keys = rev members \<rparr>
   in p \<noteq> q \<and> signing_bytes p = signing_bytes q \<and> registry_map (ck_roster_snapshot p) = registry_map (ck_roster_snapshot q)"
proof -
  let ?m = "[(NodeId 2, replicate 32 9, replicate 48 1), (NodeId 1, replicate 32 8, replicate 48 2)]"
  let ?p = "\<lambda>ms. checkpoint_payload_new sample_sha 3 (replicate 32 1) (replicate 32 2) (replicate 32 3) (replicate 32 4) \<lparr> keys = ms \<rparr>"
  have wf: "registry_wf sample_crypto (ck_roster_snapshot (?p ?m))" "registry_wf sample_crypto (ck_roster_snapshot (?p (rev ?m)))"
    by (simp_all add: registry_wf_def member_wf_def sample_crypto_def checkpoint_payload_new_def)
  have bytes: "registry_to_bytes (ck_roster_snapshot (?p ?m)) = registry_to_bytes (ck_roster_snapshot (?p (rev ?m)))"
    by (simp add: registry_to_bytes_def checkpoint_payload_new_def insort_key.simps word_le_nat_alt)
  have pw: "payload_wf sample_sha (?p ms)" for ms by (simp add: payload_wf_def checkpoint_payload_new_def)
  have sb: "signing_bytes (?p ?m) = signing_bytes (?p (rev ?m))"
    using bytes by (simp add: signing_bytes_def checkpoint_payload_new_def hash_registry_def)
  have "inj_on sample_sha {registry_to_bytes (ck_roster_snapshot (?p ?m)), registry_to_bytes (ck_roster_snapshot (?p (rev ?m)))}"
    unfolding bytes by simp
  from signing_bytes_bind [OF _ pw pw sb wf this] sb show ?thesis
    by (simp add: Let_def) (simp add: checkpoint_payload_new_def)
qed

end
