(* ===== verification/Progress.thy ===== *)
theory Progress
  imports Pruning
begin

section \<open>The frontier of the order\<close>

text \<open>
  The rounds that have been ordered are those below \<open>next_round_to_order\<close>. Between the
  operations of a node they are exactly the decided rounds up to the first one that is not
  decided: ordering never runs ahead of fame and never waits for more than it.
\<close>

definition order_frontier :: "Hashgraph \<Rightarrow> bool" where
  "order_frontier g \<longleftrightarrow> 0 < next_round_to_order g \<and> {1..<next_round_to_order g} \<subseteq> fully_decided_rounds g \<and>
     next_round_to_order g \<notin> fully_decided_rounds g"

text \<open>While the ordering loop runs, the frontier itself may be decided.\<close>

definition order_prefix :: "Hashgraph \<Rightarrow> bool" where
  "order_prefix g \<longleftrightarrow> 0 < next_round_to_order g \<and> {1..<next_round_to_order g} \<subseteq> fully_decided_rounds g"

lemma order_frontier_iff: "order_frontier g \<longleftrightarrow> order_prefix g \<and> next_round_to_order g \<notin> fully_decided_rounds g"
  by (auto simp: order_frontier_def order_prefix_def)

lemma order_frontier_cong:
  "next_round_to_order g' = next_round_to_order g \<Longrightarrow> fully_decided_rounds g' = fully_decided_rounds g \<Longrightarrow>
   order_frontier g' = order_frontier g"
  by (simp add: order_frontier_def)

lemma atLeastLessThan_next:
  assumes "u64_checked_add a 1 = Some b"
  shows "{1..<b} \<subseteq> insert a {1..<a}"
proof
  fix x assume "x \<in> {1..<b}"
  moreover have "unat b = unat a + 1" using assms by (simp add: unat_u64_checked_add)
  ultimately show "x \<in> insert a {1..<a}" using word_unat_eq_iff [of x a] by (auto simp: word_less_nat_alt word_le_nat_alt)
qed

lemma order_decided_rounds_frontier:
  "order_decided_rounds g = Ok g' \<Longrightarrow> hm_wf (events g) \<Longrightarrow> order_prefix g \<Longrightarrow> order_frontier g'"
proof (induction g rule: order_decided_rounds.induct)
  case (1 g)
  note step = order_decided_rounds.simps [of g]
  show ?case
  proof (cases "next_round_to_order g \<in> fully_decided_rounds g")
    case False
    with 1(2,4) step show ?thesis by (simp add: order_frontier_iff)
  next
    case True
    with 1(2) step obtain n g1 where n: "u64_checked_add (next_round_to_order g) 1 = Some n"
      and g1: "assign_order (g\<lparr> next_round_to_order := n \<rparr>) (next_round_to_order g) = Ok g1"
      and rest: "order_decided_rounds g1 = Ok g'"
      by (auto split: option.splits result.splits)
    obtain es where es: "g1 = g\<lparr> next_round_to_order := n \<rparr>\<lparr> events := es \<rparr>" "map fst es = map fst (events g)"
      using assign_order_orders [OF g1] by (auto simp: orders_in_def)
    have "0 < n" using u64_checked_add_1_less [OF n] by (rule le_less_trans [OF word_zero_le])
    then have "order_prefix g1"
      using 1(4) True atLeastLessThan_next [OF n] unfolding es(1) order_prefix_def by auto
    moreover have "hm_wf (events g1)" using 1(3) es by simp
    ultimately show ?thesis using 1(1) [OF True n g1 rest] by simp
  qed
qed

lemma note_round_frontier:
  assumes "note_round_decided_if_complete g k = Ok g'" "hm_wf (events g)" "order_frontier g"
  shows "order_frontier g'"
proof -
  let ?g = "g\<lparr> fully_decided_rounds := insert k (fully_decided_rounds g) \<rparr>"
  have "order_prefix ?g" using assms(3) by (auto simp: order_frontier_def order_prefix_def)
  moreover from assms(1) have "g' = g \<or> order_decided_rounds ?g = Ok g'"
    by (auto simp: note_round_decided_if_complete_def split: if_splits)
  ultimately show ?thesis using order_decided_rounds_frontier [of ?g g'] assms(2,3) by auto
qed

subsection \<open>Voting\<close>

lemma set_fame_frame [simp]:
  "next_round_to_order (set_fame g w s) = next_round_to_order g" "fully_decided_rounds (set_fame g w s) = fully_decided_rounds g"
  "map fst (events (set_fame g w s)) = map fst (events g)"
  by (simp_all add: set_fame_def)

lemma record_vote_frame [simp]:
  "next_round_to_order (record_vote g y w v) = next_round_to_order g" "fully_decided_rounds (record_vote g y w v) = fully_decided_rounds g"
  "map fst (events (record_vote g y w v)) = map fst (events g)"
  by (simp_all add: record_vote_def)

lemma decide_fame_frontier:
  assumes "decide_fame g w s = Ok g'" "hm_wf (events g)" "order_frontier g"
  shows "order_frontier g'"
proof -
  have "order_frontier (set_fame g w s)" using assms(3) by (simp add: order_frontier_def)
  then show ?thesis using note_round_frontier [OF assms(1) [unfolded decide_fame_def Let_def]] assms(2) by simp
qed

text \<open>What the voting functions keep: the frontier, given that each map has distinct keys.\<close>

definition keeps_frontier :: "Hashgraph \<Rightarrow> Hashgraph \<Rightarrow> bool" where
  "keeps_frontier g g' \<longleftrightarrow> (hm_wf (events g) \<and> order_frontier g \<longrightarrow> hm_wf (events g') \<and> order_frontier g')"

lemma keeps_frontier_refl [simp]: "keeps_frontier g g"
  by (simp add: keeps_frontier_def)

lemma keeps_frontier_trans: "keeps_frontier g g1 \<Longrightarrow> keeps_frontier g1 g' \<Longrightarrow> keeps_frontier g g'"
  by (auto simp: keeps_frontier_def)

lemma decide_fame_keeps:
  assumes "decide_fame g w s = Ok g'"
  shows "keeps_frontier g g'"
proof -
  have "hm_wf (events g')" if "hm_wf (events g)"
    using settles_hm_wf [OF note_round_settles [OF assms [unfolded decide_fame_def Let_def]]] that by simp
  then show ?thesis using decide_fame_frontier [OF assms] by (auto simp: keeps_frontier_def)
qed

lemma record_vote_keeps [simp]: "keeps_frontier g (record_vote g y w v)"
  by (simp add: keeps_frontier_def order_frontier_def)

lemma conclude_vote_keeps: "conclude_vote g y w ry rw votes = Ok (g', out) \<Longrightarrow> keeps_frontier g g'"
  by (auto simp: conclude_vote_def Let_def decide_fame_keeps split: if_splits)

lemma try_eager_decide_keeps: "try_eager_decide g w = Ok g' \<Longrightarrow> keeps_frontier g g'"
  by (auto simp: try_eager_decide_def Let_def decide_fame_keeps split: if_splits option.splits)

lemma collect_votes_keeps:
  assumes "\<And>g y g' out. vote_of_fuel n g y w = Ok (g', out) \<Longrightarrow> keeps_frontier g g'"
    and "collect_votes n g ss w acc = Ok (g', out)"
  shows "keeps_frontier g g'"
  using assms(2)
proof (induction ss arbitrary: g acc)
  case (Cons s ss)
  then obtain g1 o1 where v: "vote_of_fuel n g s w = Ok (g1, o1)"
    and rest: "(case o1 of Decided status \<Rightarrow> Ok (g1, Inl status) | Cast vote \<Rightarrow> collect_votes n g1 ss w (acc @ [vote])) = Ok (g', out)"
    by auto
  with assms(1) [OF v] Cons.IH show ?case by (cases o1) (auto intro: keeps_frontier_trans)
qed auto

lemma vote_of_fuel_keeps: "vote_of_fuel n g y w = Ok (g', out) \<Longrightarrow> keeps_frontier g g'"
proof (induction n arbitrary: g y g' out)
  case (Suc n)
  from Suc.prems show ?case
  proof (cases rule: vote_of_fuel_cases)
    case (aggregate seen g1 o1 ry rw)
    have "keeps_frontier g g1" by (rule collect_votes_keeps [OF Suc.IH aggregate(2)])
    then show ?thesis
      using aggregate(3) conclude_vote_keeps by (cases o1) (auto intro: keeps_frontier_trans)
  qed auto
qed simp

lemma vote_of_keeps: "vote_of g y w = Ok (g', out) \<Longrightarrow> keeps_frontier g g'"
  unfolding vote_of_def by (rule vote_of_fuel_keeps)

lemma vote_on_candidates_keeps: "vote_on_candidates g y cs = Ok g' \<Longrightarrow> keeps_frontier g g'"
proof (induction cs arbitrary: g)
  case (Cons c cs)
  then obtain g1 o1 g2 where "vote_of g y c = Ok (g1, o1)" "try_eager_decide g1 c = Ok g2" "vote_on_candidates g2 y cs = Ok g'"
    by auto
  then show ?case using Cons.IH vote_of_keeps try_eager_decide_keeps by (blast intro: keeps_frontier_trans)
qed auto

lemma backfill_round_keeps: "backfill_round g vs y = Ok g' \<Longrightarrow> keeps_frontier g g'"
proof (induction vs arbitrary: g)
  case (Cons v vs)
  then obtain g1 o1 where "vote_of g v y = Ok (g1, o1)" "backfill_round g1 vs y = Ok g'" by auto
  then show ?case using Cons.IH vote_of_keeps by (blast intro: keeps_frontier_trans)
qed auto

lemma backfill_loop_keeps: "backfill_loop g y k n = Ok g' \<Longrightarrow> keeps_frontier g g'"
proof (induction g y k n rule: backfill_loop.induct)
  case (1 g y k n)
  show ?case
  proof (cases "n < k \<or> is_decided g y")
    case True
    with 1(2) show ?thesis by (auto simp: backfill_loop.simps [of g] split: if_splits)
  next
    case False
    with 1(2) obtain g1 g2 where g1: "backfill_round g (witnesses_of_round g k) y = Ok g1"
      and g2: "(if fame_of g1 y = Some Undecided then try_eager_decide g1 y else Ok g1) = Ok g2"
      and rest: "(if fame_of g1 y = Some Undecided \<and> is_decided g2 y then Ok g2
        else if k = n then Ok g2 else backfill_loop g2 y (k + 1) n) = Ok g'"
      by (auto simp: backfill_loop.simps [of g])
    have s1: "keeps_frontier g g1" by (rule backfill_round_keeps [OF g1])
    have s2: "keeps_frontier g1 g2" using g2 try_eager_decide_keeps [of g1 y g2] by (auto split: if_splits)
    have "keeps_frontier g2 g'" using rest 1(1) [of g1 g2] False g1 g2 by (auto split: if_splits)
    with s1 s2 show ?thesis by (blast intro: keeps_frontier_trans)
  qed
qed

lemma vote_as_witness_keeps:
  assumes "vote_as_witness g y = Ok g'"
  shows "keeps_frontier g g'"
proof -
  from assms obtain cs k g1 g2 where run: "vote_on_candidates g y cs = Ok g1" "backfill_loop g1 y k (highest_witness_round g1) = Ok g2"
    and last: "(if fame_of g2 y = Some Undecided then try_eager_decide g2 y else Ok g2) = Ok g'"
    by (auto simp: vote_as_witness_def Let_def)
  have "keeps_frontier g g2"
    using vote_on_candidates_keeps [OF run(1)] backfill_loop_keeps [OF run(2)] by (rule keeps_frontier_trans)
  moreover have "keeps_frontier g2 g'" using last try_eager_decide_keeps by (auto split: if_splits)
  ultimately show ?thesis by (rule keeps_frontier_trans)
qed

subsection \<open>The operations of a node\<close>

lemma hg_insert_keeps:
  assumes "hg_insert sha g ev = Ok (g', h)"
  shows "keeps_frontier g g'"
  using assms
proof (rule hg_insert_OkE)
  fix idx sp op g1 g2 g3
  assume run: "hg_get g h = None" "place_event g (into_inner ev) h idx sp op = Ok g1"
    "finalize_round g1 h (base_round (map_option er_round sp) (map_option er_round op)) (map_option er_round sp) = Ok g2"
    "(if (case hg_get g2 h of None \<Rightarrow> False | Some r \<Rightarrow> er_is_witness r) then vote_as_witness g2 h else Ok g2) = Ok g3"
    "note_round_decided_if_complete g3 (next_round_to_order g3) = Ok g'"
  have "next_round_to_order g1 = next_round_to_order g" "fully_decided_rounds g1 = fully_decided_rounds g"
    using run(2) by (auto elim: place_event_OkE)
  moreover have "next_round_to_order g2 = next_round_to_order g1" "fully_decided_rounds g2 = fully_decided_rounds g1"
    using run(3) by (auto elim: finalize_round_OkE)
  ultimately have "order_frontier g2 = order_frontier g" by (intro order_frontier_cong) simp_all
  then have 2: "keeps_frontier g g2" using placed_extends(2) [OF run(2,3,1)] by (simp add: keeps_frontier_def)
  have 3: "keeps_frontier g2 g3" using run(4) vote_as_witness_keeps by (auto split: if_splits)
  have "keeps_frontier g3 g'"
    using note_round_frontier [OF run(5)] settles_hm_wf [OF note_round_settles [OF run(5)]] by (auto simp: keeps_frontier_def)
  with 2 3 show ?thesis by (blast intro: keeps_frontier_trans)
qed

lemma add_member_keeps: "add_member g node k reg = Ok g' \<Longrightarrow> keeps_frontier g g'"
  using add_member_extends [of g node k reg g']
  by (auto simp: keeps_frontier_def add_member_def order_frontier_def split: if_splits)

lemma mark_decided_keeps:
  assumes "mark_decided_through g k = Ok g'"
  shows "keeps_frontier g g'"
proof -
  let ?g = "g\<lparr> fully_decided_rounds := fully_decided_rounds g \<union> {next_round_to_order g..k} \<rparr>"
  from assms have "order_decided_rounds ?g = Ok g'" by (auto simp: mark_decided_through_def Let_def split: if_splits)
  moreover have "order_prefix ?g" if "order_frontier g" using that by (auto simp: order_frontier_def order_prefix_def)
  ultimately show ?thesis
    using order_decided_rounds_frontier [of ?g g'] mark_decided_extends [OF assms] by (auto simp: keeps_frontier_def)
qed

lemma prune_frame:
  assumes "prune_before_round g t = Ok (g', pruned)"
  shows "next_round_to_order g' = next_round_to_order g" "fully_decided_rounds g' = fully_decided_rounds g"
    "roster_history g' = roster_history g \<or> roster_history g' = prune_before (roster_history g) t"
proof -
  have f: "same_frame g (fold repoint_tip cs (fold remove_event ps g))" for cs ps
    using same_frame_fold [of remove_event g ps, OF same_frame_remove_event]
      same_frame_fold [of repoint_tip "fold remove_event ps g" cs, OF same_frame_repoint_tip]
    by (simp add: same_frame_def)
  show "next_round_to_order g' = next_round_to_order g" "fully_decided_rounds g' = fully_decided_rounds g"
    "roster_history g' = roster_history g \<or> roster_history g' = prune_before (roster_history g) t"
    using assms f by (auto simp: prune_before_round_def Let_def drop_witnesses_def same_frame_def split: if_splits)
qed

lemma prune_keeps_order_frontier:
  assumes "prune_before_round g t = Ok (g', pruned)"
  shows "keeps_frontier g g'"
  using order_frontier_cong [OF prune_frame(1,2) [OF assms]] prune_before_round_cases(3) [OF assms] by (simp add: keeps_frontier_def)

text \<open>All that a node does to its graph: the steps between prunings, and pruning.\<close>

inductive graph_step :: "hash_fn \<Rightarrow> Hashgraph \<Rightarrow> Hashgraph \<Rightarrow> bool" for sha where
  live: "live_step sha g g' \<Longrightarrow> graph_step sha g g'"
| prune: "prune_before_round g t = Ok (g', pruned) \<Longrightarrow> graph_step sha g g'"

lemma live_step_keeps: "live_step sha g g' \<Longrightarrow> keeps_frontier g g'"
  by (induction rule: live_step.induct) (auto intro: hg_insert_keeps add_member_keeps mark_decided_keeps)

lemma graph_step_keeps: "graph_step sha g g' \<Longrightarrow> keeps_frontier g g'"
  by (induction rule: graph_step.induct) (auto intro: live_step_keeps prune_keeps_order_frontier)

lemma graph_steps_keep: "(graph_step sha)\<^sup>*\<^sup>* g g' \<Longrightarrow> keeps_frontier g g'"
  by (induction rule: rtranclp_induct) (auto intro: graph_step_keeps keeps_frontier_trans)

lemma hg_new_frontier: "order_frontier (hg_new reg)" "hm_wf (events (hg_new reg))"
proof -
  have "next_round_to_order (hg_new reg) = 1" "fully_decided_rounds (hg_new reg) = {}" "events (hg_new reg) = []"
    by (simp_all add: hg_new_def Let_def)
  then show "order_frontier (hg_new reg)" "hm_wf (events (hg_new reg))" by (simp_all add: order_frontier_def)
qed

subsection \<open>Property\<close>

text \<open>
  Property C23. In every graph a node can reach from genesis, by inserting events, admitting
  members, taking over a watermark and pruning, the rounds already ordered are exactly the
  decided rounds up to the first undecided one: a round below \<open>next_round_to_order\<close> is
  decided, \<open>next_round_to_order\<close> itself is not, so no decided round waits behind decided ones.
\<close>

theorem order_frontier_exact:
  assumes "(graph_step sha)\<^sup>*\<^sup>* (hg_new reg) g"
  shows "(\<forall>k. 0 < k \<and> k < next_round_to_order g \<longrightarrow> is_round_decided g k) \<and> \<not> is_round_decided g (next_round_to_order g)"
proof -
  have "order_frontier g" using graph_steps_keep [OF assms] hg_new_frontier [of reg] by (simp add: keeps_frontier_def)
  moreover have "k \<in> {1..<n}" if "0 < k" "k < n" for k n :: u64
    using that by (simp add: word_less_nat_alt word_le_nat_alt Suc_leI)
  ultimately show ?thesis by (auto simp: order_frontier_def is_round_decided_def)
qed

theorem order_frontier_exact_witness:
  "\<not> is_round_decided sample_two (next_round_to_order sample_two)"
proof -
  have "(graph_step sample_digest)\<^sup>*\<^sup>* (hg_new sample_member) sample_two"
    using sample_insert_genesis sample_insert_two
    by (meson converse_rtranclp_into_rtranclp graph_step.live insert_step rtranclp.rtrancl_refl)
  from order_frontier_exact [OF this] show ?thesis ..
qed

end
