(* ===== verification/Commitment.thy ===== *)
theory Commitment
  imports Checkpoint Progress
begin

section \<open>What a checkpoint commits to is final\<close>

text \<open>
  The payload of a checkpoint round is a function of decided history: once it can be
  computed, no insertion, no admission of a member for a later round, no watermark and no
  pruning below the signed window changes it.
\<close>

subsection \<open>The window\<close>

lemma rounds_between_iff: "r \<in> set (rounds_between a b) \<longleftrightarrow> a \<le> r \<and> r \<le> b"
proof
  assume "r \<in> set (rounds_between a b)"
  then obtain n where n: "r = word_of_nat n" "unat a \<le> n" "n \<le> unat b" by (auto simp: rounds_between_def)
  have "unat b < 2 ^ 64" using unsigned_less [of b] by simp
  then have "n < 2 ^ 64" using n(3) by simp
  then have "unat r = n" unfolding n(1) by (simp add: unat_of_nat)
  with n show "a \<le> r \<and> r \<le> b" by (simp add: word_le_nat_alt)
next
  assume "a \<le> r \<and> r \<le> b"
  then have "unat r \<in> set [unat a..<Suc (unat b)]" by (auto simp: word_le_nat_alt)
  moreover have "r = word_of_nat (unat r)" by simp
  ultimately show "r \<in> set (rounds_between a b)" unfolding rounds_between_def set_map by (rule rev_image_eqI)
qed

lemma normal_row_grows: "row_grows xs ys \<Longrightarrow> normal_row ys n = normal_row xs n"
  by (auto simp: row_grows_def normal_row_def nth_append)

lemma window_leaf_settles:
  "rec_settles r r' \<Longrightarrow> er_round_received r \<noteq> None \<Longrightarrow> window_leaf_hash sha h r' n w = window_leaf_hash sha h r n w"
  using normal_row_grows [of "er_ancestor_seqs r" "er_ancestor_seqs r'" n]
  by (simp add: window_leaf_hash_def window_leaf_bytes_def rec_settles_def)

text \<open>Two graphs that agree on what the window shows.\<close>

definition same_window :: "u64 \<Rightarrow> u64 \<Rightarrow> Hashgraph \<Rightarrow> Hashgraph \<Rightarrow> bool" where
  "same_window start k g g' \<longleftrightarrow> (\<forall>j. start \<le> j \<and> j \<le> k \<longrightarrow> consensus_order g' j = consensus_order g j \<and>
     (\<forall>h r. hg_get g h = Some r \<and> er_round_received r = Some j \<longrightarrow> (\<exists>r'. hg_get g' h = Some r' \<and> rec_settles r r')))"

lemma window_leaves_cong:
  "(\<And>h. h \<in> set hs \<Longrightarrow> \<exists>r r'. hg_get g h = Some r \<and> hg_get g' h = Some r' \<and> er_round_received r \<noteq> None \<and> rec_settles r r') \<Longrightarrow>
   window_leaves sha g' n w hs = window_leaves sha g n w hs"
proof (induction hs)
  case (Cons h hs)
  obtain r r' where "hg_get g h = Some r" "hg_get g' h = Some r'" "window_leaf_hash sha h r' n w = window_leaf_hash sha h r n w"
    using Cons.prems [of h] window_leaf_settles by force
  with Cons show ?case by simp
qed simp

lemma same_window_root:
  assumes "same_window (u64_saturating_sub k w) k g g'"
    and "roster_for_round (roster_history g') k = roster_for_round (roster_history g) k"
  shows "try_compute_window_root sha g' k w = try_compute_window_root sha g k w"
proof -
  let ?start = "u64_saturating_sub k w"
  have hashes: "window_hashes g' ?start k = window_hashes g ?start k"
    unfolding window_hashes_def using assms(1)
    by (intro arg_cong [of _ _ concat] map_cong) (auto simp: rounds_between_iff same_window_def)
  have "window_leaves sha g' n v (window_hashes g ?start k) = window_leaves sha g n v (window_hashes g ?start k)" for n v
  proof (rule window_leaves_cong)
    fix h assume "h \<in> set (window_hashes g ?start k)"
    then obtain j where j: "?start \<le> j" "j \<le> k" "round_received g h = Some j"
      by (auto simp: window_hashes_def rounds_between_iff consensus_order_set)
    then obtain r where "hg_get g h = Some r" "er_round_received r = Some j"
      by (auto simp: round_received_def bind_eq_Some_conv)
    with j assms(1) show "\<exists>r r'. hg_get g h = Some r \<and> hg_get g' h = Some r' \<and> er_round_received r \<noteq> None \<and> rec_settles r r'"
      unfolding same_window_def by blast
  qed
  then show ?thesis by (simp add: try_compute_window_root_def hashes member_count_at_round_def assms(2) Let_def)
qed

subsection \<open>The roster history\<close>

lemma select_snapshots_eq:
  "select_snapshots ws k m p acc =
     (case last_opt (filter (\<lambda>q. fst q < ws) m) of None \<Rightarrow> p | Some q \<Rightarrow> Some q,
      acc @ filter (\<lambda>q. ws \<le> fst q \<and> fst q \<le> k) m)"
  by (induction m arbitrary: p acc) (auto simp: last_opt_def split: option.splits)

lemma canonical_roster_history_eq:
  "canonical_roster_history rh k w = (
     let ws = u64_saturating_sub k w;
         selected = case_option [] (\<lambda>p. [p]) (bt_last_below ws (snapshots rh)) @
           filter (\<lambda>q. ws \<le> fst q \<and> fst q \<le> k) (snapshots rh)
     in if selected = [] then None else from_snapshots selected)"
  by (simp add: canonical_roster_history_def select_snapshots_eq Let_def bt_last_below_def split: option.splits)

lemma canonical_roster_history_cong:
  assumes "bt_last_below (u64_saturating_sub k w) (snapshots rh') = bt_last_below (u64_saturating_sub k w) (snapshots rh)"
    and "filter (\<lambda>q. u64_saturating_sub k w \<le> fst q \<and> fst q \<le> k) (snapshots rh') =
      filter (\<lambda>q. u64_saturating_sub k w \<le> fst q \<and> fst q \<le> k) (snapshots rh)"
  shows "canonical_roster_history rh' k w = canonical_roster_history rh k w"
  unfolding canonical_roster_history_eq Let_def assms ..

lemma filter_bt_insert: "\<not> P k \<Longrightarrow> filter (\<lambda>q. P (fst q)) (bt_insert k v m) = filter (\<lambda>q. P (fst q)) m"
  by (induction m) auto

lemma saturating_sub_le: "u64_saturating_sub k w \<le> k"
  by (auto simp: u64_saturating_sub_def word_sub_le not_less)

lemma schedule_later:
  assumes "k < a"
  shows "roster_for_round (schedule rh a reg) k = roster_for_round rh k"
    "canonical_roster_history (schedule rh a reg) k w = canonical_roster_history rh k w"
proof -
  show "roster_for_round (schedule rh a reg) k = roster_for_round rh k"
    using assms filter_bt_insert [of "\<lambda>q. q \<le> k" a reg]
    by (simp add: roster_for_round_def schedule_def bt_last_upto_def not_le)
  have "\<not> a < u64_saturating_sub k w" using assms saturating_sub_le [of k w] by (meson less_le_trans less_asym)
  then show "canonical_roster_history (schedule rh a reg) k w = canonical_roster_history rh k w"
    using assms filter_bt_insert [of "\<lambda>q. q < u64_saturating_sub k w" a reg]
      filter_bt_insert [of "\<lambda>q. u64_saturating_sub k w \<le> q \<and> q \<le> k" a reg]
    by (intro canonical_roster_history_cong) (simp_all add: schedule_def bt_last_below_def not_le)
qed

lemma prune_keeps_below:
  assumes wf: "bt_wf m" and "t \<le> r"
  shows "bt_last_below r (filter (\<lambda>p. t \<le> fst p \<or> Some (fst p) = map_option fst (bt_last_below t m)) m) = bt_last_below r m"
    (is "bt_last_below r (filter ?P m) = _")
proof (cases "bt_last_below r m")
  case None
  then show ?thesis by (auto simp: bt_last_below_def last_opt_def filter_empty_conv split: if_splits)
next
  case (Some p)
  with wf have p: "p \<in> set m" "fst p < r" "\<forall>q \<in> set m. fst q < r \<longrightarrow> fst q \<le> fst p"
    by (simp_all add: bt_last_below_Some_iff)
  have "bt_last_below t m = Some p" if "fst p < t"
    using that p \<open>t \<le> r\<close> by (auto simp: bt_last_below_Some_iff [OF wf])
  then have "?P p" by (cases "t \<le> fst p") (auto simp: not_le)
  then have "bt_last_below r (filter ?P m) = Some p"
    using p by (simp add: bt_last_below_Some_iff wf)
  with Some show ?thesis by simp
qed

lemma prune_roster_later:
  assumes "roster_wf rh" "t \<le> u64_saturating_sub k w"
  shows "roster_for_round (prune_before rh t) k = roster_for_round rh k"
    "canonical_roster_history (prune_before rh t) k w = canonical_roster_history rh k w"
proof -
  let ?ws = "u64_saturating_sub k w"
  let ?P = "\<lambda>p. t \<le> fst p \<or> Some (fst p) = map_option fst (bt_last_below t (snapshots rh))"
  have eq: "snapshots (prune_before rh t) = filter ?P (snapshots rh)" by (simp add: prune_before_def case_prod_unfold)
  have wf: "bt_wf (snapshots rh)" using assms(1) by (simp add: roster_wf_def)
  have tk: "t \<le> k" using assms(2) saturating_sub_le [of k w] by (rule order_trans)
  show "roster_for_round (prune_before rh t) k = roster_for_round rh k"
    unfolding roster_for_round_def eq prune_keeps_last [OF wf tk] ..
  show "canonical_roster_history (prune_before rh t) k w = canonical_roster_history rh k w"
  proof (rule canonical_roster_history_cong)
    show "bt_last_below ?ws (snapshots (prune_before rh t)) = bt_last_below ?ws (snapshots rh)"
      unfolding eq by (rule prune_keeps_below [OF wf assms(2)])
    show "filter (\<lambda>q. ?ws \<le> fst q \<and> fst q \<le> k) (snapshots (prune_before rh t)) =
        filter (\<lambda>q. ?ws \<le> fst q \<and> fst q \<le> k) (snapshots rh)"
      unfolding eq filter_filter using assms(2) by (intro filter_cong) auto
  qed
qed

subsection \<open>Steps of a node\<close>

text \<open>What a node may do after round \<open>k\<close> has been ordered.\<close>

inductive window_step :: "hash_fn \<Rightarrow> u64 \<Rightarrow> Hashgraph \<Rightarrow> Hashgraph \<Rightarrow> bool" for sha k where
  insert_later: "hg_insert sha g ev = Ok (g', h) \<Longrightarrow> window_step sha k g g'"
| admit_later: "add_member g node a reg = Ok g' \<Longrightarrow> k < u64_saturating_add a 1 \<Longrightarrow> window_step sha k g g'"
| mark_later: "mark_decided_through g j = Ok g' \<Longrightarrow> window_step sha k g g'"
| prune_below: "prune_before_round g t = Ok (g', pruned) \<Longrightarrow> t \<le> u64_saturating_sub k SIGNED_WINDOW_ROUNDS \<Longrightarrow> window_step sha k g g'"

definition at_round :: "u64 \<Rightarrow> Hashgraph \<Rightarrow> bool" where
  "at_round k g \<longleftrightarrow> hm_wf (events g) \<and> roster_wf (roster_history g) \<and> is_round_decided g k \<and> k < next_round_to_order g"

definition same_commitment :: "u64 \<Rightarrow> Hashgraph \<Rightarrow> Hashgraph \<Rightarrow> bool" where
  "same_commitment k g g' \<longleftrightarrow> same_window (u64_saturating_sub k SIGNED_WINDOW_ROUNDS) k g g' \<and>
     roster_for_round (roster_history g') k = roster_for_round (roster_history g) k \<and>
     canonical_roster_history (roster_history g') k SIGNED_WINDOW_ROUNDS = canonical_roster_history (roster_history g) k SIGNED_WINDOW_ROUNDS"

lemma same_commitment_payload:
  assumes "same_commitment k g g'" "is_round_decided g k" "is_round_decided g' k"
  shows "checkpoint_payload sha g' k rr sh = checkpoint_payload sha g k rr sh"
proof -
  have c: "compute_roster_history_root sha (roster_history g') k SIGNED_WINDOW_ROUNDS =
      compute_roster_history_root sha (roster_history g) k SIGNED_WINDOW_ROUNDS"
    using assms(1) by (simp add: same_commitment_def compute_roster_history_root_def)
  have w: "try_compute_window_root sha g' k SIGNED_WINDOW_ROUNDS = try_compute_window_root sha g k SIGNED_WINDOW_ROUNDS"
    and r: "roster_for_round (roster_history g') k = roster_for_round (roster_history g) k"
    using assms(1) same_window_root by (auto simp: same_commitment_def)
  show ?thesis unfolding checkpoint_payload_def registry_at_round_def c w r using assms(2,3) by simp
qed

lemma extends_same_window:
  assumes "extends g g'" "hm_wf (events g)" "hm_wf (events g')" "k < next_round_to_order g"
  shows "same_window s k g g'"
  using assms extends_consensus_order [OF assms(1-3)] unfolding same_window_def extends_def keeps_records_def
  by (auto dest: le_less_trans)

lemma hg_insert_roster:
  assumes "hg_insert sha g ev = Ok (g', h)" "hm_wf (events g)"
  shows "roster_history g' = roster_history g"
  using assms(1)
proof (rule hg_insert_OkE)
  fix idx sp op g1 g2 g3
  assume run: "hg_get g h = None" "place_event g (into_inner ev) h idx sp op = Ok g1"
    "finalize_round g1 h (base_round (map_option er_round sp) (map_option er_round op)) (map_option er_round sp) = Ok g2"
    "(if (case hg_get g2 h of None \<Rightarrow> False | Some r \<Rightarrow> er_is_witness r) then vote_as_witness g2 h else Ok g2) = Ok g3"
    "note_round_decided_if_complete g3 (next_round_to_order g3) = Ok g'"
  have wf2: "hm_wf (events g2)" using placed_extends [OF run(2,3,1)] assms(2) by auto
  have 3: "settles g2 g3" using run(4) vote_as_witness_settles [OF _ wf2] by (auto split: if_splits)
  have 4: "settles g3 g'" using note_round_settles [OF run(5)] settles_hm_wf [OF 3] wf2 by simp
  have "roster_history g1 = roster_history g" using run(2) by (rule place_event_OkE)
  moreover have "roster_history g2 = roster_history g1"
    using run(3) by (rule finalize_round_OkE) (auto simp: record_witness_def set_event_round_def)
  ultimately show ?thesis using 3 4 by (simp add: settles_def same_indexes_def)
qed

lemma settles_roster: "settles g g' \<Longrightarrow> roster_history g' = roster_history g"
  by (simp add: settles_def same_indexes_def)

lemma mark_decided_settles:
  assumes "mark_decided_through g k = Ok g'" "hm_wf (events g)"
  shows "settles g g'"
proof -
  let ?g = "g\<lparr> fully_decided_rounds := fully_decided_rounds g \<union> {next_round_to_order g..k} \<rparr>"
  from assms(1) have "order_decided_rounds ?g = Ok g'" by (auto simp: mark_decided_through_def Let_def split: if_splits)
  then have "settles ?g g'" using assms(2) by (intro order_decided_rounds_settles) auto
  moreover have "settles g ?g" by (rule settles_mark_decided) auto
  ultimately show ?thesis by (rule settles_trans [rotated])
qed

lemma extends_commitment:
  assumes "extends g g'" "hm_wf (events g')" "roster_history g' = roster_history g" "at_round k g"
  shows "same_commitment k g g' \<and> at_round k g'"
  using assms extends_same_window [OF assms(1)] unfolding at_round_def same_commitment_def is_round_decided_def extends_def orders_forward_def
  by (auto intro: less_le_trans)

lemma admit_commitment:
  assumes "add_member g node a reg = Ok g'" "k < u64_saturating_add a 1" "at_round k g"
  shows "same_commitment k g g' \<and> at_round k g'"
proof -
  have e: "extends g g'" "hm_wf (events g')" using add_member_extends [OF assms(1)] assms(3) by (auto simp: at_round_def)
  have r: "roster_history g' = schedule (roster_history g) (u64_saturating_add a 1) reg"
    using assms(1) by (auto simp: add_member_def split: if_splits)
  have "same_window (u64_saturating_sub k SIGNED_WINDOW_ROUNDS) k g g'"
    using extends_same_window [OF e(1) _ e(2)] assms(3) by (simp add: at_round_def)
  then show ?thesis
    using e assms(3) schedule_later [OF assms(2)] unfolding same_commitment_def at_round_def r is_round_decided_def extends_def orders_forward_def
    by (auto intro: less_le_trans)
qed

lemma prune_same_commitment:
  assumes "prune_before_round g t = Ok (g', pruned)" "t \<le> u64_saturating_sub k SIGNED_WINDOW_ROUNDS"
    and "hm_wf (events g)" "roster_wf (roster_history g)"
  shows "same_commitment k g g'"
proof -
  note cases = prune_before_round_cases [OF assms(1,3)] and f = prune_frame [OF assms(1)]
  have keep: "hg_get g' h = Some r" if "hg_get g h = Some r" "er_round_received r = Some j" "t \<le> j" for h r j
    using that cases(2,5) [of h] prune_set_iff [OF assms(3), of h t] by (auto simp: expired_def)
  have "same_window (u64_saturating_sub k SIGNED_WINDOW_ROUNDS) k g g'"
    unfolding same_window_def using keep prune_consensus_order [OF assms(1,3)] assms(2)
    by (meson order_trans rec_settles_refl)
  moreover have "roster_for_round (roster_history g') k = roster_for_round (roster_history g) k \<and>
      canonical_roster_history (roster_history g') k SIGNED_WINDOW_ROUNDS = canonical_roster_history (roster_history g) k SIGNED_WINDOW_ROUNDS"
    using f(3) prune_roster_later [OF assms(4,2)] by auto
  ultimately show ?thesis by (simp add: same_commitment_def)
qed

lemma prune_commitment:
  assumes "prune_before_round g t = Ok (g', pruned)" "t \<le> u64_saturating_sub k SIGNED_WINDOW_ROUNDS" "at_round k g"
  shows "same_commitment k g g' \<and> at_round k g'"
proof -
  have wf: "hm_wf (events g)" "roster_wf (roster_history g)" using assms(3) by (auto simp: at_round_def)
  have "roster_wf (roster_history g')" using prune_frame(3) [OF assms(1)] wf(2) prune_before_preserves(1) [OF wf(2)] by auto
  then have "at_round k g'"
    using assms(3) prune_frame(1,2) [OF assms(1)] prune_before_round_cases(3) [OF assms(1) wf(1)]
    by (auto simp: at_round_def is_round_decided_def)
  with prune_same_commitment [OF assms(1,2) wf] show ?thesis by simp
qed

lemma window_step_commitment:
  "window_step sha k g g' \<Longrightarrow> at_round k g \<Longrightarrow> same_commitment k g g' \<and> at_round k g'"
proof (induction rule: window_step.induct)
  case (insert_later g ev g' h)
  then have wf: "hm_wf (events g)" by (simp add: at_round_def)
  show ?case
    using extends_commitment [OF _ _ hg_insert_roster [OF insert_later(1) wf] insert_later(2)] hg_insert_extends [OF insert_later(1) wf] by blast
next
  case (mark_later g j g')
  then have "settles g g'" "hm_wf (events g)" using mark_decided_settles by (auto simp: at_round_def)
  then show ?case using extends_commitment [OF settles_extends _ settles_roster] settles_hm_wf mark_later(2) by blast
qed (rule admit_commitment prune_commitment; assumption)+

subsection \<open>The payload exists\<close>

lemma window_leaves_total:
  "\<forall>h \<in> set hs. hg_get g h \<noteq> None \<Longrightarrow> \<exists>ls. window_leaves sha g n w hs = Ok ls"
  by (induction hs) auto

lemma window_root_total:
  assumes "roster_for_round (roster_history g) k = Some reg" "registry_len reg < 2 ^ 32"
  shows "\<exists>root. try_compute_window_root sha g k w = Ok root"
proof (cases "window_hashes g (u64_saturating_sub k w) k = []")
  case False
  have "\<forall>h \<in> set (window_hashes g (u64_saturating_sub k w) k). hg_get g h \<noteq> None"
    by (auto simp: window_hashes_def consensus_order_set round_received_def bind_eq_Some_conv)
  then obtain ls where ls: "window_leaves sha g (registry_len reg) (word_of_nat (registry_len reg)) (window_hashes g (u64_saturating_sub k w) k) = Ok ls"
    using window_leaves_total by blast
  obtain n where "length (pad_leaves sha ls) = 2 ^ n" by (rule pad_leaves_length)
  then obtain root where "fold_levels sha (pad_leaves sha ls) = Ok root" using fold_levels_total by blast
  then show ?thesis
    using False assms ls by (simp add: try_compute_window_root_def Let_def member_count_at_round_def u32_try_from_def)
qed (simp add: try_compute_window_root_def Let_def)

definition snapshots_fit :: "RosterHistory \<Rightarrow> bool" where
  "snapshots_fit rh \<longleftrightarrow> length (snapshots rh) < 2 ^ 32 \<and> (\<forall>p \<in> set (snapshots rh). length (registry_to_bytes (snd p)) < 2 ^ 32)"

lemma encode_snapshots_total:
  "\<forall>p \<in> set ps. length (registry_to_bytes (snd p)) < 2 ^ 32 \<Longrightarrow> \<exists>bs. encode_snapshots ps = Ok bs"
  by (induction ps) (auto simp: encode_snapshot_def u32_try_from_def Let_def split_beta)

lemma encode_roster_history_total: "snapshots_fit rh \<Longrightarrow> \<exists>bs. encode_roster_history rh = Ok bs"
  using encode_snapshots_total [of "snapshots rh"] by (auto simp: snapshots_fit_def encode_roster_history_def u32_try_from_def)

text \<open>The canonical selection of a well-formed history is a part of it.\<close>

lemma bt_wf_set_unique:
  assumes "bt_wf m" "bt_wf n" "set m = set n"
  shows "m = n"
proof (rule bt_eq_of_map_of [OF assms(1,2)])
  have "map_of m k = Some v \<longleftrightarrow> map_of n k = Some v" for k v
    using assms by (simp add: map_of_Some_in bt_wf_hm_wf)
  then show "map_of m = map_of n" by (intro ext) (metis not_None_eq)
qed

lemma canonical_snapshots:
  assumes wf: "roster_wf rh" and sel: "canonical_roster_history rh k w = Some rh'"
  shows "snapshots rh' = filter (\<lambda>q. fst q \<le> k \<and> (u64_saturating_sub k w \<le> fst q \<or>
    Some q = bt_last_below (u64_saturating_sub k w) (snapshots rh))) (snapshots rh)"
proof -
  let ?ws = "u64_saturating_sub k w"
  let ?m = "snapshots rh"
  let ?sel = "case_option [] (\<lambda>p. [p]) (bt_last_below ?ws ?m) @ filter (\<lambda>q. ?ws \<le> fst q \<and> fst q \<le> k) ?m"
  have m: "bt_wf ?m" using wf by (simp add: roster_wf_def)
  have pred: "p \<in> set ?m \<and> fst p < ?ws" if "bt_last_below ?ws ?m = Some p" for p
    using that by (simp add: bt_last_below_Some_iff [OF m])
  have bt: "bt_wf ?sel"
    using pred bt_wf_filter [OF m] by (auto simp: bt_wf_Cons intro: less_le_trans split: option.splits)
  have "snapshots rh' = ?sel"
    using sel bt unfolding canonical_roster_history_eq Let_def from_snapshots_def by (auto split: if_splits)
  also have "?sel = filter (\<lambda>q. fst q \<le> k \<and> (?ws \<le> fst q \<or> Some q = bt_last_below ?ws ?m)) ?m"
  proof (rule bt_wf_set_unique [OF bt bt_wf_filter [OF m]])
    have "fst p \<le> k" if "fst p < ?ws" for p :: "u64 \<times> MembershipRegistry"
      using that saturating_sub_le [of k w] by simp
    then show "set ?sel = set (filter (\<lambda>q. fst q \<le> k \<and> (?ws \<le> fst q \<or> Some q = bt_last_below ?ws ?m)) ?m)"
      using pred by (cases "bt_last_below ?ws ?m") auto
  qed
  finally show ?thesis .
qed

lemma roster_root_total:
  assumes "roster_wf rh" "snapshots_fit rh"
  shows "\<exists>root. compute_roster_history_root sha rh k w = Ok root"
proof (cases "canonical_roster_history rh k w")
  case (Some rh')
  have "snapshots_fit rh'"
    using assms(2) canonical_snapshots [OF assms(1) Some]
    unfolding snapshots_fit_def by (auto intro: le_less_trans [OF length_filter_le])
  then show ?thesis using Some encode_roster_history_total by (fastforce simp: compute_roster_history_root_def)
qed (simp add: compute_roster_history_root_def)

subsection \<open>Properties\<close>

text \<open>
  Property C6. A checkpoint payload is final: once round \<open>k\<close> is decided and ordered, the
  payload that a node computes for it (the window root, the roster-history root, the roster
  and its hash) stays the same whatever the node does next: insert events, admit members
  who become active after \<open>k\<close>, take over a watermark, or prune below the signed window
  of \<open>k\<close>.
\<close>

theorem checkpoint_is_final:
  assumes "(window_step sha k)\<^sup>*\<^sup>* g g'" "at_round k g"
  shows "checkpoint_payload sha g' k records_root state_hash = checkpoint_payload sha g k records_root state_hash"
proof -
  have "at_round k g' \<and> checkpoint_payload sha g' k records_root state_hash = checkpoint_payload sha g k records_root state_hash"
    using assms
  proof (induction rule: rtranclp_induct)
    case (step y z)
    then have y: "at_round k y" by simp
    with window_step_commitment [OF step(2)] have "same_commitment k y z" "at_round k z" by auto
    then show ?case using step same_commitment_payload [of k y z] by (simp add: at_round_def)
  qed simp
  then show ?thesis ..
qed

lemma sample_commitment:
  "at_round 1 sample_graph" "roster_for_round (roster_history sample_graph) 1 = Some sample_member"
  "snapshots_fit (roster_history sample_graph)" "registry_len sample_member = 1"
proof -
  have rh: "roster_history sample_graph = roster_new sample_member"
    by (simp add: sample_graph_def sample_base_def hg_new_def Let_def)
  show "at_round 1 sample_graph" unfolding at_round_def rh
    by (simp add: is_round_decided_def sample_graph_def sample_base_def)
  show "roster_for_round (roster_history sample_graph) 1 = Some sample_member" unfolding rh by simp
  show "snapshots_fit (roster_history sample_graph)" unfolding rh
    by (simp add: snapshots_fit_def registry_to_bytes_def sample_member_def member_bytes_def)
  show "registry_len sample_member = 1" by (simp add: registry_len_def sample_member_def)
qed

theorem checkpoint_is_final_witness:
  "sample_final \<noteq> sample_graph \<and> at_round 1 sample_graph \<and>
   checkpoint_payload sample_digest sample_final 1 [7] [8] = checkpoint_payload sample_digest sample_graph 1 [7] [8]"
proof -
  have "(window_step sample_digest 1)\<^sup>*\<^sup>* sample_graph sample_final"
    using sample_insert by (blast intro: window_step.intros)
  moreover have "sample_final \<noteq> sample_graph"
    by (auto simp: sample_final_def sample_finalized_def record_witness_def set_event_round_def sample_placed_def
        sample_graph_def sample_base_def dest!: arg_cong [of _ _ "\<lambda>g. map fst (events g)"])
  ultimately show ?thesis using checkpoint_is_final sample_commitment(1) by blast
qed

text \<open>
  Property C9. A decided round always has a checkpoint: for every decided round with a
  known roster whose sizes fit the 32-bit length fields, the payload is computed without a
  panic and without an error; every event of the window is found, since the window is
  made of stored events. It carries the round, the given roots and the roster of the round
  with its hash.
\<close>

theorem checkpoint_payload_exists:
  assumes "is_round_decided g k" "roster_wf (roster_history g)" "snapshots_fit (roster_history g)"
    and "roster_for_round (roster_history g) k = Some reg" "registry_len reg < 2 ^ 32"
  shows "\<exists>p. checkpoint_payload sha g k records_root state_hash = Ok (Some p) \<and> ck_round p = k \<and>
    ck_records_root p = records_root \<and> ck_state_hash p = state_hash \<and>
    ck_roster_snapshot p = reg \<and> ck_roster_hash p = hash_registry sha reg"
proof -
  obtain wr where wr: "try_compute_window_root sha g k SIGNED_WINDOW_ROUNDS = Ok wr"
    using window_root_total [OF assms(4,5)] by blast
  obtain rr where rr: "compute_roster_history_root sha (roster_history g) k SIGNED_WINDOW_ROUNDS = Ok rr"
    using roster_root_total [OF assms(2,3)] by blast
  show ?thesis
    using assms(1,4) by (simp add: checkpoint_payload_def registry_at_round_def wr rr checkpoint_payload_new_def)
qed

theorem checkpoint_payload_exists_witness:
  "\<exists>p. checkpoint_payload sample_digest sample_graph 1 [7] [8] = Ok (Some p) \<and> ck_round p = 1 \<and> ck_roster_snapshot p = sample_member"
  using checkpoint_payload_exists [of sample_graph 1 sample_member sample_digest "[7]" "[8]"] sample_commitment
  by (auto simp: at_round_def)

text \<open>
  The committed roster history is enough: from the snapshots that a
  checkpoint commits to, a reader recovers the roster of every round of the signed window,
  the first one included, and nothing after the checkpoint round.
\<close>

lemma canonical_roster_sufficient:
  assumes "roster_wf rh" "canonical_roster_history rh k w = Some rh'"
  shows "roster_wf rh' \<and> (\<forall>r. u64_saturating_sub k w \<le> r \<and> r \<le> k \<longrightarrow> roster_for_round rh' r = roster_for_round rh r) \<and>
    (\<forall>p \<in> set (snapshots rh'). fst p \<le> k)"
proof (intro conjI allI impI ballI)
  let ?ws = "u64_saturating_sub k w"
  note sn = canonical_snapshots [OF assms]
  have m: "bt_wf (snapshots rh)" using assms(1) by (simp add: roster_wf_def)
  show "roster_wf rh'" unfolding roster_wf_def sn by (rule bt_wf_filter [OF m])
  show "fst p \<le> k" if "p \<in> set (snapshots rh')" for p using that by (simp add: sn)
  fix r assume r: "?ws \<le> r \<and> r \<le> k"
  have "bt_last_upto r (snapshots rh') = Some p" if p: "bt_last_upto r (snapshots rh) = Some p" for p
  proof -
    from p have p': "p \<in> set (snapshots rh)" "fst p \<le> r" "\<forall>q \<in> set (snapshots rh). fst q \<le> r \<longrightarrow> fst q \<le> fst p"
      by (simp_all add: bt_last_upto_Some_iff [OF m])
    have "fst q \<le> fst p" if "q \<in> set (snapshots rh)" "fst q < ?ws" for q
      using that p'(3) r by (meson less_imp_le less_le_trans)
    then have "Some p = bt_last_below ?ws (snapshots rh)" if "fst p < ?ws"
      using that p'(1) by (simp add: bt_last_below_Some_iff [OF m] eq_commute [of "Some p"])
    then have "p \<in> set (snapshots rh')" using p'(1,2) r by (cases "fst p < ?ws") (auto simp: sn)
    then show ?thesis using p' by (subst bt_last_upto_Some_iff) (auto simp: sn bt_wf_filter m)
  qed
  moreover have "bt_last_upto r (snapshots rh') = None" if "bt_last_upto r (snapshots rh) = None"
    using that unfolding sn by (auto simp: bt_last_upto_def last_opt_def filter_empty_conv split: if_splits)
  ultimately show "roster_for_round rh' r = roster_for_round rh r"
    unfolding roster_for_round_def by (metis not_None_eq)
qed

lemma canonical_roster_sufficient_witness:
  "let rh = schedule (roster_new registry_new) 20 (register registry_new (NodeId 1) [] [])
   in \<exists>rh'. canonical_roster_history rh 30 16 = Some rh' \<and> roster_for_round rh' 14 = Some registry_new \<and>
     roster_for_round rh' 25 = Some (register registry_new (NodeId 1) [] [])"
proof -
  let ?rh = "schedule (roster_new registry_new) 20 (register registry_new (NodeId 1) [] [])"
  have ws: "u64_saturating_sub 30 16 = 14" by (simp add: u64_saturating_sub_def)
  have "canonical_roster_history ?rh 30 16 = Some ?rh"
    by (simp add: canonical_roster_history_def ws schedule_def from_snapshots_def bt_of_list_def)
  with canonical_roster_sufficient [of ?rh 30 16 ?rh] show ?thesis
    by (simp add: ws schedule_def roster_for_round_def bt_last_upto_def last_opt_def Let_def)
qed

end
