(* ===== verification/Reconnect.thy ===== *)
theory Reconnect
  imports Commitment
begin

section \<open>Reconnect codecs\<close>

text \<open>
  \<^verbatim>\<open>protocol/consensus/src/reconnect.rs\<close>: the forms in which a retained event, a signed
  checkpoint and the roster history travel to a learner and into the event log.
  \<open>registry_sorted\<close> is the registry that reading canonical bytes produces: the same
  members, in the order of their identifiers.
\<close>

subsection \<open>Retained events\<close>

definition encode_retained_event :: "RetainedEvent \<Rightarrow> (bytes, Error) result" where
  "encode_retained_event rec =
     andThen (ok_or (OutOfRange ''RetainedEvent ancestor_seqs length'' (length (re_ancestor_seqs rec)))
       (u32_try_from (length (re_ancestor_seqs rec)))) (\<lambda>ancestor_len.
     andThen (encode_Event (re_event rec)) (\<lambda>event_bytes.
     map_ok (\<lambda>event_len.
         u64_be (re_seq rec) @ u64_be (re_round rec) @ tagged_u64 (re_round_received rec) @
         u32_be ancestor_len @ concat (map u64_be (re_ancestor_seqs rec)) @
         u32_be event_len @ event_bytes @ tagged_u64 (map_option ts_get (re_timestamp rec)))
       (ok_or (OutOfRange ''RetainedEvent event length'' (length event_bytes)) (u32_try_from (length event_bytes)))))"

definition take_tagged_u64 :: "bytes \<Rightarrow> (u64 option \<times> bytes) option" where
  "take_tagged_u64 c = do {
     (tag, c) \<leftarrow> take_u8 c;
     if tag = 0 then Some (None, c)
     else if tag = 1 then map_option (map_prod Some id) (take_u64 c)
     else None }"

text \<open>The trailing timestamp: absent in records written before the field existed.\<close>

definition take_trailing_timestamp :: "bytes \<Rightarrow> Timestamp option option" where
  "take_trailing_timestamp c =
     (if c = [] then Some None
      else do { (ts, c) \<leftarrow> take_tagged_u64 c; if c = [] then Some (map_option Timestamp ts) else None })"

definition decode_retained_event :: "bytes \<Rightarrow> RetainedEvent option" where
  "decode_retained_event bs = do {
     (seq, c) \<leftarrow> take_u64 bs;
     (round, c) \<leftarrow> take_u64 c;
     (round_received, c) \<leftarrow> take_tagged_u64 c;
     (ancestor_count, c) \<leftarrow> take_u32 c;
     (ancestor_seqs, c) \<leftarrow> take_many (unat ancestor_count) take_u64 c;
     (event_bytes, c) \<leftarrow> take_field c;
     event \<leftarrow> decode_event_bytes event_bytes;
     ts \<leftarrow> take_trailing_timestamp c;
     Some \<lparr> re_event = event, re_seq = seq, re_round = round, re_ancestor_seqs = ancestor_seqs,
       re_round_received = round_received, re_timestamp = ts \<rparr> }"

subsection \<open>Signed checkpoints\<close>

definition encode_signed_checkpoint :: "SignedCheckpoint \<Rightarrow> (bytes, Error) result" where
  "encode_signed_checkpoint sc = (
     let p = sc_payload sc; roster_bytes = registry_to_bytes (ck_roster_snapshot p)
     in andThen (ok_or (OutOfRange ''SignedCheckpoint roster_snapshot length'' (length roster_bytes))
          (u32_try_from (length roster_bytes))) (\<lambda>roster_len.
        map_ok (\<lambda>signer_count.
            u64_be (ck_round p) @ ck_records_root p @ ck_state_hash p @ ck_roster_hash p @
            ck_prev_checkpoint_hash p @ ck_window_root p @ ck_roster_history_root p @
            u32_be roster_len @ roster_bytes @
            u32_be signer_count @ concat (map (\<lambda>s. u64_be (node_get s)) (sc_signers sc)) @ sc_aggregate_sig sc)
          (ok_or (OutOfRange ''SignedCheckpoint signers length'' (length (sc_signers sc)))
            (u32_try_from (length (sc_signers sc))))))"

definition take_node :: "bytes \<Rightarrow> (NodeId \<times> bytes) option" where
  "take_node c = map_option (map_prod NodeId id) (take_u64 c)"

definition take_checkpoint_payload :: "('x) crypto_lib_scheme \<Rightarrow> bytes \<Rightarrow> (CheckpointPayload \<times> bytes) option" where
  "take_checkpoint_payload C bs = do {
     (round, c) \<leftarrow> take_u64 bs;
     (records_root, c) \<leftarrow> take_exact 32 c;
     (state_hash, c) \<leftarrow> take_exact 32 c;
     (roster_hash, c) \<leftarrow> take_exact 32 c;
     (prev_checkpoint_hash, c) \<leftarrow> take_exact 32 c;
     (window_root, c) \<leftarrow> take_exact 32 c;
     (rh_root, c) \<leftarrow> take_exact 32 c;
     (roster_bytes, c) \<leftarrow> take_field c;
     roster_snapshot \<leftarrow> registry_from_bytes C roster_bytes;
     if hash_registry (sha256 C) roster_snapshot \<noteq> roster_hash then None
     else Some (\<lparr> ck_round = round, ck_records_root = records_root, ck_state_hash = state_hash, ck_roster_hash = roster_hash,
       ck_prev_checkpoint_hash = prev_checkpoint_hash, ck_window_root = window_root, ck_roster_history_root = rh_root,
       ck_roster_snapshot = roster_snapshot \<rparr>, c) }"

definition decode_signed_checkpoint :: "('x) crypto_lib_scheme \<Rightarrow> bls_lib \<Rightarrow> bytes \<Rightarrow> SignedCheckpoint option" where
  "decode_signed_checkpoint C B bs = do {
     (payload, c) \<leftarrow> take_checkpoint_payload C bs;
     (signer_count, c) \<leftarrow> take_u32 c;
     if (length c - 96) div 8 < unat signer_count then None
     else do {
       (signers, c) \<leftarrow> take_many (unat signer_count) take_node c;
       (sig_bytes, c) \<leftarrow> take_exact 96 c;
       if bls_sig_ok B sig_bytes \<and> c = []
       then Some \<lparr> sc_payload = payload, sc_aggregate_sig = sig_bytes, sc_signers = signers \<rparr>
       else None } }"

subsection \<open>Roster history\<close>

definition take_snapshot :: "('x) crypto_lib_scheme \<Rightarrow> bytes \<Rightarrow> ((u64 \<times> MembershipRegistry) \<times> bytes) option" where
  "take_snapshot C c = do {
     (round, c) \<leftarrow> take_u64 c;
     (registry_bytes, c) \<leftarrow> take_field c;
     registry \<leftarrow> registry_from_bytes C registry_bytes;
     Some ((round, registry), c) }"

definition decode_roster_history :: "('x) crypto_lib_scheme \<Rightarrow> bytes \<Rightarrow> RosterHistory option" where
  "decode_roster_history C bs = do {
     (entry_count, c) \<leftarrow> take_u32 bs;
     if length c div 12 < unat entry_count then None
     else do {
       (ps, c) \<leftarrow> take_many (unat entry_count) (take_snapshot C) c;
       if c = [] then from_snapshots ps else None } }"

subsection \<open>Reading what was written\<close>

lemma take_tagged_u64_append [simp, codec_simps]: "take_tagged_u64 (tagged_u64 v @ rest) = Some (v, rest)"
  by (cases v) (simp_all add: take_tagged_u64_def)

lemma take_tagged_u64_Some_iff: "take_tagged_u64 c = Some (v, rest) \<longleftrightarrow> c = tagged_u64 v @ rest"
proof
  show "take_tagged_u64 c = Some (v, rest) \<Longrightarrow> c = tagged_u64 v @ rest"
    by (auto simp: take_tagged_u64_def bind_eq_Some_conv take_u8_Some_iff take_u64_Some_iff split: if_splits)
qed simp

interpretation tagged_codec: codec "\<lambda>v. Some (tagged_u64 v)" take_tagged_u64 "\<lambda>_. True"
  by unfold_locales auto

lemma take_many_u64 [simp, codec_simps]: "take_many (length ws) take_u64 (concat (map u64_be ws) @ rest) = Some (ws, rest)"
  by (induction ws) simp_all

lemma take_many_u64_Some_iff:
  "take_many n take_u64 c = Some (ws, rest) \<longleftrightarrow> c = concat (map u64_be ws) @ rest \<and> length ws = n"
proof
  assume "take_many n take_u64 c = Some (ws, rest)"
  then show "c = concat (map u64_be ws) @ rest \<and> length ws = n"
    by (induction n arbitrary: c ws) (auto simp: bind_eq_Some_conv take_u64_Some_iff)
qed auto

lemma take_trailing_timestamp_iff:
  "take_trailing_timestamp c = Some ts \<longleftrightarrow> c = tagged_u64 (map_option ts_get ts) \<or> c = [] \<and> ts = None"
proof -
  have ts: "map_option Timestamp v = ts \<longleftrightarrow> v = map_option ts_get ts" for v
    by (cases v; cases ts) auto
  have ne: "tagged_u64 v \<noteq> []" for v by (cases v) auto
  show ?thesis
  proof (cases "c = []")
    case True
    then show ?thesis using ne by (auto simp: take_trailing_timestamp_def eq_commute [of "[]"])
  next
    case False
    then show ?thesis
      using take_tagged_u64_Some_iff [of c _ "[]"] by (auto simp: take_trailing_timestamp_def bind_eq_Some_conv ts)
  qed
qed

lemma encode_retained_event_Ok_iff:
  "encode_retained_event rec = Ok bs \<longleftrightarrow> (\<exists>n eb e m. u32_try_from (length (re_ancestor_seqs rec)) = Some n \<and>
     encode_Event (re_event rec) = Ok eb \<and> write_prefixed eb = Some e \<and> m = tagged_u64 (map_option ts_get (re_timestamp rec)) \<and>
     bs = u64_be (re_seq rec) @ u64_be (re_round rec) @ tagged_u64 (re_round_received rec) @ u32_be n @
       concat (map u64_be (re_ancestor_seqs rec)) @ e @ m)"
  by (auto simp: encode_retained_event_def write_prefixed_def bind_eq_Some_conv)

lemma decode_encode_retained_event:
  assumes "event_wf (re_event rec)" "encode_retained_event rec = Ok (bs @ t)"
    and "t = [] \<or> t = [0] \<and> re_timestamp rec = None"
  shows "decode_retained_event bs = Some rec"
proof -
  from assms(2) obtain n eb e where r: "u32_try_from (length (re_ancestor_seqs rec)) = Some n"
     "encode_Event (re_event rec) = Ok eb" "write_prefixed eb = Some e"
     "bs @ t = (u64_be (re_seq rec) @ u64_be (re_round rec) @ tagged_u64 (re_round_received rec) @ u32_be n @
       concat (map u64_be (re_ancestor_seqs rec)) @ e) @ tagged_u64 (map_option ts_get (re_timestamp rec))"
    by (auto simp: encode_retained_event_Ok_iff)
  then obtain c where c: "bs = (u64_be (re_seq rec) @ u64_be (re_round rec) @ tagged_u64 (re_round_received rec) @ u32_be n @
       concat (map u64_be (re_ancestor_seqs rec)) @ e) @ c" "take_trailing_timestamp c = Some (re_timestamp rec)"
    using assms(3) by (auto simp: take_trailing_timestamp_iff)
  have "unat n = length (re_ancestor_seqs rec)" using r(1) by (simp add: u32_try_from_Some)
  then show ?thesis
    using r(3) c decode_event_encode [OF assms(1) r(2)] by (simp add: decode_retained_event_def)
qed

text \<open>Everything the reader accepts is an encoding, or one that lacks a trailing empty timestamp.\<close>

lemma decode_retained_event_Some:
  assumes "decode_retained_event bs = Some rec"
  shows "event_wf (re_event rec) \<and> (encode_retained_event rec = Ok bs \<or>
    re_timestamp rec = None \<and> encode_retained_event rec = Ok (bs @ [0]))"
proof -
  from assms obtain seq round rr n seqs eb event ts c1 c2 c3 c4 c5 c6 where
    r: "take_u64 bs = Some (seq, c1)" "take_u64 c1 = Some (round, c2)" "take_tagged_u64 c2 = Some (rr, c3)"
      "take_u32 c3 = Some (n, c4)" "take_many (unat n) take_u64 c4 = Some (seqs, c5)" "take_field c5 = Some (eb, c6)"
    and ev: "decode_event_bytes eb = Some event" and ts: "take_trailing_timestamp c6 = Some ts"
    and rec: "rec = \<lparr> re_event = event, re_seq = seq, re_round = round, re_ancestor_seqs = seqs,
       re_round_received = rr, re_timestamp = ts \<rparr>"
    by (auto simp: decode_retained_event_def bind_eq_Some_conv)
  from r(6) obtain e where e: "write_prefixed eb = Some e" "c5 = e @ c6"
    by (auto simp: take_field_eq_take_prefixed take_prefixed_Some_iff)
  have wf: "event_wf event" "encode_Event event = Ok eb" using decode_event_bytes_Some [OF ev] by auto
  have len: "length seqs = unat n" and c4: "c4 = concat (map u64_be seqs) @ c5"
    using r(5) by (auto simp: take_many_u64_Some_iff)
  have n: "u32_try_from (length seqs) = Some n" using len unat_u32_bound [of n] by (simp add: u32_try_from_def)
  have bs: "bs = u64_be seq @ u64_be round @ tagged_u64 rr @ u32_be n @ concat (map u64_be seqs) @ e @ c6"
    using r(1-4) c4 e(2) by (simp add: take_u64_Some_iff take_tagged_u64_Some_iff take_u32_Some_iff)
  have "encode_retained_event rec = Ok (u64_be seq @ u64_be round @ tagged_u64 rr @ u32_be n @ concat (map u64_be seqs) @ e @
      tagged_u64 (map_option ts_get ts))"
    using n wf(2) e(1) by (simp add: encode_retained_event_Ok_iff rec)
  with ts wf(1) bs show ?thesis by (auto simp: take_trailing_timestamp_iff rec)
qed

text \<open>Checkpoints and rosters come back with their registries in canonical order.\<close>

definition registry_sorted :: "MembershipRegistry \<Rightarrow> MembershipRegistry" where
  "registry_sorted r = \<lparr> keys = sorted_members r \<rparr>"

lemma registry_sorted_same:
  assumes "hm_wf (keys r)"
  shows "registry_map (registry_sorted r) = registry_map r" "registry_to_bytes (registry_sorted r) = registry_to_bytes r"
    "registry_len (registry_sorted r) = registry_len r"
  using assms map_of_sorted_members [OF assms]
  by (simp_all add: registry_sorted_def registry_map_def registry_to_bytes_def sorted_members_def registry_len_def
      sort_key_id_if_sorted)

definition checkpoint_wf :: "('x) crypto_lib_scheme \<Rightarrow> bls_lib \<Rightarrow> SignedCheckpoint \<Rightarrow> bool" where
  "checkpoint_wf C B sc \<longleftrightarrow> payload_wf (sha256 C) (sc_payload sc) \<and> registry_wf C (ck_roster_snapshot (sc_payload sc)) \<and>
     length (sc_aggregate_sig sc) = 96 \<and> bls_sig_ok B (sc_aggregate_sig sc)"

definition checkpoint_sorted :: "SignedCheckpoint \<Rightarrow> SignedCheckpoint" where
  "checkpoint_sorted sc = sc\<lparr> sc_payload := (sc_payload sc)\<lparr> ck_roster_snapshot := registry_sorted (ck_roster_snapshot (sc_payload sc)) \<rparr> \<rparr>"

interpretation node_codec: codec "\<lambda>n. Some (u64_be (node_get n))" take_node "\<lambda>_. True"
  by unfold_locales (auto simp: take_node_def)

lemma take_many_node [simp, codec_simps]:
  "take_many (length ns) take_node (concat (map (\<lambda>s. u64_be (node_get s)) ns) @ rest) = Some (ns, rest)"
  by (induction ns) (simp_all add: take_node_def)

lemma length_node_bytes: "length (concat (map (\<lambda>s. u64_be (node_get s)) ns)) = 8 * length ns"
  by (induction ns) simp_all

lemma encode_signed_checkpoint_Ok_iff:
  "encode_signed_checkpoint sc = Ok bs \<longleftrightarrow> (\<exists>r n. write_prefixed (registry_to_bytes (ck_roster_snapshot (sc_payload sc))) = Some r \<and>
     u32_try_from (length (sc_signers sc)) = Some n \<and>
     bs = signing_bytes (sc_payload sc) @ r @ u32_be n @ concat (map (\<lambda>s. u64_be (node_get s)) (sc_signers sc)) @ sc_aggregate_sig sc)"
  by (auto simp: encode_signed_checkpoint_def Let_def signing_bytes_def write_prefixed_def bind_eq_Some_conv)

lemma take_checkpoint_payload_encode:
  assumes "digest (sha256 C)" "payload_wf (sha256 C) p" "registry_wf C (ck_roster_snapshot p)" "write_prefixed (registry_to_bytes (ck_roster_snapshot p)) = Some r"
  shows "take_checkpoint_payload C (signing_bytes p @ r @ rest) = Some (p\<lparr> ck_roster_snapshot := registry_sorted (ck_roster_snapshot p) \<rparr>, rest)"
proof -
  have "hash_registry (sha256 C) (registry_sorted (ck_roster_snapshot p)) = ck_roster_hash p"
    using assms(2,3) registry_sorted_same(2) by (simp add: hash_registry_def payload_wf_def registry_wf_def)
  moreover have "length (ck_roster_hash p) = 32" using assms(1,2) by (simp add: payload_wf_def hash_registry_def)
  ultimately show ?thesis
    using assms(2,4) registry_from_to_bytes [OF assms(3)]
    by (simp add: take_checkpoint_payload_def signing_bytes_def payload_wf_def registry_sorted_def)
qed

lemma decode_encode_signed_checkpoint:
  assumes "digest (sha256 C)" "checkpoint_wf C B sc" "encode_signed_checkpoint sc = Ok bs"
  shows "decode_signed_checkpoint C B bs = Some (checkpoint_sorted sc)"
proof -
  from assms(3) obtain r n where r: "write_prefixed (registry_to_bytes (ck_roster_snapshot (sc_payload sc))) = Some r"
      "u32_try_from (length (sc_signers sc)) = Some n"
      "bs = signing_bytes (sc_payload sc) @ r @ u32_be n @ concat (map (\<lambda>s. u64_be (node_get s)) (sc_signers sc)) @ sc_aggregate_sig sc"
    by (auto simp: encode_signed_checkpoint_Ok_iff)
  have wf: "payload_wf (sha256 C) (sc_payload sc)" "registry_wf C (ck_roster_snapshot (sc_payload sc))"
      "length (sc_aggregate_sig sc) = 96" "bls_sig_ok B (sc_aggregate_sig sc)"
    using assms(2) by (auto simp: checkpoint_wf_def)
  have n: "unat n = length (sc_signers sc)" using r(2) by (simp add: u32_try_from_Some)
  have "take_exact 96 (sc_aggregate_sig sc) = Some (sc_aggregate_sig sc, [])"
    using take_exact_append [OF wf(3), of "[]"] by simp
  then show ?thesis
    using take_checkpoint_payload_encode [OF assms(1) wf(1,2) r(1)] n wf(3,4)
    by (simp add: decode_signed_checkpoint_def r(3) length_node_bytes checkpoint_sorted_def)
qed

text \<open>An accepted checkpoint carries a roster that is well-formed and hashes to the committed value.\<close>

lemma decode_signed_checkpoint_wf:
  assumes "decode_signed_checkpoint C B bs = Some sc"
  shows "checkpoint_wf C B sc"
proof -
  from assms obtain p c n c1 ss c2 sg where d: "take_checkpoint_payload C bs = Some (p, c)" "take_u32 c = Some (n, c1)"
      "take_many (unat n) take_node c1 = Some (ss, c2)" "take_exact 96 c2 = Some (sg, [])" "bls_sig_ok B sg"
      "sc = \<lparr> sc_payload = p, sc_aggregate_sig = sg, sc_signers = ss \<rparr>"
    by (auto simp: decode_signed_checkpoint_def bind_eq_Some_conv split: if_splits)
  from d(1) have "payload_wf (sha256 C) p \<and> registry_wf C (ck_roster_snapshot p)"
    by (auto simp: take_checkpoint_payload_def bind_eq_Some_conv take_exact_Some_iff payload_wf_def registry_from_bytes_wf split: if_splits)
  with d(4-6) show ?thesis by (simp add: checkpoint_wf_def take_exact_Some_iff)
qed

lemma take_snapshot_encode:
  assumes "registry_wf C (snd p)" "encode_snapshot p = Ok b"
  shows "take_snapshot C (b @ rest) = Some ((fst p, registry_sorted (snd p)), rest)"
proof -
  from assms(2) obtain r where "write_prefixed (registry_to_bytes (snd p)) = Some r" "b = u64_be (fst p) @ r"
    by (auto simp: encode_snapshot_def Let_def write_prefixed_def split_beta)
  with registry_from_to_bytes [OF assms(1)] show ?thesis by (simp add: take_snapshot_def registry_sorted_def)
qed

lemma take_many_snapshots:
  "\<forall>p \<in> set ps. registry_wf C (snd p) \<Longrightarrow> encode_snapshots ps = Ok b \<Longrightarrow>
   take_many (length ps) (take_snapshot C) (b @ rest) = Some (map (\<lambda>(a, r). (a, registry_sorted r)) ps, rest)"
proof (induction ps arbitrary: b)
  case (Cons p ps)
  then obtain b1 b2 where "encode_snapshot p = Ok b1" "encode_snapshots ps = Ok b2" "b = b1 @ b2" by auto
  with Cons take_snapshot_encode [of C p b1] show ?case by (cases p) simp
qed simp

lemma length_encode_snapshots: "encode_snapshots ps = Ok b \<Longrightarrow> 12 * length ps \<le> length b"
proof (induction ps arbitrary: b)
  case (Cons p ps)
  then obtain b1 b2 where "encode_snapshot p = Ok b1" "encode_snapshots ps = Ok b2" "b = b1 @ b2" by auto
  moreover from this(1) have "12 \<le> length b1" by (auto simp: encode_snapshot_def Let_def split_beta)
  ultimately show ?case using Cons.IH [of b2] by simp
qed simp

lemma decode_encode_roster_history:
  assumes "roster_wf rh" "snapshots rh \<noteq> []" "\<forall>p \<in> set (snapshots rh). registry_wf C (snd p)" "encode_roster_history rh = Ok bs"
  shows "decode_roster_history C bs = Some \<lparr> snapshots = map (\<lambda>(a, r). (a, registry_sorted r)) (snapshots rh) \<rparr>"
proof -
  from assms(4) obtain n b where b: "u32_try_from (length (snapshots rh)) = Some n" "encode_snapshots (snapshots rh) = Ok b" "bs = u32_be n @ b"
    by (auto simp: encode_roster_history_def)
  have n: "unat n = length (snapshots rh)" using b(1) by (simp add: u32_try_from_Some)
  have bt: "bt_wf (map (\<lambda>(a, r). (a, registry_sorted r)) (snapshots rh))"
    using assms(1) by (simp add: roster_wf_def bt_wf_def split_beta comp_def)
  have "length (snapshots rh) \<le> length b div 12" using length_encode_snapshots [OF b(2)] by simp
  then show ?thesis
    using take_many_snapshots [OF assms(3) b(2), of "[]"] n assms(2) bt
    by (simp add: decode_roster_history_def b(3) from_snapshots_def)
qed

subsection \<open>Properties\<close>

text \<open>
  Property C25. The format of a retained event: a byte string is read as a record exactly
  when it is the record's encoding, or when the record has no timestamp and the byte string
  is its encoding without the last byte, the form of records written before the field
  existed. Nothing else is accepted: no unknown tag, no truncated or trailing byte, no event
  in another form.
\<close>

theorem retained_event_codec:
  "decode_retained_event bs = Some rec \<longleftrightarrow> event_wf (re_event rec) \<and>
     (encode_retained_event rec = Ok bs \<or> re_timestamp rec = None \<and> encode_retained_event rec = Ok (bs @ [0]))"
proof
  assume "event_wf (re_event rec) \<and>
     (encode_retained_event rec = Ok bs \<or> re_timestamp rec = None \<and> encode_retained_event rec = Ok (bs @ [0]))"
  then show "decode_retained_event bs = Some rec"
    using decode_encode_retained_event [of rec bs "[]"] decode_encode_retained_event [of rec bs "[0]"] by (elim conjE disjE) simp_all
qed (rule decode_retained_event_Some)


definition sample_transfer :: SignedCheckpoint where
  "sample_transfer = \<lparr> sc_payload = checkpoint_payload_new sample_sha 3 (replicate 32 1) (replicate 32 2) (replicate 32 3) (replicate 32 4)
       \<lparr> keys = [(NodeId 2, replicate 32 9, replicate 48 1), (NodeId 1, replicate 32 8, replicate 48 2)] \<rparr>,
     sc_aggregate_sig = replicate 96 5, sc_signers = [NodeId 2, NodeId 1] \<rparr>"


end
