(* ===== verification/NodeState.thy ===== *)
theory NodeState
  imports Executor Reconnect
begin

section \<open>The state of a gossip node\<close>

text \<open>
  The part of \<^verbatim>\<open>GossipNode\<close> (\<^verbatim>\<open>protocol/gossip/src/node.rs\<close>) that finalization, checkpoints
  and reconnects read and write, and its table of peers
  (\<^verbatim>\<open>protocol/gossip/src/peer_manager.rs\<close>, \<^verbatim>\<open>peer.rs\<close>). Each field behind a lock of the code
  is a field of the record; a handler runs to its end before the next one starts. What the
  node hands to its durable sinks is appended to the trace \<open>gn_trace\<close>, in the order of the
  calls. The gossip metrics, the notification of waiting tests and the log output are not
  modelled; the transport and the sync driver are not part of the record.
\<close>

subsection \<open>Peers\<close>

record PeerInfo =
  peer_id :: NodeId
  peer_addr :: SocketAddr
  peer_reconnect_addr :: "SocketAddr option"
  peer_spki_fingerprint :: bytes

definition peer_info_new :: "NodeId \<Rightarrow> SocketAddr \<Rightarrow> bytes \<Rightarrow> PeerInfo" where
  "peer_info_new node addr fp =
     \<lparr> peer_id = node, peer_addr = addr, peer_reconnect_addr = None, peer_spki_fingerprint = fp \<rparr>"

definition with_reconnect :: "PeerInfo \<Rightarrow> SocketAddr \<Rightarrow> PeerInfo" where
  "with_reconnect p addr = p\<lparr> peer_reconnect_addr := Some addr \<rparr>"

definition SPKI_PREFIX :: bytes where
  "SPKI_PREFIX = [0x30, 0x2a, 0x30, 0x05, 0x06, 0x03, 0x2b, 0x65, 0x70, 0x03, 0x21, 0x00]"

definition spki_fingerprint_of :: "hash_fn \<Rightarrow> VerifyingKey \<Rightarrow> bytes" where
  "spki_fingerprint_of sha key = sha (SPKI_PREFIX @ key)"

definition add_peer :: "PeerInfo list \<Rightarrow> PeerInfo \<Rightarrow> PeerInfo list \<times> bool" where
  "add_peer peers info =
     (if list_ex (\<lambda>p. peer_id p = peer_id info) peers then (peers, False) else (peers @ [info], True))"

definition add_peer_from_key ::
    "hash_fn \<Rightarrow> PeerInfo list \<Rightarrow> NodeId \<Rightarrow> VerifyingKey \<Rightarrow> SocketAddr \<Rightarrow> SocketAddr option \<Rightarrow> PeerInfo list \<times> bool" where
  "add_peer_from_key sha peers node key addr reconnect_addr =
     (if list_ex (\<lambda>p. peer_id p = node) peers then (peers, False)
      else let peer = peer_info_new node addr (spki_fingerprint_of sha key);
               peer = (case reconnect_addr of Some a \<Rightarrow> with_reconnect peer a | None \<Rightarrow> peer)
           in (peers @ [peer], True))"

subsection \<open>The node\<close>

definition MAX_PENDING_SIGS_PER_ROUND :: nat where
  "MAX_PENDING_SIGS_PER_ROUND = 64"

definition CHECKPOINT_LAG_ROUNDS :: u64 where
  "CHECKPOINT_LAG_ROUNDS = 16"

definition SNAPSHOT_RETENTION_ROUNDS :: u64 where
  "SNAPSHOT_RETENTION_ROUNDS = 2"

record ActivationState =
  act_pending :: pending
  processed_through_round :: u64
  checkpoint_watermark :: u64

text \<open>Which of the optional sinks are installed; \<open>same_writer\<close> is \<^verbatim>\<open>Arc::ptr_eq\<close> of the two record sinks.\<close>

record NodeSinks =
  checkpoint_sink :: bool
  event_sink :: bool
  event_stream_sink :: bool
  record_sink :: bool
  record_proof_sink :: bool
  same_writer :: bool

datatype NodeEffect =
    SnapshotFlushed u64 bytes
  | CheckpointPersisted SignedCheckpoint
  | RecordPersisted SignedCheckpoint diffs
  | ProofPersisted SignedCheckpoint diffs
  | OrderingLogged EventHash u64 "Timestamp option"
  | RosterLogged bytes
  | EventLogged RetainedEvent
  | LogPruned "EventHash list"
  | LogFlushed
  | EventStreamed RetainedEvent
  | StreamFlushed

record 'ks GossipNode =
  gn_node_id :: NodeId
  gn_verifying_key :: VerifyingKey
  gn_bls :: BlsIdentity
  gn_hashgraph :: Hashgraph
  gn_registry :: MembershipRegistry
  gn_peers :: "PeerInfo list"
  gn_executor :: "'ks Executor"
  gn_state_db :: "'ks StateDb"
  gn_activation :: ActivationState
  gn_accumulators :: "(u64, CheckpointAccumulator) hmap"
  gn_diffs :: "(u64, diffs) hmap"
  gn_signed :: "SignedCheckpoint list"
  gn_snapshots :: "(u64, bytes) btmap"
  gn_outbound_sigs :: "CheckpointSig list"
  gn_pending_sigs :: "(u64, CheckpointSig list) btmap"
  gn_needs_reconnect :: bool
  gn_needs_checkpoint_sync :: bool
  gn_last_timestamp :: u64
  gn_cumulative :: "(u64, bytes) btmap"
  gn_sinks :: NodeSinks
  gn_trace :: "NodeEffect list"

definition emit :: "NodeEffect \<Rightarrow> 'ks GossipNode \<Rightarrow> 'ks GossipNode" where
  "emit e n = n\<lparr> gn_trace := gn_trace n @ [e] \<rparr>"

definition emit_if :: "bool \<Rightarrow> NodeEffect \<Rightarrow> 'ks GossipNode \<Rightarrow> 'ks GossipNode" where
  "emit_if b e n = (if b then emit e n else n)"

definition sc_round :: "SignedCheckpoint \<Rightarrow> u64" where
  "sc_round sc = ck_round (sc_payload sc)"

text \<open>A fresh node: the database's state partition backs its executor, all sinks are absent.\<close>

definition no_sinks :: NodeSinks where
  "no_sinks = \<lparr> checkpoint_sink = False, event_sink = False, event_stream_sink = False, record_sink = False,
     record_proof_sink = False, same_writer = False \<rparr>"

definition new_with_bls ::
    "hash_fn \<Rightarrow> NodeId \<Rightarrow> VerifyingKey \<Rightarrow> BlsIdentity \<Rightarrow> MembershipRegistry \<Rightarrow> PeerInfo list \<Rightarrow> 'ks StateDb \<Rightarrow> 'ks GossipNode" where
  "new_with_bls sha node key bls registry peers db = \<lparr>
     gn_node_id = node, gn_verifying_key = key, gn_bls = bls,
     gn_hashgraph = hg_new registry,
     gn_registry = registry,
     gn_peers = filter (\<lambda>p. peer_id p \<noteq> node) peers,
     gn_executor = executor_new sha (db_state db),
     gn_state_db = db,
     gn_activation = \<lparr> act_pending = [], processed_through_round = 0, checkpoint_watermark = 0 \<rparr>,
     gn_accumulators = [], gn_diffs = [], gn_signed = [], gn_snapshots = [],
     gn_outbound_sigs = [], gn_pending_sigs = [],
     gn_needs_reconnect = False, gn_needs_checkpoint_sync = False,
     gn_last_timestamp = 0,
     gn_cumulative = [(0, smt_root (smt_new sha))],
     gn_sinks = no_sinks, gn_trace = [] \<rparr>"

definition set_sinks :: "NodeSinks \<Rightarrow> 'ks GossipNode \<Rightarrow> 'ks GossipNode" where
  "set_sinks s n = n\<lparr> gn_sinks := s \<rparr>"

text \<open>\<^verbatim>\<open>signed_checkpoints.last()\<close>, as a round.\<close>

definition latest_accepted_checkpoint_round :: "'ks GossipNode \<Rightarrow> u64 option" where
  "latest_accepted_checkpoint_round n = map_option sc_round (last_opt (gn_signed n))"

definition latest_signed_checkpoint :: "'ks GossipNode \<Rightarrow> SignedCheckpoint option" where
  "latest_signed_checkpoint n = last_opt (gn_signed n)"

definition signed_checkpoint_for :: "'ks GossipNode \<Rightarrow> u64 \<Rightarrow> SignedCheckpoint option" where
  "signed_checkpoint_for n round = List.find (\<lambda>c. sc_round c = round) (gn_signed n)"

definition accepted_round :: "'ks GossipNode \<Rightarrow> u64" where
  "accepted_round n = case_option 0 id (latest_accepted_checkpoint_round n)"

definition checkpoint_signing_bytes :: "'ks GossipNode \<Rightarrow> u64 \<Rightarrow> bytes option" where
  "checkpoint_signing_bytes n round =
     map_option (\<lambda>acc. signing_bytes (acc_payload acc)) (map_of (gn_accumulators n) round)"

end
