(* ===== verification/NodeCheckpoint.thy ===== *)
theory NodeCheckpoint
  imports NodeState
begin

section \<open>Checkpoints at a node\<close>

text \<open>
  Production, signature collection, acceptance and adoption of checkpoints in
  \<^verbatim>\<open>protocol/gossip/src/node.rs\<close>. The handlers return the new node; \<open>Panic\<close> stands for a
  failed assertion or \<^verbatim>\<open>expect\<close> of the code. \<open>persist_ok\<close> is the outcome of the database
  flush that \<^verbatim>\<open>accept_checkpoint\<close> waits for.
\<close>

subsection \<open>The payload of a round\<close>

primrec enumerate_from :: "nat \<Rightarrow> 'a list \<Rightarrow> (nat \<times> 'a) list" where
  "enumerate_from n [] = []"
| "enumerate_from n (x # xs) = (n, x) # enumerate_from (Suc n) xs"

definition event_items :: "EventHash \<Rightarrow> Transaction list \<Rightarrow> RecordsRootItem list hg_result" where
  "event_items h txs = ok_or_panic (those (map (\<lambda>(idx, tx).
     map_option (\<lambda>i. \<lparr> ri_event_hash = eh_bytes h, ri_tx_index = i, ri_tx_payload = tx_payload tx \<rparr>) (u32_try_from idx))
     (enumerate_from 0 txs)))"

primrec order_items :: "Hashgraph \<Rightarrow> EventHash list \<Rightarrow> RecordsRootItem list hg_result" where
  "order_items g [] = Ok []"
| "order_items g (h # hs) = (case hg_get g h of
     None \<Rightarrow> order_items g hs
   | Some rec \<Rightarrow> andThen (event_items h (ev_payload (er_event rec))) (\<lambda>items.
       map_ok (\<lambda>rest. items @ rest) (order_items g hs)))"

definition canonical_checkpoint_payload ::
    "hash_fn \<Rightarrow> Hashgraph \<Rightarrow> u64 \<Rightarrow> (u64, bytes) btmap \<Rightarrow> CheckpointPayload option hg_result" where
  "canonical_checkpoint_payload sha g round state_hashes =
     (case bt_last_upto round state_hashes of
        None \<Rightarrow> Ok None
      | Some (_, state_hash) \<Rightarrow>
          andThen (order_items g (consensus_order g round)) (\<lambda>items.
          andThen (ok_or_panic (result_ok (compute_records_root sha items))) (\<lambda>records_root.
          checkpoint_payload sha g round records_root state_hash)))"

lemma unat_pred_less: "(r :: u64) \<noteq> 0 \<Longrightarrow> unat (r - 1) < unat r"
  by (simp add: unat_minus_one unat_gt_0)

function (sequential)
  canonical_checkpoint_payload_chained ::
    "hash_fn \<Rightarrow> Hashgraph \<Rightarrow> u64 \<Rightarrow> (u64, bytes) btmap \<Rightarrow> SignedCheckpoint list \<Rightarrow> CheckpointPayload option hg_result" and
  prev_checkpoint_hash_for ::
    "hash_fn \<Rightarrow> Hashgraph \<Rightarrow> u64 \<Rightarrow> (u64, bytes) btmap \<Rightarrow> SignedCheckpoint list \<Rightarrow> bytes hg_result" where
  "canonical_checkpoint_payload_chained sha g round state_hashes scs =
     andThen (canonical_checkpoint_payload sha g round state_hashes) (\<lambda>base. case base of
       None \<Rightarrow> Ok None
     | Some b \<Rightarrow> map_ok (\<lambda>prev. Some (with_prev_checkpoint_hash b prev))
         (prev_checkpoint_hash_for sha g round state_hashes scs))"
| "prev_checkpoint_hash_for sha g round state_hashes scs =
     (if round = 0 then Ok (replicate 32 0)
      else let prev_round = round - 1 in
        case List.find (\<lambda>sc. sc_round sc = prev_round) scs of
          Some sc \<Rightarrow> Ok (signing_bytes_hash sha (sc_payload sc))
        | None \<Rightarrow> andThen (canonical_checkpoint_payload_chained sha g prev_round state_hashes scs) (\<lambda>p. case p of
            Some prev_payload \<Rightarrow> Ok (signing_bytes_hash sha prev_payload)
          | None \<Rightarrow> Ok (replicate 32 0)))"
  by pat_completeness auto
termination
  by (relation "measure (\<lambda>x. case x of Inl (_, _, r, _) \<Rightarrow> 2 * unat r + 1 | Inr (_, _, r, _) \<Rightarrow> 2 * unat r)")
    (auto simp: unat_minus_one unat_gt_0 dest: unat_pred_less)

declare canonical_checkpoint_payload_chained.simps [simp del] prev_checkpoint_hash_for.simps [simp del]

subsection \<open>Signatures\<close>

definition verify_pop_bytes :: "bls_lib \<Rightarrow> bytes \<Rightarrow> bytes \<Rightarrow> bool" where
  "verify_pop_bytes B bls_key pop \<longleftrightarrow> bls_pk_ok B bls_key \<and> bls_sig_ok B pop \<and> verify_pop B bls_key pop"

definition verify_checkpoint_sig :: "bls_lib \<Rightarrow> CheckpointSig \<Rightarrow> bytes \<Rightarrow> MembershipRegistry \<Rightarrow> bool" where
  "verify_checkpoint_sig B sig msg roster =
     (case bls_key_for roster (cs_signer sig) of
        None \<Rightarrow> False
      | Some pk \<Rightarrow> if \<not> bls_pk_ok B pk then False else bls_verify B (cs_sig sig) msg CHECKPOINT_DST pk)"

definition is_pending_sig_admissible :: "'ks GossipNode \<Rightarrow> CheckpointSig \<Rightarrow> bool hg_result" where
  "is_pending_sig_admissible n sig =
     map_ok (\<lambda>roster. registry_contains roster (cs_signer sig)) (registry_at_round (gn_hashgraph n) (cs_round sig))"

definition buffer_pending_sig :: "CheckpointSig \<Rightarrow> 'ks GossipNode \<Rightarrow> 'ks GossipNode" where
  "buffer_pending_sig sig n =
     (let entry = case_option [] id (map_of (gn_pending_sigs n) (cs_round sig));
          entry' = (if list_ex (\<lambda>e. cs_signer e = cs_signer sig) entry then entry
                    else if MAX_PENDING_SIGS_PER_ROUND \<le> length entry then entry
                    else entry @ [sig])
      in n\<lparr> gn_pending_sigs := bt_insert (cs_round sig) entry' (gn_pending_sigs n) \<rparr>)"

subsection \<open>Acceptance\<close>

definition notify_checkpoint_accepted :: "SignedCheckpoint \<Rightarrow> 'ks GossipNode \<Rightarrow> 'ks GossipNode" where
  "notify_checkpoint_accepted sc n = emit_if (checkpoint_sink (gn_sinks n)) (CheckpointPersisted sc) n"

text \<open>The mirror streams get the accepted checkpoint and the diffs of its round.\<close>

definition stream_records :: "SignedCheckpoint \<Rightarrow> diffs \<Rightarrow> 'ks GossipNode \<Rightarrow> 'ks GossipNode" where
  "stream_records sc ds n =
     (let s = gn_sinks n; proof_is_duplicate = (record_sink s \<and> record_proof_sink s \<and> same_writer s)
      in emit_if (record_proof_sink s \<and> \<not> proof_is_duplicate) (ProofPersisted sc ds)
           (emit_if (record_sink s) (RecordPersisted sc ds) n))"

text \<open>The in-memory bookkeeping of an accepted round.\<close>

definition record_accepted :: "SignedCheckpoint \<Rightarrow> bytes \<Rightarrow> 'ks GossipNode \<Rightarrow> 'ks GossipNode" where
  "record_accepted sc snap n =
     (let round = sc_round sc; snapshot_prune_before = u64_saturating_sub round SNAPSHOT_RETENTION_ROUNDS in n\<lparr>
        gn_signed := sort_key sc_round (gn_signed n @ [sc]),
        gn_snapshots := filter (\<lambda>(r, _). snapshot_prune_before \<le> r) (bt_insert round snap (gn_snapshots n)),
        gn_outbound_sigs := filter (\<lambda>s. round < cs_round s) (gn_outbound_sigs n),
        gn_pending_sigs := filter (\<lambda>(r, _). round < r) (gn_pending_sigs n),
        gn_diffs := filter (\<lambda>(r, _). round < r) (gn_diffs n),
        gn_cumulative := filter (\<lambda>(r, _). r = 0 \<or> snapshot_prune_before \<le> r) (gn_cumulative n) \<rparr>)"

text \<open>Pruning of the database, of the graph and of the event log.\<close>

definition prune_accepted :: "'ks keyspace_ops \<Rightarrow> u64 \<Rightarrow> 'ks GossipNode \<Rightarrow> 'ks GossipNode hg_result" where
  "prune_accepted K round n =
     (let db = (case prune_snapshots_before K (gn_state_db n) (u64_saturating_sub round SNAPSHOT_RETENTION_ROUNDS) of
            Ok db \<Rightarrow> db | _ \<Rightarrow> gn_state_db n);
          n = n\<lparr> gn_state_db := db \<rparr>
      in andThen (prune_before_round (gn_hashgraph n) (u64_saturating_sub round RETENTION_ROUNDS)) (\<lambda>(g, pruned).
         let n = n\<lparr> gn_hashgraph := g \<rparr>; s = gn_sinks n
         in Ok (emit_if (event_stream_sink s) StreamFlushed
                 (emit_if (event_sink s) LogFlushed (emit_if (event_sink s) (LogPruned pruned) n)))))"

text \<open>A failed flush leaves the entries already written.\<close>

definition accept_checkpoint ::
    "'ks keyspace_ops \<Rightarrow> hash_fn \<Rightarrow> bool \<Rightarrow> SignedCheckpoint \<Rightarrow> bytes \<Rightarrow> diffs \<Rightarrow> 'ks GossipNode \<Rightarrow> 'ks GossipNode hg_result" where
  "accept_checkpoint K sha persist_ok sc snap ds n =
     (let round = sc_round sc
      in if root_of_bytes sha snap \<noteq> Some (ck_state_hash (sc_payload sc)) then Ok n
         else case set_watermark K (gn_state_db n) (gn_last_timestamp n) of
           Panic \<Rightarrow> Panic
         | Err _ \<Rightarrow> Ok n
         | Ok db \<Rightarrow>
             (case snapshot_and_flush K persist_ok db round snap of
                Panic \<Rightarrow> Panic
              | Err _ \<Rightarrow> Ok (n\<lparr> gn_state_db := (case snapshot K db round snap of Ok db' \<Rightarrow> db' | _ \<Rightarrow> db) \<rparr>)
              | Ok db' \<Rightarrow>
                  let n = emit (SnapshotFlushed round snap) (n\<lparr> gn_state_db := db' \<rparr>);
                      n = stream_records sc ds (notify_checkpoint_accepted sc n)
                  in prune_accepted K round (record_accepted sc snap n)))"

subsection \<open>The outcome of an acceptance\<close>

text \<open>The calls to the sinks, in their order.\<close>

definition accept_effects :: "NodeSinks \<Rightarrow> SignedCheckpoint \<Rightarrow> bytes \<Rightarrow> diffs \<Rightarrow> EventHash list \<Rightarrow> NodeEffect list" where
  "accept_effects s sc snap ds pruned =
     SnapshotFlushed (sc_round sc) snap #
     (if checkpoint_sink s then [CheckpointPersisted sc] else []) @
     (if record_sink s then [RecordPersisted sc ds] else []) @
     (if record_proof_sink s \<and> \<not> (record_sink s \<and> same_writer s) then [ProofPersisted sc ds] else []) @
     (if event_sink s then [LogPruned pruned] else []) @ (if event_sink s then [LogFlushed] else []) @
     (if event_stream_sink s then [StreamFlushed] else [])"

lemma emit_if_trace: "emit_if b e n = n\<lparr> gn_trace := gn_trace n @ (if b then [e] else []) \<rparr>"
  by (simp add: emit_if_def emit_def)

lemma sinks_trace:
  "notify_checkpoint_accepted sc n = n\<lparr> gn_trace := gn_trace n @ (if checkpoint_sink (gn_sinks n) then [CheckpointPersisted sc] else []) \<rparr>"
  "stream_records sc ds n = n\<lparr> gn_trace := gn_trace n @ (if record_sink (gn_sinks n) then [RecordPersisted sc ds] else []) @
     (if record_proof_sink (gn_sinks n) \<and> \<not> (record_sink (gn_sinks n) \<and> same_writer (gn_sinks n)) then [ProofPersisted sc ds] else []) \<rparr>"
  by (simp_all add: notify_checkpoint_accepted_def stream_records_def emit_if_trace Let_def)

lemma prune_accepted_Ok:
  assumes "prune_accepted K round n = Ok n'"
  obtains g pruned where "prune_before_round (gn_hashgraph n) (u64_saturating_sub round RETENTION_ROUNDS) = Ok (g, pruned)"
    "n' = n\<lparr> gn_state_db := (case prune_snapshots_before K (gn_state_db n) (u64_saturating_sub round SNAPSHOT_RETENTION_ROUNDS) of
            Ok db \<Rightarrow> db | _ \<Rightarrow> gn_state_db n),
         gn_hashgraph := g, gn_trace := gn_trace n @ (if event_sink (gn_sinks n) then [LogPruned pruned] else []) @ (if event_sink (gn_sinks n) then [LogFlushed] else []) @
     (if event_stream_sink (gn_sinks n) then [StreamFlushed] else []) \<rparr>"
proof -
  from assms obtain g pruned where g: "prune_before_round (gn_hashgraph n) (u64_saturating_sub round RETENTION_ROUNDS) = Ok (g, pruned)"
    unfolding prune_accepted_def Let_def by auto
  with assms show thesis
    by (intro that [OF g]) (auto simp: prune_accepted_def Let_def emit_if_trace split del: if_split)
qed

lemma accept_checkpoint_cases:
  assumes "accept_checkpoint K sha persist_ok sc snap ds n = Ok n'"
  obtains (refused) db where "n' = n\<lparr> gn_state_db := db \<rparr>"
  | (accepted) db0 db g pruned where "root_of_bytes sha snap = Some (ck_state_hash (sc_payload sc))"
      "set_watermark K (gn_state_db n) (gn_last_timestamp n) = Ok db0"
      "snapshot_and_flush K persist_ok db0 (sc_round sc) snap = Ok db"
      "prune_before_round (gn_hashgraph n) (u64_saturating_sub (sc_round sc) RETENTION_ROUNDS) = Ok (g, pruned)"
      "n' = (record_accepted sc snap n)\<lparr>
         gn_state_db := (case prune_snapshots_before K db (u64_saturating_sub (sc_round sc) SNAPSHOT_RETENTION_ROUNDS) of
            Ok db \<Rightarrow> db | _ \<Rightarrow> db),
         gn_hashgraph := g, gn_trace := gn_trace n @ accept_effects (gn_sinks n) sc snap ds pruned \<rparr>"
proof (cases "root_of_bytes sha snap = Some (ck_state_hash (sc_payload sc))")
  case False
  with assms have "n' = n\<lparr> gn_state_db := gn_state_db n \<rparr>" by (simp add: accept_checkpoint_def Let_def)
  then show ?thesis by (rule refused)
next
  case root: True
  note run = assms [unfolded accept_checkpoint_def Let_def]
  show ?thesis
  proof (cases "set_watermark K (gn_state_db n) (gn_last_timestamp n)")
    case (Ok db0)
    show ?thesis
    proof (cases "snapshot_and_flush K persist_ok db0 (sc_round sc) snap")
      case flushed: (Ok db)
      let ?n = "record_accepted sc snap (stream_records sc ds (notify_checkpoint_accepted sc (emit (SnapshotFlushed (sc_round sc) snap) (n\<lparr> gn_state_db := db \<rparr>))))"
      from run root Ok flushed have p: "prune_accepted K (sc_round sc) ?n = Ok n'" by simp
      from p show ?thesis
      proof (rule prune_accepted_Ok)
        fix g pruned
        assume g: "prune_before_round (gn_hashgraph ?n) (u64_saturating_sub (sc_round sc) RETENTION_ROUNDS) = Ok (g, pruned)"
          and n': "n' = ?n\<lparr> gn_state_db := (case prune_snapshots_before K (gn_state_db ?n) (u64_saturating_sub (sc_round sc) SNAPSHOT_RETENTION_ROUNDS) of
              Ok db \<Rightarrow> db | _ \<Rightarrow> gn_state_db ?n),
            gn_hashgraph := g, gn_trace := gn_trace ?n @ (if event_sink (gn_sinks ?n) then [LogPruned pruned] else []) @ (if event_sink (gn_sinks ?n) then [LogFlushed] else []) @
              (if event_stream_sink (gn_sinks ?n) then [StreamFlushed] else []) \<rparr>"
        have eq: "gn_hashgraph ?n = gn_hashgraph n" "gn_state_db ?n = db" by (simp_all add: record_accepted_def Let_def sinks_trace emit_def)
        show ?thesis
          by (rule accepted [OF root Ok flushed g [unfolded eq]], unfold n' eq, rule GossipNode.equality)
            (simp_all add: record_accepted_def Let_def sinks_trace emit_def accept_effects_def split del: if_split)
      qed
    next
      case (Err e)
      with run root Ok have "n' = n\<lparr> gn_state_db := (case snapshot K db0 (sc_round sc) snap of Ok db' \<Rightarrow> db' | _ \<Rightarrow> db0) \<rparr>" by simp
      then show ?thesis by (rule refused)
    qed (use run root Ok in simp)
  next
    case (Err e)
    with run root have "n' = n\<lparr> gn_state_db := gn_state_db n \<rparr>" by simp
    then show ?thesis by (rule refused)
  qed (use run root in simp)
qed

subsection \<open>Production\<close>

text \<open>The signatures buffered for the round, until one completes it.\<close>

primrec flush_pending ::
    "bls_lib \<Rightarrow> MembershipRegistry \<Rightarrow> CheckpointSig list \<Rightarrow> CheckpointAccumulator \<times> SignedCheckpoint option \<Rightarrow>
     CheckpointAccumulator \<times> SignedCheckpoint option" where
  "flush_pending B roster [] s = s"
| "flush_pending B roster (sig # sigs) s = (case s of
     (acc, Some sc) \<Rightarrow> (acc, Some sc)
   | (acc, None) \<Rightarrow>
       flush_pending B roster sigs
         (if verify_checkpoint_sig B sig (signing_bytes (acc_payload acc)) roster then add_sig B sig roster acc
          else (acc, None)))"

definition produce_checkpoint ::
    "'ks keyspace_ops \<Rightarrow> hash_fn \<Rightarrow> bls_lib \<Rightarrow> bool \<Rightarrow> u64 \<Rightarrow> (u64, bytes) btmap \<Rightarrow> (u64, bytes) btmap \<Rightarrow> (u64, diffs) btmap \<Rightarrow>
     'ks GossipNode \<Rightarrow> 'ks GossipNode hg_result" where
  "produce_checkpoint K sha B persist_ok round state_hashes snaps dss n =
     (case bt_last_upto round snaps of
        None \<Rightarrow> Ok n
      | Some (_, snapshot_bytes) \<Rightarrow>
          let ds = case_option [] id (map_of dss round);
              n = n\<lparr> gn_diffs := AList.update round ds (gn_diffs n) \<rparr>
          in andThen (canonical_checkpoint_payload_chained sha (gn_hashgraph n) round state_hashes (gn_signed n)) (\<lambda>p. case p of
               None \<Rightarrow> Ok n
             | Some pl \<Rightarrow>
                 let own_sig = \<lparr> cs_round = round, cs_signer = gn_node_id n, cs_sig = bls_identity_sign B (gn_bls n) (signing_bytes pl) \<rparr>;
                     n = n\<lparr> gn_outbound_sigs := gn_outbound_sigs n @ [own_sig] \<rparr>
                 in andThen (registry_at_round (gn_hashgraph n) round) (\<lambda>roster.
                      let buffered = case_option [] id (map_of (gn_pending_sigs n) round);
                          acc = case_option (accumulator_new pl snapshot_bytes) id (map_of (gn_accumulators n) round);
                          (acc, accepted) = flush_pending B roster buffered (add_sig B own_sig roster acc);
                          n = n\<lparr> gn_pending_sigs := bt_remove round (gn_pending_sigs n) \<rparr>
                      in case accepted of
                           None \<Rightarrow> Ok (n\<lparr> gn_accumulators := AList.update round acc (gn_accumulators n) \<rparr>)
                         | Some sc \<Rightarrow> accept_checkpoint K sha persist_ok sc (acc_snapshot acc) ds
                             (n\<lparr> gn_accumulators := AList.delete round (gn_accumulators n) \<rparr>))))"

text \<open>The three ways in which a production ends.\<close>

lemma produce_checkpoint_cases:
  assumes "produce_checkpoint K sha B persist_ok round state_hashes snaps dss n = Ok n'"
  obtains (skipped) ds where "n' = n\<lparr> gn_diffs := ds \<rparr>"
  | (signed_off) pl roster snap own acc out m where
      "canonical_checkpoint_payload_chained sha (gn_hashgraph n) round state_hashes (gn_signed n) = Ok (Some pl)"
      "registry_at_round (gn_hashgraph n) round = Ok roster"
      "bt_last_upto round snaps = Some snap"
      "own = \<lparr> cs_round = round, cs_signer = gn_node_id n, cs_sig = bls_identity_sign B (gn_bls n) (signing_bytes pl) \<rparr>"
      "flush_pending B roster (case_option [] id (map_of (gn_pending_sigs n) round))
         (add_sig B own roster (case_option (accumulator_new pl (snd snap)) id (map_of (gn_accumulators n) round))) = (acc, out)"
      "m = n\<lparr> gn_diffs := AList.update round (case_option [] id (map_of dss round)) (gn_diffs n),
         gn_outbound_sigs := gn_outbound_sigs n @ [own], gn_pending_sigs := bt_remove round (gn_pending_sigs n) \<rparr>"
      "case out of None \<Rightarrow> n' = m\<lparr> gn_accumulators := AList.update round acc (gn_accumulators n) \<rparr>
       | Some sc \<Rightarrow> accept_checkpoint K sha persist_ok sc (acc_snapshot acc) (case_option [] id (map_of dss round))
           (m\<lparr> gn_accumulators := AList.delete round (gn_accumulators n) \<rparr>) = Ok n'"
proof (cases "bt_last_upto round snaps")
  case None
  with assms have "n' = n\<lparr> gn_diffs := gn_diffs n \<rparr>" by (simp add: produce_checkpoint_def)
  then show ?thesis by (rule skipped)
next
  case (Some snap)
  note run = assms [unfolded produce_checkpoint_def Some, simplified case_prod_unfold option.case Let_def GossipNode.simps]
  show ?thesis
  proof (cases "canonical_checkpoint_payload_chained sha (gn_hashgraph n) round state_hashes (gn_signed n)")
    case (Ok p)
    show ?thesis
    proof (cases p)
      case None
      with run Ok have "n' = n\<lparr> gn_diffs := AList.update round (case_option [] id (map_of dss round)) (gn_diffs n) \<rparr>" by simp
      then show ?thesis by (rule skipped)
    next
      case pl: (Some pl)
      let ?own = "\<lparr> cs_round = round, cs_signer = gn_node_id n, cs_sig = bls_identity_sign B (gn_bls n) (signing_bytes pl) \<rparr>"
      from run Ok pl obtain roster where r: "registry_at_round (gn_hashgraph n) round = Ok roster" by auto
      obtain acc out where f: "flush_pending B roster (case_option [] id (map_of (gn_pending_sigs n) round))
         (add_sig B ?own roster (case_option (accumulator_new pl (snd snap)) id (map_of (gn_accumulators n) round))) = (acc, out)"
        by fastforce
      show ?thesis
        by (rule signed_off [OF Ok [unfolded pl] r Some refl f refl])
          (use run Ok pl r f in \<open>cases out; simp\<close>)
    qed
  qed (use run in simp_all)
qed

lemma accept_checkpoint_activation: "accept_checkpoint K sha persist_ok sc snap ds n = Ok n' \<Longrightarrow> gn_activation n' = gn_activation n"
  by (erule accept_checkpoint_cases) (simp_all add: record_accepted_def Let_def)

lemma produce_checkpoint_activation:
  "produce_checkpoint K sha B persist_ok round state_hashes snaps dss n = Ok n' \<Longrightarrow> gn_activation n' = gn_activation n"
  by (erule produce_checkpoint_cases) (auto split: option.splits dest!: accept_checkpoint_activation)

text \<open>
  The loop over the decided rounds above the watermark. It ends because the watermark grows;
  \<open>persist_ok\<close> is the outcome of the flush in each round.
\<close>

function produce_pending_checkpoints ::
    "'ks keyspace_ops \<Rightarrow> hash_fn \<Rightarrow> bls_lib \<Rightarrow> (u64 \<Rightarrow> bool) \<Rightarrow> (u64, bytes) btmap \<Rightarrow> (u64, bytes) btmap \<Rightarrow> (u64, diffs) btmap \<Rightarrow>
     'ks GossipNode \<Rightarrow> 'ks GossipNode hg_result" where
  "produce_pending_checkpoints K sha B persist_ok state_hashes snaps dss n =
     (case u64_checked_add (checkpoint_watermark (gn_activation n)) 1 of
        None \<Rightarrow> Panic
      | Some round \<Rightarrow>
          if \<not> is_round_decided (gn_hashgraph n) round then Ok n
          else case produce_checkpoint K sha B (persist_ok round) round state_hashes snaps dss
                 (n\<lparr> gn_activation := (gn_activation n)\<lparr> checkpoint_watermark := round \<rparr> \<rparr>) of
            Ok n' \<Rightarrow> produce_pending_checkpoints K sha B persist_ok state_hashes snaps dss n'
          | Err e \<Rightarrow> Err e
          | Panic \<Rightarrow> Panic)"
  by pat_completeness auto
termination
proof (relation "measure (\<lambda>(_, _, _, _, _, _, _, n). 2 ^ 64 - unat (checkpoint_watermark (gn_activation n)))", goal_cases)
  case (2 K sha B persist_ok state_hashes snaps dss n round n')
  then have "unat round = unat (checkpoint_watermark (gn_activation n)) + 1" by (simp add: unat_u64_checked_add)
  moreover have "checkpoint_watermark (gn_activation n') = round" using produce_checkpoint_activation [OF 2(3)] by simp
  moreover have "unat round < 2 ^ 64" using unsigned_less [of round] by simp
  ultimately show ?case by simp
qed simp

declare produce_pending_checkpoints.simps [simp del]

subsection \<open>Inbound signatures\<close>

definition feed_checkpoint_sig ::
    "'ks keyspace_ops \<Rightarrow> hash_fn \<Rightarrow> bls_lib \<Rightarrow> bool \<Rightarrow> CheckpointSig \<Rightarrow> 'ks GossipNode \<Rightarrow> 'ks GossipNode hg_result" where
  "feed_checkpoint_sig K sha B persist_ok sig n =
     (if cs_round sig \<le> accepted_round n then Ok n
      else andThen (is_pending_sig_admissible n sig) (\<lambda>admissible.
        if \<not> admissible then Ok n
        else case map_of (gn_accumulators n) (cs_round sig) of
          None \<Rightarrow> Ok (buffer_pending_sig sig n)
        | Some acc \<Rightarrow>
            andThen (registry_at_round (gn_hashgraph n) (cs_round sig)) (\<lambda>roster.
              if \<not> verify_checkpoint_sig B sig (signing_bytes (acc_payload acc)) roster then Ok n
              else case add_sig B sig roster acc of
                (acc, None) \<Rightarrow> Ok (n\<lparr> gn_accumulators := AList.update (cs_round sig) acc (gn_accumulators n) \<rparr>)
              | (acc, Some sc) \<Rightarrow> accept_checkpoint K sha persist_ok sc (acc_snapshot acc) []
                  (n\<lparr> gn_accumulators := AList.delete (cs_round sig) (gn_accumulators n) \<rparr>))))"

definition submit_checkpoint_sig ::
    "'ks keyspace_ops \<Rightarrow> hash_fn \<Rightarrow> bls_lib \<Rightarrow> bool \<Rightarrow> CheckpointSig \<Rightarrow> 'ks GossipNode \<Rightarrow> 'ks GossipNode hg_result" where
  "submit_checkpoint_sig K sha B persist_ok sig n =
     (if cs_round sig \<le> accepted_round n then Ok n
      else andThen (is_pending_sig_admissible n sig) (\<lambda>admissible.
        if \<not> admissible then Ok n
        else if is_round_decided (gn_hashgraph n) (cs_round sig) then feed_checkpoint_sig K sha B persist_ok sig n
        else Ok (buffer_pending_sig sig n)))"

subsection \<open>Adoption\<close>

definition arm_checkpoint_lag_reconnect :: "'ks GossipNode \<Rightarrow> 'ks GossipNode" where
  "arm_checkpoint_lag_reconnect n =
     (if CHECKPOINT_LAG_ROUNDS < u64_saturating_sub (highest_decided_round (gn_hashgraph n)) (accepted_round n)
      then n\<lparr> gn_needs_checkpoint_sync := True \<rparr> else n)"

definition adopt_signed_checkpoint ::
    "'ks keyspace_ops \<Rightarrow> hash_fn \<Rightarrow> bls_lib \<Rightarrow> bool \<Rightarrow> SignedCheckpoint \<Rightarrow> 'ks GossipNode \<Rightarrow> ('ks GossipNode \<times> bool) hg_result" where
  "adopt_signed_checkpoint K sha B persist_ok sc n =
     (let round = sc_round sc in
      if round \<le> accepted_round n then Ok (n, False)
      else if highest_decided_round (gn_hashgraph n) < round then Ok (n, False)
      else case map_of (gn_accumulators n) round of
        None \<Rightarrow> Ok (n, False)
      | Some acc \<Rightarrow>
          if signing_bytes (sc_payload sc) \<noteq> signing_bytes (acc_payload acc) then Ok (n, False)
          else if \<not> verify_SignedCheckpoint B sc then Ok (n, False)
          else let ds = case_option [] id (map_of (gn_diffs n) round);
                   n = n\<lparr> gn_accumulators := AList.delete round (gn_accumulators n),
                          gn_diffs := AList.delete round (gn_diffs n) \<rparr>
               in map_ok (\<lambda>n. (n, (case latest_accepted_checkpoint_round n of None \<Rightarrow> False | Some r \<Rightarrow> round \<le> r)))
                    (accept_checkpoint K sha persist_ok sc (acc_snapshot acc) ds n))"

end
