(* ===== verification/NodeSafety.thy ===== *)
theory NodeSafety
  imports NodeCheckpoint
begin

section \<open>Safety of the checkpoints at a node\<close>

text \<open>
  What holds of the checkpoint state of a node between two handlers, whatever signatures and
  checkpoints its peers send, and what reaches its durable sinks.
\<close>

subsection \<open>The invariant\<close>

text \<open>
  Below, the watermark of production is \<open>checkpoint_watermark\<close>: every round up to it has been
  ordered. The rosters of the node's history register this node, if at all, with its own key.
\<close>

abbreviation produced_through :: "'ks GossipNode \<Rightarrow> u64" where
  "produced_through n \<equiv> checkpoint_watermark (gn_activation n)"

definition own_key_in :: "bls_lib \<Rightarrow> 'ks GossipNode \<Rightarrow> MembershipRegistry \<Rightarrow> bool" where
  "own_key_in B n roster \<longleftrightarrow>
     (registry_contains roster (gn_node_id n) \<longrightarrow> signer_key B roster (gn_node_id n) = Some (bls_public (gn_bls n)))"

definition graph_ok :: "bls_lib \<Rightarrow> 'ks GossipNode \<Rightarrow> bool" where
  "graph_ok B n \<longleftrightarrow> (let g = gn_hashgraph n in hm_wf (events g) \<and> roster_wf (roster_history g) \<and> order_frontier g \<and>
     produced_through n < next_round_to_order g \<and> (\<forall>p \<in> set (snapshots (roster_history g)). own_key_in B n (snd p)) \<and>
     (\<forall>r. accepted_round n < r \<longrightarrow> roster_for_round (roster_history g) r \<noteq> None))"

text \<open>A round that is still collecting signatures: they are by members of its roster and verify.\<close>

definition collecting :: "bls_lib \<Rightarrow> 'ks GossipNode \<Rightarrow> u64 \<Rightarrow> CheckpointAccumulator \<Rightarrow> bool" where
  "collecting B n r acc \<longleftrightarrow> (let roster = ck_roster_snapshot (acc_payload acc) in
     ck_round (acc_payload acc) = r \<and> registry_at_round (gn_hashgraph n) r = Ok roster \<and> acc_inv B roster acc)"

definition accumulators_ok :: "bls_lib \<Rightarrow> 'ks GossipNode \<Rightarrow> bool" where
  "accumulators_ok B n \<longleftrightarrow> (\<forall>r acc. map_of (gn_accumulators n) r = Some acc \<longrightarrow>
     r \<le> produced_through n \<and> (accepted_round n < r \<longrightarrow> collecting B n r acc))"

definition signed_ok :: "bls_lib \<Rightarrow> 'ks GossipNode \<Rightarrow> bool" where
  "signed_ok B n \<longleftrightarrow> sorted_wrt (<) (map sc_round (gn_signed n)) \<and>
     (\<forall>sc \<in> set (gn_signed n). sc_round sc \<le> produced_through n \<and> verify_SignedCheckpoint B sc)"

text \<open>Each stored snapshot is the state of an accepted round; the latest one is there.\<close>

definition snapshots_ok :: "hash_fn \<Rightarrow> 'ks GossipNode \<Rightarrow> bool" where
  "snapshots_ok sha n \<longleftrightarrow> bt_wf (gn_snapshots n) \<and>
     (\<forall>(r, snap) \<in> set (gn_snapshots n). \<exists>sc \<in> set (gn_signed n).
        sc_round sc = r \<and> root_of_bytes sha snap = Some (ck_state_hash (sc_payload sc))) \<and>
     (\<forall>sc \<in> set (gn_signed n). u64_saturating_sub (accepted_round n) SNAPSHOT_RETENTION_ROUNDS \<le> sc_round sc \<longrightarrow>
        map_of (gn_snapshots n) (sc_round sc) \<noteq> None)"

definition buffers_ok :: "'ks GossipNode \<Rightarrow> bool" where
  "buffers_ok n \<longleftrightarrow> bt_wf (gn_pending_sigs n) \<and>
     (\<forall>(r, sigs) \<in> set (gn_pending_sigs n). accepted_round n < r \<and> length sigs \<le> MAX_PENDING_SIGS_PER_ROUND \<and>
        distinct (map cs_signer sigs) \<and> (\<forall>s \<in> set sigs. cs_round s = r)) \<and>
     (\<forall>s \<in> set (gn_outbound_sigs n). accepted_round n < cs_round s \<and> cs_signer s = gn_node_id n)"

definition checkpoint_inv :: "bls_lib \<Rightarrow> hash_fn \<Rightarrow> 'ks GossipNode \<Rightarrow> bool" where
  "checkpoint_inv B sha n \<longleftrightarrow> graph_ok B n \<and> accumulators_ok B n \<and> signed_ok B n \<and> snapshots_ok sha n \<and> buffers_ok n"

text \<open>What the proofs need of the signature library: aggregation, and the node's own signatures.\<close>

definition signs_correctly :: "bls_lib \<Rightarrow> BlsIdentity \<Rightarrow> bool" where
  "signs_correctly B i \<longleftrightarrow> bls_aggregation_correct B \<and>
     (\<forall>msg. bls_verify B (bls_identity_sign B i msg) msg CHECKPOINT_DST (bls_public i))"

lemma verify_checkpoint_sig_iff:
  "verify_checkpoint_sig B sig (signing_bytes p) roster = partial_ok B roster p sig"
  by (auto simp: verify_checkpoint_sig_def partial_ok_def signer_key_def bind_eq_Some_conv split: option.splits)

lemma registry_contains_nonempty: "registry_contains registry s \<Longrightarrow> registry_len registry \<noteq> 0"
  by (auto simp: registry_contains_def registry_len_def)

lemma add_sig_verifies:
  assumes "acc_inv B roster acc" "partial_ok B roster (acc_payload acc) sig" "roster = ck_roster_snapshot (acc_payload acc)"
    and "bls_aggregation_correct B" "add_sig B sig roster acc = (acc', out)"
  shows "acc_payload acc' = acc_payload acc \<and> acc_snapshot acc' = acc_snapshot acc \<and> acc_inv B roster acc' \<and>
    (\<forall>sc. out = Some sc \<longrightarrow> sc_payload sc = acc_payload acc \<and> verify_SignedCheckpoint B sc)"
proof (cases "\<not> eligible roster (acc_payload acc) sig \<or> acc_done roster acc")
  case True
  with assms(1,5) show ?thesis by (auto simp: add_sig_cases)
next
  case False
  let ?acc = "acc\<lparr> acc_sigs := or_insert (cs_signer sig) sig (acc_sigs acc) \<rparr>"
  have r: "acc' = ?acc" "out = (if acc_done roster ?acc then acc_checkpoint B ?acc else None)"
    using False assms(5) by (auto simp: add_sig_cases Let_def)
  have inv: "acc_inv B roster ?acc" using acc_inv_insert [OF assms(1) _ assms(2)] False by simp
  have len: "registry_len roster \<noteq> 0" using False registry_contains_nonempty by (auto simp: eligible_def)
  have "sc_payload sc = acc_payload acc \<and> verify_SignedCheckpoint B sc" if "out = Some sc" for sc
  proof -
    from that r(2) have d: "acc_done roster ?acc" and c: "acc_checkpoint B ?acc = Some sc" by (auto split: if_splits)
    have "sc_payload sc = acc_payload acc" using c by (auto simp: acc_checkpoint_def)
    then show ?thesis using acc_checkpoint_verifies [OF inv d c assms(4)] assms(3) len by simp
  qed
  with inv r(1) show ?thesis by simp
qed

lemma flush_pending_verifies:
  "flush_pending B roster sigs (acc, out) = (acc', out') \<Longrightarrow> acc_inv B roster acc \<Longrightarrow> roster = ck_roster_snapshot (acc_payload acc) \<Longrightarrow>
   (\<forall>sc. out = Some sc \<longrightarrow> sc_payload sc = acc_payload acc \<and> verify_SignedCheckpoint B sc) \<Longrightarrow> bls_aggregation_correct B \<Longrightarrow>
   acc_payload acc' = acc_payload acc \<and> acc_snapshot acc' = acc_snapshot acc \<and> acc_inv B roster acc' \<and>
   (\<forall>sc. out' = Some sc \<longrightarrow> sc_payload sc = acc_payload acc \<and> verify_SignedCheckpoint B sc)"
proof (induction sigs arbitrary: acc out)
  case (Cons sig sigs)
  show ?case
  proof (cases "out = None \<and> verify_checkpoint_sig B sig (signing_bytes (acc_payload acc)) roster")
    case True
    then have p: "partial_ok B roster (acc_payload acc) sig" by (simp add: verify_checkpoint_sig_iff)
    obtain acc1 out1 where a: "add_sig B sig roster acc = (acc1, out1)" by (cases "add_sig B sig roster acc")
    note 1 = add_sig_verifies [OF Cons.prems(2) p Cons.prems(3,5) a]
    have "flush_pending B roster sigs (acc1, out1) = (acc', out')" using Cons.prems(1) True a by simp
    from Cons.IH [OF this] 1 Cons.prems(3,5) show ?thesis by simp
  next
    case False
    with Cons.prems(1) have "(acc', out') = (acc, out) \<or> flush_pending B roster sigs (acc, None) = (acc', out') \<and> out = None"
      by (cases out) auto
    with Cons.IH [of acc None] Cons.prems(2-5) show ?thesis by auto
  qed
qed auto

subsection \<open>Acceptance keeps the invariant\<close>

lemma accepted_round_append: "gn_signed n' = xs @ [sc] \<Longrightarrow> accepted_round n' = sc_round sc"
  by (simp add: accepted_round_def latest_accepted_checkpoint_round_def last_opt_def)

lemma signed_le_accepted:
  assumes "signed_ok B n" "sc \<in> set (gn_signed n)"
  shows "sc_round sc \<le> accepted_round n"
proof -
  obtain xs x where xs: "gn_signed n = xs @ [x]" using assms(2) by (cases "gn_signed n" rule: rev_cases) auto
  then have "sc_round sc \<le> sc_round x"
    using assms by (auto simp: signed_ok_def sorted_wrt_append intro: less_imp_le)
  then show ?thesis by (simp add: accepted_round_append [OF xs])
qed

lemma sort_key_snoc:
  assumes "sorted (map f xs)" "\<forall>x \<in> set xs. f x \<le> f y"
  shows "sort_key f (xs @ [y]) = xs @ [y]"
  using assms by (intro sort_key_id_if_sorted) (simp add: sorted_append)

lemma record_accepted_signed:
  assumes "signed_ok B n" "accepted_round n < sc_round sc"
  shows "gn_signed (record_accepted sc snap n) = gn_signed n @ [sc]"
proof -
  have "sorted (map sc_round (gn_signed n))" using assms(1) by (simp add: signed_ok_def strict_sorted_imp_sorted)
  moreover have "\<forall>x \<in> set (gn_signed n). sc_round x \<le> sc_round sc"
    using signed_le_accepted [OF assms(1)] assms(2) by (meson le_less_trans less_imp_le)
  ultimately show ?thesis by (simp add: record_accepted_def Let_def sort_key_snoc)
qed

lemma prune_roster_for_round:
  assumes "roster_wf rh" "t \<le> k"
  shows "roster_for_round (prune_before rh t) k = roster_for_round rh k"
  using prune_roster_later(1) [OF assms(1), of t k 0] assms(2) by (simp add: u64_saturating_sub_def)

lemma saturating_sub_mono: "a \<le> b \<Longrightarrow> u64_saturating_sub a w \<le> b"
  using saturating_sub_le by (rule order_trans)

lemma prune_registry_at:
  assumes "prune_before_round g t = Ok (g', pruned)" "roster_wf (roster_history g)" "t \<le> k"
  shows "roster_for_round (roster_history g') k = roster_for_round (roster_history g) k"
  using prune_frame(3) [OF assms(1)] prune_roster_for_round [OF assms(2,3)] by auto

lemma set_prune_before: "set (snapshots (prune_before rh t)) \<subseteq> set (snapshots rh)"
  by (auto simp: prune_before_def)

lemma prune_graph_ok:
  assumes "prune_before_round (gn_hashgraph n) t = Ok (g, pruned)" "graph_ok B n"
  shows "hm_wf (events g) \<and> roster_wf (roster_history g) \<and> order_frontier g \<and>
     produced_through n < next_round_to_order g \<and> (\<forall>p \<in> set (snapshots (roster_history g)). own_key_in B n (snd p))"
proof -
  note f = prune_frame [OF assms(1)]
  have ok: "hm_wf (events (gn_hashgraph n))" "roster_wf (roster_history (gn_hashgraph n))" "order_frontier (gn_hashgraph n)"
    using assms(2) by (simp_all add: graph_ok_def Let_def)
  have "roster_wf (roster_history g)" using f(3) ok(2) prune_before_preserves(1) [OF ok(2)] by auto
  moreover have "\<forall>p \<in> set (snapshots (roster_history g)). own_key_in B n (snd p)"
    using f(3) assms(2) set_prune_before by (fastforce simp: graph_ok_def Let_def)
  ultimately show ?thesis
    using prune_keeps_order_frontier [OF assms(1)] ok f(1) assms(2) by (simp add: keeps_frontier_def graph_ok_def Let_def)
qed

lemma map_of_filter_key: "P k \<Longrightarrow> map_of (filter (\<lambda>(k, _). P k) m) k = map_of m k"
  by (induction m) auto

lemma saturating_sub_le_mono:
  assumes "a \<le> b"
  shows "u64_saturating_sub a w \<le> u64_saturating_sub b w"
proof (cases "w \<le> a")
  case True
  then have "w \<le> b" using assms by simp
  then have "unat (a - w) = unat a - unat w" "unat (b - w) = unat b - unat w" using True by (simp_all add: unat_sub)
  moreover have "\<not> a < w" "\<not> b < w" using True \<open>w \<le> b\<close> by simp_all
  ultimately show ?thesis using assms by (simp add: u64_saturating_sub_def word_le_nat_alt diff_le_mono)
qed (simp add: u64_saturating_sub_def not_le)

lemma accept_snapshots_ok:
  assumes "snapshots_ok sha n" "signed_ok B n" "accepted_round n < sc_round sc"
    and root: "root_of_bytes sha snap = Some (ck_state_hash (sc_payload sc))"
    and signed: "gn_signed n' = gn_signed n @ [sc]"
    and snaps: "gn_snapshots n' = filter (\<lambda>(r, _). u64_saturating_sub (sc_round sc) SNAPSHOT_RETENTION_ROUNDS \<le> r)
      (bt_insert (sc_round sc) snap (gn_snapshots n))"
  shows "snapshots_ok sha n'"
proof -
  let ?lo = "u64_saturating_sub (sc_round sc) SNAPSHOT_RETENTION_ROUNDS"
  have old: "bt_wf (gn_snapshots n)" and acc: "accepted_round n' = sc_round sc"
    using assms(1) accepted_round_append [OF signed] by (simp_all add: snapshots_ok_def)
  have wf: "bt_wf (gn_snapshots n')"
    unfolding snaps using old by simp
  have from_signed: "\<exists>c \<in> set (gn_signed n'). sc_round c = r \<and> root_of_bytes sha s = Some (ck_state_hash (sc_payload c))"
    if "(r, s) \<in> set (gn_snapshots n')" for r s
  proof -
    from that have "(r, s) = (sc_round sc, snap) \<or> (r, s) \<in> set (gn_snapshots n)"
      unfolding snaps using set_bt_insert [OF old] by auto
    with assms(1) root show ?thesis unfolding signed snapshots_ok_def by fastforce
  qed
  have "map_of (gn_snapshots n') (sc_round c) \<noteq> None" if "c \<in> set (gn_signed n')" "?lo \<le> sc_round c" for c
  proof -
    have *: "map_of (gn_snapshots n') (sc_round c) = map_of (bt_insert (sc_round sc) snap (gn_snapshots n)) (sc_round c)"
      unfolding snaps using that(2) by (rule map_of_filter_key)
    have "u64_saturating_sub (accepted_round n) SNAPSHOT_RETENTION_ROUNDS \<le> ?lo"
      using saturating_sub_le_mono assms(3) by simp
    then have "map_of (gn_snapshots n) (sc_round c) \<noteq> None" if "c \<in> set (gn_signed n)"
      using assms(1) that \<open>?lo \<le> sc_round c\<close> order_trans unfolding snapshots_ok_def by blast
    with * that(1) signed old show ?thesis by auto
  qed
  with wf from_signed acc show ?thesis unfolding snapshots_ok_def by auto
qed

text \<open>An acceptance changes nothing of the node but what \<open>record_accepted\<close> says, the graph, the database and the trace.\<close>

lemma accept_preserves:
  assumes "accept_checkpoint K sha persist_ok sc snap ds n = Ok n'" "checkpoint_inv B sha n" "verify_SignedCheckpoint B sc"
    and "accepted_round n < sc_round sc" "sc_round sc \<le> produced_through n"
  shows "checkpoint_inv B sha n'"
  using assms(1)
proof (cases rule: accept_checkpoint_cases)
  case (refused db)
  with assms(2) show ?thesis
    by (simp add: checkpoint_inv_def graph_ok_def own_key_in_def accumulators_ok_def collecting_def signed_ok_def snapshots_ok_def
        buffers_ok_def accepted_round_def latest_accepted_checkpoint_round_def)
next
  case (accepted db0 db g pruned)
  have inv: "graph_ok B n" "accumulators_ok B n" "signed_ok B n" "snapshots_ok sha n" "buffers_ok n"
    using assms(2) by (simp_all add: checkpoint_inv_def)
  have n': "gn_node_id n' = gn_node_id n" "gn_bls n' = gn_bls n" "gn_hashgraph n' = g" "gn_activation n' = gn_activation n"
    "gn_accumulators n' = gn_accumulators n" "gn_signed n' = gn_signed n @ [sc]"
    "gn_snapshots n' = filter (\<lambda>(r, _). u64_saturating_sub (sc_round sc) SNAPSHOT_RETENTION_ROUNDS \<le> r)
      (bt_insert (sc_round sc) snap (gn_snapshots n))"
    "gn_outbound_sigs n' = filter (\<lambda>s. sc_round sc < cs_round s) (gn_outbound_sigs n)"
    "gn_pending_sigs n' = filter (\<lambda>(r, _). sc_round sc < r) (gn_pending_sigs n)"
    using record_accepted_signed [OF inv(3) assms(4)] unfolding accepted(5) by (simp_all add: record_accepted_def Let_def)
  note acc = accepted_round_append [OF n'(6)]
  have roster: "roster_for_round (roster_history g) r = roster_for_round (roster_history (gn_hashgraph n)) r" if "sc_round sc < r" for r
  proof (rule prune_registry_at [OF accepted(4)])
    show "roster_wf (roster_history (gn_hashgraph n))" using inv(1) by (simp add: graph_ok_def Let_def)
    show "u64_saturating_sub (sc_round sc) RETENTION_ROUNDS \<le> r" using that by (intro saturating_sub_mono) simp
  qed
  have "roster_for_round (roster_history g) r \<noteq> None" if "sc_round sc < r" for r
    using that roster inv(1) less_trans [OF assms(4)] by (simp add: graph_ok_def Let_def)
  then have "graph_ok B n'"
    using prune_graph_ok [OF accepted(4) inv(1)] by (simp add: graph_ok_def own_key_in_def Let_def n' acc)
  moreover have "accumulators_ok B n'"
    using inv(2) assms(4) roster unfolding accumulators_ok_def collecting_def acc n' registry_at_round_def
    by (metis (no_types, lifting) less_trans)
  moreover have "signed_ok B n'"
    using inv(3) assms(3,4,5) signed_le_accepted [OF inv(3)] by (fastforce simp: signed_ok_def n' sorted_wrt_append)
  moreover have "snapshots_ok sha n'" by (rule accept_snapshots_ok [OF inv(4,3) assms(4) accepted(1) n'(6,7)])
  moreover have "buffers_ok n'" using inv(5) by (auto simp: buffers_ok_def acc n')
  ultimately show ?thesis by (simp add: checkpoint_inv_def)
qed

subsection \<open>The handlers keep the invariant\<close>

lemma accumulators_okD:
  "accumulators_ok B n \<Longrightarrow> map_of (gn_accumulators n) r = Some acc \<Longrightarrow> r \<le> produced_through n"
  "accumulators_ok B n \<Longrightarrow> map_of (gn_accumulators n) r = Some acc \<Longrightarrow> accepted_round n < r \<Longrightarrow> collecting B n r acc"
  by (auto simp: accumulators_ok_def)

lemma accumulators_update:
  assumes "checkpoint_inv B sha n" "r \<le> produced_through n" "accepted_round n < r \<longrightarrow> collecting B n r acc"
  shows "checkpoint_inv B sha (n\<lparr> gn_accumulators := AList.update r acc (gn_accumulators n) \<rparr>)"
proof -
  let ?n = "n\<lparr> gn_accumulators := AList.update r acc (gn_accumulators n) \<rparr>"
  have a: "accepted_round ?n = accepted_round n" by (simp add: accepted_round_def latest_accepted_checkpoint_round_def)
  have "collecting B ?n q x = collecting B n q x" for q x by (simp add: collecting_def Let_def)
  then have "accumulators_ok B ?n" using assms by (auto simp: checkpoint_inv_def accumulators_ok_def a update_conv')
  then show ?thesis
    using assms(1) by (simp add: checkpoint_inv_def graph_ok_def own_key_in_def signed_ok_def snapshots_ok_def buffers_ok_def a)
qed

lemma accumulators_delete:
  assumes "checkpoint_inv B sha n"
  shows "checkpoint_inv B sha (n\<lparr> gn_accumulators := AList.delete r (gn_accumulators n), gn_diffs := ds \<rparr>)"
proof -
  let ?n = "n\<lparr> gn_accumulators := AList.delete r (gn_accumulators n), gn_diffs := ds \<rparr>"
  have a: "accepted_round ?n = accepted_round n" by (simp add: accepted_round_def latest_accepted_checkpoint_round_def)
  have "collecting B ?n q x = collecting B n q x" for q x by (simp add: collecting_def Let_def)
  then have "accumulators_ok B ?n" using assms by (auto simp: checkpoint_inv_def accumulators_ok_def a delete_conv')
  then show ?thesis
    using assms(1) by (simp add: checkpoint_inv_def graph_ok_def own_key_in_def signed_ok_def snapshots_ok_def buffers_ok_def a)
qed

lemma buffer_entry:
  assumes "length e \<le> M \<and> distinct (map f e) \<and> (\<forall>s \<in> set e. P s)" "P x"
    and "e' = (if list_ex (\<lambda>s. f s = f x) e then e else if M \<le> length e then e else e @ [x])"
  shows "length e' \<le> M \<and> distinct (map f e') \<and> (\<forall>s \<in> set e'. P s)"
proof (cases "list_ex (\<lambda>s. f s = f x) e \<or> M \<le> length e")
  case False
  with assms(3) have "e' = e @ [x]" by simp
  with False assms(1,2) show ?thesis by (auto simp: list_ex_iff)
qed (use assms in auto)

lemma buffer_preserves:
  assumes "checkpoint_inv B sha n" "accepted_round n < cs_round sig"
  shows "checkpoint_inv B sha (buffer_pending_sig sig n)"
proof -
  let ?n = "buffer_pending_sig sig n"
  define e where "e = case_option [] id (map_of (gn_pending_sigs n) (cs_round sig))"
  define e' where "e' = (if list_ex (\<lambda>s. cs_signer s = cs_signer sig) e then e
    else if MAX_PENDING_SIGS_PER_ROUND \<le> length e then e else e @ [sig])"
  have n: "?n = n\<lparr> gn_pending_sigs := bt_insert (cs_round sig) e' (gn_pending_sigs n) \<rparr>"
    unfolding buffer_pending_sig_def Let_def e_def e'_def ..
  have a: "accepted_round ?n = accepted_round n" by (simp add: n accepted_round_def latest_accepted_checkpoint_round_def)
  have wf: "bt_wf (gn_pending_sigs n)" using assms(1) by (simp add: checkpoint_inv_def buffers_ok_def)
  have "length e \<le> MAX_PENDING_SIGS_PER_ROUND \<and> distinct (map cs_signer e) \<and> (\<forall>s \<in> set e. cs_round s = cs_round sig)"
    using assms(1) by (auto simp: e_def checkpoint_inv_def buffers_ok_def split: option.split dest!: map_of_SomeD)
  from buffer_entry [OF this refl e'_def]
  have e': "length e' \<le> MAX_PENDING_SIGS_PER_ROUND \<and> distinct (map cs_signer e') \<and> (\<forall>s \<in> set e'. cs_round s = cs_round sig)" .
  have "buffers_ok ?n"
    using assms e' wf unfolding checkpoint_inv_def buffers_ok_def a by (auto simp: n set_bt_insert)
  moreover have "accumulators_ok B ?n"
    using assms(1) unfolding checkpoint_inv_def accumulators_ok_def collecting_def a by (simp add: n)
  ultimately show ?thesis
    using assms(1) unfolding checkpoint_inv_def graph_ok_def own_key_in_def signed_ok_def snapshots_ok_def a by (simp add: n)
qed

text \<open>What may become of an inbound signature, and of an offered checkpoint.\<close>

lemma feed_cases:
  assumes "feed_checkpoint_sig K sha B persist_ok sig n = Ok n'"
  obtains (ignored) "n' = n"
  | (buffered) "accepted_round n < cs_round sig" "n' = buffer_pending_sig sig n"
  | (counted) acc roster acc' out where "accepted_round n < cs_round sig" "map_of (gn_accumulators n) (cs_round sig) = Some acc"
      "registry_at_round (gn_hashgraph n) (cs_round sig) = Ok roster" "partial_ok B roster (acc_payload acc) sig"
      "add_sig B sig roster acc = (acc', out)"
      "case out of None \<Rightarrow> n' = n\<lparr> gn_accumulators := AList.update (cs_round sig) acc' (gn_accumulators n) \<rparr>
       | Some sc \<Rightarrow> accept_checkpoint K sha persist_ok sc (acc_snapshot acc') []
           (n\<lparr> gn_accumulators := AList.delete (cs_round sig) (gn_accumulators n) \<rparr>) = Ok n'"
proof (cases "cs_round sig \<le> accepted_round n")
  case True
  with assms ignored show ?thesis by (simp add: feed_checkpoint_sig_def)
next
  case False
  then have new: "accepted_round n < cs_round sig" by simp
  from assms False obtain adm where adm: "is_pending_sig_admissible n sig = Ok adm" by (auto simp: feed_checkpoint_sig_def)
  show ?thesis
  proof (cases "map_of (gn_accumulators n) (cs_round sig)")
    case None
    with assms False adm buffered [OF new] ignored show ?thesis by (cases adm) (auto simp: feed_checkpoint_sig_def)
  next
    case (Some acc)
    show ?thesis
    proof (cases adm)
      case True
      then have adm: "is_pending_sig_admissible n sig = Ok True" using adm by simp
      note run = assms [unfolded feed_checkpoint_sig_def adm Some if_not_P [OF False], simplified]
      from run obtain roster where r: "registry_at_round (gn_hashgraph n) (cs_round sig) = Ok roster" by auto
      show ?thesis
      proof (cases "partial_ok B roster (acc_payload acc) sig")
        case ok: True
        obtain acc' out where a: "add_sig B sig roster acc = (acc', out)" by (cases "add_sig B sig roster acc")
        show ?thesis
          by (rule counted [OF new Some r ok a]) (use run r ok a in \<open>cases out; simp add: verify_checkpoint_sig_iff\<close>)
      qed (use run r ignored in \<open>simp add: verify_checkpoint_sig_iff\<close>)
    qed (use assms False adm ignored in \<open>simp add: feed_checkpoint_sig_def\<close>)
  qed
qed

lemma feed_preserves:
  assumes "feed_checkpoint_sig K sha B persist_ok sig n = Ok n'" "checkpoint_inv B sha n" "bls_aggregation_correct B"
  shows "checkpoint_inv B sha n'"
  using assms(1)
proof (cases rule: feed_cases)
  case (counted acc roster acc' out)
  have c: "collecting B n (cs_round sig) acc" "cs_round sig \<le> produced_through n"
    using accumulators_okD [of B n, OF _ counted(2)] assms(2) counted(1) by (simp_all add: checkpoint_inv_def)
  then have roster: "roster = ck_roster_snapshot (acc_payload acc)" "acc_inv B roster acc" and r: "ck_round (acc_payload acc) = cs_round sig"
    using counted(3) by (simp_all add: collecting_def Let_def)
  note v = add_sig_verifies [OF roster(2) counted(4) roster(1) assms(3) counted(5)]
  show ?thesis
  proof (cases out)
    case None
    with accumulators_update [OF assms(2) c(2), of acc'] v c(1) roster(1) counted(6) show ?thesis
      by (simp add: collecting_def Let_def)
  next
    case (Some sc)
    let ?n = "n\<lparr> gn_accumulators := AList.delete (cs_round sig) (gn_accumulators n) \<rparr>"
    have run: "accept_checkpoint K sha persist_ok sc (acc_snapshot acc') [] ?n = Ok n'" using counted(6) Some by simp
    have inv: "checkpoint_inv B sha ?n" using accumulators_delete [OF assms(2), where ds = "gn_diffs n"] by simp
    have sc: "sc_round sc = cs_round sig" "verify_SignedCheckpoint B sc" using v Some r by (simp_all add: sc_round_def)
    have "accepted_round ?n = accepted_round n" by (simp add: accepted_round_def latest_accepted_checkpoint_round_def)
    with accept_preserves [OF run inv sc(2)] counted(1) c(2) sc(1) show ?thesis by simp
  qed
qed (use assms(2) buffer_preserves in auto)

lemma submit_preserves:
  assumes "submit_checkpoint_sig K sha B persist_ok sig n = Ok n'" "checkpoint_inv B sha n" "bls_aggregation_correct B"
  shows "checkpoint_inv B sha n'"
proof -
  from assms(1) have "n' = n \<or> feed_checkpoint_sig K sha B persist_ok sig n = Ok n' \<or>
      n' = buffer_pending_sig sig n \<and> accepted_round n < cs_round sig"
    by (auto simp: submit_checkpoint_sig_def not_le split: if_splits)
  then show ?thesis using feed_preserves assms(2,3) buffer_preserves by blast
qed

lemma adopt_cases:
  assumes "adopt_signed_checkpoint K sha B persist_ok sc n = Ok (n', adopted)"
  obtains (rejected) "n' = n" "\<not> adopted"
  | (offered) acc where "accepted_round n < sc_round sc" "sc_round sc \<le> highest_decided_round (gn_hashgraph n)"
      "map_of (gn_accumulators n) (sc_round sc) = Some acc" "signing_bytes (sc_payload sc) = signing_bytes (acc_payload acc)"
      "verify_SignedCheckpoint B sc"
      "accept_checkpoint K sha persist_ok sc (acc_snapshot acc) (case_option [] id (map_of (gn_diffs n) (sc_round sc)))
        (n\<lparr> gn_accumulators := AList.delete (sc_round sc) (gn_accumulators n), gn_diffs := AList.delete (sc_round sc) (gn_diffs n) \<rparr>) = Ok n'"
      "adopted \<longleftrightarrow> (case latest_accepted_checkpoint_round n' of None \<Rightarrow> False | Some r \<Rightarrow> sc_round sc \<le> r)"
  using assms by (auto simp: adopt_signed_checkpoint_def Let_def not_le split: if_splits option.splits)

lemma adopt_preserves:
  assumes "adopt_signed_checkpoint K sha B persist_ok sc n = Ok (n', adopted)" "checkpoint_inv B sha n"
  shows "checkpoint_inv B sha n'"
  using assms(1)
proof (cases rule: adopt_cases)
  case (offered acc)
  let ?n = "n\<lparr> gn_accumulators := AList.delete (sc_round sc) (gn_accumulators n), gn_diffs := AList.delete (sc_round sc) (gn_diffs n) \<rparr>"
  have "accepted_round ?n = accepted_round n" by (simp add: accepted_round_def latest_accepted_checkpoint_round_def)
  moreover have "sc_round sc \<le> produced_through n" using accumulators_okD(1) [of B, OF _ offered(3)] assms(2) by (simp add: checkpoint_inv_def)
  ultimately show ?thesis using accept_preserves [OF offered(6) accumulators_delete [OF assms(2)] offered(5)] offered(1) by simp
qed (use assms(2) in simp)

lemma chained_payload:
  assumes "canonical_checkpoint_payload_chained sha g round hashes scs = Ok (Some pl)"
  shows "ck_round pl = round \<and> registry_at_round g round = Ok (ck_roster_snapshot pl)"
proof -
  from assms obtain b prev where b: "canonical_checkpoint_payload sha g round hashes = Ok (Some b)" and pl: "pl = with_prev_checkpoint_hash b prev"
    by (auto simp: canonical_checkpoint_payload_chained.simps split: option.splits)
  from b obtain rr sh where "checkpoint_payload sha g round rr sh = Ok (Some b)"
    by (auto simp: canonical_checkpoint_payload_def split: option.splits)
  then obtain reg wr hr where "registry_at_round g round = Ok reg" "b = checkpoint_payload_new sha round rr sh wr hr reg"
    by (cases "try_compute_window_root sha g round SIGNED_WINDOW_ROUNDS";
        cases "compute_roster_history_root sha (roster_history g) round SIGNED_WINDOW_ROUNDS")
      (auto simp: checkpoint_payload_def split: if_splits)
  then show ?thesis by (simp add: pl with_prev_checkpoint_hash_def checkpoint_payload_new_def)
qed

lemma roster_own_key:
  assumes "graph_ok B n" "registry_at_round (gn_hashgraph n) r = Ok roster"
  shows "own_key_in B n roster"
proof -
  have "\<exists>k. (k, roster) \<in> set (snapshots (roster_history (gn_hashgraph n)))"
    using assms(2) by (auto simp: registry_at_round_def roster_for_round_def bt_last_upto_def last_opt_def split: if_splits
        dest!: last_in_set)
  with assms(1) show ?thesis by (fastforce simp: graph_ok_def Let_def)
qed

lemma own_sig_verifies:
  assumes "graph_ok B n" "registry_at_round (gn_hashgraph n) r = Ok roster" "signs_correctly B (gn_bls n)"
    and "own = \<lparr> cs_round = r, cs_signer = gn_node_id n, cs_sig = bls_identity_sign B (gn_bls n) (signing_bytes pl) \<rparr>"
  shows "registry_contains roster (gn_node_id n) \<Longrightarrow> partial_ok B roster pl own"
  using roster_own_key [OF assms(1,2)] assms(3,4) by (simp add: own_key_in_def partial_ok_def signs_correctly_def)

text \<open>A signature by a stranger is not counted.\<close>

lemma add_sig_stranger: "\<not> registry_contains roster (cs_signer sig) \<Longrightarrow> add_sig B sig roster acc = (acc, None)"
  by (simp add: add_sig_cases eligible_def)

lemma produce_preserves:
  assumes "produce_checkpoint K sha B persist_ok round hashes snaps dss n = Ok n'" "checkpoint_inv B sha n" "signs_correctly B (gn_bls n)"
    and "round = produced_through n" "accepted_round n < round" "map_of (gn_accumulators n) round = None"
  shows "checkpoint_inv B sha n'"
  using assms(1)
proof (cases rule: produce_checkpoint_cases)
  case (skipped ds)
  with assms(2) show ?thesis
    by (simp add: checkpoint_inv_def graph_ok_def own_key_in_def accumulators_ok_def collecting_def signed_ok_def snapshots_ok_def
        buffers_ok_def accepted_round_def latest_accepted_checkpoint_round_def)
next
  case (signed_off pl roster snap own acc out m)
  have inv: "graph_ok B n" "buffers_ok n" using assms(2) by (simp_all add: checkpoint_inv_def)
  have agg: "bls_aggregation_correct B" using assms(3) by (simp add: signs_correctly_def)
  note pl = chained_payload [OF signed_off(1)]
  then have roster: "roster = ck_roster_snapshot pl" using signed_off(2) by simp
  let ?new = "accumulator_new pl (snd snap)"
  obtain acc1 out1 where a: "add_sig B own roster ?new = (acc1, out1)" by (cases "add_sig B own roster ?new")
  have new: "acc_inv B roster ?new" "acc_payload ?new = pl" by (simp_all add: acc_inv_def accumulator_new_def)
  have "acc_payload acc1 = pl \<and> acc_inv B roster acc1 \<and> (\<forall>sc. out1 = Some sc \<longrightarrow> sc_payload sc = pl \<and> verify_SignedCheckpoint B sc)"
  proof (cases "registry_contains roster (gn_node_id n)")
    case True
    have "partial_ok B roster (acc_payload ?new) own"
      unfolding new(2) by (rule own_sig_verifies [OF inv(1) signed_off(2) assms(3) signed_off(4) True])
    from add_sig_verifies [OF new(1) this _ agg a] show ?thesis using roster new(2) by simp
  next
    case False
    then show ?thesis using a new add_sig_stranger [of roster own] by (simp add: signed_off(4))
  qed
  note 1 = this
  have "flush_pending B roster (case_option [] id (map_of (gn_pending_sigs n) round)) (acc1, out1) = (acc, out)"
    using signed_off(5) a assms(6) by simp
  from flush_pending_verifies [OF this] 1 roster agg
  have 2: "acc_payload acc = pl" "acc_inv B roster acc" "\<And>sc. out = Some sc \<Longrightarrow> sc_payload sc = pl \<and> verify_SignedCheckpoint B sc"
    by auto
  have am: "accepted_round m = accepted_round n" by (simp add: signed_off(6) accepted_round_def latest_accepted_checkpoint_round_def)
  have "buffers_ok m"
    using inv(2) assms(5) unfolding buffers_ok_def am by (auto simp: signed_off(4,6) bt_remove_def)
  moreover have "accumulators_ok B m"
    using assms(2) unfolding checkpoint_inv_def accumulators_ok_def collecting_def am by (simp add: signed_off(6))
  ultimately have m: "checkpoint_inv B sha m"
    using assms(2) unfolding checkpoint_inv_def graph_ok_def own_key_in_def signed_ok_def snapshots_ok_def am by (simp add: signed_off(6))
  have f: "gn_accumulators m = gn_accumulators n" "produced_through m = round" "gn_hashgraph m = gn_hashgraph n"
    using assms(4) by (simp_all add: signed_off(6))
  show ?thesis
  proof (cases out)
    case None
    have "collecting B m round acc" using pl 2(1,2) roster by (simp add: collecting_def f(3))
    with accumulators_update [OF m, of round acc] None signed_off(7) f show ?thesis by simp
  next
    case (Some sc)
    let ?m = "m\<lparr> gn_accumulators := AList.delete round (gn_accumulators n) \<rparr>"
    have run: "accept_checkpoint K sha persist_ok sc (acc_snapshot acc) (case_option [] id (map_of dss round)) ?m = Ok n'"
      using signed_off(7) Some by simp
    have i: "checkpoint_inv B sha ?m" using accumulators_delete [OF m, where r = round and ds = "gn_diffs m"] by (simp add: f)
    have "accepted_round ?m = accepted_round n" using am by (simp add: accepted_round_def latest_accepted_checkpoint_round_def)
    moreover have "sc_round sc = round" "verify_SignedCheckpoint B sc" using 2(3) [OF Some] pl by (simp_all add: sc_round_def)
    ultimately show ?thesis using accept_preserves [OF run i] assms(5) f(2) by simp
  qed
qed

subsection \<open>Runs\<close>

text \<open>
  What happens to the checkpoint state of a node: an event is inserted, a member is admitted
  for a round not yet produced, a decided round is produced, a signature arrives, a peer's
  aggregate is offered. \<open>advance\<close> moves the watermark before the round is produced.
\<close>

definition advance :: "u64 \<Rightarrow> 'ks GossipNode \<Rightarrow> 'ks GossipNode" where
  "advance round n = n\<lparr> gn_activation := (gn_activation n)\<lparr> checkpoint_watermark := round \<rparr> \<rparr>"

inductive node_step :: "'ks keyspace_ops \<Rightarrow> hash_fn \<Rightarrow> bls_lib \<Rightarrow> 'ks GossipNode \<Rightarrow> 'ks GossipNode \<Rightarrow> bool" for K sha B where
  insert_event: "hg_insert sha (gn_hashgraph n) ev = Ok (g, h) \<Longrightarrow> node_step K sha B n (n\<lparr> gn_hashgraph := g \<rparr>)"
| admit_member: "add_member (gn_hashgraph n) node a reg = Ok g \<Longrightarrow> produced_through n < u64_saturating_add a 1 \<Longrightarrow>
    own_key_in B n reg \<Longrightarrow> node_step K sha B n (n\<lparr> gn_hashgraph := g \<rparr>)"
| produce: "u64_checked_add (produced_through n) 1 = Some round \<Longrightarrow> is_round_decided (gn_hashgraph n) round \<Longrightarrow>
    produce_checkpoint K sha B persist_ok round hashes snaps dss (advance round n) = Ok n' \<Longrightarrow> node_step K sha B n n'"
| receive_sig: "submit_checkpoint_sig K sha B persist_ok sig n = Ok n' \<Longrightarrow> node_step K sha B n n'"
| adopt: "adopt_signed_checkpoint K sha B persist_ok sc n = Ok (n', adopted) \<Longrightarrow> node_step K sha B n n'"

lemma roster_schedule_some:
  assumes "roster_for_round rh q \<noteq> None"
  shows "roster_for_round (schedule rh a reg) q \<noteq> None"
proof -
  from assms obtain p where "p \<in> set (snapshots rh)" "fst p \<le> q"
    by (auto simp: roster_for_round_def bt_last_upto_def last_opt_def filter_empty_conv split: if_splits)
  then have "fst p \<in> fst ` set (bt_insert a reg (snapshots rh))" by (simp add: set_bt_insert_keys)
  then obtain p' where "p' \<in> set (bt_insert a reg (snapshots rh))" "fst p' \<le> q" using \<open>fst p \<le> q\<close> by auto
  then show ?thesis
    by (auto simp: roster_for_round_def schedule_def bt_last_upto_def last_opt_def filter_empty_conv)
qed

lemma graph_preserves:
  assumes "checkpoint_inv B sha n" "hm_wf (events g)" "order_frontier g" "next_round_to_order (gn_hashgraph n) \<le> next_round_to_order g"
    and "roster_wf (roster_history g)" "\<forall>p \<in> set (snapshots (roster_history g)). own_key_in B n (snd p)"
    and "\<And>r. r \<le> produced_through n \<Longrightarrow> roster_for_round (roster_history g) r = roster_for_round (roster_history (gn_hashgraph n)) r"
    and "\<And>r. roster_for_round (roster_history (gn_hashgraph n)) r \<noteq> None \<Longrightarrow> roster_for_round (roster_history g) r \<noteq> None"
  shows "checkpoint_inv B sha (n\<lparr> gn_hashgraph := g \<rparr>)"
proof -
  let ?n = "n\<lparr> gn_hashgraph := g \<rparr>"
  have a: "accepted_round ?n = accepted_round n" by (simp add: accepted_round_def latest_accepted_checkpoint_round_def)
  have "produced_through n < next_round_to_order g"
    using assms(1,4) by (auto simp: checkpoint_inv_def graph_ok_def Let_def intro: less_le_trans)
  then have "graph_ok B ?n" using assms(1-6,8) by (simp add: checkpoint_inv_def graph_ok_def Let_def own_key_in_def a)
  moreover have "accumulators_ok B ?n"
    using assms(1,7) unfolding checkpoint_inv_def accumulators_ok_def a collecting_def by (simp add: registry_at_round_def)
  ultimately show ?thesis
    using assms(1) unfolding checkpoint_inv_def signed_ok_def snapshots_ok_def buffers_ok_def a by simp
qed

lemma advance_preserves:
  assumes "checkpoint_inv B sha n" "u64_checked_add (produced_through n) 1 = Some round" "is_round_decided (gn_hashgraph n) round"
  shows "checkpoint_inv B sha (advance round n)" "accepted_round n < round" "map_of (gn_accumulators n) round = None"
proof -
  have up: "produced_through n < round" by (rule u64_checked_add_1_less [OF assms(2)])
  have "unat round = unat (produced_through n) + 1" using assms(2) by (simp add: unat_u64_checked_add)
  moreover have g: "order_frontier (gn_hashgraph n)" "produced_through n < next_round_to_order (gn_hashgraph n)"
    using assms(1) by (simp_all add: checkpoint_inv_def graph_ok_def Let_def)
  ultimately have "round \<le> next_round_to_order (gn_hashgraph n)" by (simp add: word_less_nat_alt word_le_nat_alt)
  moreover have "round \<noteq> next_round_to_order (gn_hashgraph n)"
    using g(1) assms(3) by (auto simp: order_frontier_def is_round_decided_def)
  ultimately have r: "round < next_round_to_order (gn_hashgraph n)" by simp
  have "sc_round sc \<le> produced_through n" if "sc \<in> set (gn_signed n)" for sc
    using assms(1) that by (simp add: checkpoint_inv_def signed_ok_def)
  then have "accepted_round n \<le> produced_through n"
    by (auto simp: accepted_round_def latest_accepted_checkpoint_round_def last_opt_def)
  then show "accepted_round n < round" using up by simp
  show "map_of (gn_accumulators n) round = None"
    using assms(1) up by (cases "map_of (gn_accumulators n) round") (fastforce simp: checkpoint_inv_def accumulators_ok_def)+
  let ?n = "advance round n"
  have a: "accepted_round ?n = accepted_round n" by (simp add: advance_def accepted_round_def latest_accepted_checkpoint_round_def)
  have "accumulators_ok B ?n"
    using assms(1) up unfolding checkpoint_inv_def accumulators_ok_def a collecting_def by (fastforce simp: advance_def)
  moreover have "signed_ok B ?n" using assms(1) up by (fastforce simp: checkpoint_inv_def signed_ok_def advance_def)
  ultimately show "checkpoint_inv B sha ?n"
    using assms(1) r unfolding checkpoint_inv_def graph_ok_def own_key_in_def snapshots_ok_def buffers_ok_def a by (simp add: advance_def Let_def)
qed

lemma node_step_preserves:
  assumes "node_step K sha B n n'" "checkpoint_inv B sha n" "signs_correctly B (gn_bls n)"
  shows "checkpoint_inv B sha n'"
  using assms
proof (induction rule: node_step.induct)
  case (insert_event n ev g h)
  have ok: "hm_wf (events (gn_hashgraph n))" "order_frontier (gn_hashgraph n)" using insert_event(2) by (simp_all add: checkpoint_inv_def graph_ok_def Let_def)
  have r: "roster_history g = roster_history (gn_hashgraph n)" by (rule hg_insert_roster [OF insert_event(1) ok(1)])
  have "next_round_to_order (gn_hashgraph n) \<le> next_round_to_order g"
    using hg_insert_extends [OF insert_event(1) ok(1)] by (simp add: extends_def orders_forward_def)
  then show ?case
    using graph_preserves [OF insert_event(2), of g] hg_insert_keeps [OF insert_event(1)] ok r insert_event(2)
    by (simp add: keeps_frontier_def checkpoint_inv_def graph_ok_def Let_def)
next
  case (admit_member n node a reg g)
  have ok: "hm_wf (events (gn_hashgraph n))" "order_frontier (gn_hashgraph n)" "roster_wf (roster_history (gn_hashgraph n))"
    and own: "\<forall>p \<in> set (snapshots (roster_history (gn_hashgraph n))). own_key_in B n (snd p)"
    using admit_member(4) by (simp_all add: checkpoint_inv_def graph_ok_def Let_def)
  have r: "roster_history g = schedule (roster_history (gn_hashgraph n)) (u64_saturating_add a 1) reg"
    and same: "next_round_to_order g = next_round_to_order (gn_hashgraph n)"
    using admit_member(1) by (auto simp: add_member_def split: if_splits)
  have "\<forall>p \<in> set (snapshots (roster_history g)). own_key_in B n (snd p)"
    using ok(3) own admit_member(3) by (auto simp: r schedule_def roster_wf_def set_bt_insert)
  moreover have "roster_for_round (roster_history g) q = roster_for_round (roster_history (gn_hashgraph n)) q" if "q \<le> produced_through n" for q
    unfolding r using that admit_member(2) by (intro schedule_later) simp
  moreover have "roster_for_round (roster_history g) q \<noteq> None" if "roster_for_round (roster_history (gn_hashgraph n)) q \<noteq> None" for q
    using that unfolding r by (rule roster_schedule_some)
  ultimately show ?case
    using graph_preserves [OF admit_member(4), of g] add_member_keeps [OF admit_member(1)] ok same roster_wf_schedule [OF ok(3)] r
    by (simp add: keeps_frontier_def)
next
  case (produce n round persist_ok hashes snaps dss n')
  note adv = advance_preserves [OF produce(4,1,2)]
  show ?case
    by (rule produce_preserves [OF produce(3) adv(1)])
      (use adv(2,3) produce(5) in \<open>simp_all add: advance_def accepted_round_def latest_accepted_checkpoint_round_def\<close>)
qed (simp_all add: submit_preserves adopt_preserves signs_correctly_def)

subsection \<open>What a step leaves alone, and what it reports\<close>

text \<open>The identity of the node and its sinks never change; a step reports nothing or one acceptance.\<close>

definition framed :: "hash_fn \<Rightarrow> 'ks GossipNode \<Rightarrow> 'ks GossipNode \<Rightarrow> bool" where
  "framed sha n n' \<longleftrightarrow> gn_node_id n' = gn_node_id n \<and> gn_bls n' = gn_bls n \<and> gn_sinks n' = gn_sinks n \<and>
     (gn_trace n' = gn_trace n \<or> (\<exists>sc snap ds pruned. gn_trace n' = gn_trace n @ accept_effects (gn_sinks n) sc snap ds pruned \<and>
        root_of_bytes sha snap = Some (ck_state_hash (sc_payload sc))))"

lemma framed_accept: "accept_checkpoint K sha persist_ok sc snap ds n = Ok n' \<Longrightarrow> framed sha n n'"
  by (erule accept_checkpoint_cases) (auto simp: framed_def record_accepted_def Let_def)

lemma framed_via:
  "framed sha m n' \<Longrightarrow> gn_node_id m = gn_node_id n \<Longrightarrow> gn_bls m = gn_bls n \<Longrightarrow> gn_sinks m = gn_sinks n \<Longrightarrow>
   gn_trace m = gn_trace n \<Longrightarrow> framed sha n n'"
  by (simp add: framed_def)

lemma framed_refl: "gn_node_id m = gn_node_id n \<Longrightarrow> gn_bls m = gn_bls n \<Longrightarrow> gn_sinks m = gn_sinks n \<Longrightarrow>
   gn_trace m = gn_trace n \<Longrightarrow> framed sha n m"
  by (simp add: framed_def)

lemma framed_feed: "feed_checkpoint_sig K sha B persist_ok sig n = Ok n' \<Longrightarrow> framed sha n n'"
proof (erule feed_cases)
  fix acc' out
  assume "case out of None \<Rightarrow> n' = n\<lparr> gn_accumulators := AList.update (cs_round sig) acc' (gn_accumulators n) \<rparr>
    | Some sc \<Rightarrow> accept_checkpoint K sha persist_ok sc (acc_snapshot acc') []
        (n\<lparr> gn_accumulators := AList.delete (cs_round sig) (gn_accumulators n) \<rparr>) = Ok n'"
  then show "framed sha n n'" by (cases out) (simp_all add: framed_refl framed_via [OF framed_accept])
qed (simp_all add: framed_refl buffer_pending_sig_def Let_def)

lemma framed_submit: "submit_checkpoint_sig K sha B persist_ok sig n = Ok n' \<Longrightarrow> framed sha n n'"
  by (auto simp: submit_checkpoint_sig_def framed_refl buffer_pending_sig_def Let_def framed_feed split: if_splits)

lemma framed_adopt: "adopt_signed_checkpoint K sha B persist_ok sc n = Ok (n', adopted) \<Longrightarrow> framed sha n n'"
  by (erule adopt_cases) (simp_all add: framed_refl framed_via [OF framed_accept])

lemma framed_produce:
  assumes "produce_checkpoint K sha B persist_ok round hashes snaps dss n = Ok n'"
  shows "framed sha n n'"
  using assms
proof (cases rule: produce_checkpoint_cases)
  case (signed_off pl roster snap own acc out m)
  show ?thesis
  proof (cases out)
    case (Some sc)
    let ?m = "m\<lparr> gn_accumulators := AList.delete round (gn_accumulators n) \<rparr>"
    have "framed sha ?m n'" using signed_off(7) Some by (auto intro: framed_accept)
    then show ?thesis by (rule framed_via) (simp_all add: signed_off(6))
  qed (use signed_off(6,7) in \<open>simp add: framed_refl\<close>)
qed (simp add: framed_refl)

lemma framed_step: "node_step K sha B n n' \<Longrightarrow> framed sha n n'"
proof (induction rule: node_step.induct)
  case (produce n round persist_ok hashes snaps dss n')
  show ?case by (rule framed_via [OF framed_produce [OF produce(3)]]) (simp_all add: advance_def)
qed (auto simp: framed_refl intro: framed_submit framed_adopt)

lemma node_steps_preserve:
  assumes "(node_step K sha B)\<^sup>*\<^sup>* n n'" "checkpoint_inv B sha n" "signs_correctly B (gn_bls n)"
  shows "checkpoint_inv B sha n' \<and> gn_bls n' = gn_bls n \<and> gn_sinks n' = gn_sinks n"
  using assms(1)
proof (induction rule: rtranclp_induct)
  case (step m n')
  then show ?case using node_step_preserves [OF step(2)] framed_step [OF step(2)] assms(3) by (simp add: framed_def)
qed (use assms(2) in simp)

text \<open>A fresh node satisfies the invariant.\<close>

lemma new_node_inv:
  assumes "own_key_in B (new_with_bls sha node key bls registry peers db) registry"
  shows "checkpoint_inv B sha (set_sinks s (new_with_bls sha node key bls registry peers db))"
proof -
  let ?n = "set_sinks s (new_with_bls sha node key bls registry peers db)"
  have f: "gn_hashgraph ?n = hg_new registry" "gn_accumulators ?n = []" "gn_signed ?n = []" "gn_snapshots ?n = []"
    "gn_pending_sigs ?n = []" "gn_outbound_sigs ?n = []" "produced_through ?n = 0" and own: "own_key_in B ?n registry"
    using assms by (simp_all add: set_sinks_def new_with_bls_def own_key_in_def)
  have "roster_history (hg_new registry) = roster_new registry" "next_round_to_order (hg_new registry) = 1"
    by (simp_all add: hg_new_def Let_def)
  moreover have a: "accepted_round ?n = 0" by (simp add: accepted_round_def latest_accepted_checkpoint_round_def f last_opt_def)
  moreover have r: "roster_for_round \<lparr> snapshots = [(1, registry)] \<rparr> r \<noteq> None" if "0 < r" for r
    using that by (simp add: roster_for_round_def bt_last_upto_def last_opt_def word_less_nat_alt word_le_nat_alt Suc_leI)
  ultimately have "graph_ok B ?n"
    using hg_new_frontier [of registry] own by (auto simp: graph_ok_def f a roster_new_def roster_wf_def bt_wf_Cons)
  then show ?thesis
    by (simp add: checkpoint_inv_def accumulators_ok_def signed_ok_def snapshots_ok_def buffers_ok_def f)
qed

subsection \<open>Handlers return\<close>

lemma prune_before_round_Ok: "t < next_round_to_order g \<Longrightarrow> \<exists>g' pruned. prune_before_round g t = Ok (g', pruned)"
  by (simp add: prune_before_round_def Let_def not_le)

lemma accept_total:
  assumes "sc_round sc < next_round_to_order (gn_hashgraph n)"
  shows "\<exists>n'. accept_checkpoint K sha persist_ok sc snap ds n = Ok n'"
proof -
  have db: "set_watermark K db w \<noteq> Panic" "snapshot_and_flush K persist_ok db r snap \<noteq> Panic" for db w r
    by (cases "ks_insert K (db_meta db) WATERMARK_KEY (u64_be w)"; simp add: set_watermark_def)
      (cases "ks_insert K (db_snap db) (u64_be r) snap"; simp add: snapshot_and_flush_def snapshot_def)
  have "u64_saturating_sub (sc_round sc) RETENTION_ROUNDS < next_round_to_order (gn_hashgraph n)"
    using saturating_sub_le assms by (rule le_less_trans)
  then obtain g pruned where "prune_before_round (gn_hashgraph n) (u64_saturating_sub (sc_round sc) RETENTION_ROUNDS) = Ok (g, pruned)"
    using prune_before_round_Ok by blast
  moreover have "gn_hashgraph (record_accepted sc snap (stream_records sc ds (notify_checkpoint_accepted sc (emit e m)))) = gn_hashgraph m" for e and m :: "'a GossipNode"
    by (simp add: record_accepted_def Let_def sinks_trace emit_def)
  ultimately have p: "\<exists>n'. prune_accepted K (sc_round sc) (record_accepted sc snap (stream_records sc ds (notify_checkpoint_accepted sc (emit e (n\<lparr> gn_state_db := db \<rparr>))))) = Ok n'" for e db
    by (simp add: prune_accepted_def Let_def)
  show ?thesis
  proof (cases "root_of_bytes sha snap = Some (ck_state_hash (sc_payload sc))")
    case True
    show ?thesis
    proof (cases "set_watermark K (gn_state_db n) (gn_last_timestamp n)")
      case (Ok db0)
      with True p db(2) show ?thesis
        by (cases "snapshot_and_flush K persist_ok db0 (sc_round sc) snap") (simp_all add: accept_checkpoint_def Let_def)
    qed (use True db(1) in \<open>simp_all add: accept_checkpoint_def Let_def\<close>)
  qed (simp add: accept_checkpoint_def Let_def)
qed

lemma graph_okD:
  assumes "graph_ok B n"
  shows "r \<le> produced_through n \<Longrightarrow> r < next_round_to_order (gn_hashgraph n)"
    "accepted_round n < r \<Longrightarrow> \<exists>roster. registry_at_round (gn_hashgraph n) r = Ok roster"
  using assms by (auto simp: graph_ok_def Let_def registry_at_round_def)

lemma feed_total:
  assumes "checkpoint_inv B sha n" "bls_aggregation_correct B"
  shows "\<exists>n'. feed_checkpoint_sig K sha B persist_ok sig n = Ok n'"
proof (cases "cs_round sig \<le> accepted_round n")
  case False
  have g: "graph_ok B n" using assms(1) by (simp add: checkpoint_inv_def)
  obtain roster where r: "registry_at_round (gn_hashgraph n) (cs_round sig) = Ok roster" using graph_okD(2) [OF g, of "cs_round sig"] False by (auto simp: not_le)
  show ?thesis
  proof (cases "map_of (gn_accumulators n) (cs_round sig)")
    case None
    with False r show ?thesis by (simp add: feed_checkpoint_sig_def is_pending_sig_admissible_def)
  next
    case (Some acc)
    have c: "collecting B n (cs_round sig) acc" "cs_round sig \<le> produced_through n"
      using accumulators_okD [of B n, OF _ Some] assms(1) False by (simp_all add: checkpoint_inv_def)
    obtain acc' out where a: "add_sig B sig roster acc = (acc', out)" by (cases "add_sig B sig roster acc")
    have "\<exists>n'. accept_checkpoint K sha persist_ok sc (acc_snapshot acc') []
        (n\<lparr> gn_accumulators := AList.delete (cs_round sig) (gn_accumulators n) \<rparr>) = Ok n'"
      if "out = Some sc" "partial_ok B roster (acc_payload acc) sig" for sc
    proof (rule accept_total)
      have roster: "roster = ck_roster_snapshot (acc_payload acc)" "acc_inv B roster acc" "ck_round (acc_payload acc) = cs_round sig"
        using c(1) r by (simp_all add: collecting_def Let_def)
      have "sc_round sc = cs_round sig"
        using add_sig_verifies [OF roster(2) that(2) roster(1) assms(2) a] that(1) roster(3) by (simp add: sc_round_def)
      then show "sc_round sc < next_round_to_order (gn_hashgraph (n\<lparr> gn_accumulators := AList.delete (cs_round sig) (gn_accumulators n) \<rparr>))"
        using graph_okD(1) [OF g c(2)] by simp
    qed
    then show ?thesis
      using False r Some a by (cases out) (auto simp: feed_checkpoint_sig_def is_pending_sig_admissible_def verify_checkpoint_sig_iff)
  qed
qed (simp add: feed_checkpoint_sig_def)

lemma submit_total:
  assumes "checkpoint_inv B sha n" "bls_aggregation_correct B"
  shows "\<exists>n'. submit_checkpoint_sig K sha B persist_ok sig n = Ok n'"
proof (cases "cs_round sig \<le> accepted_round n")
  case False
  then obtain roster where "registry_at_round (gn_hashgraph n) (cs_round sig) = Ok roster"
    using assms(1) graph_okD(2) by (force simp: checkpoint_inv_def not_le)
  with False feed_total [OF assms, of K persist_ok sig] show ?thesis by (simp add: submit_checkpoint_sig_def is_pending_sig_admissible_def)
qed (simp add: submit_checkpoint_sig_def)

lemma adopt_total:
  assumes "checkpoint_inv B sha n"
  shows "\<exists>n' adopted. adopt_signed_checkpoint K sha B persist_ok sc n = Ok (n', adopted)"
proof (cases "map_of (gn_accumulators n) (sc_round sc)")
  case (Some acc)
  have g: "graph_ok B n" "sc_round sc \<le> produced_through n"
    using assms accumulators_okD(1) [of B n, OF _ Some] by (simp_all add: checkpoint_inv_def)
  let ?n = "n\<lparr> gn_accumulators := AList.delete (sc_round sc) (gn_accumulators n), gn_diffs := AList.delete (sc_round sc) (gn_diffs n) \<rparr>"
  have "sc_round sc < next_round_to_order (gn_hashgraph ?n)" using graph_okD(1) [OF g] by simp
  from accept_total [OF this, of K sha persist_ok "acc_snapshot acc" "case_option [] id (map_of (gn_diffs n) (sc_round sc))"] Some show ?thesis
    by (auto simp: adopt_signed_checkpoint_def Let_def)
qed (auto simp: adopt_signed_checkpoint_def Let_def)

subsection \<open>A sample node\<close>

text \<open>
  Used by the witnesses: member 1 of four, with round 5 produced over the empty state and the
  signatures of members 1 and 2 collected.
\<close>

definition sample_payload5 :: CheckpointPayload where
  "sample_payload5 = checkpoint_payload_new sample_sha 5 [1] (smt_root (smt_new sample_sha)) [3] [4] sample_roster4"

definition sample_sig :: "u64 \<Rightarrow> CheckpointSig" where
  "sample_sig n = \<lparr> cs_round = 5, cs_signer = NodeId n, cs_sig = sample_block (signing_bytes sample_payload5) CHECKPOINT_DST [ucast n] \<rparr>"

definition sample_graph5 :: Hashgraph where
  "sample_graph5 = (hg_new sample_roster4)\<lparr> fully_decided_rounds := {1..5}, next_round_to_order := 6 \<rparr>"

definition sample_acc :: "u64 list \<Rightarrow> CheckpointAccumulator" where
  "sample_acc ns = \<lparr> acc_payload = sample_payload5, acc_snapshot = [], acc_sigs = map (\<lambda>n. (NodeId n, sample_sig n)) ns \<rparr>"

definition sample_ckpt_node :: "(bytes, bytes) btmap GossipNode" where
  "sample_ckpt_node = (new_with_bls sample_sha (NodeId 1) (replicate 32 0) \<lparr> bls_secret = [1], bls_public = [1] \<rparr> sample_roster4 []
       \<lparr> db_state = [], db_snap = [], db_meta = [] \<rparr>)\<lparr>
     gn_hashgraph := sample_graph5,
     gn_activation := \<lparr> act_pending = [], processed_through_round = 5, checkpoint_watermark = 5 \<rparr>,
     gn_accumulators := [(5, sample_acc [1, 2])],
     gn_diffs := [(5, [([7], Some [8])])],
     gn_outbound_sigs := [sample_sig 1],
     gn_sinks := no_sinks\<lparr> checkpoint_sink := True, record_sink := True \<rparr> \<rparr>"

lemma sample_ckpt_node_fields:
  "gn_node_id sample_ckpt_node = NodeId 1" "gn_bls sample_ckpt_node = \<lparr> bls_secret = [1], bls_public = [1] \<rparr>"
  "gn_hashgraph sample_ckpt_node = sample_graph5" "produced_through sample_ckpt_node = 5"
  "gn_accumulators sample_ckpt_node = [(5, sample_acc [1, 2])]" "gn_signed sample_ckpt_node = []"
  "gn_snapshots sample_ckpt_node = []" "gn_pending_sigs sample_ckpt_node = []" "gn_outbound_sigs sample_ckpt_node = [sample_sig 1]"
  "gn_diffs sample_ckpt_node = [(5, [([7], Some [8])])]" "gn_trace sample_ckpt_node = []"
  "gn_sinks sample_ckpt_node = no_sinks\<lparr> checkpoint_sink := True, record_sink := True \<rparr>"
  "gn_state_db sample_ckpt_node = \<lparr> db_state = [], db_snap = [], db_meta = [] \<rparr>"
  "gn_last_timestamp sample_ckpt_node = 0"
  "accepted_round sample_ckpt_node = 0"
  by (simp_all add: sample_ckpt_node_def new_with_bls_def accepted_round_def latest_accepted_checkpoint_round_def last_opt_def)

lemma sample_graph5_fields:
  "events sample_graph5 = []" "roster_history sample_graph5 = \<lparr> snapshots = [(1, sample_roster4)] \<rparr>"
  "next_round_to_order sample_graph5 = 6" "fully_decided_rounds sample_graph5 = {1..5}"
  by (simp_all add: sample_graph5_def hg_new_def Let_def roster_new_def)

lemma sample_payload5_fields: "ck_round sample_payload5 = 5" "ck_roster_snapshot sample_payload5 = sample_roster4"
  "ck_state_hash sample_payload5 = smt_root (smt_new sample_sha)"
  by (simp_all add: sample_payload5_def checkpoint_payload_new_def)

lemma sample_roster_at: "1 \<le> r \<Longrightarrow> roster_for_round (roster_history sample_graph5) r = Some sample_roster4"
  by (simp add: sample_graph5_fields roster_for_round_def bt_last_upto_def last_opt_def)

lemma sample_sig_ok: "n \<in> {1, 2, 3, 4} \<Longrightarrow> partial_ok sample_bls sample_roster4 sample_payload5 (sample_sig n) \<and> registry_contains sample_roster4 (NodeId n)"
  by (auto simp: partial_ok_def sample_sig_def signer_key_def bls_key_for_def sample_roster4_def sample_bls_def registry_contains_def)

lemma sample_signs: "signs_correctly sample_bls \<lparr> bls_secret = [1], bls_public = [1] \<rparr>"
  using sample_bls_correct by (simp add: signs_correctly_def) (simp add: sample_bls_def bls_identity_sign_def)

lemma sample_ckpt_node_inv: "checkpoint_inv sample_bls sample_sha sample_ckpt_node"
proof -
  have "order_frontier sample_graph5"
  proof -
    have "{1..<6} \<subseteq> {1..5 :: u64}" by (auto simp: word_less_nat_alt word_le_nat_alt)
    then show ?thesis by (simp add: order_frontier_def sample_graph5_fields word_le_nat_alt word_less_nat_alt)
  qed
  moreover have "own_key_in sample_bls sample_ckpt_node sample_roster4"
    by (simp add: own_key_in_def sample_ckpt_node_fields signer_key_def bls_key_for_def sample_roster4_def sample_bls_def)
  moreover have "\<exists>reg. roster_for_round (roster_history sample_graph5) r = Some reg" if "0 < r" for r
    using sample_roster_at [of r] that by (simp add: word_less_nat_alt word_le_nat_alt Suc_leI)
  ultimately have "graph_ok sample_bls sample_ckpt_node"
    by (auto simp: graph_ok_def sample_ckpt_node_fields sample_graph5_fields roster_wf_def bt_wf_Cons)
  moreover have "acc_inv sample_bls sample_roster4 (sample_acc [1, 2])"
    using sample_sig_ok [of 1] sample_sig_ok [of 2] by (simp add: acc_inv_def sample_acc_def) (simp add: sample_sig_def)
  then have "accumulators_ok sample_bls sample_ckpt_node"
    by (simp add: accumulators_ok_def collecting_def sample_ckpt_node_fields sample_acc_def sample_payload5_fields registry_at_round_def sample_roster_at)
  ultimately show ?thesis
    by (simp add: checkpoint_inv_def signed_ok_def snapshots_ok_def buffers_ok_def sample_ckpt_node_fields) (simp add: sample_sig_def)
qed

text \<open>The third signature completes the round.\<close>

definition sample_signed5 :: SignedCheckpoint where
  "sample_signed5 = \<lparr> sc_payload = sample_payload5, sc_aggregate_sig = concat (map (\<lambda>n. cs_sig (sample_sig n)) [1, 2, 3]),
     sc_signers = [NodeId 1, NodeId 2, NodeId 3] \<rparr>"

lemma sample_add_sig: "add_sig sample_bls (sample_sig 3) sample_roster4 (sample_acc [1, 2]) = (sample_acc [1, 2, 3], Some sample_signed5)"
  by (simp add: add_sig_def sample_sig_def sample_acc_def sample_payload5_fields sample_roster4_def registry_contains_def registry_len_def
      or_insert_def aggregate_sigs_def sample_bls_def sample_signed5_def insort_key.simps)

lemma sample_root: "root_of_bytes sample_sha [] = Some (smt_root (smt_new sample_sha))"
  by (simp add: root_of_bytes_def parse_pairs.simps)

lemma sample_submit:
  "\<exists>n. submit_checkpoint_sig list_keyspace sample_sha sample_bls True (sample_sig 3) sample_ckpt_node = Ok n \<and>
     gn_signed n = [sample_signed5] \<and> gn_snapshots n = [(5, [])] \<and>
     gn_trace n = [SnapshotFlushed 5 [], CheckpointPersisted sample_signed5, RecordPersisted sample_signed5 []]"
proof -
  let ?n = "sample_ckpt_node\<lparr> gn_accumulators := [] \<rparr>"
  have r: "cs_round (sample_sig 3) = 5" "cs_signer (sample_sig 3) = NodeId 3" by (simp_all add: sample_sig_def)
  have reg: "registry_at_round sample_graph5 5 = Ok sample_roster4" by (simp add: registry_at_round_def sample_roster_at)
  have lo: "u64_saturating_sub 5 RETENTION_ROUNDS = 0" "u64_saturating_sub 5 SNAPSHOT_RETENTION_ROUNDS = 3" "sc_round sample_signed5 = 5"
    by (simp_all add: u64_saturating_sub_def RETENTION_ROUNDS_def SIGNED_WINDOW_ROUNDS_def SNAPSHOT_RETENTION_ROUNDS_def word_less_nat_alt sc_round_def sample_signed5_def sample_payload5_fields)
  have dec: "is_round_decided sample_graph5 5" by (simp add: is_round_decided_def sample_graph5_fields word_le_nat_alt)
  have "submit_checkpoint_sig list_keyspace sample_sha sample_bls True (sample_sig 3) sample_ckpt_node =
      accept_checkpoint list_keyspace sample_sha True sample_signed5 [] [] ?n"
    using sample_sig_ok [of 3] dec reg sample_add_sig
    by (simp add: submit_checkpoint_sig_def feed_checkpoint_sig_def r sample_ckpt_node_fields is_pending_sig_admissible_def
        verify_checkpoint_sig_iff word_le_nat_alt) (simp add: sample_acc_def)
  moreover have "prune_before_round sample_graph5 0 = Ok (sample_graph5, [])"
    by (simp add: prune_before_round_def sample_graph5_fields word_le_nat_alt)
  then have "\<exists>n. accept_checkpoint list_keyspace sample_sha True sample_signed5 [] [] ?n = Ok n \<and>
     gn_signed n = [sample_signed5] \<and> gn_snapshots n = [(5, [])] \<and>
     gn_trace n = [SnapshotFlushed 5 [], CheckpointPersisted sample_signed5, RecordPersisted sample_signed5 []]"
    by (simp add: accept_checkpoint_def lo Let_def sample_root sample_signed5_def sample_payload5_fields set_watermark_def snapshot_and_flush_def
        snapshot_def list_keyspace_def sinks_trace emit_def record_accepted_def prune_accepted_def emit_if_trace sample_ckpt_node_fields
        sc_round_def no_sinks_def word_le_nat_alt)
  ultimately show ?thesis by simp
qed

subsection \<open>Properties\<close>

text \<open>What the invariant says about the accepted checkpoints.\<close>

lemma accepted_checkpoints_ok:
  assumes "checkpoint_inv B sha n"
  shows "sorted_wrt (<) (map sc_round (gn_signed n)) \<and>
    (\<forall>sc \<in> set (gn_signed n). verify_SignedCheckpoint B sc \<and> quorum_of (ck_roster_snapshot (sc_payload sc)) (sc_signers sc)) \<and>
    (\<forall>sc. latest_signed_checkpoint n = Some sc \<longrightarrow>
       (\<exists>snap. map_of (gn_snapshots n) (sc_round sc) = Some snap \<and> root_of_bytes sha snap = Some (ck_state_hash (sc_payload sc))))"
proof -
  have inv: "signed_ok B n" "snapshots_ok sha n" using assms by (simp_all add: checkpoint_inv_def)
  have uniq: "sc = sc'" if "sc \<in> set (gn_signed n)" "sc' \<in> set (gn_signed n)" "sc_round sc = sc_round sc'" for sc sc'
    using inv(1) that by (auto simp: signed_ok_def strict_sorted_iff distinct_map dest: inj_onD)
  have "\<exists>snap. map_of (gn_snapshots n) (sc_round sc) = Some snap \<and> root_of_bytes sha snap = Some (ck_state_hash (sc_payload sc))"
    if "latest_signed_checkpoint n = Some sc" for sc
  proof -
    have sc: "sc \<in> set (gn_signed n)" "accepted_round n = sc_round sc"
      using that by (auto simp: latest_signed_checkpoint_def last_opt_def accepted_round_def latest_accepted_checkpoint_round_def split: if_splits)
    then obtain snap where snap: "map_of (gn_snapshots n) (sc_round sc) = Some snap"
      using inv(2) saturating_sub_le [of "sc_round sc"] by (force simp: snapshots_ok_def)
    then obtain sc' where "sc' \<in> set (gn_signed n)" "sc_round sc' = sc_round sc" "root_of_bytes sha snap = Some (ck_state_hash (sc_payload sc'))"
      using inv(2) map_of_SomeD [OF snap] by (fastforce simp: snapshots_ok_def)
    with uniq sc(1) snap show ?thesis by auto
  qed
  then show ?thesis using inv(1) by (auto simp: signed_ok_def verify_SignedCheckpoint_def verify_with_registry_iff)
qed

text \<open>
  Whatever events, signatures and checkpoints reach a node, in whatever order,
  its accepted checkpoints stay strictly ascending by round, each carries an aggregate that
  verifies and is signed by distinct members making up more than two thirds of its roster,
  and for the latest one the node holds a state snapshot that rebuilds to the committed root.
  The node starts from a state that satisfies the invariant, as a fresh node does; the
  signature library is assumed to aggregate correctly and to verify the node's own signatures.
\<close>

lemma node_checkpoints_safe:
  assumes "(node_step K sha B)\<^sup>*\<^sup>* n0 n" "checkpoint_inv B sha n0" "signs_correctly B (gn_bls n0)"
  shows "sorted_wrt (<) (map sc_round (gn_signed n)) \<and>
    (\<forall>sc \<in> set (gn_signed n). verify_SignedCheckpoint B sc \<and> quorum_of (ck_roster_snapshot (sc_payload sc)) (sc_signers sc)) \<and>
    (\<forall>sc. latest_signed_checkpoint n = Some sc \<longrightarrow>
       (\<exists>snap. map_of (gn_snapshots n) (sc_round sc) = Some snap \<and> root_of_bytes sha snap = Some (ck_state_hash (sc_payload sc))))"
  by (rule accepted_checkpoints_ok) (use node_steps_preserve [OF assms] in simp)

lemma sample_step:
  "\<exists>n. node_step list_keyspace sample_sha sample_bls sample_ckpt_node n \<and> gn_signed n = [sample_signed5] \<and> gn_snapshots n = [(5, [])] \<and>
     gn_trace n = [SnapshotFlushed 5 [], CheckpointPersisted sample_signed5, RecordPersisted sample_signed5 []]"
  using sample_submit receive_sig by blast

lemma node_checkpoints_safe_witness:
  "verify_SignedCheckpoint sample_bls sample_signed5 \<and> quorum_of sample_roster4 (sc_signers sample_signed5)"
proof -
  obtain n where n: "node_step list_keyspace sample_sha sample_bls sample_ckpt_node n" "gn_signed n = [sample_signed5]" using sample_step by blast
  have "signs_correctly sample_bls (gn_bls sample_ckpt_node)" using sample_signs by (simp add: sample_ckpt_node_fields)
  from node_checkpoints_safe [OF r_into_rtranclp [of "node_step _ _ _", OF n(1)] sample_ckpt_node_inv this] n(2) show ?thesis
    by (simp add: sample_signed5_def sample_payload5_fields)
qed

definition flushed_before :: "hash_fn \<Rightarrow> SignedCheckpoint \<Rightarrow> NodeEffect list \<Rightarrow> bool" where
  "flushed_before sha sc es \<longleftrightarrow>
     (\<exists>snap. SnapshotFlushed (sc_round sc) snap \<in> set es \<and> root_of_bytes sha snap = Some (ck_state_hash (sc_payload sc)))"

definition durable_order :: "hash_fn \<Rightarrow> NodeEffect list \<Rightarrow> bool" where
  "durable_order sha tr \<longleftrightarrow> (\<forall>xs e ys sc. tr = xs @ e # ys \<and> (e = CheckpointPersisted sc \<or> (\<exists>ds. e = RecordPersisted sc ds)) \<longrightarrow> flushed_before sha sc xs)"

lemma durable_accept:
  assumes "root_of_bytes sha snap = Some (ck_state_hash (sc_payload sc))" "accept_effects s sc snap ds pruned = xs @ e # ys"
    and "e = CheckpointPersisted sc' \<or> (\<exists>ds. e = RecordPersisted sc' ds)"
  shows "flushed_before sha sc' xs"
proof -
  have "e \<in> set (accept_effects s sc snap ds pruned)" unfolding assms(2) by simp
  then have sc: "sc' = sc" using assms(3) by (auto simp: accept_effects_def split: if_splits)
  have "xs \<noteq> []" using assms(2,3) by (auto simp: accept_effects_def)
  then have "SnapshotFlushed (sc_round sc) snap \<in> set xs" using assms(2) by (cases xs) (auto simp: accept_effects_def)
  with assms(1) sc show ?thesis by (auto simp: flushed_before_def)
qed

lemma durable_append:
  assumes "durable_order sha tr" "\<And>xs e ys sc. es = xs @ e # ys \<Longrightarrow> e = CheckpointPersisted sc \<or> (\<exists>ds. e = RecordPersisted sc ds) \<Longrightarrow> flushed_before sha sc xs"
  shows "durable_order sha (tr @ es)"
  unfolding durable_order_def
proof (intro allI impI, elim conjE)
  fix xs e ys sc
  assume eq: "tr @ es = xs @ e # ys" and e: "e = CheckpointPersisted sc \<or> (\<exists>ds. e = RecordPersisted sc ds)"
  from eq consider us where "tr = xs @ us" "us @ es = e # ys" "us \<noteq> []" | us where "xs = tr @ us" "es = us @ e # ys"
    by (auto simp: append_eq_append_conv2) (metis append.right_neutral append_Nil)
  then show "flushed_before sha sc xs"
  proof cases
    case 1
    then obtain vs where "tr = xs @ e # vs" by (cases us) auto
    with assms(1) e show ?thesis by (auto simp: durable_order_def)
  next
    case 2
    from assms(2) [OF 2(2) e] show ?thesis by (auto simp: flushed_before_def 2(1))
  qed
qed



subsection \<open>Observations\<close>

text \<open>
  The diffs of a round are kept for the moment of its acceptance, but an acceptance caused by
  an inbound signature hands an empty list to the record stream.
\<close>

lemma inbound_acceptance_drops_diffs:
  "map_of (gn_diffs sample_ckpt_node) 5 = Some [([7], Some [8])] \<and>
   (\<exists>n. submit_checkpoint_sig list_keyspace sample_sha sample_bls True (sample_sig 3) sample_ckpt_node = Ok n \<and>
     RecordPersisted sample_signed5 [] \<in> set (gn_trace n))"
  using sample_submit by (auto simp: sample_ckpt_node_fields)

text \<open>
  An acceptance keeps the accumulators of older rounds, and no later signature reaches them:
  they and the serialized states they hold are never released.
\<close>

lemma accept_keeps_old_accumulators:
  assumes "accept_checkpoint K sha persist_ok sc snap ds n = Ok n'"
  shows "gn_accumulators n' = gn_accumulators n"
  using assms by (cases rule: accept_checkpoint_cases) (simp_all add: record_accepted_def Let_def)

lemma old_rounds_are_closed:
  "cs_round sig \<le> accepted_round n \<Longrightarrow> submit_checkpoint_sig K sha B persist_ok sig n = Ok n"
  "sc_round sc \<le> accepted_round n \<Longrightarrow> adopt_signed_checkpoint K sha B persist_ok sc n = Ok (n, False)"
  by (simp_all add: submit_checkpoint_sig_def adopt_signed_checkpoint_def Let_def)

end
