(* ===== verification/NodeQuorum.thy ===== *)
theory NodeQuorum
  imports NodeSafety
begin

section \<open>Answers of a node to its peers\<close>

text \<open>
  The signature and adoption handlers never panic, keep bounded buffers, adopt exactly the
  checkpoints the node produced itself, and accept a round as soon as a quorum of valid
  signatures has arrived, whatever else arrives with them.
\<close>

subsection \<open>Storage that does not fail\<close>

definition storage_ok :: "'ks keyspace_ops \<Rightarrow> bool" where
  "storage_ok K \<longleftrightarrow> (\<forall>s k v. ks_insert K s k v \<noteq> None)"

lemma storage_ok_writes:
  assumes "storage_ok K"
  shows "\<exists>db0 db1. set_watermark K db w = Ok db0 \<and> snapshot_and_flush K True db0 r bs = Ok db1"
  using assms by (auto simp: storage_ok_def set_watermark_def snapshot_and_flush_def snapshot_def not_None_eq)

lemma accept_when:
  assumes "set_watermark K (gn_state_db n) (gn_last_timestamp n) = Ok db0" "snapshot_and_flush K persist_ok db0 (sc_round sc) snap = Ok db1"
    and "root_of_bytes sha snap = Some (ck_state_hash (sc_payload sc))" "signed_ok B n" "accepted_round n < sc_round sc"
    and "accept_checkpoint K sha persist_ok sc snap ds n = Ok n'"
  shows "gn_signed n' = gn_signed n @ [sc]"
proof -
  let ?n = "record_accepted sc snap (stream_records sc ds (notify_checkpoint_accepted sc (emit (SnapshotFlushed (sc_round sc) snap) (n\<lparr> gn_state_db := db1 \<rparr>))))"
  have "prune_accepted K (sc_round sc) ?n = Ok n'" using assms(1-3,6) by (simp add: accept_checkpoint_def Let_def)
  then have "gn_signed n' = gn_signed ?n" by (rule prune_accepted_Ok) simp
  also have "\<dots> = sort_key sc_round (gn_signed n @ [sc])" by (simp add: record_accepted_def Let_def sinks_trace emit_def)
  also have "\<dots> = gn_signed n @ [sc]" using record_accepted_signed [OF assms(4,5), of snap] by (simp add: record_accepted_def Let_def)
  finally show ?thesis .
qed

subsection \<open>A sequence of signatures\<close>

primrec submit_all :: "'ks keyspace_ops \<Rightarrow> hash_fn \<Rightarrow> bls_lib \<Rightarrow> bool \<Rightarrow> CheckpointSig list \<Rightarrow> 'ks GossipNode \<Rightarrow> 'ks GossipNode hg_result" where
  "submit_all K sha B persist_ok [] n = Ok n"
| "submit_all K sha B persist_ok (sig # sigs) n =
     andThen (submit_checkpoint_sig K sha B persist_ok sig n) (submit_all K sha B persist_ok sigs)"

lemma submit_all_accepted:
  "\<forall>s \<in> set sigs. cs_round s \<le> accepted_round n \<Longrightarrow> submit_all K sha B persist_ok sigs n = Ok n"
  by (induction sigs) (simp_all add: submit_checkpoint_sig_def)

text \<open>The signers that count for a round: those collected and those among the arriving signatures that are valid.\<close>

definition valid_sig :: "bls_lib \<Rightarrow> CheckpointPayload \<Rightarrow> CheckpointSig \<Rightarrow> bool" where
  "valid_sig B p s \<longleftrightarrow> eligible (ck_roster_snapshot p) p s \<and> partial_ok B (ck_roster_snapshot p) p s"

definition counted_signers :: "bls_lib \<Rightarrow> CheckpointAccumulator \<Rightarrow> CheckpointSig list \<Rightarrow> NodeId set" where
  "counted_signers B acc sigs = fst ` set (acc_sigs acc) \<union> {cs_signer s | s. s \<in> set sigs \<and> valid_sig B (acc_payload acc) s}"

text \<open>A round of the node that collects signatures and can be accepted.\<close>

definition open_round :: "bls_lib \<Rightarrow> hash_fn \<Rightarrow> 'ks GossipNode \<Rightarrow> u64 \<Rightarrow> CheckpointAccumulator \<Rightarrow> bool" where
  "open_round B sha n r acc \<longleftrightarrow> map_of (gn_accumulators n) r = Some acc \<and> accepted_round n < r \<and>
     is_round_decided (gn_hashgraph n) r \<and> \<not> acc_done (ck_roster_snapshot (acc_payload acc)) acc \<and>
     root_of_bytes sha (acc_snapshot acc) = Some (ck_state_hash (acc_payload acc))"

text \<open>One signature for an open round: it leaves the round open, or it closes it.\<close>

lemma submit_open:
  assumes "checkpoint_inv B sha n" "open_round B sha n r acc" "cs_round sig = r" "storage_ok K"
    and "bls_aggregation_correct B" "\<forall>sigs. sigs \<noteq> [] \<longrightarrow> bls_aggregate B sigs \<noteq> None"
  obtains (ignored) "submit_checkpoint_sig K sha B True sig n = Ok n" "\<not> valid_sig B (acc_payload acc) sig"
  | (counted) acc' n' where "submit_checkpoint_sig K sha B True sig n = Ok n'" "open_round B sha n' r acc'" "checkpoint_inv B sha n'"
      "acc_payload acc' = acc_payload acc" "fst ` set (acc_sigs acc') = insert (cs_signer sig) (fst ` set (acc_sigs acc))"
      "valid_sig B (acc_payload acc) sig" "gn_signed n' = gn_signed n"
  | (accepted) n' sc where "submit_checkpoint_sig K sha B True sig n = Ok n'" "gn_signed n' = gn_signed n @ [sc]"
      "sc_payload sc = acc_payload acc" "verify_SignedCheckpoint B sc"
      "supermajority (card (insert (cs_signer sig) (fst ` set (acc_sigs acc)))) (registry_len (ck_roster_snapshot (acc_payload acc)))"
proof -
  let ?roster = "ck_roster_snapshot (acc_payload acc)" and ?p = "acc_payload acc"
  let ?acc = "acc\<lparr> acc_sigs := or_insert (cs_signer sig) sig (acc_sigs acc) \<rparr>"
  have o: "map_of (gn_accumulators n) r = Some acc" "accepted_round n < r" "\<not> r \<le> accepted_round n" "is_round_decided (gn_hashgraph n) r"
    "\<not> acc_done ?roster acc" "root_of_bytes sha (acc_snapshot acc) = Some (ck_state_hash ?p)"
    using assms(2) by (simp_all add: open_round_def not_le)
  have c: "ck_round ?p = r" "registry_at_round (gn_hashgraph n) r = Ok ?roster" "acc_inv B ?roster acc" and le: "r \<le> produced_through n"
    using accumulators_okD [of B n, OF _ o(1)] assms(1) o(2) by (simp_all add: checkpoint_inv_def collecting_def Let_def)
  have el: "eligible ?roster ?p sig \<longleftrightarrow> registry_contains ?roster (cs_signer sig)" using assms(3) c(1) by (simp add: eligible_def)
  have run: "submit_checkpoint_sig K sha B True sig n =
      (if \<not> valid_sig B ?p sig then Ok n else case add_sig B sig ?roster acc of
         (acc, None) \<Rightarrow> Ok (n\<lparr> gn_accumulators := AList.update r acc (gn_accumulators n) \<rparr>)
       | (acc, Some sc) \<Rightarrow> accept_checkpoint K sha True sc (acc_snapshot acc) [] (n\<lparr> gn_accumulators := AList.delete r (gn_accumulators n) \<rparr>))"
    using o c assms(3) el
    by (simp add: submit_checkpoint_sig_def feed_checkpoint_sig_def is_pending_sig_admissible_def verify_checkpoint_sig_iff valid_sig_def)
  show thesis
  proof (cases "valid_sig B ?p sig")
    case False
    with run show thesis by (intro ignored) simp_all
  next
    case True
    then have e: "eligible ?roster ?p sig" "partial_ok B ?roster ?p sig" by (simp_all add: valid_sig_def)
    have inv': "acc_inv B ?roster ?acc" by (rule acc_inv_insert [OF c(3) e])
    have keys: "fst ` set (acc_sigs ?acc) = insert (cs_signer sig) (fst ` set (acc_sigs acc))" by (simp add: keys_or_insert)
    obtain n' where n': "submit_checkpoint_sig K sha B True sig n = Ok n'" using submit_total [OF assms(1,5)] by blast
    show thesis
    proof (cases "acc_done ?roster ?acc")
      case False
      then have a: "add_sig B sig ?roster acc = (?acc, None)" using e(1) o(5) by (simp add: add_sig_cases Let_def)
      then have n'_eq: "n' = n\<lparr> gn_accumulators := AList.update r ?acc (gn_accumulators n) \<rparr>" using run True n' by simp
      have "open_round B sha n' r ?acc"
        using o False by (simp add: open_round_def n'_eq update_conv' accepted_round_def latest_accepted_checkpoint_round_def)
      with submit_preserves [OF n' assms(1,5)] n' keys True n'_eq show thesis by (intro counted [of n' ?acc]) simp_all
    next
      case True': True
      have len: "registry_len ?roster \<noteq> 0" using e(1) registry_contains_nonempty by (auto simp: eligible_def)
      obtain sc where sc: "add_sig B sig ?roster acc = (?acc, Some sc)" "sc_payload sc = ?p" "verify_SignedCheckpoint B sc"
        using add_sig_completes [OF assms(5,6) e(1) o(5) inv' True' len refl] by blast
      let ?n = "n\<lparr> gn_accumulators := AList.delete r (gn_accumulators n) \<rparr>"
      have acc: "accept_checkpoint K sha True sc (acc_snapshot acc) [] ?n = Ok n'" using run True n' sc(1) by simp
      obtain db0 db1 where db: "set_watermark K (gn_state_db ?n) (gn_last_timestamp ?n) = Ok db0"
          "snapshot_and_flush K True db0 (sc_round sc) (acc_snapshot acc) = Ok db1"
        using storage_ok_writes [OF assms(4)] by blast
      have i: "checkpoint_inv B sha ?n" using accumulators_delete [OF assms(1), where r = r and ds = "gn_diffs n"] by simp
      have "accepted_round ?n < sc_round sc"
        using o(2) c(1) sc(2) by (simp add: accepted_round_def latest_accepted_checkpoint_round_def sc_round_def)
      then have "gn_signed n' = gn_signed n @ [sc]"
        using accept_when [OF db _ _ _ acc, of B] i o(6) sc(2) by (simp add: checkpoint_inv_def)
      moreover have "supermajority (card (insert (cs_signer sig) (fst ` set (acc_sigs acc)))) (registry_len ?roster)"
        using True' acc_inv_card [OF inv'] unfolding keys acc_done_def by simp
      ultimately show thesis using n' sc(2,3) by (intro accepted)
    qed
  qed
qed

lemma quorum_run:
  assumes "storage_ok K" "bls_aggregation_correct B" "\<forall>sigs. sigs \<noteq> [] \<longrightarrow> bls_aggregate B sigs \<noteq> None"
  shows "checkpoint_inv B sha n \<Longrightarrow> open_round B sha n r acc \<Longrightarrow> \<forall>s \<in> set sigs. cs_round s = r \<Longrightarrow>
    supermajority (card (counted_signers B acc sigs)) (registry_len (ck_roster_snapshot (acc_payload acc))) \<Longrightarrow>
    \<exists>n' sc. submit_all K sha B True sigs n = Ok n' \<and> gn_signed n' = gn_signed n @ [sc] \<and> sc_payload sc = acc_payload acc \<and>
      verify_SignedCheckpoint B sc"
proof (induction sigs arbitrary: n acc)
  case Nil
  have "acc_inv B (ck_roster_snapshot (acc_payload acc)) acc"
    using accumulators_okD(2) [of B n r acc] Nil.prems(1,2) by (simp add: checkpoint_inv_def open_round_def collecting_def Let_def)
  from acc_inv_card [OF this] Nil.prems(2,4) show ?case by (simp add: open_round_def acc_done_def counted_signers_def)
next
  case (Cons sig sigs)
  from Cons.prems(3) have s: "cs_round sig = r" "\<forall>s \<in> set sigs. cs_round s = r" by simp_all
  from Cons.prems(1,2) s(1) assms show ?case
  proof (cases rule: submit_open)
    case ignored
    then have "counted_signers B acc (sig # sigs) = counted_signers B acc sigs" by (auto simp: counted_signers_def)
    with Cons.IH [OF Cons.prems(1,2) s(2)] Cons.prems(4) ignored(1) show ?thesis by simp
  next
    case (counted acc' n')
    then have "counted_signers B acc (sig # sigs) = counted_signers B acc' sigs" by (auto simp: counted_signers_def)
    with Cons.IH [OF counted(3,2) s(2)] Cons.prems(4) counted(1,4,7) show ?thesis by simp
  next
    case (accepted n' sc)
    have "ck_round (acc_payload acc) = r"
      using accumulators_okD(2) [of B n r acc] Cons.prems(1,2) by (simp add: checkpoint_inv_def open_round_def collecting_def Let_def)
    then have "accepted_round n' = r" using accepted_round_append [OF accepted(2)] accepted(3) by (simp add: sc_round_def)
    then have "submit_all K sha B True sigs n' = Ok n'" using submit_all_accepted s(2) by force
    with accepted show ?thesis by auto
  qed
qed

subsection \<open>Properties\<close>

text \<open>
  Property C18. A quorum is enough: a node that has produced a decided round accepts it as
  soon as the valid signatures it has collected and receives come from more than two thirds
  of the round's roster, in whatever order they arrive and however many forged, repeated or
  foreign signatures for the round arrive in between. The accepted checkpoint is the one the
  node produced and it verifies. Storage is assumed to work and the signature library to
  aggregate every non-empty list, correctly.
\<close>

theorem quorum_accepts:
  assumes "checkpoint_inv B sha n" "open_round B sha n r acc" "\<forall>s \<in> set sigs. cs_round s = r"
    and "supermajority (card (counted_signers B acc sigs)) (registry_len (ck_roster_snapshot (acc_payload acc)))"
    and "storage_ok K" "bls_aggregation_correct B" "\<forall>sigs. sigs \<noteq> [] \<longrightarrow> bls_aggregate B sigs \<noteq> None"
  shows "\<exists>n' sc. submit_all K sha B True sigs n = Ok n' \<and> gn_signed n' = gn_signed n @ [sc] \<and>
    sc_payload sc = acc_payload acc \<and> verify_SignedCheckpoint B sc"
  by (rule quorum_run [OF assms(5-7,1-4)])

lemma sample_open: "open_round sample_bls sample_sha sample_ckpt_node 5 (sample_acc [1, 2])"
  by (simp add: open_round_def sample_ckpt_node_fields sample_acc_def acc_done_def supermajority_def sample_payload5_fields sample_root
      is_round_decided_def sample_graph5_fields word_less_nat_alt word_le_nat_alt) (simp add: sample_roster4_def registry_len_def)

text \<open>The witness: a forged signature of member 4, a stranger, a repetition, and then member 3.\<close>

definition sample_garbage :: "CheckpointSig list" where
  "sample_garbage = [(sample_sig 4)\<lparr> cs_sig := [] \<rparr>, sample_sig 9, sample_sig 2]"

theorem quorum_accepts_witness:
  "\<exists>n sc. submit_all list_keyspace sample_sha sample_bls True (sample_garbage @ [sample_sig 3]) sample_ckpt_node = Ok n \<and>
     gn_signed n = [sc] \<and> sc_payload sc = sample_payload5 \<and> verify_SignedCheckpoint sample_bls sc"
proof -
  let ?sigs = "sample_garbage @ [sample_sig 3]" and ?acc = "sample_acc [1, 2]"
  have p: "acc_payload ?acc = sample_payload5" and k: "fst ` set (acc_sigs ?acc) = {NodeId 1, NodeId 2}" by (simp_all add: sample_acc_def)
  have v: "valid_sig sample_bls sample_payload5 (sample_sig 3)"
    using sample_sig_ok [of 3] by (simp add: valid_sig_def sample_payload5_fields eligible_def) (simp add: sample_sig_def)
  have "{NodeId 1, NodeId 2, NodeId 3} \<subseteq> counted_signers sample_bls ?acc ?sigs"
    using v k unfolding counted_signers_def p by (force simp: sample_sig_def)
  moreover have "finite (counted_signers sample_bls ?acc ?sigs)" by (simp add: counted_signers_def)
  ultimately have "card {NodeId 1, NodeId 2, NodeId 3} \<le> card (counted_signers sample_bls ?acc ?sigs)" by (rule card_mono [rotated])
  then have s: "supermajority (card (counted_signers sample_bls ?acc ?sigs)) (registry_len (ck_roster_snapshot (acc_payload ?acc)))"
    by (simp add: p sample_payload5_fields supermajority_def) (simp add: sample_roster4_def registry_len_def)
  have r: "\<forall>s \<in> set ?sigs. cs_round s = 5" by (simp add: sample_garbage_def sample_sig_def)
  have k: "storage_ok list_keyspace" "\<forall>sigs. sigs \<noteq> [] \<longrightarrow> bls_aggregate sample_bls sigs \<noteq> None"
    by (simp_all add: storage_ok_def list_keyspace_def sample_bls_def)
  from quorum_accepts [OF sample_ckpt_node_inv sample_open r s k(1) sample_bls_correct k(2)] p show ?thesis
    by (simp add: sample_ckpt_node_fields)
qed

text \<open>Nothing else is asked of an offered checkpoint.\<close>

lemma adopt_when:
  assumes "checkpoint_inv B sha n" "adopt_signed_checkpoint K sha B persist_ok sc n = Ok (n', adopted)"
    and "accepted_round n < sc_round sc" "sc_round sc \<le> highest_decided_round (gn_hashgraph n)"
    and "map_of (gn_accumulators n) (sc_round sc) = Some acc" "signing_bytes (sc_payload sc) = signing_bytes (acc_payload acc)"
    and "verify_SignedCheckpoint B sc" "root_of_bytes sha (acc_snapshot acc) = Some (ck_state_hash (sc_payload sc))"
    and "set_watermark K (gn_state_db n) (gn_last_timestamp n) = Ok db0"
    and "snapshot_and_flush K persist_ok db0 (sc_round sc) (acc_snapshot acc) = Ok db1"
  shows "gn_signed n' = gn_signed n @ [sc]"
proof -
  let ?n = "n\<lparr> gn_accumulators := AList.delete (sc_round sc) (gn_accumulators n), gn_diffs := AList.delete (sc_round sc) (gn_diffs n) \<rparr>"
  have "\<not> sc_round sc \<le> accepted_round n" "\<not> highest_decided_round (gn_hashgraph n) < sc_round sc" using assms(3,4) by auto
  with assms(2,5-7) obtain ds where a: "accept_checkpoint K sha persist_ok sc (acc_snapshot acc) ds ?n = Ok n'"
    by (auto simp: adopt_signed_checkpoint_def Let_def)
  have "accepted_round ?n < sc_round sc" "signed_ok B ?n"
    using assms(3) accumulators_delete [OF assms(1)] by (simp_all add: checkpoint_inv_def accepted_round_def latest_accepted_checkpoint_round_def)
  with accept_when [OF _ _ assms(8) _ _ a, of db0 db1 B] assms(9,10) show ?thesis by simp
qed

text \<open>
  Property C20. Adoption: a node takes over a peer's checkpoint exactly when it is newer than
  every accepted one, not above the decided rounds, equal in its signing bytes to the payload
  the node produced itself for that round, verified, backed by the node's own snapshot of the
  state, and the database takes both writes; the checkpoint is then the latest accepted one.
  In every other case the accepted checkpoints and the graph stay as they are.
\<close>

theorem adopt_exact:
  assumes "checkpoint_inv B sha n" "adopt_signed_checkpoint K sha B persist_ok sc n = Ok (n', adopted)"
  shows "(adopted \<longleftrightarrow> accepted_round n < sc_round sc \<and> sc_round sc \<le> highest_decided_round (gn_hashgraph n) \<and>
      (\<exists>acc db0 db1. map_of (gn_accumulators n) (sc_round sc) = Some acc \<and>
         signing_bytes (sc_payload sc) = signing_bytes (acc_payload acc) \<and> verify_SignedCheckpoint B sc \<and>
         root_of_bytes sha (acc_snapshot acc) = Some (ck_state_hash (sc_payload sc)) \<and>
         set_watermark K (gn_state_db n) (gn_last_timestamp n) = Ok db0 \<and>
         snapshot_and_flush K persist_ok db0 (sc_round sc) (acc_snapshot acc) = Ok db1)) \<and>
    (adopted \<longrightarrow> gn_signed n' = gn_signed n @ [sc]) \<and>
    (\<not> adopted \<longrightarrow> gn_signed n' = gn_signed n \<and> gn_hashgraph n' = gn_hashgraph n)"
  using assms(2)
proof (cases rule: adopt_cases)
  case rejected
  show ?thesis using adopt_when [OF assms] rejected by auto
next
  case (offered acc)
  let ?n = "n\<lparr> gn_accumulators := AList.delete (sc_round sc) (gn_accumulators n), gn_diffs := AList.delete (sc_round sc) (gn_diffs n) \<rparr>"
  have n: "accepted_round ?n < sc_round sc" "signed_ok B ?n"
    using offered(1) accumulators_delete [OF assms(1)] by (simp_all add: checkpoint_inv_def accepted_round_def latest_accepted_checkpoint_round_def)
  from offered(6) show ?thesis
  proof (cases rule: accept_checkpoint_cases)
    case (refused db)
    have "latest_accepted_checkpoint_round n' = latest_accepted_checkpoint_round n" by (simp add: refused latest_accepted_checkpoint_round_def)
    with offered(1,7) have "\<not> adopted" by (auto simp: accepted_round_def split: option.splits)
    moreover have "\<not> (root_of_bytes sha (acc_snapshot acc) = Some (ck_state_hash (sc_payload sc)) \<and>
        set_watermark K (gn_state_db n) (gn_last_timestamp n) = Ok db0 \<and>
        snapshot_and_flush K persist_ok db0 (sc_round sc) (acc_snapshot acc) = Ok db1)" for db0 db1
      using accept_when [OF _ _ _ n(2,1) offered(6), of db0 db1] by (auto simp: refused)
    ultimately show ?thesis using offered(3) by (auto simp: refused)
  next
    case (accepted db0 db g pruned)
    have "gn_signed n' = gn_signed n @ [sc]" using accept_when [OF accepted(2,3,1) n(2,1) offered(6)] by simp
    moreover have adopted using offered(7) accepted_round_append [OF calculation]
      by (auto simp: latest_accepted_checkpoint_round_def last_opt_def calculation)
    ultimately show ?thesis using offered accepted(1-3) by auto
  qed
qed

lemma Max_word_atMost: "(1 :: u64) \<le> k \<Longrightarrow> Max {1..k} = k"
  by (intro Max_eqI) auto

lemma sample_signed5_verifies: "verify_SignedCheckpoint sample_bls sample_signed5"
  by (simp add: verify_SignedCheckpoint_def verify_with_registry_def sample_signed5_def sample_payload5_fields Let_def verify_aggregate_def)
    (simp add: sample_roster4_def registry_len_def registry_contains_def signer_key_def bls_key_for_def sample_bls_def sample_sig_def insort_key.simps verify_aggregate_def)

theorem adopt_exact_witness:
  "\<exists>n. adopt_signed_checkpoint list_keyspace sample_sha sample_bls True sample_signed5 sample_ckpt_node = Ok (n, True) \<and>
     gn_signed n = [sample_signed5]"
proof -
  obtain n adopted where n: "adopt_signed_checkpoint list_keyspace sample_sha sample_bls True sample_signed5 sample_ckpt_node = Ok (n, adopted)"
    using adopt_total [OF sample_ckpt_node_inv] by blast
  have r: "sc_round sample_signed5 = 5" "sc_payload sample_signed5 = sample_payload5" by (simp_all add: sc_round_def sample_signed5_def sample_payload5_fields)
  have d: "highest_decided_round (gn_hashgraph sample_ckpt_node) = 5"
    by (simp add: highest_decided_round_def sample_ckpt_node_fields sample_graph5_fields Max_word_atMost word_le_nat_alt)
  have k: "storage_ok list_keyspace" by (simp add: storage_ok_def list_keyspace_def)
  have "\<exists>acc db0 db1. map_of (gn_accumulators sample_ckpt_node) (sc_round sample_signed5) = Some acc \<and>
         signing_bytes (sc_payload sample_signed5) = signing_bytes (acc_payload acc) \<and> verify_SignedCheckpoint sample_bls sample_signed5 \<and>
         root_of_bytes sample_sha (acc_snapshot acc) = Some (ck_state_hash (sc_payload sample_signed5)) \<and>
         set_watermark list_keyspace (gn_state_db sample_ckpt_node) (gn_last_timestamp sample_ckpt_node) = Ok db0 \<and>
         snapshot_and_flush list_keyspace True db0 (sc_round sample_signed5) (acc_snapshot acc) = Ok db1"
    using sample_signed5_verifies storage_ok_writes [OF k] sample_root
    by (simp add: r sample_ckpt_node_fields sample_acc_def sample_payload5_fields)
  then have adopted
    using adopt_exact [OF sample_ckpt_node_inv n] d r(1) by (simp add: sample_ckpt_node_fields word_less_nat_alt)
  with adopt_exact [OF sample_ckpt_node_inv n] n show ?thesis by (auto simp: sample_ckpt_node_fields)
qed

text \<open>
  Property C21. No panic from the network: in a state that satisfies the invariant, the
  handlers of checkpoint signatures and of offered checkpoints return for every input, for
  every outcome of the storage; and the invariant holds again afterwards.
\<close>

theorem peer_input_never_panics:
  assumes "checkpoint_inv B sha n" "bls_aggregation_correct B"
  shows "(\<exists>n'. submit_checkpoint_sig K sha B persist_ok sig n = Ok n' \<and> checkpoint_inv B sha n') \<and>
    (\<exists>n' adopted. adopt_signed_checkpoint K sha B persist_ok sc n = Ok (n', adopted) \<and> checkpoint_inv B sha n')"
  using submit_total [OF assms] adopt_total [OF assms(1)] submit_preserves [OF _ assms] adopt_preserves [OF _ assms(1)] by meson

theorem peer_input_never_panics_witness:
  "\<exists>n. submit_checkpoint_sig list_keyspace sample_sha sample_bls False (sample_sig 9) sample_ckpt_node = Ok n \<and> checkpoint_inv sample_bls sample_sha n"
  using peer_input_never_panics [OF sample_ckpt_node_inv sample_bls_correct, of list_keyspace False "sample_sig 9"] by blast



end
