(* ===== verification/NodeChain.thy ===== *)
theory NodeChain
  imports NodeSafety
begin

section \<open>The checkpoint chain does not depend on acceptance\<close>

text \<open>
  Each payload carries the hash of its predecessor, taken from the accepted checkpoint if
  there is one and rebuilt from decided history otherwise. Both give the same chain: an
  acceptance, with all the pruning that follows it, changes no later payload.
\<close>

subsection \<open>Payloads after pruning\<close>

lemma order_items_cong:
  "(\<And>h. h \<in> set hs \<Longrightarrow> hg_get g' h = hg_get g h) \<Longrightarrow> order_items g' hs = order_items g hs"
  by (induction hs) (simp_all split: option.split)

lemma prune_checkpoint_payload:
  assumes "prune_before_round g t = Ok (g', pruned)" "t \<le> u64_saturating_sub k SIGNED_WINDOW_ROUNDS"
    and "hm_wf (events g)" "roster_wf (roster_history g)"
  shows "checkpoint_payload sha g' k rr sh = checkpoint_payload sha g k rr sh"
proof (cases "is_round_decided g k")
  case True
  then show ?thesis
    using same_commitment_payload [OF prune_same_commitment [OF assms] True] prune_frame(2) [OF assms(1)] by (simp add: is_round_decided_def)
next
  case False
  then show ?thesis using prune_frame(2) [OF assms(1)] by (simp add: checkpoint_payload_def is_round_decided_def)
qed

lemma prune_order_items:
  assumes "prune_before_round g t = Ok (g', pruned)" "t \<le> k" "hm_wf (events g)"
  shows "consensus_order g' k = consensus_order g k" "order_items g' (consensus_order g k) = order_items g (consensus_order g k)"
proof -
  show "consensus_order g' k = consensus_order g k" using prune_consensus_order [OF assms(1,3)] assms(2) by blast
  show "order_items g' (consensus_order g k) = order_items g (consensus_order g k)"
  proof (rule order_items_cong)
    fix h assume "h \<in> set (consensus_order g k)"
    then obtain r where r: "hg_get g h = Some r" "er_round_received r = Some k"
      by (auto simp: consensus_order_set round_received_def bind_eq_Some_conv)
    then have "h \<notin> set (prune_set g t)" using prune_set_iff [OF assms(3), of h t] assms(2) by (auto simp: expired_def)
    then show "hg_get g' h = hg_get g h" using prune_before_round_cases(2,5) [OF assms(1,3), of h] by simp
  qed
qed

lemma last_upto_recent:
  assumes "bt_wf m" "(q, v) \<in> set m" "lo \<le> q" "q \<le> k"
  shows "bt_last_upto k (filter (\<lambda>(r, _). r = 0 \<or> lo \<le> r) m) = bt_last_upto k m"
proof -
  obtain p where p: "bt_last_upto k m = Some p" using assms(2,4) by (cases "bt_last_upto k m") (auto simp: bt_last_upto_def last_opt_def filter_empty_conv split: if_splits)
  then have *: "p \<in> set m" "fst p \<le> k" "\<forall>q \<in> set m. fst q \<le> k \<longrightarrow> fst q \<le> fst p"
    using assms(1) by (simp_all add: bt_last_upto_Some_iff)
  then have "lo \<le> fst p" using assms(2-4) by fastforce
  then have "bt_last_upto k (filter (\<lambda>(r, _). r = 0 \<or> lo \<le> r) m) = Some p"
    using * assms(1) by (auto simp: bt_last_upto_Some_iff)
  with p show ?thesis by simp
qed

subsection \<open>The chain\<close>

lemma accept_base_payload:
  assumes "prune_before_round g (u64_saturating_sub r RETENTION_ROUNDS) = Ok (g', pruned)" "r \<le> k"
    and "hm_wf (events g)" "roster_wf (roster_history g)" "bt_wf m" "(q, v) \<in> set m" "lo \<le> q" "q \<le> r"
  shows "canonical_checkpoint_payload sha g' k (filter (\<lambda>(r, _). r = 0 \<or> lo \<le> r) m) = canonical_checkpoint_payload sha g k m"
proof -
  have t: "u64_saturating_sub r RETENTION_ROUNDS \<le> u64_saturating_sub k SIGNED_WINDOW_ROUNDS"
    using saturating_sub_le_mono [OF assms(2), of SIGNED_WINDOW_ROUNDS] by (simp add: RETENTION_ROUNDS_def)
  have "u64_saturating_sub r RETENTION_ROUNDS \<le> k" using saturating_sub_mono [OF assms(2)] .
  note o = prune_order_items [OF assms(1) this assms(3)]
  have h: "bt_last_upto k (filter (\<lambda>(r, _). r = 0 \<or> lo \<le> r) m) = bt_last_upto k m"
    using assms(2,8) by (intro last_upto_recent [OF assms(5-7)]) simp
  show ?thesis unfolding canonical_checkpoint_payload_def h o prune_checkpoint_payload [OF assms(1) t assms(3,4)] ..
qed

lemma find_snoc: "List.find P (xs @ [x]) = (case List.find P xs of None \<Rightarrow> if P x then Some x else None | Some y \<Rightarrow> Some y)"
  by (induction xs) auto

text \<open>
  \<open>base\<close> says that the unchained payloads above \<open>r\<close> agree; the chain at \<open>r + 1\<close> starts from the
  stored checkpoint on one side and from the rebuilt payload on the other.
\<close>

lemma chain_agrees:
  assumes base: "\<And>k. r < k \<Longrightarrow> canonical_checkpoint_payload sha g' k m' = canonical_checkpoint_payload sha g k m"
    and own: "canonical_checkpoint_payload_chained sha g r m scs = Ok (Some pl)" "signing_bytes (sc_payload sc) = signing_bytes pl"
    and sc: "sc_round sc = r" "\<forall>c \<in> set scs. sc_round c < r"
  shows "r < k \<Longrightarrow> canonical_checkpoint_payload_chained sha g' k m' (scs @ [sc]) = canonical_checkpoint_payload_chained sha g k m scs"
proof (induction "unat k" arbitrary: k rule: less_induct)
  case less
  have k0: "k \<noteq> 0" using less.prems by auto
  have none: "List.find (\<lambda>c. sc_round c = k - 1) scs = None"
  proof -
    have "r \<le> k - 1" using less.prems k0 by (simp add: word_le_nat_alt word_less_nat_alt unat_minus_one unat_gt_0)
    then show ?thesis using sc(2) by (fastforce simp: find_None_iff)
  qed
  have "prev_checkpoint_hash_for sha g' k m' (scs @ [sc]) = prev_checkpoint_hash_for sha g k m scs"
  proof (cases "k - 1 = r")
    case True
    have "prev_checkpoint_hash_for sha g' k m' (scs @ [sc]) = Ok (signing_bytes_hash sha (sc_payload sc))"
      using k0 none sc(1) True by (simp add: prev_checkpoint_hash_for.simps [of sha g'] Let_def find_snoc)
    moreover have "prev_checkpoint_hash_for sha g k m scs = Ok (signing_bytes_hash sha pl)"
      using k0 none own(1) True by (simp add: prev_checkpoint_hash_for.simps [of sha g] Let_def)
    ultimately show ?thesis using own(2) by (simp add: signing_bytes_hash_def)
  next
    case False
    have "r < k - 1"
      using False less.prems k0 word_unat_eq_iff [of "k - 1" r] by (simp add: word_less_nat_alt unat_minus_one unat_gt_0)
    moreover have "unat (k - 1) < unat k" by (rule unat_pred_less [OF k0])
    ultimately have "canonical_checkpoint_payload_chained sha g' (k - 1) m' (scs @ [sc]) = canonical_checkpoint_payload_chained sha g (k - 1) m scs"
      using less.hyps by blast
    then show ?thesis
      using k0 none False sc(1) by (simp add: prev_checkpoint_hash_for.simps [of sha g'] prev_checkpoint_hash_for.simps [of sha g] Let_def find_snoc)
  qed
  then show ?case
    using base [OF less.prems] by (simp add: canonical_checkpoint_payload_chained.simps [of sha g'] canonical_checkpoint_payload_chained.simps [of sha g])
qed

subsection \<open>Property\<close>

text \<open>
  Property C19. The chain is independent of local acceptance: when a node accepts a
  checkpoint for round \<open>r\<close> whose signing bytes are those of the payload it derives itself,
  then for every later round it derives the same chained payload after the acceptance, with
  the stored checkpoint, the pruned graph and the pruned state hashes, as before it. The one
  condition is that a state hash was recorded in one of the last rounds that the
  acceptance retains.
\<close>

theorem chain_independent_of_acceptance:
  assumes "accept_checkpoint K sha persist_ok sc snap ds n = Ok n'" "checkpoint_inv B sha n" "accepted_round n < sc_round sc"
    and "canonical_checkpoint_payload_chained sha (gn_hashgraph n) (sc_round sc) (gn_cumulative n) (gn_signed n) = Ok (Some pl)"
    and "signing_bytes (sc_payload sc) = signing_bytes pl" "bt_wf (gn_cumulative n)"
    and "(q, v) \<in> set (gn_cumulative n)" "u64_saturating_sub (sc_round sc) SNAPSHOT_RETENTION_ROUNDS \<le> q" "q \<le> sc_round sc"
    and "sc_round sc < k"
  shows "canonical_checkpoint_payload_chained sha (gn_hashgraph n') k (gn_cumulative n') (gn_signed n') =
    canonical_checkpoint_payload_chained sha (gn_hashgraph n) k (gn_cumulative n) (gn_signed n)"
  using assms(1)
proof (cases rule: accept_checkpoint_cases)
  case (accepted db0 db g pruned)
  have inv: "graph_ok B n" "signed_ok B n" using assms(2) by (simp_all add: checkpoint_inv_def)
  have g: "hm_wf (events (gn_hashgraph n))" "roster_wf (roster_history (gn_hashgraph n))" using inv(1) by (simp_all add: graph_ok_def Let_def)
  have n': "gn_hashgraph n' = g" "gn_signed n' = gn_signed n @ [sc]"
    "gn_cumulative n' = filter (\<lambda>(r, _). r = 0 \<or> u64_saturating_sub (sc_round sc) SNAPSHOT_RETENTION_ROUNDS \<le> r) (gn_cumulative n)"
    using record_accepted_signed [OF inv(2) assms(3)] unfolding accepted(5) by (simp_all add: record_accepted_def Let_def)
  have old: "\<forall>c \<in> set (gn_signed n). sc_round c < sc_round sc" using signed_le_accepted [OF inv(2)] assms(3) by (auto intro: le_less_trans)
  show ?thesis
    unfolding n' by (rule chain_agrees [OF accept_base_payload [OF accepted(4) less_imp_le g assms(6-9)] assms(4,5) refl old assms(10)])
qed simp

lemma sample_order_empty: "consensus_order sample_graph5 k = []"
  by (simp add: consensus_order_def all_event_hashes_def sample_graph5_fields)

lemma sample_canonical:
  assumes "1 \<le> k" "k \<le> 5"
  shows "\<exists>b. canonical_checkpoint_payload sample_sha sample_graph5 k [(0, h)] = Ok (Some b) \<and> ck_state_hash b = h"
proof -
  have w: "window_hashes sample_graph5 a k = []" for a by (simp add: window_hashes_def sample_order_empty)
  have "roster_wf (roster_history sample_graph5)" "snapshots_fit (roster_history sample_graph5)"
    by (simp_all add: sample_graph5_fields roster_wf_def bt_wf_Cons snapshots_fit_def registry_to_bytes_def sample_roster4_def insort_key.simps
        member_bytes_def encode_NodeId_def)
  then obtain root where "compute_roster_history_root sample_sha (roster_history sample_graph5) k SIGNED_WINDOW_ROUNDS = Ok root"
    using roster_root_total by blast
  moreover have "is_round_decided sample_graph5 k" using assms by (simp add: is_round_decided_def sample_graph5_fields)
  moreover have "bt_last_upto k [(0, h)] = Some (0, h)" by (simp add: bt_last_upto_def last_opt_def)
  ultimately show ?thesis
    using assms(1) by (simp add: canonical_checkpoint_payload_def sample_order_empty compute_records_root_def try_compute_records_root_def
        checkpoint_payload_def registry_at_round_def sample_roster_at try_compute_window_root_def w Let_def checkpoint_payload_new_def)
qed

theorem chain_independent_of_acceptance_witness:
  "\<exists>pl n. canonical_checkpoint_payload_chained sample_sha sample_graph5 1 (gn_cumulative sample_ckpt_node) [] = Ok (Some pl) \<and>
     accept_checkpoint list_keyspace sample_sha True \<lparr> sc_payload = pl, sc_aggregate_sig = [], sc_signers = [] \<rparr> [] [] sample_ckpt_node = Ok n \<and>
     canonical_checkpoint_payload_chained sample_sha (gn_hashgraph n) 2 (gn_cumulative n) (gn_signed n) =
       canonical_checkpoint_payload_chained sample_sha sample_graph5 2 (gn_cumulative sample_ckpt_node) []"
proof -
  have m: "gn_cumulative sample_ckpt_node = [(0, smt_root (smt_new sample_sha))]" by (simp add: sample_ckpt_node_def new_with_bls_def)
  obtain b where b: "canonical_checkpoint_payload sample_sha sample_graph5 1 [(0, smt_root (smt_new sample_sha))] = Ok (Some b)"
    using sample_canonical [of 1] by (auto simp: word_le_nat_alt)
  have "canonical_checkpoint_payload sample_sha sample_graph5 0 [(0, smt_root (smt_new sample_sha))] = Ok None"
    by (simp add: canonical_checkpoint_payload_def sample_order_empty compute_records_root_def try_compute_records_root_def
        checkpoint_payload_def is_round_decided_def sample_graph5_fields bt_last_upto_def last_opt_def word_le_nat_alt)
  then obtain pl where pl: "canonical_checkpoint_payload_chained sample_sha sample_graph5 1 [(0, smt_root (smt_new sample_sha))] [] = Ok (Some pl)"
    using b by (simp add: canonical_checkpoint_payload_chained.simps prev_checkpoint_hash_for.simps)
  let ?sc = "\<lparr> sc_payload = pl, sc_aggregate_sig = [], sc_signers = [] \<rparr>"
  have r: "sc_round ?sc = 1" using chained_payload [OF pl] by (simp add: sc_round_def)
  have "sc_round ?sc < next_round_to_order (gn_hashgraph sample_ckpt_node)"
    unfolding r by (simp add: sample_ckpt_node_fields sample_graph5_fields word_less_nat_alt)
  then obtain n where n: "accept_checkpoint list_keyspace sample_sha True ?sc [] [] sample_ckpt_node = Ok n" using accept_total by blast
  have "canonical_checkpoint_payload_chained sample_sha (gn_hashgraph n) 2 (gn_cumulative n) (gn_signed n) =
      canonical_checkpoint_payload_chained sample_sha (gn_hashgraph sample_ckpt_node) 2 (gn_cumulative sample_ckpt_node) (gn_signed sample_ckpt_node)"
    by (rule chain_independent_of_acceptance [OF n sample_ckpt_node_inv, where q = 0 and v = "smt_root (smt_new sample_sha)"])
      (use pl in \<open>simp_all add: r m sample_ckpt_node_fields word_less_nat_alt u64_saturating_sub_def SNAPSHOT_RETENTION_ROUNDS_def bt_wf_Cons\<close>)
  with pl n show ?thesis by (simp add: m sample_ckpt_node_fields)
qed

subsection \<open>When the condition fails\<close>

text \<open>
  If the last recorded state hash is older than the retained rounds, an acceptance drops it
  and the derivation falls back to the entry of round 0, the root of the empty state: the
  node would then sign a later round with a state hash that no longer is its own.
\<close>

lemma retention_falls_back:
  fixes k lo :: u64
  assumes "bt_wf m" "(0, h) \<in> set m" "\<forall>(q, _) \<in> set m. lo \<le> q \<longrightarrow> k < q" "0 < lo"
  shows "bt_last_upto k (filter (\<lambda>(r, _). r = 0 \<or> lo \<le> r) m) = Some (0, h)"
proof -
  have "fst q \<le> 0" if "q \<in> set m" "fst q = 0 \<or> lo \<le> fst q" "fst q \<le> k" for q
    using that assms(3) by (auto simp: case_prod_beta)
  with assms(1,2) show ?thesis by (auto simp: bt_last_upto_Some_iff case_prod_beta)
qed

lemma retention_changes_state_hash:
  "let n = sample_ckpt_node\<lparr> gn_cumulative := [(0, [1]), (2, [2])] \<rparr>; n' = record_accepted sample_signed5 [] n
   in bt_last_upto 6 (gn_cumulative n) = Some (2, [2]) \<and> bt_last_upto 6 (gn_cumulative n') = Some (0, [1])"
proof -
  have r: "sc_round sample_signed5 = 5" by (simp add: sc_round_def sample_signed5_def sample_payload5_fields)
  have lo: "u64_saturating_sub 5 SNAPSHOT_RETENTION_ROUNDS = 3" by (simp add: u64_saturating_sub_def SNAPSHOT_RETENTION_ROUNDS_def word_less_nat_alt)
  show ?thesis by (simp add: Let_def record_accepted_def r lo bt_last_upto_def last_opt_def word_le_nat_alt)
qed

end
