(* ===== verification/NodeFinalize.thy ===== *)
theory NodeFinalize
  imports NodeSafety
begin

section \<open>Finalized rounds\<close>

text \<open>
  \<^verbatim>\<open>process_finalized_rounds\<close> of \<^verbatim>\<open>protocol/gossip/src/node.rs\<close>, the pass after every sync: the
  ordered events are executed round by round, the membership operations whose activation round is decided admit their
  members, and a checkpoint is produced for every newly decided round. \<^verbatim>\<open>finalized_events\<close> is the function of
  \<^verbatim>\<open>executor/state/src/executor.rs\<close> that feeds it. \<open>PassStorage\<close> is a storage failure in the middle of an
  execution: the code logs it and goes on with whatever the failed writes left, which is not modelled.
\<close>

subsection \<open>The finalized events\<close>

definition finalized_events :: "Hashgraph \<Rightarrow> Event list" where
  "finalized_events g = List.map_filter (\<lambda>h. map_option er_event (hg_get g h))
     (concat (map (\<lambda>k. consensus_order g (of_nat k)) [1..<Suc (unat (max_ordered_round g))]))"

type_synonym finalized = "(Event \<times> u64 \<times> Timestamp option) list"

primrec collect_finalized :: "hash_fn \<Rightarrow> Hashgraph \<Rightarrow> Event list \<Rightarrow> (finalized, 'e) result" where
  "collect_finalized sha g [] = Ok []"
| "collect_finalized sha g (event # rest) =
     andThen (ok_or_panic (result_ok (hash_Event sha event))) (\<lambda>h.
     map_ok (\<lambda>fin. case round_received g h of None \<Rightarrow> fin | Some rr \<Rightarrow> (event, rr, consensus_timestamp g h) # fin)
       (collect_finalized sha g rest))"

primrec log_orderings :: "hash_fn \<Rightarrow> finalized \<Rightarrow> (NodeEffect list, 'e) result" where
  "log_orderings sha [] = Ok []"
| "log_orderings sha (f # fin) = (case f of (event, rr, ts) \<Rightarrow>
     andThen (ok_or_panic (result_ok (hash_Event sha event))) (\<lambda>h.
     map_ok ((#) (OrderingLogged h rr ts)) (log_orderings sha fin)))"

subsection \<open>Execution\<close>

definition by_round :: "finalized \<Rightarrow> (u64, (Event \<times> u64) list) btmap" where
  "by_round fin = fold (\<lambda>(event, rr, _) m. bt_insert rr (case_option [] id (map_of m rr) @ [(event, rr)]) m) fin []"

text \<open>What a pass has built up: the executor, the activation fields it borrows and the three maps by round.\<close>

record 'ks ExecPass =
  ep_executor :: "'ks Executor"
  ep_pending :: pending
  ep_through :: u64
  ep_hashes :: "(u64, bytes) btmap"
  ep_snapshots :: "(u64, bytes) btmap"
  ep_diffs :: round_diffs

definition merge_diffs :: "diffs \<Rightarrow> diffs \<Rightarrow> diffs" where
  "merge_diffs existing new = fold (\<lambda>(k, v). bt_insert k v) new (fold (\<lambda>(k, v). bt_insert k v) existing [])"

text \<open>The maps after a round, above or below the watermark that the pass started from.\<close>

definition record_round :: "u64 \<Rightarrow> u64 \<Rightarrow> bytes \<Rightarrow> bytes \<Rightarrow> bytes \<Rightarrow> diffs \<Rightarrow> 'ks ExecPass \<Rightarrow> 'ks ExecPass" where
  "record_round original_watermark round before_root after_root snap ds p =
     (if original_watermark < round then
        p\<lparr> ep_hashes := bt_insert round after_root (ep_hashes p),
           ep_snapshots := bt_insert round snap (ep_snapshots p),
           ep_diffs := bt_insert round ds (ep_diffs p) \<rparr>
      else
        let target = ep_through p;
            p = (if after_root \<noteq> before_root
                 then p\<lparr> ep_hashes := bt_insert target after_root (ep_hashes p),
                         ep_snapshots := bt_insert target snap (ep_snapshots p) \<rparr> else p)
        in if ds \<noteq> []
           then p\<lparr> ep_diffs := bt_insert target (merge_diffs (case_option [] id (map_of (ep_diffs p) target)) ds)
                      (bt_remove target (ep_diffs p)) \<rparr>
           else p)"

text \<open>The flag is \<open>False\<close> when the state could not be serialized, which ends the pass.\<close>

primrec execute_rounds ::
    "'ks keyspace_ops \<Rightarrow> crypto_lib \<Rightarrow> u64 \<Rightarrow> (u64 \<times> (Event \<times> u64) list) list \<Rightarrow> 'ks ExecPass \<Rightarrow> ('ks ExecPass \<times> bool, StateDbError) result" where
  "execute_rounds K C original_watermark [] p = Ok (p, True)"
| "execute_rounds K C original_watermark (re # rest) p = (case re of (round, evs) \<Rightarrow>
     andThen (bucket_finalized_with_diffs K C (ep_executor p) (ep_pending p) (ep_through p) evs) (\<lambda>(ex, pend, through, rds).
       let before_root = state_root (ex_state (ep_executor p));
           p = p\<lparr> ep_executor := ex, ep_pending := pend, ep_through := through \<rparr>
       in case state_to_bytes K (ex_state ex) of
            Panic \<Rightarrow> Panic
          | Err _ \<Rightarrow> Ok (p, False)
          | Ok snap \<Rightarrow> execute_rounds K C original_watermark rest
              (record_round original_watermark round before_root (state_root (ex_state ex)) snap (case_option [] id (map_of rds round)) p)))"

definition execute_pass ::
    "'ks keyspace_ops \<Rightarrow> crypto_lib \<Rightarrow> bytes \<Rightarrow> finalized \<Rightarrow> 'ks Executor \<Rightarrow> pending \<Rightarrow> u64 \<Rightarrow> ('ks ExecPass \<times> bool, StateDbError) result" where
  "execute_pass K C pre_batch_bytes fin ex pend through = execute_rounds K C through (by_round fin)
     \<lparr> ep_executor = ex, ep_pending = pend, ep_through = through,
       ep_hashes = [(0, state_root (ex_state ex))], ep_snapshots = [(0, pre_batch_bytes)], ep_diffs = [] \<rparr>"

subsection \<open>Activation\<close>

definition activate_op :: "hash_fn \<Rightarrow> bls_lib \<Rightarrow> u64 \<Rightarrow> MembershipOp \<Rightarrow> 'ks GossipNode \<Rightarrow> 'ks GossipNode hg_result" where
  "activate_op sha B activation_round op n = (case op of
     Remove _ \<Rightarrow> Ok n
   | Add node key bls_key pop addr reconnect_addr \<Rightarrow>
       if is_member (gn_hashgraph n) node then Ok n
       else if \<not> verify_pop_bytes B bls_key pop then Ok n
       else andThen (registry_at_round (gn_hashgraph n) activation_round) (\<lambda>reg.
            andThen (add_member (gn_hashgraph n) node activation_round (register reg node key bls_key)) (\<lambda>g.
            andThen (ok_or_panic (result_ok (encode_roster_history (roster_history g)))) (\<lambda>roster_bytes.
            Ok ((emit_if (event_sink (gn_sinks n)) (RosterLogged roster_bytes) n)\<lparr>
              gn_hashgraph := g,
              gn_registry := register (gn_registry n) node key bls_key,
              gn_peers := fst (add_peer_from_key sha (gn_peers n) node key addr reconnect_addr) \<rparr>)))))"

primrec activate_ops :: "hash_fn \<Rightarrow> bls_lib \<Rightarrow> u64 \<Rightarrow> MembershipOp list \<Rightarrow> 'ks GossipNode \<Rightarrow> 'ks GossipNode hg_result" where
  "activate_ops sha B activation_round [] n = Ok n"
| "activate_ops sha B activation_round (op # ops) n =
     andThen (activate_op sha B activation_round op n) (activate_ops sha B activation_round ops)"

definition take_ops :: "u64 \<Rightarrow> 'ks GossipNode \<Rightarrow> 'ks GossipNode" where
  "take_ops rr n = n\<lparr> gn_activation := (gn_activation n)\<lparr> act_pending := bt_remove rr (act_pending (gn_activation n)) \<rparr> \<rparr>"

primrec activate_rounds :: "hash_fn \<Rightarrow> bls_lib \<Rightarrow> u64 list \<Rightarrow> 'ks GossipNode \<Rightarrow> 'ks GossipNode hg_result" where
  "activate_rounds sha B [] n = Ok n"
| "activate_rounds sha B (rr # rrs) n =
     andThen (ok_or_panic (u64_checked_add rr 1)) (\<lambda>activation_round.
     if \<not> is_round_decided (gn_hashgraph n) activation_round then activate_rounds sha B rrs n
     else andThen (activate_ops sha B activation_round (case_option [] id (map_of (act_pending (gn_activation n)) rr)) (take_ops rr n))
       (activate_rounds sha B rrs))"

subsection \<open>The pass\<close>

datatype PassError = PassStorage StateDbError | PassConsensus ConsensusError

definition record_hashes :: "(u64, bytes) btmap \<Rightarrow> (u64, bytes) btmap \<Rightarrow> (u64, bytes) btmap" where
  "record_hashes state_hashes cumulative = fold (\<lambda>(round, hash) m. if round \<noteq> 0 then bt_insert round hash m else m) state_hashes cumulative"

definition store_pass :: "'ks ExecPass \<Rightarrow> 'ks GossipNode \<Rightarrow> 'ks GossipNode" where
  "store_pass p n = n\<lparr> gn_executor := ep_executor p,
     gn_activation := (gn_activation n)\<lparr> act_pending := ep_pending p, processed_through_round := ep_through p \<rparr> \<rparr>"

definition finish_pass ::
    "'ks keyspace_ops \<Rightarrow> hash_fn \<Rightarrow> bls_lib \<Rightarrow> (u64 \<Rightarrow> bool) \<Rightarrow> (u64, bytes) btmap \<Rightarrow> round_diffs \<Rightarrow> 'ks GossipNode \<Rightarrow> ('ks GossipNode, PassError) result" where
  "finish_pass K sha B persist_ok snaps dss n =
     map_ok arm_checkpoint_lag_reconnect
       (map_err PassConsensus (produce_pending_checkpoints K sha B persist_ok (gn_cumulative n) snaps dss n))"

definition process_finalized_rounds ::
    "'ks keyspace_ops \<Rightarrow> crypto_lib \<Rightarrow> bls_lib \<Rightarrow> (u64 \<Rightarrow> bool) \<Rightarrow> 'ks GossipNode \<Rightarrow> ('ks GossipNode, PassError) result" where
  "process_finalized_rounds K C B persist_ok n =
     andThen (collect_finalized (sha256 C) (gn_hashgraph n) (finalized_events (gn_hashgraph n))) (\<lambda>fin.
     andThen (if event_sink (gn_sinks n) then log_orderings (sha256 C) fin else Ok []) (\<lambda>logged.
     let n = n\<lparr> gn_trace := gn_trace n @ logged \<rparr> in
     case state_to_bytes K (ex_state (gn_executor n)) of
       Panic \<Rightarrow> Panic
     | Err _ \<Rightarrow> Ok n
     | Ok bytes \<Rightarrow>
         if fin \<noteq> [] then
           andThen (map_err PassStorage (execute_pass K C bytes fin (gn_executor n) (act_pending (gn_activation n))
             (processed_through_round (gn_activation n)))) (\<lambda>(p, complete).
           if \<not> complete then Ok (store_pass p n)
           else andThen (map_err PassConsensus (activate_rounds (sha256 C) B (map fst (ep_pending p)) (store_pass p n))) (\<lambda>n.
             finish_pass K (sha256 C) B persist_ok (ep_snapshots p) (ep_diffs p)
               (n\<lparr> gn_cumulative := record_hashes (ep_hashes p) (gn_cumulative n) \<rparr>)))
         else finish_pass K (sha256 C) B persist_ok [(0, bytes)] [] n))"

end
