(* ===== verification/TopoSort.thy ===== *)
theory TopoSort
  imports Insert
begin

section \<open>Ordering a transferred graph\<close>

text \<open>
  \<^verbatim>\<open>topo_sort_retained\<close> of \<^verbatim>\<open>protocol/gossip/src/node.rs\<close>: Kahn's algorithm over the records
  of a reconnect transfer. \<open>Ok None\<close> is the \<^verbatim>\<open>None\<close> of the code; \<open>Panic\<close> stands for an index out
  of range or a counter below zero, which cannot happen.
\<close>

text \<open>The index by hash: a later record with the same hash replaces an earlier one.\<close>

primrec hash_records :: "hash_fn \<Rightarrow> RetainedEvent list \<Rightarrow> EventHash list option" where
  "hash_records sha [] = Some []"
| "hash_records sha (rec # recs) = (case result_ok (hash_Event sha (re_event rec)) of
     None \<Rightarrow> None
   | Some h \<Rightarrow> map_option ((#) h) (hash_records sha recs))"

definition index_by_hash :: "EventHash list \<Rightarrow> (EventHash, nat) hmap" where
  "index_by_hash hs = fold (\<lambda>(h, i). AList.update h i) (zip hs [0..<length hs]) []"

text \<open>One entry per declared parent that is part of the transfer.\<close>

definition parent_indices :: "(EventHash, nat) hmap \<Rightarrow> RetainedEvent \<Rightarrow> nat list" where
  "parent_indices idx rec = List.map_filter (map_of idx) (event_parents (re_event rec))"

definition edge_list :: "(EventHash, nat) hmap \<Rightarrow> RetainedEvent list \<Rightarrow> (nat \<times> nat) list" where
  "edge_list idx recs = concat (map (\<lambda>(i, rec). map (\<lambda>p. (p, i)) (parent_indices idx rec)) (zip [0..<length recs] recs))"

text \<open>\<^verbatim>\<open>children[p].push(i); incoming[i] += 1\<close>.\<close>

primrec add_edges :: "(nat \<times> nat) list \<Rightarrow> nat list \<times> nat list list \<Rightarrow> (nat list \<times> nat list list) option" where
  "add_edges [] s = Some s"
| "add_edges (e # es) s = (case (e, s) of ((p, i), (incoming, kids)) \<Rightarrow>
     if p < length kids \<and> i < length incoming
     then add_edges es (incoming[i := incoming ! i + 1], kids[p := kids ! p @ [i]]) else None)"

text \<open>The loop over the children of a record.\<close>

primrec release :: "nat list \<Rightarrow> nat list \<times> nat list \<Rightarrow> (nat list \<times> nat list) option" where
  "release [] s = Some s"
| "release (c # cs) s = (case s of (incoming, ready) \<Rightarrow>
     if c < length incoming \<and> 0 < incoming ! c then
       let left = incoming ! c - 1
       in release cs (incoming[c := left], if left = 0 then ready @ [c] else ready)
     else None)"

lemma sum_list_update_nat: "c < length xs \<Longrightarrow> 0 < xs ! c \<Longrightarrow> sum_list (xs[c := xs ! c - 1]) + 1 = (sum_list xs :: nat)"
proof (induction xs arbitrary: c)
  case (Cons x xs)
  then show ?case by (cases c) auto
qed simp

lemma release_measure:
  "release cs (incoming, ready) = Some (incoming', ready') \<Longrightarrow>
   2 * sum_list incoming' + length ready' \<le> 2 * sum_list incoming + length ready"
proof (induction cs arbitrary: incoming ready)
  case (Cons c cs)
  let ?left = "incoming ! c - 1"
  let ?ready = "if ?left = 0 then ready @ [c] else ready"
  from Cons.prems have c: "c < length incoming" "0 < incoming ! c" and run: "release cs (incoming[c := ?left], ?ready) = Some (incoming', ready')"
    by (auto simp: Let_def split: if_splits)
  have "length ?ready \<le> length ready + 1" by simp
  with Cons.IH [OF run] sum_list_update_nat [OF c] show ?case by linarith
qed simp

text \<open>The queue: it ends because a release takes a count away for each index it adds.\<close>

function kahn :: "nat list list \<Rightarrow> nat list \<Rightarrow> nat list \<Rightarrow> nat list \<Rightarrow> nat list option" where
  "kahn kids incoming ready ord = (case ready of
     [] \<Rightarrow> Some ord
   | i # rest \<Rightarrow>
       if length kids \<le> i then None
       else case release (kids ! i) (incoming, rest) of
         None \<Rightarrow> None
       | Some (incoming', ready') \<Rightarrow> kahn kids incoming' ready' (ord @ [i]))"
  by pat_completeness auto
termination
  by (relation "measure (\<lambda>(_, incoming, ready, _). 2 * sum_list incoming + length ready)")
    (auto dest: release_measure)

declare kahn.simps [simp del]

definition topo_sort_retained :: "hash_fn \<Rightarrow> RetainedEvent list \<Rightarrow> nat list option hg_result" where
  "topo_sort_retained sha retained = (case hash_records sha retained of
     None \<Rightarrow> Ok None
   | Some hs \<Rightarrow>
       let n = length retained; idx = index_by_hash hs
       in andThen (ok_or_panic (add_edges (edge_list idx retained) (replicate n 0, replicate n []))) (\<lambda>(incoming, kids).
          andThen (ok_or_panic (kahn kids incoming (filter (\<lambda>i. incoming ! i = 0) [0..<n]) [])) (\<lambda>ord.
          Ok (if length ord = n then Some ord else None))))"

subsection \<open>The edges\<close>

lemma length_add_edges: "add_edges es (incoming, kids) = Some (incoming', kids') \<Longrightarrow> length incoming' = length incoming \<and> length kids' = length kids"
proof (induction es arbitrary: incoming kids)
  case (Cons e es)
  from Cons.prems Cons.IH show ?case by (force split: prod.splits if_splits)
qed simp

text \<open>\<open>kids\<close> lists the second components per first component, \<open>incoming\<close> counts the first ones per second.\<close>

definition targets :: "(nat \<times> nat) list \<Rightarrow> nat \<Rightarrow> nat list" where
  "targets es p = map snd (filter (\<lambda>e. fst e = p) es)"

definition sources :: "(nat \<times> nat) list \<Rightarrow> nat \<Rightarrow> nat list" where
  "sources es c = map fst (filter (\<lambda>e. snd e = c) es)"

lemma add_edges_spec:
  "\<forall>(p, c) \<in> set es. p < n \<and> c < n \<Longrightarrow> length incoming = n \<Longrightarrow> length kids = n \<Longrightarrow>
   \<exists>incoming' kids'. add_edges es (incoming, kids) = Some (incoming', kids') \<and> length incoming' = n \<and> length kids' = n \<and>
     (\<forall>c < n. incoming' ! c = incoming ! c + length (sources es c)) \<and> (\<forall>p < n. kids' ! p = kids ! p @ targets es p)"
proof (induction es arbitrary: incoming kids)
  case (Cons e es)
  obtain p i where e: "e = (p, i)" by (cases e)
  let ?inc = "incoming[i := incoming ! i + 1]" and ?kids = "kids[p := kids ! p @ [i]]"
  have pi: "p < n" "i < n" using Cons.prems(1) e by auto
  obtain incoming' kids' where r: "add_edges es (?inc, ?kids) = Some (incoming', kids')" "length incoming' = n" "length kids' = n"
     "\<forall>c < n. incoming' ! c = ?inc ! c + length (sources es c)" "\<forall>p < n. kids' ! p = ?kids ! p @ targets es p"
    using Cons.IH [of ?inc ?kids] Cons.prems by auto
  have "incoming' ! c = incoming ! c + length (sources (e # es) c)" if "c < n" for c
    using r(4) that pi Cons.prems(2) by (auto simp: e sources_def nth_list_update)
  moreover have "kids' ! q = kids ! q @ targets (e # es) q" if "q < n" for q
    using r(5) that pi Cons.prems(3) by (auto simp: e targets_def nth_list_update)
  ultimately show ?case using r(1-3) pi Cons.prems(2,3) by (simp add: e)
qed (simp add: sources_def targets_def)

subsection \<open>A release\<close>

lemma release_spec:
  "\<forall>c \<in> set cs. c < length incoming \<Longrightarrow> \<forall>c. count_list cs c \<le> incoming ! c \<or> length incoming \<le> c \<Longrightarrow>
   \<exists>incoming' fresh. release cs (incoming, ready) = Some (incoming', ready @ fresh) \<and> length incoming' = length incoming \<and>
     (\<forall>c < length incoming. incoming' ! c = incoming ! c - count_list cs c) \<and>
     distinct fresh \<and> set fresh = {c \<in> set cs. incoming ! c = count_list cs c}"
proof (induction cs arbitrary: incoming ready)
  case (Cons c cs)
  let ?left = "incoming ! c - 1"
  let ?inc = "incoming[c := ?left]" and ?ready = "if ?left = 0 then ready @ [c] else ready"
  have c: "c < length incoming" "0 < incoming ! c" using Cons.prems(1,2) by (auto simp: not_le dest: spec [of _ c])
  have count: "count_list cs d \<le> ?inc ! d" if "d < length incoming" for d
    using spec [OF Cons.prems(2), of d] that c(1) by (auto simp: nth_list_update split: if_splits)
  then have count': "\<forall>d. count_list cs d \<le> ?inc ! d \<or> length ?inc \<le> d" by (metis length_list_update not_le)
  obtain incoming' fresh where r: "release cs (?inc, ?ready) = Some (incoming', ?ready @ fresh)" "length incoming' = length incoming"
     "\<forall>d < length incoming. incoming' ! d = ?inc ! d - count_list cs d" "distinct fresh" "set fresh = {d \<in> set cs. ?inc ! d = count_list cs d}"
    using Cons.IH [of ?inc ?ready] Cons.prems(1) count' by auto
  let ?fresh = "if ?left = 0 then c # fresh else fresh"
  have z: "count_list cs c = 0" if "?left = 0" using count [OF c(1)] that c(1) by simp
  have "c \<notin> set fresh" if "?left = 0" using z [OF that] r(5) by (auto simp: count_list_0_iff)
  then have "distinct ?fresh" using r(4) by simp
  moreover have "set ?fresh = {d \<in> set (c # cs). incoming ! d = count_list (c # cs) d}"
  proof -
    have "d \<in> set ?fresh \<longleftrightarrow> d \<in> set (c # cs) \<and> incoming ! d = count_list (c # cs) d" for d
    proof (cases "d = c")
      case True
      have eq: "incoming ! c = count_list (c # cs) c \<longleftrightarrow> ?left = count_list cs c" using c(2) by auto
      have "c \<in> set fresh \<longleftrightarrow> c \<in> set cs \<and> ?left = count_list cs c" using r(5) c(1) by simp
      moreover have "c \<in> set cs" if "count_list cs c \<noteq> 0" using that by (meson count_list_0_iff)
      ultimately show ?thesis unfolding True eq using z by (cases "?left = 0") auto
    next
      case False
      then have "d \<in> set fresh \<longleftrightarrow> d \<in> set cs \<and> incoming ! d = count_list cs d" using r(5) by simp
      with False show ?thesis by simp
    qed
    then show ?thesis by blast
  qed
  moreover have "incoming' ! d = incoming ! d - count_list (c # cs) d" if "d < length incoming" for d
    using r(3) that c(1) by (auto simp: nth_list_update)
  ultimately show ?case using r(1,2) c by (intro exI [of _ incoming'] exI [of _ ?fresh]) (simp add: Let_def)
qed simp

subsection \<open>The queue\<close>

text \<open>
  Between two rounds of the queue: the counters count the edges from records not yet ordered,
  exactly the records without such an edge are ordered or waiting, and the order so far has
  parents first.
\<close>

definition kahn_inv :: "(nat \<times> nat) list \<Rightarrow> nat \<Rightarrow> nat list \<Rightarrow> nat list \<Rightarrow> nat list \<Rightarrow> bool" where
  "kahn_inv es n incoming ready ord \<longleftrightarrow> length incoming = n \<and> distinct (ord @ ready) \<and>
     set (ord @ ready) = {c. c < n \<and> incoming ! c = 0} \<and>
     (\<forall>c < n. incoming ! c = length (filter (\<lambda>p. p \<notin> set ord) (sources es c))) \<and>
     (\<forall>xs c ys. ord = xs @ c # ys \<longrightarrow> set (sources es c) \<subseteq> set xs)"

lemma count_targets: "count_list (targets es p) c = count_list (sources es c) p"
  by (induction es) (auto simp: targets_def sources_def)

lemma length_filter_insert:
  "i \<notin> A \<Longrightarrow> length (filter (\<lambda>p. p \<notin> A) xs) = length (filter (\<lambda>p. p \<notin> insert i A) xs) + count_list xs i"
  by (induction xs) auto

lemma kahn_step:
  assumes "kahn_inv es n incoming (i # rest) ord" "\<forall>(p, c) \<in> set es. p < n \<and> c < n" "kids ! i = targets es i"
  shows "\<exists>incoming' ready'. release (kids ! i) (incoming, rest) = Some (incoming', ready') \<and> kahn_inv es n incoming' ready' (ord @ [i]) \<and> i < n"
proof -
  note inv = assms(1) [unfolded kahn_inv_def]
  have i: "i < n" "incoming ! i = 0" "i \<notin> set ord" using inv by auto
  let ?cs = "targets es i"
  have inc: "incoming ! c = length (filter (\<lambda>p. p \<notin> insert i (set ord)) (sources es c)) + count_list ?cs c" if "c < n" for c
    using inv that length_filter_insert [OF i(3)] by (simp add: count_targets)
  have "\<forall>c \<in> set ?cs. c < length incoming" using assms(2) inv by (auto simp: targets_def)
  moreover have "\<forall>c. count_list ?cs c \<le> incoming ! c \<or> length incoming \<le> c" using inc inv by (metis le_add2 not_le)
  ultimately obtain incoming' fresh where r: "release ?cs (incoming, rest) = Some (incoming', rest @ fresh)" "length incoming' = length incoming"
     "\<forall>c < length incoming. incoming' ! c = incoming ! c - count_list ?cs c" "distinct fresh" "set fresh = {c \<in> set ?cs. incoming ! c = count_list ?cs c}"
    using release_spec by blast
  have inc': "incoming' ! c = length (filter (\<lambda>p. p \<notin> set (ord @ [i])) (sources es c))" if "c < n" for c
  proof -
    have "incoming' ! c = incoming ! c - count_list ?cs c" using r(3) inv that by simp
    also have "\<dots> = length (filter (\<lambda>p. p \<notin> insert i (set ord)) (sources es c))" unfolding inc [OF that] by simp
    finally show ?thesis by simp
  qed
  have fresh: "c \<in> set fresh \<longleftrightarrow> c < n \<and> incoming ! c \<noteq> 0 \<and> incoming' ! c = 0" for c
    using r(5) r(3) inv assms(2) count_list_0_iff [of ?cs c] inc [of c] by (auto simp: targets_def)
  have zero: "incoming' ! c = 0" if "c < n" "incoming ! c = 0" for c using r(3) that inv by simp
  have all: "set (ord @ i # rest) = {c. c < n \<and> incoming ! c = 0}" and d: "distinct (ord @ i # rest)" using inv by blast+
  then have "set (ord @ i # rest) \<inter> set fresh = {}" using fresh by blast
  then have "distinct ((ord @ [i]) @ rest @ fresh)" using d r(4) by auto
  moreover have "set ((ord @ [i]) @ rest @ fresh) = {c. c < n \<and> incoming' ! c = 0}"
  proof -
    have "set ((ord @ [i]) @ rest @ fresh) = {c. c < n \<and> incoming ! c = 0} \<union> set fresh" unfolding all [symmetric] by auto
    also have "\<dots> = {c. c < n \<and> incoming' ! c = 0}" using fresh zero by blast
    finally show ?thesis .
  qed
  moreover have "set (sources es c) \<subseteq> set xs" if "ord @ [i] = xs @ c # ys" for xs c ys
  proof (cases ys rule: rev_cases)
    case Nil
    then have "xs = ord" "c = i" using that by auto
    moreover have "filter (\<lambda>p. p \<notin> set ord) (sources es i) = []" using inv i by (metis length_0_conv)
    ultimately show ?thesis by (auto simp: filter_empty_conv)
  next
    case (snoc zs z)
    then have "ord = xs @ c # zs" using that by simp
    then show ?thesis using inv by blast
  qed
  ultimately have "kahn_inv es n incoming' (rest @ fresh) (ord @ [i])" unfolding kahn_inv_def using inc' r(2) inv by (intro conjI) blast+
  then show ?thesis using r(1) i(1) assms(3) by simp
qed

lemma kahn_correct:
  "kahn_inv es n incoming ready ord \<Longrightarrow> \<forall>(p, c) \<in> set es. p < n \<and> c < n \<Longrightarrow> length kids = n \<Longrightarrow> \<forall>p < n. kids ! p = targets es p \<Longrightarrow>
   \<exists>ord' incoming'. kahn kids incoming ready ord = Some ord' \<and> kahn_inv es n incoming' [] ord'"
proof (induction kids incoming ready ord rule: kahn.induct)
  case (1 kids incoming ready ord)
  show ?case
  proof (cases ready)
    case Nil
    with 1(2) show ?thesis by (auto simp: kahn.simps [of kids])
  next
    case (Cons i rest)
    have "i < n" using 1(2) Cons by (auto simp: kahn_inv_def)
    then obtain incoming' ready' where r: "release (kids ! i) (incoming, rest) = Some (incoming', ready')" "kahn_inv es n incoming' ready' (ord @ [i])"
      using kahn_step [of es n incoming i rest ord kids] 1(2-5) Cons by auto
    have "\<not> length kids \<le> i" using \<open>i < n\<close> 1(4) by simp
    from 1(1) [OF Cons this r(1) refl r(2) 1(3-5)] show ?thesis
      using Cons r(1) \<open>\<not> length kids \<le> i\<close> by (simp add: kahn.simps [of kids incoming])
  qed
qed

subsection \<open>The order\<close>

text \<open>
  The parent relation of a transfer: record \<open>p\<close> is the last one with a hash that record \<open>c\<close> names
  as a parent. \<open>parents_first\<close> is the order \<^verbatim>\<open>insert_accepted\<close> needs.
\<close>

definition transfer_edges :: "EventHash list \<Rightarrow> RetainedEvent list \<Rightarrow> (nat \<times> nat) set" where
  "transfer_edges hs recs = {(p, c). p < length hs \<and> c < length recs \<and> hs ! p \<in> set (event_parents (re_event (recs ! c))) \<and>
     hs ! p \<notin> set (drop (Suc p) hs)}"

definition parents_first :: "('a \<times> 'a) set \<Rightarrow> 'a list \<Rightarrow> bool" where
  "parents_first R ord \<longleftrightarrow> (\<forall>xs c ys. ord = xs @ c # ys \<longrightarrow> {p. (p, c) \<in> R} \<subseteq> set xs)"

lemma index_by_hash_snoc: "index_by_hash (hs @ [h]) = AList.update h (length hs) (index_by_hash hs)"
  by (simp add: index_by_hash_def)

lemma map_of_index_by_hash: "map_of (index_by_hash hs) h = Some p \<longleftrightarrow> p < length hs \<and> hs ! p = h \<and> h \<notin> set (drop (Suc p) hs)"
proof (induction hs rule: rev_induct)
  case (snoc x hs)
  show ?case
  proof (cases "x = h")
    case True
    then show ?thesis by (auto simp: index_by_hash_snoc update_conv' less_Suc_eq nth_append)
  next
    case False
    then show ?thesis using snoc by (auto simp: index_by_hash_snoc update_conv' less_Suc_eq nth_append)
  qed
qed (simp add: index_by_hash_def)

lemma hash_records_length: "hash_records sha recs = Some hs \<Longrightarrow> length hs = length recs"
  by (induction recs arbitrary: hs) (auto split: option.splits)

lemma set_parent_indices: "set (parent_indices idx rec) = {p. \<exists>h \<in> set (event_parents (re_event rec)). map_of idx h = Some p}"
  by (auto simp: parent_indices_def List.map_filter_def image_iff) force

lemma set_edge_list: "set (edge_list (index_by_hash hs) recs) = transfer_edges hs recs"
proof -
  have "(p, c) \<in> set (edge_list idx recs) \<longleftrightarrow> c < length recs \<and> p \<in> set (parent_indices idx (recs ! c))" for p c idx
    by (fastforce simp: edge_list_def set_zip)
  then show ?thesis by (auto simp: transfer_edges_def set_parent_indices map_of_index_by_hash)
qed

lemma set_sources: "set (sources es c) = {p. (p, c) \<in> set es}"
  by (force simp: sources_def)

lemma parents_first_acyclic:
  assumes "parents_first R ord" "\<And>p c. (p, c) \<in> R \<Longrightarrow> c \<in> set ord"
  shows "acyclic R"
proof -
  let ?at = "\<lambda>c. length (takeWhile (\<lambda>x. x \<noteq> c) ord)"
  have "?at p < ?at c" if pc: "(p, c) \<in> R" for p c
  proof -
    obtain xs ys where o: "ord = xs @ c # ys" "c \<notin> set xs" using assms(2) [OF pc] split_list_first by metis
    then have "p \<in> set xs" using assms(1) pc by (auto simp: parents_first_def)
    then obtain us vs where "xs = us @ p # vs" "p \<notin> set us" using split_list_first by metis
    then show ?thesis using o by (auto simp: takeWhile_append)
  qed
  then have "R \<subseteq> measure ?at" by auto
  then show ?thesis using wf_acyclic [OF wf_measure] acyclic_subset by blast
qed

lemma kahn_inv_final:
  assumes inv: "kahn_inv es n incoming [] ord" and es: "\<forall>(p, c) \<in> set es. p < n \<and> c < n"
  shows "length ord = n \<longleftrightarrow> acyclic (set es)" "parents_first (set es) ord" "distinct ord" "set ord \<subseteq> {..<n}"
proof -
  have cnt: "\<forall>c < n. incoming ! c = length (filter (\<lambda>p. p \<notin> set ord) (sources es c))" and zeros: "set ord = {c. c < n \<and> incoming ! c = 0}"
    using inv unfolding kahn_inv_def by (blast, simp)
  show pf: "parents_first (set es) ord" and d: "distinct ord" and s: "set ord \<subseteq> {..<n}"
    using inv unfolding kahn_inv_def parents_first_def set_sources by (blast, simp, auto)
  have all: "length ord = n \<longleftrightarrow> set ord = {..<n}"
    using d s by (metis card_lessThan card_subset_eq distinct_card finite_lessThan)
  have "acyclic (set es)" if "set ord = {..<n}" using parents_first_acyclic [OF pf] es that by auto
  moreover have "c \<in> set ord" if "acyclic (set es)" "c < n" for c
    using finite_acyclic_wf [OF finite_set that(1)] that(2)
  proof (induction c rule: wf_induct_rule)
    case (less c)
    have "set (sources es c) \<subseteq> set ord" using less.IH es by (auto simp: set_sources)
    then have "filter (\<lambda>p. p \<notin> set ord) (sources es c) = []" by (auto simp: filter_empty_conv)
    then have "incoming ! c = 0" using cnt less.prems by simp
    then show ?case using zeros less.prems by simp
  qed
  ultimately show "length ord = n \<longleftrightarrow> acyclic (set es)" using all s by auto
qed

lemma kahn_inv_start:
  assumes "length incoming = n" "\<forall>c < n. incoming ! c = length (sources es c)"
  shows "kahn_inv es n incoming (filter (\<lambda>i. incoming ! i = 0) [0..<n]) []"
  using assms by (auto simp: kahn_inv_def)

lemma topo_sort_spec:
  "\<exists>r. topo_sort_retained sha retained = Ok r \<and> (case hash_records sha retained of
     None \<Rightarrow> r = None
   | Some hs \<Rightarrow> if acyclic (transfer_edges hs retained)
       then \<exists>ord. r = Some ord \<and> mset ord = mset [0..<length retained] \<and> parents_first (transfer_edges hs retained) ord
       else r = None)"
proof (cases "hash_records sha retained")
  case (Some hs)
  let ?n = "length retained" and ?es = "edge_list (index_by_hash hs) retained"
  have es: "\<forall>(p, c) \<in> set ?es. p < ?n \<and> c < ?n"
    using hash_records_length [OF Some] by (auto simp: set_edge_list transfer_edges_def)
  then obtain incoming kids where e: "add_edges ?es (replicate ?n 0, replicate ?n []) = Some (incoming, kids)" "length incoming = ?n" "length kids = ?n"
     "\<forall>c < ?n. incoming ! c = length (sources ?es c)" "\<forall>p < ?n. kids ! p = targets ?es p"
    using add_edges_spec [of ?es ?n "replicate ?n 0" "replicate ?n []"] by auto
  obtain ord incoming' where k: "kahn kids incoming (filter (\<lambda>i. incoming ! i = 0) [0..<?n]) [] = Some ord" "kahn_inv ?es ?n incoming' [] ord"
    using kahn_correct [OF kahn_inv_start [OF e(2,4)] es e(3,5)] by blast
  note final = kahn_inv_final [OF k(2) es, unfolded set_edge_list]
  have "mset ord = mset [0..<?n]" if "length ord = ?n"
  proof -
    have "card (set ord) = card {..<?n}" using distinct_card [OF final(3)] that by simp
    then have "set ord = {..<?n}" using final(4) card_subset_eq [OF finite_lessThan] by blast
    then have "set ord = set [0..<?n]" by (simp only: set_upt lessThan_atLeast0)
    then show ?thesis using set_eq_iff_mset_eq_distinct [OF final(3) distinct_upt] by blast
  qed
  then show ?thesis using Some e(1) k(1) final(1,2) by (auto simp: topo_sort_retained_def ok_or_panic_def)
qed (simp add: topo_sort_retained_def)

text \<open>
  Property C26. Sorting the records of a transfer always ends and never panics. The result is
  \<^verbatim>\<open>None\<close> exactly when an event cannot be hashed or the parent relation of the transfer has a
  cycle; otherwise it is an order of all the records, each once, in which every parent that is part
  of the transfer comes before its child.
\<close>

theorem topo_sort_exact:
  "\<exists>r. topo_sort_retained sha retained = Ok r \<and> (case hash_records sha retained of
     None \<Rightarrow> r = None
   | Some hs \<Rightarrow> if acyclic (transfer_edges hs retained)
       then \<exists>ord. r = Some ord \<and> mset ord = mset [0..<length retained] \<and> parents_first (transfer_edges hs retained) ord
       else r = None)"
  by (rule topo_sort_spec)

end
