(* ===== verification/NodeReconnect.thy ===== *)
theory NodeReconnect
  imports NodeSafety TopoSort
begin

section \<open>Reconnecting from a checkpoint\<close>

text \<open>
  Both sides of a reconnect in \<^verbatim>\<open>protocol/gossip/src/node.rs\<close>: what a node serves to a learner
  (\<^verbatim>\<open>handle_reconnect_inbound\<close>), the check of the client
  (\<^verbatim>\<open>protocol/gossip/src/reconnect.rs\<close>) and the loading of a response
  (\<^verbatim>\<open>apply_checkpoint\<close>). \<^verbatim>\<open>ReconnectResponse\<close> is the struct of
  \<^verbatim>\<open>protocol/gossip/src/proto.rs\<close>. The TLS connection that carries the frames is not modelled.
\<close>

record ReconnectResponse =
  rr_checkpoint :: SignedCheckpoint
  rr_state_bytes :: bytes
  rr_roster_history_bytes :: bytes
  rr_decided_round :: u64
  rr_retained :: "RetainedEvent list"
  rr_last_timestamp :: u64

subsection \<open>Serving\<close>

definition select_checkpoint_for_learner :: "'ks GossipNode \<Rightarrow> SignedCheckpoint option" where
  "select_checkpoint_for_learner n = last_opt (gn_signed n)"

text \<open>\<open>Ok None\<close> when the connection is closed without a response.\<close>

definition serve_reconnect :: "'ks keyspace_ops \<Rightarrow> 'ks GossipNode \<Rightarrow> ReconnectResponse option hg_result" where
  "serve_reconnect K n = (case select_checkpoint_for_learner n of
     None \<Rightarrow> Ok None
   | Some checkpoint \<Rightarrow> (case bt_last_upto (sc_round checkpoint) (gn_snapshots n) of
       None \<Rightarrow> Ok None
     | Some (_, snap) \<Rightarrow> (case canonical_roster_history (roster_history (gn_hashgraph n)) (sc_round checkpoint) SIGNED_WINDOW_ROUNDS of
         None \<Rightarrow> Ok None
       | Some canonical \<Rightarrow>
           map_ok (\<lambda>roster_history_bytes. Some \<lparr>
               rr_checkpoint = checkpoint,
               rr_state_bytes = snap,
               rr_roster_history_bytes = roster_history_bytes,
               rr_decided_round = highest_decided_round (gn_hashgraph n),
               rr_retained = retained_events (gn_hashgraph n),
               rr_last_timestamp = (case watermark K (gn_state_db n) of Ok (Some w) \<Rightarrow> w | _ \<Rightarrow> gn_last_timestamp n) \<rparr>)
             (ok_or_panic (result_ok (encode_roster_history canonical))))))"

definition verify_signed_checkpoint :: "bls_lib \<Rightarrow> SignedCheckpoint \<Rightarrow> bytes \<Rightarrow> bool" where
  "verify_signed_checkpoint B checkpoint expected_roster_hash =
     (if ck_roster_hash (sc_payload checkpoint) \<noteq> expected_roster_hash then False
      else verify_SignedCheckpoint B checkpoint)"

subsection \<open>Validation\<close>

text \<open>
  A validation step that fails rejects the response; a panic stays a panic. \<open>Ok None\<close> is the
  \<^verbatim>\<open>return false\<close> of the code before anything is touched.
\<close>

definition or_reject :: "('a, 'e) result \<Rightarrow> ('a \<Rightarrow> 'b option hg_result) \<Rightarrow> 'b option hg_result" where
  "or_reject r f = (case r of Ok x \<Rightarrow> f x | Err _ \<Rightarrow> Ok None | Panic \<Rightarrow> Panic)"

definition or_none :: "'a option \<Rightarrow> ('a \<Rightarrow> 'b option hg_result) \<Rightarrow> 'b option hg_result" where
  "or_none r f = (case r of Some x \<Rightarrow> f x | None \<Rightarrow> Ok None)"

definition require :: "bool \<Rightarrow> 'b option hg_result \<Rightarrow> 'b option hg_result" where
  "require b r = (if b then r else Ok None)"

text \<open>Steps 2 to 3b: the roster history, the roster of the round, the own key.\<close>

definition validate_roster ::
    "crypto_lib \<Rightarrow> 'ks GossipNode \<Rightarrow> CheckpointPayload \<Rightarrow> bytes \<Rightarrow> RosterHistory option hg_result" where
  "validate_roster C n p roster_history_bytes =
     or_none (decode_roster_history C roster_history_bytes) (\<lambda>rh.
     andThen (ok_or_panic (roster_for_round rh (ck_round p))) (\<lambda>roster_at_cp.
     require (hash_registry (sha256 C) roster_at_cp = ck_roster_hash p) (
     or_reject (compute_roster_history_root (sha256 C) rh (ck_round p) SIGNED_WINDOW_ROUNDS) (\<lambda>root.
     require (root = ck_roster_history_root p) (
     or_reject (key_for (ck_roster_snapshot p) (gn_node_id n)) (\<lambda>key.
     require (key = gn_verifying_key n) (Ok (Some rh))))))))"

text \<open>Step 4: the signatures; \<^verbatim>\<open>verified.into_inner()\<close> is the event itself.\<close>

primrec verify_retained :: "crypto_lib \<Rightarrow> MembershipRegistry \<Rightarrow> RetainedEvent list \<Rightarrow> RetainedEvent list option hg_result" where
  "verify_retained C roster [] = Ok (Some [])"
| "verify_retained C roster (rec # recs) =
     or_reject (verify_Event C (re_event rec) roster) (\<lambda>verified.
     map_ok (map_option ((#) (rec\<lparr> re_event := into_inner verified \<rparr>))) (verify_retained C roster recs))"

text \<open>Step 5: the bounds of the watermark.\<close>

definition max_retained_round :: "u64 \<Rightarrow> RetainedEvent list \<Rightarrow> u64" where
  "max_retained_round cp_round recs = (if recs = [] then cp_round else fold max (map re_round recs) 0)"

definition decided_round_ok :: "u64 \<Rightarrow> u64 \<Rightarrow> RetainedEvent list \<Rightarrow> bool" where
  "decided_round_ok cp_round decided_round recs \<longleftrightarrow>
     \<not> (decided_round < cp_round \<or> max_retained_round cp_round recs < decided_round \<or>
        (of_nat (length recs) :: u64) < decided_round - cp_round)"

text \<open>Step 7: each record is taken out of its slot and inserted.\<close>

primrec load_records ::
    "hash_fn \<Rightarrow> u64 \<Rightarrow> nat list \<Rightarrow> RetainedEvent option list \<Rightarrow> Hashgraph \<Rightarrow> Hashgraph option hg_result" where
  "load_records sha decided_round [] slots g = Ok (Some g)"
| "load_records sha decided_round (index # order) slots g =
     (if length slots \<le> index then Panic
      else or_none (slots ! index) (\<lambda>rec.
        or_reject (insert_accepted sha g rec decided_round) (\<lambda>(g', _).
        load_records sha decided_round order (slots[index := None]) g')))"

definition validate_window :: "hash_fn \<Rightarrow> CheckpointPayload \<Rightarrow> RetainedEvent list \<Rightarrow> Hashgraph \<Rightarrow> Hashgraph option hg_result" where
  "validate_window sha p retained g =
     (if retained = [] then Ok (Some g)
      else or_reject (try_compute_window_root sha g (ck_round p) SIGNED_WINDOW_ROUNDS) (\<lambda>root.
        require (root = ck_window_root p) (Ok (Some g))))"

definition build_graph ::
    "hash_fn \<Rightarrow> CheckpointPayload \<Rightarrow> RosterHistory \<Rightarrow> u64 \<Rightarrow> RetainedEvent list \<Rightarrow> Hashgraph option hg_result" where
  "build_graph sha p rh decided_round recs =
     andThen (topo_sort_retained sha recs) (\<lambda>ord. or_none ord (\<lambda>ord.
     or_none (canonical_roster_history rh (ck_round p) SIGNED_WINDOW_ROUNDS) (\<lambda>canonical.
     andThen (load_records sha decided_round ord (map Some recs) (from_checkpoint p canonical)) (\<lambda>g. or_none g (\<lambda>g.
     or_reject (mark_decided_through g decided_round) (\<lambda>g.
     validate_window sha p recs g))))))"

definition validate_response :: "crypto_lib \<Rightarrow> 'ks GossipNode \<Rightarrow> ReconnectResponse \<Rightarrow> Hashgraph option hg_result" where
  "validate_response C n resp =
     (let p = sc_payload (rr_checkpoint resp)
      in or_none (root_of_bytes (sha256 C) (rr_state_bytes resp)) (\<lambda>verified_root.
         require (verified_root = ck_state_hash p) (
         andThen (validate_roster C n p (rr_roster_history_bytes resp)) (\<lambda>rh. or_none rh (\<lambda>rh.
         andThen (verify_retained C (ck_roster_snapshot p) (rr_retained resp)) (\<lambda>recs. or_none recs (\<lambda>recs.
         require (decided_round_ok (ck_round p) (rr_decided_round resp) recs) (
         build_graph (sha256 C) p rh (rr_decided_round resp) recs))))))))"

subsection \<open>Commitment\<close>

text \<open>Steps 9 to 14. No step can fail; a watermark that cannot be written is logged only.\<close>

definition append_records :: "NodeSinks \<Rightarrow> RetainedEvent list \<Rightarrow> NodeEffect list" where
  "append_records s recs = concat (map (\<lambda>rec.
     (if event_sink s then [EventLogged rec] else []) @ (if event_stream_sink s then [EventStreamed rec] else [])) recs)"

definition own_timestamp :: "NodeId \<Rightarrow> RetainedEvent list \<Rightarrow> u64" where
  "own_timestamp node recs =
     fold max (map (\<lambda>rec. ts_get (ev_timestamp (re_event rec))) (filter (\<lambda>rec. ev_creator (re_event rec) = node) recs)) 0"

definition commit_checkpoint ::
    "'ks keyspace_ops \<Rightarrow> hash_fn \<Rightarrow> 'ks StateDb \<Rightarrow> 'ks State \<Rightarrow> Hashgraph \<Rightarrow> ReconnectResponse \<Rightarrow> 'ks GossipNode \<Rightarrow> 'ks GossipNode" where
  "commit_checkpoint K sha db st g resp n =
     (let checkpoint = rr_checkpoint resp; p = sc_payload checkpoint; cp_round = ck_round p; s = gn_sinks n;
          current = max (gn_last_timestamp n) (max (rr_last_timestamp resp) (own_timestamp (gn_node_id n) (rr_retained resp)));
          db = (case set_watermark K db current of Ok db \<Rightarrow> db | _ \<Rightarrow> db)
      in notify_checkpoint_accepted checkpoint (n\<lparr>
        gn_hashgraph := g,
        gn_executor := from_state st,
        gn_snapshots := bt_insert cp_round (rr_state_bytes resp) (gn_snapshots n),
        gn_cumulative := bt_insert cp_round (ck_state_hash p) [(0, smt_root (smt_new sha))],
        gn_trace := gn_trace n @ append_records s (rr_retained resp) @
          (if event_sink s then [RosterLogged (rr_roster_history_bytes resp)] else []),
        gn_registry := ck_roster_snapshot p,
        gn_activation := (gn_activation n)\<lparr>
          processed_through_round := max (processed_through_round (gn_activation n)) cp_round,
          checkpoint_watermark := max (checkpoint_watermark (gn_activation n)) cp_round \<rparr>,
        gn_last_timestamp := current,
        gn_state_db := db,
        gn_signed := gn_signed n @ [checkpoint] \<rparr>))"

text \<open>
  The database and the executor share the live state partition, so the contents to be cleared
  are those of the executor's keyspace. \<open>Err\<close> is a storage failure after a successful
  validation: the code returns \<^verbatim>\<open>false\<close> as well, and the partition holds whatever the failed
  writes left.
\<close>

definition apply_checkpoint ::
    "'ks keyspace_ops \<Rightarrow> crypto_lib \<Rightarrow> ReconnectResponse \<Rightarrow> 'ks GossipNode \<Rightarrow> ('ks GossipNode \<times> bool, StateDbError) result" where
  "apply_checkpoint K C resp n = (case validate_response C n resp of
     Panic \<Rightarrow> Panic
   | Err _ \<Rightarrow> Ok (n, False)
   | Ok None \<Rightarrow> Ok (n, False)
   | Ok (Some g) \<Rightarrow>
       andThen (clear_state K ((gn_state_db n)\<lparr> db_state := kv (ex_state (gn_executor n)) \<rparr>)) (\<lambda>db.
       andThen (ok_or Io (state_from_bytes K (sha256 C) (db_state db) (rr_state_bytes resp))) (\<lambda>st.
       andThen (snapshot K (db\<lparr> db_state := kv st \<rparr>) (sc_round (rr_checkpoint resp)) (rr_state_bytes resp)) (\<lambda>db.
       Ok (commit_checkpoint K (sha256 C) db st g resp n, True)))))"

definition from_checkpoint_with_bls ::
    "'ks keyspace_ops \<Rightarrow> crypto_lib \<Rightarrow> NodeId \<Rightarrow> VerifyingKey \<Rightarrow> BlsIdentity \<Rightarrow> PeerInfo list \<Rightarrow> ReconnectResponse \<Rightarrow> 'ks StateDb \<Rightarrow>
     ('ks GossipNode option, StateDbError) result" where
  "from_checkpoint_with_bls K C node key bls peers resp db =
     map_ok (\<lambda>(n, applied). if applied then Some n else None)
       (apply_checkpoint K C resp (new_with_bls (sha256 C) node key bls registry_new peers db))"

subsection \<open>The attempts of a tick\<close>

text \<open>
  The sync driver asks the peers with a reconnect address one after the other. \<open>attempts\<close> lists
  what the connections delivered, \<open>None\<close> for a failure, a timeout or a wrong frame.
\<close>

primrec reconnect_attempts ::
    "'ks keyspace_ops \<Rightarrow> crypto_lib \<Rightarrow> bls_lib \<Rightarrow> bytes \<Rightarrow> ReconnectResponse option list \<Rightarrow> 'ks GossipNode \<Rightarrow> ('ks GossipNode, StateDbError) result" where
  "reconnect_attempts K C B trusted_roster_hash [] n = Ok n"
| "reconnect_attempts K C B trusted_roster_hash (a # attempts) n = (case a of
     None \<Rightarrow> reconnect_attempts K C B trusted_roster_hash attempts n
   | Some resp \<Rightarrow>
       if \<not> verify_signed_checkpoint B (rr_checkpoint resp) trusted_roster_hash
       then reconnect_attempts K C B trusted_roster_hash attempts n
       else andThen (apply_checkpoint K C resp n) (\<lambda>(n, applied).
         if applied then Ok (n\<lparr> gn_needs_reconnect := False \<rparr>)
         else reconnect_attempts K C B trusted_roster_hash attempts n))"

definition reconnect_tick ::
    "'ks keyspace_ops \<Rightarrow> crypto_lib \<Rightarrow> bls_lib \<Rightarrow> ReconnectResponse option list \<Rightarrow> 'ks GossipNode \<Rightarrow> ('ks GossipNode, StateDbError) result" where
  "reconnect_tick K C B attempts n =
     (if \<not> gn_needs_reconnect n then Ok n
      else if registry_len (gn_registry n) = 0 then Ok n
      else reconnect_attempts K C B (hash_registry (sha256 C) (gn_registry n)) attempts n)"

primrec checkpoint_sync_attempts ::
    "'ks keyspace_ops \<Rightarrow> hash_fn \<Rightarrow> bls_lib \<Rightarrow> bool \<Rightarrow> SignedCheckpoint option list \<Rightarrow> 'ks GossipNode \<Rightarrow> 'ks GossipNode hg_result" where
  "checkpoint_sync_attempts K sha B persist_ok [] n = Ok n"
| "checkpoint_sync_attempts K sha B persist_ok (a # attempts) n = (case a of
     None \<Rightarrow> checkpoint_sync_attempts K sha B persist_ok attempts n
   | Some checkpoint \<Rightarrow> andThen (adopt_signed_checkpoint K sha B persist_ok checkpoint n) (\<lambda>(n, adopted).
       if adopted then Ok (n\<lparr> gn_needs_checkpoint_sync := False \<rparr>)
       else checkpoint_sync_attempts K sha B persist_ok attempts n))"

definition checkpoint_sync_tick ::
    "'ks keyspace_ops \<Rightarrow> hash_fn \<Rightarrow> bls_lib \<Rightarrow> bool \<Rightarrow> SignedCheckpoint option list \<Rightarrow> 'ks GossipNode \<Rightarrow> 'ks GossipNode hg_result" where
  "checkpoint_sync_tick K sha B persist_ok attempts n =
     (if gn_needs_checkpoint_sync n then checkpoint_sync_attempts K sha B persist_ok attempts n else Ok n)"

end
