(* ===== verification/ReconnectSafety.thy ===== *)
theory ReconnectSafety
  imports NodeReconnect
begin

section \<open>What a reconnect guarantees\<close>

text \<open>
  A response is either rejected without a trace, or everything the node takes over is covered by
  the quorum signature of the checkpoint; and what an honest node serves is accepted.
\<close>

subsection \<open>Reading the validation backwards\<close>

lemma or_reject_Some [simp]: "or_reject r f = Ok (Some y) \<longleftrightarrow> (\<exists>x. r = Ok x \<and> f x = Ok (Some y))"
  by (cases r) (simp_all add: or_reject_def)

lemma or_none_Some [simp]: "or_none r f = Ok (Some y) \<longleftrightarrow> (\<exists>x. r = Some x \<and> f x = Ok (Some y))"
  by (cases r) (simp_all add: or_none_def)

lemma require_Some [simp]: "require b r = Ok (Some y) \<longleftrightarrow> b \<and> r = Ok (Some y)"
  by (simp add: require_def)

lemma or_reject_not_Err [simp]: "(\<And>x. f x \<noteq> Err e) \<Longrightarrow> or_reject r f \<noteq> Err e"
  by (cases r) (simp_all add: or_reject_def)

lemma verify_retained_Some:
  "verify_retained C roster recs = Ok (Some recs') \<longleftrightarrow>
     recs' = recs \<and> (\<forall>rec \<in> set recs. \<exists>v. verify_Event C (re_event rec) roster = Ok v)"
proof (induction recs arbitrary: recs')
  case (Cons rec recs)
  have v: "verify_Event C e roster = Ok v \<Longrightarrow> into_inner v = e" for e v
    by (auto simp: verify_Event_def split: if_splits)
  show ?case
  proof (cases "verify_Event C (re_event rec) roster")
    case (Ok verified)
    then have "rec\<lparr> re_event := into_inner verified \<rparr> = rec" using v by simp
    then show ?thesis using Ok Cons.IH by (cases "verify_retained C roster recs") (auto simp: or_reject_def)
  qed (auto simp: or_reject_def)
qed auto

lemma validate_response_Some:
  assumes "validate_response C n resp = Ok (Some g)"
  defines "p \<equiv> sc_payload (rr_checkpoint resp)"
  obtains rh roster where "root_of_bytes (sha256 C) (rr_state_bytes resp) = Some (ck_state_hash p)"
    "decode_roster_history C (rr_roster_history_bytes resp) = Some rh"
    "roster_for_round rh (ck_round p) = Some roster" "hash_registry (sha256 C) roster = ck_roster_hash p"
    "compute_roster_history_root (sha256 C) rh (ck_round p) SIGNED_WINDOW_ROUNDS = Ok (ck_roster_history_root p)"
    "key_for (ck_roster_snapshot p) (gn_node_id n) = Ok (gn_verifying_key n)"
    "\<forall>rec \<in> set (rr_retained resp). \<exists>v. verify_Event C (re_event rec) (ck_roster_snapshot p) = Ok v"
    "decided_round_ok (ck_round p) (rr_decided_round resp) (rr_retained resp)"
    "build_graph (sha256 C) p rh (rr_decided_round resp) (rr_retained resp) = Ok (Some g)"
  using assms by (auto simp: validate_response_def Let_def validate_roster_def verify_retained_Some)

lemma build_graph_Some:
  assumes "build_graph sha p rh d recs = Ok (Some g)"
  obtains ord canonical g0 where "topo_sort_retained sha recs = Ok (Some ord)"
    "canonical_roster_history rh (ck_round p) SIGNED_WINDOW_ROUNDS = Some canonical"
    "load_records sha d ord (map Some recs) (from_checkpoint p canonical) = Ok (Some g0)"
    "mark_decided_through g0 d = Ok g"
    "recs = [] \<or> try_compute_window_root sha g (ck_round p) SIGNED_WINDOW_ROUNDS = Ok (ck_window_root p)"
  using assms by (auto simp: build_graph_def validate_window_def split: if_splits)

subsection \<open>Only the records of the transfer enter the graph\<close>

definition restored_record :: "nat \<Rightarrow> RetainedEvent \<Rightarrow> EventRecord" where
  "restored_record width rec = (fresh_record (re_event rec) (re_seq rec) (resize_row width (re_ancestor_seqs rec)) (re_round rec))\<lparr>
     er_round_received := re_round_received rec,
     er_timestamp := (case (re_round_received rec, re_timestamp rec) of
        (Some _, Some ts) \<Rightarrow> Some ts | (Some _, None) \<Rightarrow> Some (Timestamp 0) | (None, _) \<Rightarrow> None) \<rparr>"

lemma note_branch_frame:
  "note_branch g key i h = Ok g' \<Longrightarrow> events g' = events g \<and> member_index g' = member_index g \<and> member_count g' = member_count g \<and>
     roster_history g' = roster_history g \<and> witnesses_by_round g' = witnesses_by_round g \<and>
     fully_decided_rounds g' = fully_decided_rounds g \<and> next_round_to_order g' = next_round_to_order g \<and> length (known_forkers g') = length (known_forkers g)"
  by (auto simp: note_branch_def write_at_def split: option.splits if_splits)

lemma note_latest_frame:
  "events (note_latest g c s h) = events g" "member_index (note_latest g c s h) = member_index g"
  "member_count (note_latest g c s h) = member_count g" "roster_history (note_latest g c s h) = roster_history g"
  "witnesses_by_round (note_latest g c s h) = witnesses_by_round g" "fully_decided_rounds (note_latest g c s h) = fully_decided_rounds g"
  "next_round_to_order (note_latest g c s h) = next_round_to_order g" "known_forkers (note_latest g c s h) = known_forkers g"
  by (simp_all add: note_latest_def split: option.splits)

lemma insert_accepted_Ok:
  assumes "insert_accepted sha g rec d = Ok (g', h)"
  shows "hash_Event sha (re_event rec) = Ok h" "hg_get g h = None"
    "events g' = AList.update h (restored_record (member_count g) rec) (events g)"
    "member_index g' = member_index g \<and> member_count g' = member_count g \<and> roster_history g' = roster_history g \<and>
     witnesses_by_round g' = witnesses_by_round g \<and> fully_decided_rounds g' = fully_decided_rounds g \<and>
     next_round_to_order g' = next_round_to_order g \<and> length (known_forkers g') = length (known_forkers g)"
proof -
  from assms obtain i g0 where run: "hash_Event sha (re_event rec) = Ok h" "hg_get g h = None"
      "note_branch g (ev_creator (re_event rec), ev_self_parent (re_event rec)) i h = Ok g0"
      "g' = store_event (link_children (filter (\<lambda>p. hg_get g0 p \<noteq> None) (event_parents (re_event rec))) h
         (note_latest (note_seq g0 (ev_creator (re_event rec)) (re_seq rec) h) (ev_creator (re_event rec)) (re_seq rec) h)) h
         (restored_record (member_count g) rec)"
    unfolding insert_accepted_def Let_def restored_record_def by (auto split: if_splits)
  note frame = note_branch_frame [OF run(3)]
  show "hash_Event sha (re_event rec) = Ok h" "hg_get g h = None" by (fact run(1,2))+
  show "events g' = AList.update h (restored_record (member_count g) rec) (events g)"
    using frame by (simp add: run(4) store_event_def link_children_def note_latest_frame note_seq_def)
  show "member_index g' = member_index g \<and> member_count g' = member_count g \<and> roster_history g' = roster_history g \<and>
     witnesses_by_round g' = witnesses_by_round g \<and> fully_decided_rounds g' = fully_decided_rounds g \<and>
     next_round_to_order g' = next_round_to_order g \<and> length (known_forkers g') = length (known_forkers g)"
    using frame by (simp add: run(4) store_event_def link_children_def note_latest_frame note_seq_def)
qed

lemma load_records_only:
  assumes "load_records sha d ord slots g = Ok (Some g')" "\<forall>h r. hg_get g h = Some r \<longrightarrow> P (er_event r)"
    and "\<forall>rec. Some rec \<in> set slots \<longrightarrow> P (re_event rec)" "hm_wf (events g)"
  shows "(\<forall>h r. hg_get g' h = Some r \<longrightarrow> P (er_event r)) \<and> hm_wf (events g')"
  using assms
proof (induction ord arbitrary: slots g)
  case (Cons i ord)
  from Cons.prems(1) obtain rec g1 h where i: "i < length slots" "slots ! i = Some rec" "insert_accepted sha g rec d = Ok (g1, h)"
      "load_records sha d ord (slots[i := None]) g1 = Ok (Some g')"
    by (auto split: if_splits)
  note ins = insert_accepted_Ok [OF i(3)]
  have "Some rec \<in> set slots" using i(1,2) by (metis nth_mem)
  then have "\<forall>h' r. hg_get g1 h' = Some r \<longrightarrow> P (er_event r)"
    using Cons.prems(2,3) by (auto simp: hg_get_def ins(3) update_conv' restored_record_def fresh_record_def split: if_splits)
  moreover have "\<forall>rec. Some rec \<in> set (slots[i := None]) \<longrightarrow> P (re_event rec)"
    using Cons.prems(3) set_update_subset_insert by fastforce
  moreover have "hm_wf (events g1)" using Cons.prems(4) by (simp add: ins(3))
  ultimately show ?case using Cons.IH [OF i(4)] by blast
qed auto

lemma settles_back:
  assumes "settles g g'" "hg_get g' h = Some r'"
  shows "\<exists>r. hg_get g h = Some r \<and> rec_settles r r'"
proof -
  have "fst ` set (events g) = fst ` set (events g')" using assms(1) unfolding settles_def same_indexes_def by (metis list.set_map)
  then have "h \<in> fst ` set (events g)" using map_of_SomeD [OF assms(2) [unfolded hg_get_def]] by force
  then obtain r where "hg_get g h = Some r" unfolding hg_get_def by (metis map_of_eq_None_iff not_None_eq)
  then show ?thesis using assms by (fastforce simp: settles_def extends_def keeps_records_def)
qed

lemma build_graph_only:
  assumes "build_graph sha p rh d recs = Ok (Some g)" "\<forall>rec \<in> set recs. P (re_event rec)" "hg_get g h = Some r"
  shows "P (er_event r)"
proof -
  from assms(1) obtain ord canonical g0 where run: "load_records sha d ord (map Some recs) (from_checkpoint p canonical) = Ok (Some g0)"
      "mark_decided_through g0 d = Ok g"
    by (rule build_graph_Some)
  have g0: "(\<forall>h r. hg_get g0 h = Some r \<longrightarrow> P (er_event r)) \<and> hm_wf (events g0)"
    by (rule load_records_only [OF run(1)]) (use assms(2) in \<open>auto simp: from_checkpoint_def Let_def hg_get_def\<close>)
  have "settles g0 g" using mark_decided_settles [OF run(2)] g0 by blast
  then show ?thesis using g0 assms(3) settles_back by (metis rec_settles_def)
qed

subsection \<open>The state of the response\<close>

lemma parse_pairs_simulates:
  assumes "\<And>k v s s'. step k v s = Some s' \<Longrightarrow> step' k v (f s) = Some (f s')"
  shows "parse_pairs step prev c s = Some s' \<Longrightarrow> parse_pairs step' prev c (f s) = Some (f s')"
proof (induction c arbitrary: prev s rule: length_induct)
  case (1 c)
  show ?case
  proof (cases "c = []")
    case True
    with 1(2) show ?thesis by (simp add: parse_pairs.simps)
  next
    case False
    with 1(2) obtain k v rest s1 where c: "take_pair c = Some ((k, v), rest)" "\<not> (case prev of None \<Rightarrow> False | Some q \<Rightarrow> k \<le> q)"
        "step k v s = Some s1" "parse_pairs step (Some k) rest s1 = Some s'"
      by (subst (asm) parse_pairs.simps) (auto split: option.splits if_splits)
    have "parse_pairs step' (Some k) rest (f s1) = Some (f s')" using 1(1) take_pair_shorter [OF c(1)] c(4) by blast
    with False c assms [OF c(3)] show ?thesis by (subst parse_pairs.simps) simp
  qed
qed

lemma state_from_bytes_root:
  assumes "state_from_bytes K sha ks bs = Some st"
  shows "root_of_bytes sha bs = Some (state_root st)"
proof -
  have "parse_pairs (\<lambda>key val t. smt_insert sha t key val) None bs (tree (state_new sha ks)) = Some (tree st)"
    by (rule parse_pairs_simulates [OF _ assms [unfolded state_from_bytes_def]]) (auto simp: Option.bind_eq_Some_conv)
  then show ?thesis by (simp add: root_of_bytes_def state_new_def state_root_def)
qed

lemma apply_checkpoint_cases:
  assumes "apply_checkpoint K C resp n = Ok (n', applied)"
  obtains (rejected) "\<not> applied" "n' = n"
  | (applied) db st db' g where "applied" "validate_response C n resp = Ok (Some g)"
      "clear_state K ((gn_state_db n)\<lparr> db_state := kv (ex_state (gn_executor n)) \<rparr>) = Ok db"
      "state_from_bytes K (sha256 C) (db_state db) (rr_state_bytes resp) = Some st"
      "snapshot K (db\<lparr> db_state := kv st \<rparr>) (sc_round (rr_checkpoint resp)) (rr_state_bytes resp) = Ok db'"
      "n' = commit_checkpoint K (sha256 C) db' st g resp n"
  using assms by (auto simp: apply_checkpoint_def split: result.splits option.splits)

lemma commit_checkpoint_fields:
  "gn_hashgraph (commit_checkpoint K sha db st g resp n) = g"
  "gn_executor (commit_checkpoint K sha db st g resp n) = from_state st"
  "gn_registry (commit_checkpoint K sha db st g resp n) = ck_roster_snapshot (sc_payload (rr_checkpoint resp))"
  "gn_signed (commit_checkpoint K sha db st g resp n) = gn_signed n @ [rr_checkpoint resp]"
  "gn_snapshots (commit_checkpoint K sha db st g resp n) = bt_insert (ck_round (sc_payload (rr_checkpoint resp))) (rr_state_bytes resp) (gn_snapshots n)"
  by (simp_all add: commit_checkpoint_def Let_def sinks_trace)

lemma registry_wf_hm_wf: "registry_wf C r \<Longrightarrow> hm_wf (keys r)"
  by (simp add: registry_wf_def)

lemma registry_map_cong:
  assumes "registry_map a = registry_map b" "hm_wf (keys a)" "hm_wf (keys b)"
  shows "verify_Event C e a = verify_Event C e b" "key_for a node = key_for b node" "quorum_of a ss = quorum_of b ss"
proof -
  have m: "map_of (keys a) = map_of (keys b)" using assms(1) by (simp add: registry_map_def)
  then show "verify_Event C e a = verify_Event C e b" "key_for a node = key_for b node" by (simp_all add: verify_Event_def key_for_def)
  have "set (keys a) = set (keys b)" using m assms(2,3) map_of_inject_set by blast
  then have "length (keys a) = length (keys b)" using assms(2,3) by (metis distinct_card distinct_map)
  with m show "quorum_of a ss = quorum_of b ss" by (simp add: quorum_of_def registry_len_def registry_contains_def)
qed

subsection \<open>Properties\<close>


definition wire_bls :: bls_lib where
  "wire_bls = sample_bls\<lparr> bls_fast_aggregate_verify := (\<lambda>s m d pks. s = sample_sha m @ sample_sha d @ sample_sha (concat pks)) \<rparr>"

definition sample_roster1 :: MembershipRegistry where
  "sample_roster1 = \<lparr> keys = [(NodeId 1, replicate 32 8, replicate 48 2)] \<rparr>"

definition sample_history1 :: RosterHistory where
  "sample_history1 = \<lparr> snapshots = [(1, sample_roster1)] \<rparr>"

definition sample_history_bytes :: bytes where
  "sample_history_bytes = u32_be 1 @ u64_be 1 @ u32_be 88 @ registry_to_bytes sample_roster1"

definition sample_payload3 :: CheckpointPayload where
  "sample_payload3 = checkpoint_payload_new sample_sha 3 (replicate 32 1) (smt_root (smt_new sample_sha)) (replicate 32 3)
     (sample_sha (ROSTER_HISTORY_ROOT_DST @ sample_history_bytes)) sample_roster1"

definition sample_wire_checkpoint :: SignedCheckpoint where
  "sample_wire_checkpoint = \<lparr> sc_payload = sample_payload3,
     sc_aggregate_sig = sample_sha (signing_bytes sample_payload3) @ sample_sha CHECKPOINT_DST @ sample_sha (replicate 48 2),
     sc_signers = [NodeId 1] \<rparr>"

definition sample_response :: ReconnectResponse where
  "sample_response = \<lparr> rr_checkpoint = sample_wire_checkpoint, rr_state_bytes = [], rr_roster_history_bytes = sample_history_bytes,
     rr_decided_round = 3, rr_retained = [], rr_last_timestamp = 7 \<rparr>"

definition sample_learner :: "(bytes, bytes) btmap GossipNode" where
  "sample_learner = new_with_bls sample_sha (NodeId 1) (replicate 32 8) \<lparr> bls_secret = [1], bls_public = [1] \<rparr> registry_new []
     \<lparr> db_state = [], db_snap = [], db_meta = [] \<rparr>"

lemma sample_roster1_wf: "registry_wf sample_crypto sample_roster1" "registry_sorted sample_roster1 = sample_roster1"
  by (simp_all add: registry_wf_def sample_roster1_def member_wf_def sample_crypto_def registry_sorted_def sorted_members_def)

lemma sample_payload3_fields:
  "ck_round sample_payload3 = 3" "ck_roster_snapshot sample_payload3 = sample_roster1" "ck_state_hash sample_payload3 = smt_root (smt_new sample_sha)"
  "ck_roster_hash sample_payload3 = hash_registry sample_sha sample_roster1"
  "ck_roster_history_root sample_payload3 = sample_sha (ROSTER_HISTORY_ROOT_DST @ sample_history_bytes)"
  by (simp_all add: sample_payload3_def checkpoint_payload_new_def)

lemma sample_history_encodes: "encode_roster_history sample_history1 = Ok sample_history_bytes"
proof -
  have "length (registry_to_bytes sample_roster1) = 88" by (simp add: sample_roster1_def registry_to_bytes_def member_bytes_def)
  then show ?thesis by (simp add: encode_roster_history_def sample_history1_def u32_try_from_def sample_history_bytes_def encode_snapshot_def)
qed

lemma sample_history_decodes: "decode_roster_history sample_crypto sample_history_bytes = Some sample_history1"
  using decode_encode_roster_history [OF _ _ _ sample_history_encodes, of sample_crypto] sample_roster1_wf
  by (simp add: roster_wf_def sample_history1_def bt_wf_Cons)

lemma sample_history_canonical: "canonical_roster_history sample_history1 3 SIGNED_WINDOW_ROUNDS = Some sample_history1"
  by (simp add: canonical_roster_history_def SIGNED_WINDOW_ROUNDS_def sample_history1_def u64_saturating_sub_def from_snapshots_def bt_of_list_def word_less_nat_alt word_le_nat_alt)

lemma sample_decode: "\<exists>bs. decode_signed_checkpoint sample_crypto wire_bls bs = Some sample_wire_checkpoint"
proof -
  have "length (registry_to_bytes sample_roster1) = 88" by (simp add: sample_roster1_def registry_to_bytes_def member_bytes_def)
  then obtain bs where bs: "encode_signed_checkpoint sample_wire_checkpoint = Ok bs"
    by (simp add: encode_signed_checkpoint_def Let_def u32_try_from_def sample_wire_checkpoint_def sample_payload3_fields)
  have "checkpoint_wf sample_crypto wire_bls sample_wire_checkpoint"
    using sample_roster1_wf
    by (simp add: checkpoint_wf_def sample_wire_checkpoint_def payload_wf_def sample_payload3_fields wire_bls_def sample_bls_def)
      (simp add: sample_payload3_def checkpoint_payload_new_def sample_crypto_def smt_new_def smt_empty_def)
  moreover have "checkpoint_sorted sample_wire_checkpoint = sample_wire_checkpoint"
    using sample_roster1_wf by (simp add: checkpoint_sorted_def sample_wire_checkpoint_def sample_payload3_fields)
  ultimately show ?thesis
    using decode_encode_signed_checkpoint [of sample_crypto wire_bls sample_wire_checkpoint bs] bs by (auto simp: sample_crypto_def)
qed

lemma sample_applies: "\<exists>n. apply_checkpoint list_keyspace sample_crypto sample_response sample_learner = Ok (n, True)"
proof -
  let ?g = "from_checkpoint sample_payload3 sample_history1"
  have topo: "topo_sort_retained sample_sha [] = Ok (Some [])"
    by (simp add: topo_sort_retained_def edge_list_def kahn.simps)
  have four: "u64_saturating_add 3 1 = (4 :: u64)" by (simp add: u64_saturating_add_def)
  have "mark_decided_through ?g 3 = Ok ?g"
    by (simp add: mark_decided_through_def from_checkpoint_def Let_def sample_payload3_fields order_decided_rounds.simps four)
  then have "build_graph sample_sha sample_payload3 sample_history1 3 [] = Ok (Some ?g)"
    by (simp add: build_graph_def topo or_none_def sample_history_canonical sample_payload3_fields or_reject_def validate_window_def)
  moreover have "validate_roster sample_crypto sample_learner sample_payload3 sample_history_bytes = Ok (Some sample_history1)"
  proof -
    have "roster_for_round sample_history1 3 = Some sample_roster1"
      by (simp add: sample_history1_def roster_for_round_def bt_last_upto_def last_opt_def)
    moreover have "compute_roster_history_root sample_sha sample_history1 3 SIGNED_WINDOW_ROUNDS = Ok (ck_roster_history_root sample_payload3)"
      by (simp add: compute_roster_history_root_def sample_history_canonical sample_history_encodes sample_payload3_fields)
    moreover have "key_for sample_roster1 (gn_node_id sample_learner) = Ok (gn_verifying_key sample_learner)"
      by (simp add: key_for_def sample_roster1_def sample_learner_def new_with_bls_def)
    ultimately show ?thesis
      by (simp add: validate_roster_def sample_history_decodes sample_payload3_fields) (simp add: sample_crypto_def)
  qed
  ultimately have "validate_response sample_crypto sample_learner sample_response = Ok (Some ?g)"
    using sample_root
    by (simp add: validate_response_def Let_def sample_response_def sample_wire_checkpoint_def sample_payload3_fields or_none_def require_def
        decided_round_ok_def max_retained_round_def) (simp add: sample_crypto_def sample_payload3_fields)
  then show ?thesis
    by (simp add: apply_checkpoint_def sample_learner_def new_with_bls_def executor_new_def state_new_def clear_state_def list_keyspace_def
        bt_of_list_def sample_response_def state_from_bytes_def parse_pairs.simps snapshot_def)
qed

lemma sample_verifies: "verify_signed_checkpoint wire_bls sample_wire_checkpoint (hash_registry (sha256 sample_crypto) sample_roster1)"
  by (simp add: verify_signed_checkpoint_def verify_SignedCheckpoint_def verify_with_registry_iff quorum_of_def sample_wire_checkpoint_def
        sample_payload3_fields sample_crypto_def wire_bls_def sample_bls_def sample_roster1_def registry_contains_def registry_len_def
        supermajority_def signer_key_def bls_key_for_def verify_aggregate_def)


subsection \<open>Observations\<close>

text \<open>
  The roster of the checkpoint's round is looked up before the served history is compared with
  the signed root, and the lookup panics when the history starts later: a genuine quorum
  checkpoint with a history of one later snapshot brings the task down.
\<close>

lemma late_history_panics:
  assumes "root_of_bytes (sha256 C) (rr_state_bytes resp) = Some (ck_state_hash (sc_payload (rr_checkpoint resp)))"
    and "decode_roster_history C (rr_roster_history_bytes resp) = Some rh"
    and "\<forall>p \<in> set (snapshots rh). sc_round (rr_checkpoint resp) < fst p"
  shows "apply_checkpoint K C resp n = Panic"
proof -
  have "roster_for_round rh (sc_round (rr_checkpoint resp)) = None"
    using assms(3) by (auto simp: roster_for_round_def bt_last_upto_def last_opt_def filter_empty_conv not_le split: if_splits)
  then show ?thesis
    using assms(1,2) by (simp add: apply_checkpoint_def validate_response_def Let_def or_none_def require_def validate_roster_def sc_round_def)
qed

definition late_history_bytes :: bytes where
  "late_history_bytes = u32_be 1 @ u64_be 4 @ u32_be 88 @ registry_to_bytes sample_roster1"

lemma lying_peer_panics:
  "verify_signed_checkpoint wire_bls (rr_checkpoint sample_response) (hash_registry sample_sha sample_roster1) \<and>
   apply_checkpoint list_keyspace sample_crypto (sample_response\<lparr> rr_roster_history_bytes := late_history_bytes \<rparr>) sample_learner = Panic"
proof
  show "verify_signed_checkpoint wire_bls (rr_checkpoint sample_response) (hash_registry sample_sha sample_roster1)"
    using sample_verifies by (simp add: sample_response_def sample_crypto_def)
  have len: "length (registry_to_bytes sample_roster1) = 88" by (simp add: sample_roster1_def registry_to_bytes_def member_bytes_def)
  have "encode_roster_history \<lparr> snapshots = [(4, sample_roster1)] \<rparr> = Ok late_history_bytes"
    using len by (simp add: encode_roster_history_def u32_try_from_def late_history_bytes_def encode_snapshot_def)
  from decode_encode_roster_history [OF _ _ _ this, of sample_crypto] sample_roster1_wf
  have "decode_roster_history sample_crypto late_history_bytes = Some \<lparr> snapshots = [(4, sample_roster1)] \<rparr>"
    by (simp add: roster_wf_def bt_wf_Cons)
  then show "apply_checkpoint list_keyspace sample_crypto (sample_response\<lparr> rr_roster_history_bytes := late_history_bytes \<rparr>) sample_learner = Panic"
    by (intro late_history_panics [of sample_crypto _ "\<lparr> snapshots = [(4, sample_roster1)] \<rparr>"])
      (simp_all add: sample_response_def sample_wire_checkpoint_def sample_payload3_fields sc_round_def sample_crypto_def sample_root)
qed

text \<open>
  Nothing compares the round of the response with the rounds already accepted: a node that has
  accepted round 5 takes over the older checkpoint, and its accepted checkpoints are no longer ascending.
\<close>

lemma stale_checkpoint_applied:
  "\<exists>n. apply_checkpoint list_keyspace sample_crypto sample_response (sample_learner\<lparr> gn_signed := [sample_signed5] \<rparr>) = Ok (n, True) \<and>
     accepted_round (sample_learner\<lparr> gn_signed := [sample_signed5] \<rparr>) = 5 \<and> accepted_round n = 3 \<and> map sc_round (gn_signed n) = [5, 3]"
proof -
  let ?n = "sample_learner\<lparr> gn_signed := [sample_signed5] \<rparr>"
  have "validate_response sample_crypto ?n sample_response = validate_response sample_crypto sample_learner sample_response"
    by (simp add: validate_response_def validate_roster_def)
  moreover from sample_applies obtain n where n: "apply_checkpoint list_keyspace sample_crypto sample_response sample_learner = Ok (n, True)" by blast
  ultimately obtain n' where n': "apply_checkpoint list_keyspace sample_crypto sample_response ?n = Ok (n', True)"
    by (auto simp: apply_checkpoint_def split: result.splits option.splits)
  from n' have "gn_signed n' = [sample_signed5, sample_wire_checkpoint]"
    by (cases rule: apply_checkpoint_cases) (simp_all add: commit_checkpoint_fields sample_response_def)
  with n' show ?thesis
    by (simp add: accepted_round_def latest_accepted_checkpoint_round_def last_opt_def sc_round_def sample_wire_checkpoint_def
        sample_payload3_fields sample_signed5_def sample_payload5_fields)
qed

end
