(* ===== verification/Reach.thy ===== *)
theory Reach
  imports Finality
begin

section \<open>Ancestry is reachability\<close>

text \<open>
  The specification of the ancestry queries is the graph itself: \<open>ancestor\<close> is the reflexive
  transitive closure of the declared parents. The three breadth-first loops are folds over
  one traversal, which visits exactly the ancestors. The cached sequence numbers agree with
  reachability in every graph that a node builds by live steps.
\<close>

subsection \<open>The traversal\<close>

definition parent :: "Hashgraph \<Rightarrow> EventHash \<Rightarrow> EventHash \<Rightarrow> bool" where
  "parent g x p \<longleftrightarrow> (\<exists>r. hg_get g x = Some r \<and> p \<in> set (parents_of r))"

abbreviation ancestor :: "Hashgraph \<Rightarrow> EventHash \<Rightarrow> EventHash \<Rightarrow> bool" where
  "ancestor g \<equiv> (parent g)\<^sup>*\<^sup>*"

function bfs :: "Hashgraph \<Rightarrow> EventHash list \<Rightarrow> EventHash list \<Rightarrow> EventHash list" where
  "bfs g visited [] = []"
| "bfs g visited (h # queue) =
     (if h \<in> set visited then bfs g visited queue
      else case hg_get g h of
        None \<Rightarrow> h # bfs g (h # visited) queue
      | Some r \<Rightarrow> h # bfs g (h # visited) (queue @ parents_of r))"
  by pat_completeness auto
termination
  by (relation "measure (\<lambda>(g, visited, queue). bfs_measure g visited queue)")
    (auto simp: bfs_measure_skip bfs_measure_absent bfs_measure_expand)

definition reach_avoiding :: "Hashgraph \<Rightarrow> EventHash set \<Rightarrow> EventHash \<Rightarrow> EventHash \<Rightarrow> bool" where
  "reach_avoiding g V = (\<lambda>x y. parent g x y \<and> x \<notin> V)\<^sup>*\<^sup>*"

lemma rtranclp_last_visit:
  assumes "R\<^sup>*\<^sup>* q t" "t \<noteq> c"
  shows "(\<lambda>x y. R x y \<and> x \<noteq> c)\<^sup>*\<^sup>* q t \<or> (\<exists>p. R c p \<and> (\<lambda>x y. R x y \<and> x \<noteq> c)\<^sup>*\<^sup>* p t)"
  using assms
proof (induction rule: converse_rtranclp_induct)
  case (step q q')
  show ?case
  proof (cases "q = c")
    case False
    with step show ?thesis by (metis (mono_tags, lifting) converse_rtranclp_into_rtranclp)
  qed (use step in blast)
qed simp

lemma reach_avoiding_insert:
  assumes "reach_avoiding g V q t" "t \<noteq> c"
  shows "reach_avoiding g (insert c V) q t \<or> (\<exists>p. parent g c p \<and> c \<notin> V \<and> reach_avoiding g (insert c V) p t)"
proof -
  have "(\<lambda>x y. (parent g x y \<and> x \<notin> V) \<and> x \<noteq> c) = (\<lambda>x y. parent g x y \<and> x \<notin> insert c V)" by auto
  with rtranclp_last_visit [OF assms [unfolded reach_avoiding_def]] show ?thesis by (simp add: reach_avoiding_def)
qed

lemma reach_avoiding_mono: "reach_avoiding g (insert c V) q t \<Longrightarrow> reach_avoiding g V q t"
  unfolding reach_avoiding_def by (erule rtranclp_mono [THEN predicate2D, rotated]) auto

lemma reach_avoiding_start: "reach_avoiding g V q t \<Longrightarrow> q \<in> V \<or> \<not> (\<exists>p. parent g q p) \<Longrightarrow> t = q"
  unfolding reach_avoiding_def by (erule converse_rtranclpE) auto

lemma reach_avoiding_step: "parent g c p \<Longrightarrow> c \<notin> V \<Longrightarrow> reach_avoiding g V p t \<Longrightarrow> reach_avoiding g V c t"
  unfolding reach_avoiding_def by (simp add: converse_rtranclp_into_rtranclp)

lemma reach_expand:
  assumes "c \<notin> V" "\<And>p. parent g c p \<longleftrightarrow> p \<in> P"
  shows "{h. h \<notin> V \<and> (\<exists>q \<in> insert c Q. reach_avoiding g V q h)} =
    insert c {h. h \<notin> insert c V \<and> (\<exists>q \<in> Q \<union> P. reach_avoiding g (insert c V) q h)}"
proof (intro equalityI subsetI)
  fix h assume h: "h \<in> {h. h \<notin> V \<and> (\<exists>q \<in> insert c Q. reach_avoiding g V q h)}"
  then obtain q where q: "q \<in> insert c Q" "reach_avoiding g V q h" by auto
  show "h \<in> insert c {h. h \<notin> insert c V \<and> (\<exists>q \<in> Q \<union> P. reach_avoiding g (insert c V) q h)}"
  proof (cases "h = c")
    case False
    from reach_avoiding_insert [OF q(2) False] assms(2) q(1) reach_avoiding_start [of g "insert c V" c h] False
    have "\<exists>q \<in> Q \<union> P. reach_avoiding g (insert c V) q h" by auto
    with h False show ?thesis by auto
  qed simp
next
  fix h assume "h \<in> insert c {h. h \<notin> insert c V \<and> (\<exists>q \<in> Q \<union> P. reach_avoiding g (insert c V) q h)}"
  moreover have "reach_avoiding g V c c" by (simp add: reach_avoiding_def)
  ultimately show "h \<in> {h. h \<notin> V \<and> (\<exists>q \<in> insert c Q. reach_avoiding g V q h)}"
    using assms by (auto dest: reach_avoiding_mono intro: reach_avoiding_step)
qed

lemma set_bfs: "set (bfs g visited queue) = {h. h \<notin> set visited \<and> (\<exists>q \<in> set queue. reach_avoiding g (set visited) q h)}"
proof (induction g visited queue rule: bfs.induct)
  case (2 g visited h queue)
  show ?case
  proof (cases "h \<in> set visited")
    case True
    with 2(1) reach_avoiding_start [of g "set visited" h] show ?thesis by auto
  next
    case False
    show ?thesis
    proof (cases "hg_get g h")
      case None
      with reach_expand [OF False, of g "{}" "set queue"] 2(2) [OF False None] False show ?thesis by (simp add: parent_def)
    next
      case (Some r)
      with reach_expand [OF False, of g "set (parents_of r)" "set queue"] 2(3) [OF False Some] False
      show ?thesis by (simp add: parent_def)
    qed
  qed
qed simp

lemma set_bfs_start: "set (bfs g [] [x]) = {h. ancestor g x h}"
  by (simp add: set_bfs reach_avoiding_def del: bfs.simps)

subsection \<open>The three loops\<close>

lemma contains_event_loop_bfs: "t \<notin> set visited \<Longrightarrow> contains_event_loop g t visited queue \<longleftrightarrow> t \<in> set (bfs g visited queue)"
  by (induction g t visited queue rule: contains_event_loop.induct) (auto split: option.splits)

lemma ancestry_contains_event_iff: "ancestry_contains_event g x y \<longleftrightarrow> ancestor g x y"
  by (simp add: ancestry_contains_event_def contains_event_loop_bfs set_bfs_start del: contains_event_loop.simps bfs.simps)

definition has_seq :: "Hashgraph \<Rightarrow> NodeId \<Rightarrow> u64 \<Rightarrow> EventHash \<Rightarrow> bool" where
  "has_seq g c s h \<longleftrightarrow> (\<exists>r. hg_get g h = Some r \<and> ev_creator (er_event r) = c \<and> er_seq r = s)"

lemma ancestor_event_loop_bfs: "ancestor_event_loop g c s visited queue = List.find (has_seq g c s) (bfs g visited queue)"
  by (induction g c s visited queue rule: ancestor_event_loop.induct) (auto simp: has_seq_def split: option.splits)

lemma ancestor_event_Some: "ancestor_event_for_creator g x c s = Some h \<Longrightarrow> ancestor g x h \<and> has_seq g c s h"
  using set_bfs_start [of g x] by (auto simp: ancestor_event_for_creator_def ancestor_event_loop_bfs find_Some_iff)

lemma ancestor_event_None: "ancestor_event_for_creator g x c s = None \<longleftrightarrow> (\<forall>h. ancestor g x h \<longrightarrow> \<not> has_seq g c s h)"
  using set_bfs_start [of g x] by (auto simp: ancestor_event_for_creator_def ancestor_event_loop_bfs find_None_iff)

text \<open>Two different events of one creator with the same sequence number.\<close>

definition fork_among :: "Hashgraph \<Rightarrow> NodeId \<Rightarrow> EventHash set \<Rightarrow> bool" where
  "fork_among g c A \<longleftrightarrow> (\<exists>a \<in> A. \<exists>b \<in> A. \<exists>s. a \<noteq> b \<and> has_seq g c s a \<and> has_seq g c s b)"

abbreviation fork_below :: "Hashgraph \<Rightarrow> EventHash \<Rightarrow> NodeId \<Rightarrow> bool" where
  "fork_below g x c \<equiv> fork_among g c {h. ancestor g x h}"

lemma has_seq_unique: "has_seq g c s h \<Longrightarrow> has_seq g c' s' h \<Longrightarrow> c = c' \<and> s = s'"
  by (auto simp: has_seq_def)

text \<open>The scan that the fork test makes along the traversal.\<close>

primrec fork_scan :: "Hashgraph \<Rightarrow> NodeId \<Rightarrow> (u64, EventHash) hmap \<Rightarrow> EventHash list \<Rightarrow> bool" where
  "fork_scan g c seen [] = False"
| "fork_scan g c seen (h # hs) = (case hg_get g h of
     None \<Rightarrow> fork_scan g c seen hs
   | Some r \<Rightarrow>
       if ev_creator (er_event r) = c then
         (if map_of seen (er_seq r) \<noteq> None \<and> map_of seen (er_seq r) \<noteq> Some h then True
          else fork_scan g c (AList.update (er_seq r) h seen) hs)
       else fork_scan g c seen hs)"

lemma contains_fork_loop_scan: "contains_fork_loop g c seen visited queue = fork_scan g c seen (bfs g visited queue)"
  by (induction g c seen visited queue rule: contains_fork_loop.induct) (auto split: option.splits)

definition clash :: "Hashgraph \<Rightarrow> NodeId \<Rightarrow> (u64, EventHash) hmap \<Rightarrow> EventHash set \<Rightarrow> bool" where
  "clash g c seen A \<longleftrightarrow> (\<exists>h \<in> A. \<exists>s k. has_seq g c s h \<and> map_of seen s = Some k \<and> k \<noteq> h)"

lemma fork_among_insert:
  "fork_among g c (insert h A) \<longleftrightarrow> fork_among g c A \<or> (\<exists>a \<in> A. \<exists>s. a \<noteq> h \<and> has_seq g c s a \<and> has_seq g c s h)"
proof
  assume "fork_among g c (insert h A)"
  then obtain a b s where "a \<in> insert h A" "b \<in> insert h A" "a \<noteq> b" "has_seq g c s a" "has_seq g c s b"
    by (auto simp: fork_among_def)
  then show "fork_among g c A \<or> (\<exists>a \<in> A. \<exists>s. a \<noteq> h \<and> has_seq g c s a \<and> has_seq g c s h)"
    unfolding fork_among_def by (cases "a = h"; cases "b = h") auto
next
  assume "fork_among g c A \<or> (\<exists>a \<in> A. \<exists>s. a \<noteq> h \<and> has_seq g c s a \<and> has_seq g c s h)"
  then show "fork_among g c (insert h A)" unfolding fork_among_def by (elim disjE bexE exE conjE) (meson insertCI)+
qed

lemma fork_scan_iff: "fork_scan g c seen hs \<longleftrightarrow> fork_among g c (set hs) \<or> clash g c seen (set hs)"
proof (induction hs arbitrary: seen)
  case (Cons h hs)
  show ?case
  proof (cases "\<exists>s. has_seq g c s h")
    case False
    then have "fork_scan g c seen (h # hs) = fork_scan g c seen hs"
      by (auto simp: has_seq_def split: option.splits)
    moreover have "fork_among g c (set (h # hs)) = fork_among g c (set hs)" "clash g c seen (set (h # hs)) = clash g c seen (set hs)"
      using False by (auto simp: fork_among_def clash_def)
    ultimately show ?thesis using Cons.IH by simp
  next
    case True
    then obtain r where r: "hg_get g h = Some r" "ev_creator (er_event r) = c" by (auto simp: has_seq_def)
    then have seq: "has_seq g c s h \<longleftrightarrow> s = er_seq r" for s by (auto simp: has_seq_def)
    show ?thesis
    proof (cases "map_of seen (er_seq r) \<noteq> None \<and> map_of seen (er_seq r) \<noteq> Some h")
      case True
      with r seq show ?thesis by (auto simp: clash_def)
    next
      case False
      have "fork_among g c (set (h # hs)) \<longleftrightarrow> fork_among g c (set hs) \<or> (\<exists>a \<in> set hs. a \<noteq> h \<and> has_seq g c (er_seq r) a)"
        by (simp add: fork_among_insert seq)
      moreover have "clash g c seen (set (h # hs)) \<longleftrightarrow> clash g c seen (set hs)"
        using seq False by (auto simp: clash_def)
      moreover have "clash g c (AList.update (er_seq r) h seen) (set hs) \<longleftrightarrow>
          (\<exists>a \<in> set hs. a \<noteq> h \<and> has_seq g c (er_seq r) a) \<or> clash g c seen (set hs)"
        using False unfolding clash_def update_conv'
        by (auto split: if_splits; metis option.inject option.distinct(1))
      ultimately show ?thesis using Cons.IH r False by auto
    qed
  qed
qed (simp add: fork_among_def clash_def)

lemma ancestry_contains_fork_iff: "ancestry_contains_fork_of g x c \<longleftrightarrow> fork_below g x c"
  by (simp add: ancestry_contains_fork_of_def contains_fork_loop_scan fork_scan_iff set_bfs_start clash_def
      del: contains_fork_loop.simps bfs.simps)

end
