(* ===== verification/Dag.thy ===== *)
theory Dag
  imports Reach
begin

section \<open>The cached ancestry\<close>

text \<open>
  The invariant of the incremental ancestry rows. A slot never exceeds what the event
  reaches and, unless the event descends from a fork of that member, it reaches everything
  of the member that the event descends from. A member without a fork flag has one event
  per sequence number. Every live step keeps the invariant, so that \<open>see\<close> computes the
  specification on every graph a node can build.
\<close>

subsection \<open>What the ancestry queries read\<close>

definition core :: "Hashgraph \<Rightarrow> EventHash \<Rightarrow> (Event \<times> u64 \<times> u64 list) option" where
  "core g h = map_option (\<lambda>r. (er_event r, er_seq r, er_ancestor_seqs r)) (hg_get g h)"

definition row :: "Hashgraph \<Rightarrow> EventHash \<Rightarrow> u64 list option" where
  "row g h = map_option (\<lambda>(_, _, rw). rw) (core g h)"

definition self_parent_of :: "Hashgraph \<Rightarrow> EventHash \<Rightarrow> EventHash option" where
  "self_parent_of g h = Option.bind (core g h) (\<lambda>(e, _, _). ev_self_parent e)"

lemma has_seq_core: "has_seq g c s h \<longleftrightarrow> (\<exists>e rw. core g h = Some (e, s, rw) \<and> ev_creator e = c)"
  by (auto simp: has_seq_def core_def)

lemma parent_core: "parent g x p \<longleftrightarrow> (\<exists>e s rw. core g x = Some (e, s, rw) \<and> p \<in> set (event_parents e))"
  by (auto simp: parent_def core_def parents_of_def)

lemma core_None: "core g h = None \<longleftrightarrow> hg_get g h = None"
  by (simp add: core_def)

definition same_core :: "Hashgraph \<Rightarrow> Hashgraph \<Rightarrow> bool" where
  "same_core g g' \<longleftrightarrow> core g' = core g \<and> member_index g' = member_index g \<and> member_count g' = member_count g \<and>
     known_forkers g' = known_forkers g \<and> first_child g' = first_child g"

lemma same_coreD:
  assumes "same_core g g'"
  shows "has_seq g' = has_seq g" "parent g' = parent g" "row g' = row g" "self_parent_of g' = self_parent_of g"
    "fork_among g' = fork_among g" "core g' = core g" "member_index g' = member_index g" "member_count g' = member_count g"
    "known_forkers g' = known_forkers g" "first_child g' = first_child g"
proof -
  show seq: "has_seq g' = has_seq g" using assms by (simp add: fun_eq_iff has_seq_core same_core_def)
  show "parent g' = parent g" using assms by (simp add: fun_eq_iff parent_core same_core_def)
  show "fork_among g' = fork_among g" by (simp add: fun_eq_iff fork_among_def seq)
qed (use assms in \<open>simp_all add: fun_eq_iff row_def self_parent_of_def same_core_def\<close>)

subsection \<open>The invariant\<close>

definition members_wf :: "Hashgraph \<Rightarrow> bool" where
  "members_wf g \<longleftrightarrow> inj_on (map_of (member_index g)) (dom (map_of (member_index g))) \<and>
     ran (map_of (member_index g)) \<subseteq> {..<member_count g} \<and> length (known_forkers g) = member_count g"

definition chains_wf :: "Hashgraph \<Rightarrow> bool" where
  "chains_wf g \<longleftrightarrow>
     (\<forall>x p. parent g x p \<longrightarrow> core g p \<noteq> None) \<and>
     (\<forall>h c s. has_seq g c s h \<longrightarrow> map_of (member_index g) c \<noteq> None \<and> s \<noteq> 0 \<and>
        map_of (first_child g) (c, self_parent_of g h) \<noteq> None \<and>
        (case self_parent_of g h of None \<Rightarrow> s = 1 | Some p \<Rightarrow> \<exists>t. has_seq g c t p \<and> unat s = unat t + 1)) \<and>
     (\<forall>k h. map_of (first_child g) k = Some h \<longrightarrow> core g h \<noteq> None)"

definition forks_flagged :: "Hashgraph \<Rightarrow> bool" where
  "forks_flagged g \<longleftrightarrow> (\<forall>c i s a b. map_of (member_index g) c = Some i \<and> \<not> known_forkers g ! i \<and>
     has_seq g c s a \<and> has_seq g c s b \<longrightarrow> a = b)"

definition rows_wf :: "Hashgraph \<Rightarrow> bool" where
  "rows_wf g \<longleftrightarrow> (\<forall>x rw. row g x = Some rw \<longrightarrow> length rw = member_count g \<and>
     (\<forall>c i. map_of (member_index g) c = Some i \<longrightarrow>
        (\<forall>y s. ancestor g x y \<and> has_seq g c s y \<and> \<not> fork_below g x c \<longrightarrow> s \<le> rw ! i) \<and>
        (rw ! i \<noteq> 0 \<longrightarrow> (\<exists>z. ancestor g x z \<and> has_seq g c (rw ! i) z))))"

definition dag_inv :: "Hashgraph \<Rightarrow> bool" where
  "dag_inv g \<longleftrightarrow> members_wf g \<and> chains_wf g \<and> forks_flagged g \<and> rows_wf g"

lemma dag_inv_same_core: "same_core g g' \<Longrightarrow> dag_inv g' = dag_inv g"
  by (simp only: dag_inv_def members_wf_def chains_wf_def forks_flagged_def rows_wf_def same_coreD)

lemma members_wf_inj: "members_wf g \<Longrightarrow> map_of (member_index g) c = Some i \<Longrightarrow> map_of (member_index g) d = Some i \<Longrightarrow> c = d"
  unfolding members_wf_def inj_on_def by (metis domI)

lemma members_wf_bound: "members_wf g \<Longrightarrow> map_of (member_index g) c = Some i \<Longrightarrow> i < member_count g"
  unfolding members_wf_def by (meson lessThan_iff ranI subsetD)

lemma forks_flaggedD:
  "forks_flagged g \<Longrightarrow> map_of (member_index g) c = Some i \<Longrightarrow> \<not> known_forkers g ! i \<Longrightarrow>
   has_seq g c s a \<Longrightarrow> has_seq g c s b \<Longrightarrow> a = b"
  unfolding forks_flagged_def by blast

lemma rows_wfD:
  assumes "rows_wf g" "row g x = Some rw" "map_of (member_index g) c = Some i"
  shows "length rw = member_count g"
    "ancestor g x y \<Longrightarrow> has_seq g c s y \<Longrightarrow> \<not> fork_below g x c \<Longrightarrow> s \<le> rw ! i"
    "rw ! i \<noteq> 0 \<Longrightarrow> \<exists>z. ancestor g x z \<and> has_seq g c (rw ! i) z"
  using assms unfolding rows_wf_def by blast+

lemma self_parent_parent: "self_parent_of g h = Some p \<Longrightarrow> parent g h p"
  by (auto simp: self_parent_of_def parent_core bind_eq_Some_conv event_parents_def map_filter_simps split: option.splits)

text \<open>The chain of an event reaches every smaller sequence number of its creator.\<close>

lemma chain_down:
  assumes "chains_wf g"
  shows "has_seq g c s h \<Longrightarrow> t \<noteq> 0 \<Longrightarrow> t \<le> s \<Longrightarrow> \<exists>k. ancestor g h k \<and> has_seq g c t k"
proof (induction "unat s" arbitrary: s h rule: less_induct)
  case less
  show ?case
  proof (cases "t = s")
    case False
    have step: "case self_parent_of g h of None \<Rightarrow> s = 1 | Some p \<Rightarrow> \<exists>t. has_seq g c t p \<and> unat s = unat t + 1"
      using assms less.prems(1) by (auto simp: chains_wf_def)
    have "t < s" using less.prems(3) False by simp
    then have "unat t < unat s" "unat t \<noteq> 0" using less.prems(2) by (simp_all add: word_less_nat_alt unat_eq_zero)
    then obtain p u where p: "self_parent_of g h = Some p" "has_seq g c u p" "unat s = unat u + 1"
      using step by (auto split: option.splits)
    with \<open>unat t < unat s\<close> have "unat u < unat s" "t \<le> u" by (auto simp: word_le_nat_alt)
    with less.hyps p(2) less.prems(2) obtain k where "ancestor g p k" "has_seq g c t k" by blast
    then show ?thesis using self_parent_parent [OF p(1)] by (meson converse_rtranclp_into_rtranclp)
  qed (use less.prems in blast)
qed

subsection \<open>The invariant makes see exact\<close>

lemma ancestor_stored:
  assumes "chains_wf g" "ancestor g x y" "hg_get g x \<noteq> None"
  shows "hg_get g y \<noteq> None"
  using assms(2,3) by (induction rule: rtranclp_induct) (use assms(1) core_None in \<open>auto simp: chains_wf_def\<close>)

lemma is_ancestor_exact:
  assumes inv: "dag_inv g" and x: "hg_get g x = Some rx" and y: "hg_get g y = Some ry"
    and i: "map_of (member_index g) (ev_creator (er_event ry)) = Some i"
  shows "is_ancestor g x y = Ok (ancestor g x y \<and> (x = y \<or> er_seq ry \<le> er_ancestor_seqs rx ! i))"
    "\<not> known_forkers g ! i \<Longrightarrow> is_ancestor g x y = Ok (ancestor g x y) \<and> \<not> fork_below g x (ev_creator (er_event ry))"
    "ancestor g x y \<Longrightarrow> \<not> fork_below g x (ev_creator (er_event ry)) \<Longrightarrow> er_seq ry \<le> er_ancestor_seqs rx ! i"
proof -
  let ?c = "ev_creator (er_event ry)" and ?row = "er_ancestor_seqs rx"
  have wf: "members_wf g" "chains_wf g" "forks_flagged g" "rows_wf g" using inv by (auto simp: dag_inv_def)
  have row: "row g x = Some ?row" using x by (simp add: row_def core_def)
  have seq: "has_seq g ?c (er_seq ry) y" using y by (simp add: has_seq_def)
  have len: "i < length ?row" "i < length (known_forkers g)"
    using wf(1,4) row members_wf_bound [OF wf(1) i] by (auto simp: rows_wf_def members_wf_def)
  show up: "er_seq ry \<le> ?row ! i" if "ancestor g x y" "\<not> fork_below g x ?c"
    using wf(4) row i that seq unfolding rows_wf_def by blast
  have nofork: "\<not> fork_below g x ?c" if "\<not> known_forkers g ! i"
    using wf(3) i that unfolding forks_flagged_def fork_among_def by blast
  have down: "ancestor g x y" if le: "er_seq ry \<le> ?row ! i" and ok: "\<not> known_forkers g ! i"
  proof -
    have nz: "er_seq ry \<noteq> 0" using wf(2) seq by (auto simp: chains_wf_def)
    then have "?row ! i \<noteq> 0" using le by auto
    then obtain z where z: "ancestor g x z" "has_seq g ?c (?row ! i) z" using wf(4) row i unfolding rows_wf_def by blast
    from chain_down [OF wf(2) z(2) nz le] obtain k where k: "ancestor g z k" "has_seq g ?c (er_seq ry) k" by blast
    then have "k = y" using wf(3) i ok seq unfolding forks_flagged_def by blast
    with z(1) k(1) show ?thesis by auto
  qed
  have val: "is_ancestor g x y = (if x = y then Ok True else if ?row ! i < er_seq ry then Ok False
      else if \<not> known_forkers g ! i then Ok True else Ok (ancestor g x y))"
    using x y i len
    by (simp add: is_ancestor_def member_index_of_def ancestor_seq_def index_at_def creator_has_known_fork_def
        ancestry_contains_event_iff)
  show "is_ancestor g x y = Ok (ancestor g x y \<and> (x = y \<or> er_seq ry \<le> ?row ! i))"
    using val down by (auto simp: not_less)
  show "is_ancestor g x y = Ok (ancestor g x y) \<and> \<not> fork_below g x ?c" if "\<not> known_forkers g ! i"
    using val down up nofork that by (auto simp: not_less)
qed

lemma see_exact:
  assumes inv: "dag_inv g" and x: "hg_get g x = Some rx" and y: "hg_get g y = Some ry"
  shows "see g x y = Ok (ancestor g x y \<and> \<not> fork_below g x (ev_creator (er_event ry)))"
proof -
  let ?c = "ev_creator (er_event ry)"
  have "has_seq g ?c (er_seq ry) y" using y by (simp add: has_seq_def)
  with inv obtain i where i: "map_of (member_index g) ?c = Some i"
    unfolding dag_inv_def chains_wf_def by blast
  have len: "i < length (known_forkers g)"
    using inv members_wf_bound [OF _ i] by (auto simp: dag_inv_def members_wf_def)
  note anc = is_ancestor_exact [OF inv x y i]
  show ?thesis
  proof (cases "known_forkers g ! i")
    case False
    with anc(2) y i len show ?thesis
      by (simp add: see_def member_index_of_def creator_has_known_fork_def index_at_def)
  next
    case True
    with anc(1,3) y i len show ?thesis
      by (auto simp: see_def member_index_of_def creator_has_known_fork_def index_at_def ancestry_contains_fork_iff)
  qed
qed

subsection \<open>Placing an event\<close>

text \<open>What \<open>place_event\<close> does to the ancestry, in terms of the specification.\<close>

definition placed :: "Hashgraph \<Rightarrow> EventHash \<Rightarrow> Event \<Rightarrow> u64 \<Rightarrow> u64 list \<Rightarrow> nat \<Rightarrow> Hashgraph \<Rightarrow> bool" where
  "placed g h e s rw i g1 \<longleftrightarrow>
     core g h = None \<and> core g1 = (core g)(h \<mapsto> (e, s, rw)) \<and>
     member_index g1 = member_index g \<and> member_count g1 = member_count g \<and>
     map_of (member_index g) (ev_creator e) = Some i \<and> (\<forall>p \<in> set (event_parents e). core g p \<noteq> None) \<and>
     (case ev_self_parent e of None \<Rightarrow> s = 1 | Some p \<Rightarrow> \<exists>t. has_seq g (ev_creator e) t p \<and> unat s = unat t + 1) \<and>
     length rw = member_count g \<and> rw ! i = s \<and>
     (\<forall>j < member_count g. j \<noteq> i \<longrightarrow> rw ! j = fold (\<lambda>p. max (the (row g p) ! j)) (event_parents e) 0) \<and>
     (if map_of (first_child g) (ev_creator e, ev_self_parent e) = None
      then map_of (first_child g1) = (map_of (first_child g))((ev_creator e, ev_self_parent e) \<mapsto> h) \<and>
        known_forkers g1 = known_forkers g
      else map_of (first_child g1) = map_of (first_child g) \<and>
        (map_of (first_child g) (ev_creator e, ev_self_parent e) \<noteq> Some h \<longrightarrow>
           known_forkers g1 = (known_forkers g)[i := True]))"

lemma placed_has_seq: "placed g h e s rw i g1 \<Longrightarrow> has_seq g1 c t k \<longleftrightarrow> (if k = h then c = ev_creator e \<and> t = s else has_seq g c t k)"
  by (auto simp: placed_def has_seq_core)

lemma placed_parent: "placed g h e s rw i g1 \<Longrightarrow> parent g1 x p \<longleftrightarrow> (if x = h then p \<in> set (event_parents e) else parent g x p)"
  by (auto simp: placed_def parent_core)

lemma placed_old_ancestor:
  assumes pl: "placed g h e s rw i g1" and inv: "chains_wf g" and x: "x \<noteq> h"
  shows "ancestor g1 x y \<longleftrightarrow> ancestor g x y" "ancestor g x y \<Longrightarrow> y \<noteq> h"
proof -
  have new: "core g h = None" using pl by (simp add: placed_def)
  have "\<not> parent g z h" for z using inv new unfolding chains_wf_def by blast
  have sub: "parent g z w \<Longrightarrow> parent g1 z w" for z w
    using placed_parent [OF pl, of z w] new by (cases "z = h") (auto simp: parent_core)
  have old: "ancestor g x y \<and> y \<noteq> h" if "ancestor g1 x y" for y
    using that
  proof (induction rule: rtranclp_induct)
    case (step y z)
    then have "parent g y z" using placed_parent [OF pl, of y z] by simp
    with step.IH \<open>\<And>z. \<not> parent g z h\<close> show ?case by (metis rtranclp.rtrancl_into_rtrancl)
  qed (use x in simp)
  have up: "ancestor g x y \<Longrightarrow> ancestor g1 x y" for y
    using sub by (metis (no_types, lifting) predicate2D predicate2I rtranclp_mono)
  show "ancestor g1 x y \<longleftrightarrow> ancestor g x y" "ancestor g x y \<Longrightarrow> y \<noteq> h" using old up by blast+
qed

lemma placed_new_ancestor:
  assumes pl: "placed g h e s rw i g1" and inv: "chains_wf g"
  shows "ancestor g1 h y \<longleftrightarrow> y = h \<or> (\<exists>p \<in> set (event_parents e). ancestor g p y)"
proof -
  have ne: "p \<noteq> h" if "p \<in> set (event_parents e)" for p using pl that by (auto simp: placed_def)
  have "ancestor g1 h y \<longleftrightarrow> y = h \<or> (\<exists>p. parent g1 h p \<and> ancestor g1 p y)"
    by (metis converse_rtranclpE converse_rtranclp_into_rtranclp rtranclp.rtrancl_refl)
  also have "\<dots> \<longleftrightarrow> y = h \<or> (\<exists>p \<in> set (event_parents e). ancestor g p y)"
    using placed_parent [OF pl, of h] placed_old_ancestor(1) [OF pl inv ne] by auto
  finally show ?thesis .
qed

lemma placed_fork_old:
  assumes pl: "placed g h e s rw i g1" and inv: "chains_wf g" and x: "x \<noteq> h"
  shows "fork_below g1 x c \<longleftrightarrow> fork_below g x c"
proof -
  have "{k. ancestor g1 x k} = {k. ancestor g x k}" "h \<notin> {k. ancestor g x k}"
    using placed_old_ancestor [OF pl inv x] by auto
  then show ?thesis unfolding fork_among_def using placed_has_seq [OF pl] by auto
qed

lemma placed_fork_new:
  assumes pl: "placed g h e s rw i g1" and inv: "chains_wf g" and "\<not> fork_below g1 h c"
  shows "p \<in> set (event_parents e) \<Longrightarrow> \<not> fork_below g p c"
    "p \<in> set (event_parents e) \<Longrightarrow> ancestor g p a \<Longrightarrow> has_seq g (ev_creator e) s a \<Longrightarrow> c = ev_creator e \<Longrightarrow> False"
proof -
  have p_ne: "p \<noteq> h" if "p \<in> set (event_parents e)" for p using pl that by (auto simp: placed_def)
  then have ne: "p \<noteq> h" "ancestor g p a \<Longrightarrow> a \<noteq> h" if "p \<in> set (event_parents e)" for p a
    using that placed_old_ancestor(2) [OF pl inv] by blast+
  note anc = placed_new_ancestor [OF pl inv]
  show "\<not> fork_below g p c" if p: "p \<in> set (event_parents e)"
  proof
    assume "fork_below g p c"
    then obtain a b t where "ancestor g p a" "ancestor g p b" "a \<noteq> b" "has_seq g c t a" "has_seq g c t b"
      by (auto simp: fork_among_def)
    with p ne [OF p] have "ancestor g1 h a" "ancestor g1 h b" "has_seq g1 c t a" "has_seq g1 c t b"
      using anc placed_has_seq [OF pl] by auto
    with \<open>a \<noteq> b\<close> assms(3) show False by (auto simp: fork_among_def)
  qed
  show False if p: "p \<in> set (event_parents e)" "ancestor g p a" "has_seq g (ev_creator e) s a" "c = ev_creator e"
  proof -
    have "ancestor g1 h a" "has_seq g1 c s a" "has_seq g1 c s h" "ancestor g1 h h" "a \<noteq> h"
      using p ne [OF p(1)] anc placed_has_seq [OF pl] by auto
    with assms(3) show False unfolding fork_among_def by blast
  qed
qed

lemma placed_self_parent: "placed g h e s rw i g1 \<Longrightarrow> self_parent_of g1 k = (if k = h then ev_self_parent e else self_parent_of g k)"
  by (simp add: placed_def self_parent_of_def)

lemma placed_members_wf:
  assumes "placed g h e s rw i g1" "dag_inv g"
  shows "members_wf g1"
proof -
  have "map_of (first_child g) (ev_creator e, ev_self_parent e) \<noteq> Some h"
    using assms unfolding placed_def dag_inv_def chains_wf_def by blast
  with assms show ?thesis by (auto simp: placed_def dag_inv_def members_wf_def split: if_splits)
qed

lemma placed_chains_wf:
  assumes pl: "placed g h e s rw i g1" and inv: "chains_wf g"
  shows "chains_wf g1"
  unfolding chains_wf_def
proof (intro conjI allI impI)
  have stored: "core g k \<noteq> None \<Longrightarrow> core g1 k \<noteq> None" for k using pl by (simp add: placed_def)
  show "core g1 p \<noteq> None" if "parent g1 x p" for x p
    using that pl inv stored unfolding placed_parent [OF pl] placed_def chains_wf_def by (metis (full_types))
  show "core g1 k \<noteq> None" if "map_of (first_child g1) key = Some k" for key k
  proof (cases "map_of (first_child g) key = Some k")
    case True
    with inv stored show ?thesis unfolding chains_wf_def by blast
  next
    case False
    with that pl have "k = h" by (auto simp: placed_def split: if_splits)
    with pl show ?thesis by (simp add: placed_def)
  qed
  fix k c t assume seq: "has_seq g1 c t k"
  have old: "has_seq g1 c t k" if "has_seq g c t k" for c t k
    using that pl by (auto simp: placed_has_seq [OF pl] placed_def has_seq_core)
  have fc: "map_of (first_child g) key \<noteq> None \<Longrightarrow> map_of (first_child g1) key \<noteq> None" for key
    using pl by (auto simp: placed_def split: if_splits)
  show "map_of (member_index g1) c \<noteq> None" "t \<noteq> 0" "map_of (first_child g1) (c, self_parent_of g1 k) \<noteq> None"
    "case self_parent_of g1 k of None \<Rightarrow> t = 1 | Some p \<Rightarrow> \<exists>u. has_seq g1 c u p \<and> unat t = unat u + 1"
  proof -
    have "map_of (member_index g1) c \<noteq> None \<and> t \<noteq> 0 \<and> map_of (first_child g1) (c, self_parent_of g1 k) \<noteq> None \<and>
      (case self_parent_of g1 k of None \<Rightarrow> t = 1 | Some p \<Rightarrow> \<exists>u. has_seq g1 c u p \<and> unat t = unat u + 1)"
    proof (cases "k = h")
      case True
      with seq have c: "c = ev_creator e" "t = s" by (simp_all add: placed_has_seq [OF pl])
      have step: "case ev_self_parent e of None \<Rightarrow> s = 1 | Some p \<Rightarrow> \<exists>u. has_seq g1 c u p \<and> unat s = unat u + 1"
        using pl old c by (auto simp: placed_def split: option.splits)
      then have "s \<noteq> 0" by (auto split: option.splits)
      moreover have "map_of (first_child g1) (c, ev_self_parent e) \<noteq> None" using pl c by (auto simp: placed_def split: if_splits)
      moreover have "map_of (member_index g1) c \<noteq> None" using pl c by (simp add: placed_def)
      ultimately show ?thesis using True c(2) step by (auto simp: placed_self_parent [OF pl] split: option.splits)
    next
      case False
      with seq have "has_seq g c t k" by (simp add: placed_has_seq [OF pl])
      with inv have k: "map_of (member_index g) c \<noteq> None" "t \<noteq> 0" "map_of (first_child g) (c, self_parent_of g k) \<noteq> None"
        "case self_parent_of g k of None \<Rightarrow> t = 1 | Some p \<Rightarrow> \<exists>u. has_seq g c u p \<and> unat t = unat u + 1"
        unfolding chains_wf_def by blast+
      from k(4) old have "case self_parent_of g k of None \<Rightarrow> t = 1 | Some p \<Rightarrow> \<exists>u. has_seq g1 c u p \<and> unat t = unat u + 1"
        by (cases "self_parent_of g k") (auto intro: old)
      moreover have "member_index g1 = member_index g" using pl by (simp add: placed_def)
      ultimately show ?thesis using False k(1-3) fc by (simp add: placed_self_parent [OF pl])
    qed
    then show "map_of (member_index g1) c \<noteq> None" "t \<noteq> 0" "map_of (first_child g1) (c, self_parent_of g1 k) \<noteq> None"
      "case self_parent_of g1 k of None \<Rightarrow> t = 1 | Some p \<Rightarrow> \<exists>u. has_seq g1 c u p \<and> unat t = unat u + 1" by auto
  qed
qed

lemma placed_forks_flagged:
  assumes pl: "placed g h e s rw i g1" and inv: "dag_inv g"
  shows "forks_flagged g1"
  unfolding forks_flagged_def
proof (intro allI impI, elim conjE)
  have wf: "members_wf g" "chains_wf g" "forks_flagged g" using inv by (auto simp: dag_inv_def)
  fix c j t a b
  assume c: "map_of (member_index g1) c = Some j" "\<not> known_forkers g1 ! j" "has_seq g1 c t a" "has_seq g1 c t b"
  have j: "map_of (member_index g) c = Some j" using c(1) pl by (simp add: placed_def)
  have i: "map_of (member_index g) (ev_creator e) = Some i" using pl by (simp add: placed_def)
  have notnew: "map_of (first_child g) (ev_creator e, ev_self_parent e) \<noteq> Some h"
    using pl wf(2) unfolding placed_def chains_wf_def by blast
  have bound: "i < length (known_forkers g)" using members_wf_bound [OF wf(1) i] wf(1) by (simp add: members_wf_def)
  have flag: "\<not> known_forkers g ! j" "c = ev_creator e \<Longrightarrow> map_of (first_child g) (ev_creator e, ev_self_parent e) = None"
    using pl c(2) notnew bound i j by (auto simp: placed_def nth_list_update split: if_splits)
  have fresh: "\<not> has_seq g c t k" if k: "c = ev_creator e" "t = s" for k
  proof
    assume seq: "has_seq g c t k"
    then have "map_of (first_child g) (c, self_parent_of g k) \<noteq> None"
      and down: "case self_parent_of g k of None \<Rightarrow> t = 1 | Some p \<Rightarrow> \<exists>u. has_seq g c u p \<and> unat t = unat u + 1"
      and nz: "\<And>c t k. has_seq g c t k \<Longrightarrow> t \<noteq> 0"
      using wf(2) unfolding chains_wf_def by blast+
    moreover have "self_parent_of g k = ev_self_parent e"
    proof (cases "ev_self_parent e")
      case None
      then have "s = 1" using pl by (simp add: placed_def)
      with down k nz show ?thesis using None by (auto simp: unat_eq_zero split: option.splits)
    next
      case (Some p)
      then obtain u where u: "has_seq g c u p" "unat s = unat u + 1" using pl k by (auto simp: placed_def)
      then have "unat u \<noteq> 0" using nz by (auto simp: unat_eq_zero)
      with u down k obtain q v where q: "self_parent_of g k = Some q" "has_seq g c v q" "unat s = unat v + 1"
        by (auto split: option.splits)
      then have "v = u" using u(2) by (simp add: word_unat_eq_iff)
      with forks_flaggedD [OF wf(3) j flag(1) q(2)] u(1) q(1) Some show ?thesis by simp
    qed
    ultimately show False using flag(2) k by simp
  qed
  show "a = b"
  proof (cases "c = ev_creator e \<and> t = s")
    case True
    with c(3,4) fresh show ?thesis by (auto simp: placed_has_seq [OF pl] split: if_splits)
  next
    case False
    with c(3,4) have "has_seq g c t a" "has_seq g c t b" by (auto simp: placed_has_seq [OF pl] split: if_splits)
    then show ?thesis by (rule forks_flaggedD [OF wf(3) j flag(1)])
  qed
qed

lemma fold_max_init: "(z :: u64) \<le> fold (\<lambda>p. max (f p)) xs z"
  by (induction xs arbitrary: z) (auto intro: order_trans [OF max.cobounded2])

lemma fold_max_mem: "x \<in> set xs \<Longrightarrow> (f x :: u64) \<le> fold (\<lambda>p. max (f p)) xs z"
  by (induction xs arbitrary: z) (auto intro: order_trans [OF max.cobounded1 fold_max_init])

lemma fold_max_in:
  fixes f :: "'a \<Rightarrow> u64"
  shows "fold (\<lambda>p. max (f p)) xs z = z \<or> (\<exists>x \<in> set xs. fold (\<lambda>p. max (f p)) xs z = f x)"
proof (induction xs arbitrary: z)
  case (Cons y ys)
  from Cons.IH [of "max (f y) z"] show ?case by (auto simp: max_def split: if_splits)
qed simp

lemma placed_rows_wf:
  assumes pl: "placed g h e s rw i g1" and inv: "dag_inv g"
  shows "rows_wf g1"
  unfolding rows_wf_def
proof (intro allI impI conjI)
  have wf: "members_wf g" "chains_wf g" "rows_wf g" using inv by (auto simp: dag_inv_def)
  have i: "map_of (member_index g) (ev_creator e) = Some i" "member_index g1 = member_index g" "member_count g1 = member_count g"
    using pl by (auto simp: placed_def)
  have prow: "\<exists>r. row g p = Some r" "p \<noteq> h" if "p \<in> set (event_parents e)" for p
    using pl that by (auto simp: placed_def row_def)
  have rw: "length rw = member_count g" "rw ! i = s"
    "j < member_count g \<Longrightarrow> j \<noteq> i \<Longrightarrow> rw ! j = fold (\<lambda>p. max (the (row g p) ! j)) (event_parents e) 0" for j
    using pl by (auto simp: placed_def)
  fix x r assume x: "row g1 x = Some r"
  have old: "row g x = Some r" if "x \<noteq> h" using x pl that by (simp add: row_def placed_def)
  have new: "r = rw" if "x = h" using x pl that by (simp add: row_def placed_def)
  show "length r = member_count g1"
    using old new wf(3) rw(1) i(3) by (cases "x = h") (auto simp: rows_wf_def)
  fix c j assume c: "map_of (member_index g1) c = Some j"
  then have c': "map_of (member_index g) c = Some j" "j < member_count g" using i(2) members_wf_bound [OF wf(1)] by auto
  show "t \<le> r ! j" if y: "ancestor g1 x y \<and> has_seq g1 c t y \<and> \<not> fork_below g1 x c" for y t
  proof (cases "x = h")
    case False
    then show ?thesis
      using y rows_wfD(2) [OF wf(3) old c'(1), of y t] placed_old_ancestor [OF pl wf(2) False, of y]
        placed_fork_old [OF pl wf(2) False, of c] placed_has_seq [OF pl, of c t y] by auto
  next
    case True
    note nofork = placed_fork_new [OF pl wf(2), of c]
    show ?thesis
    proof (cases "y = h")
      case True': True
      with y have "c = ev_creator e" "t = s" by (auto simp: placed_has_seq [OF pl])
      with True new c'(1) i(1) rw(2) show ?thesis by simp
    next
      case False
      with y True obtain p where p: "p \<in> set (event_parents e)" "ancestor g p y" "has_seq g c t y"
        by (auto simp: placed_new_ancestor [OF pl wf(2)] placed_has_seq [OF pl])
      show ?thesis
      proof (cases "c = ev_creator e")
        case True': True
        have "\<not> s < t"
        proof
          assume "s < t"
          moreover have "s \<noteq> 0" using pl by (auto simp: placed_def split: option.splits)
          ultimately obtain k where "ancestor g y k" "has_seq g c s k" using chain_down [OF wf(2) p(3)] by fastforce
          with p nofork(2) y True True' show False by (metis rtranclp_trans)
        qed
        with True True' new c'(1) i(1) rw(2) show ?thesis by (simp add: not_less)
      next
        case False
        then have "j \<noteq> i" using c' i members_wf_inj [OF wf(1)] by blast
        obtain q where q: "row g p = Some q" using prow(1) [OF p(1)] by blast
        have "t \<le> q ! j"
          using rows_wfD(2) [OF wf(3) q c'(1) p(2,3)] nofork(1) [OF _ p(1)] y True by blast
        also have "q ! j \<le> rw ! j"
          using fold_max_mem [OF p(1), of "\<lambda>p. the (row g p) ! j" 0] q rw(3) [OF c'(2) \<open>j \<noteq> i\<close>] by simp
        finally show ?thesis using True new by simp
      qed
    qed
  qed
  show "\<exists>z. ancestor g1 x z \<and> has_seq g1 c (r ! j) z" if nz: "r ! j \<noteq> 0"
  proof (cases "x = h")
    case False
    then obtain z where "ancestor g x z" "has_seq g c (r ! j) z" using rows_wfD(3) [OF wf(3) old c'(1) nz] by blast
    then show ?thesis using placed_old_ancestor [OF pl wf(2) False] placed_has_seq [OF pl] by auto
  next
    case True
    show ?thesis
    proof (cases "j = i")
      case True': True
      then have "c = ev_creator e" using c' i members_wf_inj [OF wf(1)] by blast
      with True True' new show ?thesis by (auto simp: placed_has_seq [OF pl] rw(2))
    next
      case False
      with rw(3) [OF c'(2)] fold_max_in [of "\<lambda>p. the (row g p) ! j" "event_parents e" 0] nz True new
      obtain p where p: "p \<in> set (event_parents e)" "r ! j = the (row g p) ! j" by auto
      obtain q where q: "row g p = Some q" using prow(1) [OF p(1)] by blast
      with rows_wfD(3) [OF wf(3) q c'(1)] p(2) nz obtain z where z: "ancestor g p z" "has_seq g c (r ! j) z" by auto
      then have "z \<noteq> h" using placed_old_ancestor(2) [OF pl wf(2) prow(2) [OF p(1)]] by blast
      with z p(1) True show ?thesis by (auto simp: placed_new_ancestor [OF pl wf(2)] placed_has_seq [OF pl])
    qed
  qed
qed

lemma placed_dag_inv: "placed g h e s rw i g1 \<Longrightarrow> dag_inv g \<Longrightarrow> dag_inv g1"
  using placed_members_wf placed_chains_wf placed_forks_flagged placed_rows_wf by (metis dag_inv_def)

end
