(* ===== verification/Live.thy ===== *)
theory Live
  imports Dag
begin

section \<open>Live graphs\<close>

text \<open>
  The graphs that a node builds from a genesis registry by live steps satisfy the ancestry
  invariant, so the queries compute the specification on them.
\<close>

subsection \<open>Insertion keeps the invariant\<close>

lemma row_max_length [simp]: "length (row_max xs ys) = length xs"
  by (induction xs ys rule: row_max.induct) auto

lemma row_max_nth: "j < length xs \<Longrightarrow> j < length ys \<Longrightarrow> row_max xs ys ! j = max (xs ! j) (ys ! j)"
proof (induction xs ys arbitrary: j rule: row_max.induct)
  case (1 x xs y ys)
  then show ?case by (cases j) auto
qed auto

lemma max_word_zero [simp]: "max (0 :: u64) x = x" "max x (0 :: u64) = x"
  by (simp_all add: max_def)

lemma find_parent_OkD:
  "find_parent g p = Ok r \<Longrightarrow> (case p of None \<Rightarrow> r = None | Some h \<Rightarrow> \<exists>x. hg_get g h = Some x \<and> r = Some x)"
  by (auto simp: find_parent_def split: option.splits)

lemma parents_row_spec:
  assumes inv: "rows_wf g" and sp: "find_parent g (ev_self_parent e) = Ok sp" and op: "find_parent g (ev_other_parent e) = Ok op"
    and row: "parents_row (member_count g) sp op = Ok rw"
  shows "length rw = member_count g"
    "j < member_count g \<Longrightarrow> rw ! j = fold (\<lambda>p. max (the (row g p) ! j)) (event_parents e) 0"
proof -
  have len: "length (er_ancestor_seqs r) = member_count g" "row g h = Some (er_ancestor_seqs r)" if "hg_get g h = Some r" for h r
    using inv that by (auto simp: rows_wf_def row_def core_def)
  note sp' = find_parent_OkD [OF sp] and op' = find_parent_OkD [OF op]
  have "length rw = member_count g \<and> (j < member_count g \<longrightarrow> rw ! j = fold (\<lambda>p. max (the (row g p) ! j)) (event_parents e) 0)"
  proof (cases "ev_self_parent e")
    case None
    with sp' have "sp = None" by simp
    with None op' row len show ?thesis
      by (cases "ev_other_parent e")
        (auto simp: parents_row_def event_parents_def map_filter_simps row_max_nth)
  next
    case (Some p)
    with sp' obtain r where r: "hg_get g p = Some r" "sp = Some r" by auto
    with Some op' row len show ?thesis
      by (cases "ev_other_parent e")
        (auto simp: parents_row_def copy_from_slice_def event_parents_def map_filter_simps row_max_nth max.commute split: if_splits)
  qed
  then show "length rw = member_count g"
    "j < member_count g \<Longrightarrow> rw ! j = fold (\<lambda>p. max (the (row g p) ! j)) (event_parents e) 0" by auto
qed

lemma place_event_placed:
  assumes inv: "dag_inv g" and new: "hg_get g h = None" and i: "map_of (member_index g) (ev_creator e) = Some i"
    and sp: "find_parent g (ev_self_parent e) = Ok sp" and op: "find_parent g (ev_other_parent e) = Ok op"
    and own: "\<And>r. sp = Some r \<Longrightarrow> ev_creator (er_event r) = ev_creator e"
    and run: "place_event g e h i sp op = Ok g1"
  shows "\<exists>s rw. placed g h e s rw i g1"
proof -
  let ?key = "(ev_creator e, ev_self_parent e)"
  from run obtain s row0 rw g0 where s: "(case sp of None \<Rightarrow> Ok 1 | Some r \<Rightarrow> ok_or_panic (u64_checked_add (er_seq r) 1)) = (Ok s :: u64 hg_result)"
    and row0: "parents_row (member_count g) sp op = Ok row0" and rw: "write_at row0 i s = (Ok rw :: u64 list hg_result)"
    and g0: "note_branch g ?key i h = Ok g0"
    and g1: "g1 = store_event (link_children (event_parents e) h
      (note_latest (note_seq g0 (ev_creator e) s h) (ev_creator e) s h))
       h (fresh_record e s rw (base_round (map_option er_round sp) (map_option er_round op)))"
    unfolding place_event_def by auto
  have g0': "hg_get g0 = hg_get g" "member_index g0 = member_index g" "member_count g0 = member_count g"
    using g0 by (auto elim!: note_branch_OkE simp: fun_eq_iff hg_get_def)
  have get: "hg_get g1 k = (if k = h then Some (fresh_record e s rw (base_round (map_option er_round sp) (map_option er_round op)))
      else hg_get g k)" for k
    unfolding g1 hg_get_store_event g0'(1) [symmetric]
    by (auto simp: link_children_def note_latest_def note_seq_def hg_get_def split: option.splits)
  have same: "member_index g1 = member_index g" "member_count g1 = member_count g"
    "first_child g1 = first_child g0" "known_forkers g1 = known_forkers g0"
    using g0' by (auto simp: g1 store_event_def link_children_def note_latest_def note_seq_def split: option.splits)
  have core: "core g1 = (core g)(h \<mapsto> (e, s, rw))"
    by (simp add: fun_eq_iff core_def get fresh_record_def)
  have parents: "\<forall>p \<in> set (event_parents e). core g p \<noteq> None"
    using find_parent_OkD [OF sp] find_parent_OkD [OF op]
    by (auto simp: core_def event_parents_def map_filter_simps split: option.splits)
  have seq: "case ev_self_parent e of None \<Rightarrow> s = 1 | Some p \<Rightarrow> \<exists>t. has_seq g (ev_creator e) t p \<and> unat s = unat t + 1"
    using find_parent_OkD [OF sp] s own unat_u64_checked_add by (fastforce simp: has_seq_def split: option.splits)
  have rows: "length rw = member_count g" "rw ! i = s"
    "\<forall>j < member_count g. j \<noteq> i \<longrightarrow> rw ! j = fold (\<lambda>p. max (the (row g p) ! j)) (event_parents e) 0"
    using parents_row_spec [OF _ sp op row0] inv rw by (auto simp: dag_inv_def write_at_def split: if_splits)
  have branch: "if map_of (first_child g) ?key = None
      then map_of (first_child g1) = (map_of (first_child g))(?key \<mapsto> h) \<and> known_forkers g1 = known_forkers g
      else map_of (first_child g1) = map_of (first_child g) \<and>
        (map_of (first_child g) ?key \<noteq> Some h \<longrightarrow> known_forkers g1 = (known_forkers g)[i := True])"
    unfolding same using g0
    by (auto simp: note_branch_def write_at_def fun_eq_iff map_of_or_insert split: option.splits if_splits)
  have "placed g h e s rw i g1"
    unfolding placed_def using new core same(1,2) i parents seq rows branch by (simp add: core_None)
  then show ?thesis by blast
qed

lemma settles_same_core:
  assumes "settles g g'"
  shows "same_core g g'"
proof -
  have "core g' h = core g h" for h
  proof (cases "hg_get g h")
    case None
    then have "hg_get g' h = None"
      using assms by (metis hg_get_def list.set_map map_of_eq_None_iff same_indexes_def settles_def)
    with None show ?thesis by (simp add: core_def)
  next
    case (Some r)
    then obtain r' where "hg_get g' h = Some r'" "rec_settles r r'"
      using assms by (auto simp: settles_def extends_def keeps_records_def)
    moreover have "map_option er_ancestor_seqs (hg_get g' h) = map_option er_ancestor_seqs (hg_get g h)"
      using assms by (simp add: settles_def same_indexes_def same_rows_def)
    ultimately show ?thesis using Some by (simp add: core_def rec_settles_def)
  qed
  with assms show ?thesis by (simp add: same_core_def fun_eq_iff settles_def same_indexes_def)
qed

lemma finalize_round_same_core:
  assumes "finalize_round g h base spr = Ok g'"
  shows "same_core g g'"
  using assms
proof (rule finalize_round_OkE)
  fix k w assume g': "g' = (if w then record_witness (set_event_round g h k w) k h else set_event_round g h k w)"
  then have "hg_get g' x = hg_get (set_event_round g h k w) x" for x
    by (simp add: record_witness_def hg_get_def)
  then have "core g' x = core g x" for x
    by (simp add: core_def hg_get_set_event_round option.map_comp comp_def)
  then show ?thesis by (auto simp: same_core_def fun_eq_iff g' record_witness_def set_event_round_def)
qed

lemma hg_insert_dag_inv:
  assumes "hg_insert sha g ev = Ok (g', h)" "dag_inv g" "hm_wf (events g)"
  shows "dag_inv g'"
  using assms(1)
proof (rule hg_insert_OkE)
  fix i sp op g1 g2 g3
  assume run: "hg_get g h = None" "map_of (member_index g) (ev_creator (into_inner ev)) = Some i"
    "find_parent g (ev_self_parent (into_inner ev)) = Ok sp" "find_parent g (ev_other_parent (into_inner ev)) = Ok op"
    "\<And>r. sp = Some r \<Longrightarrow> ev_creator (er_event r) = ev_creator (into_inner ev)"
    "place_event g (into_inner ev) h i sp op = Ok g1"
    "finalize_round g1 h (base_round (map_option er_round sp) (map_option er_round op)) (map_option er_round sp) = Ok g2"
    "(if (case hg_get g2 h of None \<Rightarrow> False | Some r \<Rightarrow> er_is_witness r) then vote_as_witness g2 h else Ok g2) = Ok g3"
    "note_round_decided_if_complete g3 (next_round_to_order g3) = Ok g'"
  have 1: "dag_inv g1" using place_event_placed [OF assms(2) run(1-6)] placed_dag_inv assms(2) by blast
  have 2: "dag_inv g2" "hm_wf (events g2)"
    using 1 dag_inv_same_core [OF finalize_round_same_core [OF run(7)]] placed_extends(2) [OF run(6,7,1) assms(3)] by auto
  have 3: "settles g2 g3" using run(8) vote_as_witness_settles [OF _ 2(2)] by (auto split: if_splits)
  have 4: "settles g3 g'" using note_round_settles [OF run(9)] settles_hm_wf [OF 3] 2(2) by simp
  show ?thesis using 2(1) dag_inv_same_core [OF settles_same_core [OF 3]] dag_inv_same_core [OF settles_same_core [OF 4]] by simp
qed

subsection \<open>The other steps\<close>

lemma add_member_dag_inv:
  assumes run: "add_member g node k reg = Ok g'" and inv: "dag_inv g"
  shows "dag_inv g'"
proof -
  have wf: "members_wf g" "chains_wf g" "forks_flagged g" "rows_wf g" using inv by (auto simp: dag_inv_def)
  from run have node: "map_of (member_index g) node = None"
    and idx: "map_of (member_index g') = (map_of (member_index g))(node \<mapsto> member_count g)"
    and cnt: "member_count g' = member_count g + 1" "known_forkers g' = known_forkers g @ [False]" "first_child g' = first_child g"
    and core: "core g' h = map_option (\<lambda>(e, s, rw). (e, s, rw @ [0])) (core g h)" for h
    by (auto simp: add_member_def core_def hg_get_def map_of_map update_conv' option.map_comp comp_def split_beta split: if_splits)
  have seq: "has_seq g' = has_seq g" by (auto simp: fun_eq_iff has_seq_core core)
  have par: "parent g' = parent g" by (auto simp: fun_eq_iff parent_core core)
  have fork: "fork_among g' = fork_among g" by (simp add: fun_eq_iff fork_among_def seq)
  have row: "row g' h = map_option (\<lambda>rw. rw @ [0]) (row g h)" for h
    by (simp add: row_def core option.map_comp comp_def split_beta)
  have selfp: "self_parent_of g' = self_parent_of g"
  proof (rule ext)
    show "self_parent_of g' h = self_parent_of g h" for h
      by (cases "core g h") (auto simp: self_parent_of_def core)
  qed
  have none: "\<not> has_seq g node s h" for s h using wf(2) node unfolding chains_wf_def by blast
  have bound: "map_of (member_index g) c = Some i \<Longrightarrow> i < member_count g" for c i by (rule members_wf_bound [OF wf(1)])
  have "members_wf g'"
    unfolding members_wf_def
  proof (intro conjI)
    show "inj_on (map_of (member_index g')) (dom (map_of (member_index g')))"
      unfolding idx using wf(1) bound by (auto simp: inj_on_def dom_def members_wf_def) (metis less_irrefl)+
    show "ran (map_of (member_index g')) \<subseteq> {..<member_count g'}" unfolding idx cnt using bound by (auto simp: ran_def less_SucI split: if_splits)
  qed (use wf(1) cnt in \<open>simp add: members_wf_def\<close>)
  moreover have "chains_wf g'"
    using wf(2) unfolding chains_wf_def seq par selfp cnt(3) idx by (auto simp: core)
  moreover have "forks_flagged g'"
    unfolding forks_flagged_def seq idx cnt(2)
    using wf(1,3) none bound by (auto simp: forks_flagged_def nth_append members_wf_def)
  moreover have "rows_wf g'"
    unfolding rows_wf_def seq par fork row idx cnt
  proof (intro allI impI, goal_cases)
    case (1 x rw)
    then obtain rw0 where rw0: "row g x = Some rw0" "rw = rw0 @ [0]" by auto
    have len: "length rw0 = member_count g" using wf(4) rw0(1) by (auto simp: rows_wf_def)
    show ?case
    proof (intro conjI allI impI, goal_cases)
      case (2 c i y s)
      with none rw0 len bound rows_wfD(2) [OF wf(4) rw0(1)] show ?case by (fastforce simp: nth_append split: if_splits)
    next
      case (3 c i)
      with rw0 len bound rows_wfD(3) [OF wf(4) rw0(1)] show ?case by (fastforce simp: nth_append split: if_splits)
    qed (simp add: rw0 len)
  qed
  ultimately show ?thesis by (simp add: dag_inv_def)
qed

lemma mark_decided_dag_inv:
  assumes "mark_decided_through g k = Ok g'" "hm_wf (events g)" "dag_inv g"
  shows "dag_inv g'"
proof -
  let ?g = "g\<lparr> fully_decided_rounds := fully_decided_rounds g \<union> {next_round_to_order g..k} \<rparr>"
  from assms(1) have "order_decided_rounds ?g = Ok g'" by (auto simp: mark_decided_through_def Let_def split: if_splits)
  then have "settles ?g g'" using assms(2) by (intro order_decided_rounds_settles) auto
  moreover have "same_core g ?g" by (auto simp: same_core_def core_def fun_eq_iff)
  ultimately show ?thesis using assms(3) dag_inv_same_core settles_same_core by blast
qed

lemma hg_new_dag_inv:
  assumes "hm_wf (keys reg)"
  shows "dag_inv (hg_new reg)"
proof -
  let ?ids = "member_ids reg"
  have ids: "distinct ?ids" using assms by (simp add: member_ids_def)
  have idx: "map_of (member_index (hg_new reg)) = map_of (zip ?ids [0..<length ?ids])" by (simp add: hg_new_def Let_def)
  have iff: "map_of (zip ?ids [0..<length ?ids]) c = Some i \<longleftrightarrow> i < length ?ids \<and> ?ids ! i = c" for c i
    using ids by (subst map_of_Some_in) (auto simp: in_set_zip)
  then have "inj_on (map_of (zip ?ids [0..<length ?ids])) (dom (map_of (zip ?ids [0..<length ?ids])))"
    unfolding inj_on_def dom_def by (metis (mono_tags, lifting) mem_Collect_eq not_None_eq)
  moreover have "ran (map_of (zip ?ids [0..<length ?ids])) \<subseteq> {..<length ?ids}" using iff by (auto simp: ran_def)
  ultimately have "members_wf (hg_new reg)"
    unfolding members_wf_def idx by (simp add: hg_new_def Let_def)
  moreover have "core (hg_new reg) = (\<lambda>_. None)" by (simp add: fun_eq_iff core_def hg_get_def hg_new_def Let_def)
  moreover have "first_child (hg_new reg) = []" by (simp add: hg_new_def Let_def)
  ultimately show ?thesis
    by (simp add: dag_inv_def chains_wf_def forks_flagged_def rows_wf_def has_seq_core parent_core row_def)
qed

lemma live_step_dag_inv: "live_step sha g g' \<Longrightarrow> hm_wf (events g) \<Longrightarrow> dag_inv g \<Longrightarrow> dag_inv g'"
  by (induction rule: live_step.induct) (blast intro: hg_insert_dag_inv add_member_dag_inv mark_decided_dag_inv)+

lemma live_dag_inv:
  assumes "(live_step sha)\<^sup>*\<^sup>* (hg_new reg) g" "hm_wf (keys reg)"
  shows "dag_inv g \<and> hm_wf (events g)"
  using assms(1)
proof (induction rule: rtranclp_induct)
  case base
  show ?case using hg_new_dag_inv [OF assms(2)] by (simp add: hg_new_def Let_def)
next
  case (step g g')
  then show ?case using live_step_dag_inv live_step_extends by blast
qed

subsection \<open>The raw ancestor test under a fork\<close>

text \<open>
  The comment on \<^verbatim>\<open>is_ancestor\<close> promises the raw ancestor relation, forks ignored, and the
  one on \<^verbatim>\<open>ancestor_seqs\<close> the highest sequence number among the ancestors. Both fail for a
  creator that forks: the own slot is overwritten by the sequence number of the new branch.
  Here member 0 starts a second branch on top of an event of member 1 that descends from
  its first branch; the second event of the first branch is an ancestor and the test denies it.
\<close>

definition fork_event :: "u64 \<Rightarrow> EventHash option \<Rightarrow> EventHash option \<Rightarrow> Event" where
  "fork_event c sp op = \<lparr> unsigned_part = \<lparr> ue_creator = NodeId c, ue_self_parent = sp, ue_other_parent = op,
     ue_timestamp = Timestamp 5, ue_payload = [] \<rparr>, ev_signature = signature_default \<rparr>"

lemma fork_event_simps [simp]:
  "ev_creator (fork_event c sp op) = NodeId c" "ev_self_parent (fork_event c sp op) = sp" "ev_other_parent (fork_event c sp op) = op"
  by (simp_all add: fork_event_def event_accessor_defs)

definition fork_base :: Hashgraph where
  "fork_base = (hg_new \<lparr> keys = [(NodeId 0, ([], [])), (NodeId 1, ([], []))] \<rparr>)\<lparr>
     events := [(sample_hash 1, fresh_record (fork_event 0 None None) 1 [1, 0] 1),
       (sample_hash 2, fresh_record (fork_event 0 (Some (sample_hash 1)) None) 2 [2, 0] 1),
       (sample_hash 3, fresh_record (fork_event 1 None (Some (sample_hash 2))) 1 [2, 1] 1)],
     member_index := [(NodeId 0, 0), (NodeId 1, 1)],
     first_child := [((NodeId 0, None), sample_hash 1), ((NodeId 0, Some (sample_hash 1)), sample_hash 2),
       ((NodeId 1, None), sample_hash 3)] \<rparr>"

lemma is_ancestor_denies_forked_ancestor:
  "\<exists>g. place_event fork_base (fork_event 0 None (Some (sample_hash 3))) (sample_hash 4) 0 None
      (hg_get fork_base (sample_hash 3)) = Ok g \<and>
    ancestor g (sample_hash 4) (sample_hash 2) \<and> is_ancestor g (sample_hash 4) (sample_hash 2) = Ok False"
proof -
  have fields: "member_count fork_base = Suc (Suc 0)" "known_forkers fork_base = [False, False]" "member_index fork_base = [(NodeId 0, 0), (NodeId 1, 1)]"
    "first_child fork_base = [((NodeId 0, None), sample_hash 1), ((NodeId 0, Some (sample_hash 1)), sample_hash 2),
       ((NodeId 1, None), sample_hash 3)]"
    by (simp_all add: fork_base_def hg_new_def member_ids_def Let_def)
  have get: "hg_get fork_base (sample_hash 3) = Some (fresh_record (fork_event 1 None (Some (sample_hash 2))) 1 [2, 1] 1)"
    "hg_get fork_base (sample_hash 2) = Some (fresh_record (fork_event 0 (Some (sample_hash 1)) None) 2 [2, 0] 1)"
    by (simp_all add: fork_base_def hg_get_def)
  obtain g where g: "place_event fork_base (fork_event 0 None (Some (sample_hash 3))) (sample_hash 4) 0 None
      (hg_get fork_base (sample_hash 3)) = Ok g"
    by (simp add: place_event_def get fields parents_row_def fresh_record_def write_at_def note_branch_def)
  then have rec: "hg_get g h = (if h = sample_hash 4 then Some (fresh_record (fork_event 0 None (Some (sample_hash 3))) 1 [1, 1] 1)
      else hg_get fork_base h)" and idx: "member_index g = member_index fork_base" for h
    by (auto simp: place_event_def get fields parents_row_def fresh_record_def write_at_def note_branch_def
        hg_get_store_event base_round_def)
      (auto simp: store_event_def link_children_def note_latest_def note_seq_def hg_get_def fields split: option.splits)
  have "parent g (sample_hash 4) (sample_hash 3)" "parent g (sample_hash 3) (sample_hash 2)"
    using get by (auto simp: parent_def rec parents_of_def event_parents_def map_filter_simps fresh_record_def)
  then have "ancestor g (sample_hash 4) (sample_hash 2)" by (meson converse_rtranclp_into_rtranclp rtranclp.rtrancl_refl)
  moreover have "is_ancestor g (sample_hash 4) (sample_hash 2) = Ok False"
    using get by (simp add: is_ancestor_def rec member_index_of_def idx fields fresh_record_def ancestor_seq_def index_at_def)
  ultimately show ?thesis using g by blast
qed

subsection \<open>Properties\<close>

lemma sample_live: "(live_step sample_digest)\<^sup>*\<^sup>* (hg_new sample_member) sample_two" "hm_wf (keys sample_member)"
proof -
  have "live_step sample_digest (hg_new sample_member) sample_one" "live_step sample_digest sample_one sample_two"
    using sample_insert_genesis sample_insert_two by (blast intro: live_step.intros)+
  then show "(live_step sample_digest)\<^sup>*\<^sup>* (hg_new sample_member) sample_two" by simp
qed (simp add: sample_member_def)

lemma sample_two_get:
  "hg_get sample_two (sample_hash 1) = Some (sample_record Undecided None None)"
  "\<exists>r. hg_get sample_two (sample_hash 2) = Some r \<and> er_event r = sample_node_event (Some (sample_hash 1))"
  by (simp_all add: sample_two_def hg_get_record_vote sample_finalized_get fresh_record_def)

text \<open>
  Property C2. \<open>see\<close> is the paper's definition: on every graph that a node builds from a
  genesis registry by inserting events and admitting members, and for any two stored
  events, the answer is that the second is reachable from the first over the declared
  parents and that no two events of its creator with the same sequence number are. The
  cached rows, the fork flags and the two fallback traversals never change it, and the
  query never fails.
\<close>

theorem see_is_exact:
  assumes "(live_step sha)\<^sup>*\<^sup>* (hg_new reg) g" "hm_wf (keys reg)"
    and "hg_get g x = Some rx" "hg_get g y = Some ry"
  shows "see g x y = Ok (ancestor g x y \<and>
    \<not> (\<exists>a b s. a \<noteq> b \<and> ancestor g x a \<and> ancestor g x b \<and>
        has_seq g (ev_creator (er_event ry)) s a \<and> has_seq g (ev_creator (er_event ry)) s b))"
proof -
  have "dag_inv g" using live_dag_inv [OF assms(1,2)] by simp
  from see_exact [OF this assms(3,4)] show ?thesis by (auto simp: fork_among_def)
qed

theorem see_is_exact_witness: "see sample_two (sample_hash 2) (sample_hash 1) = Ok True"
proof -
  obtain r where r: "hg_get sample_two (sample_hash 2) = Some r" "er_event r = sample_node_event (Some (sample_hash 1))"
    using sample_two_get(2) by blast
  let ?g = sample_two
  have par: "parent ?g (sample_hash 2) p \<longleftrightarrow> p = sample_hash 1" "\<not> parent ?g (sample_hash 1) p" for p
    using r sample_two_get(1) by (auto simp: parent_def parents_of_def event_parents_def map_filter_simps sample_record_simps)
  have anc: "ancestor ?g (sample_hash 2) a \<longleftrightarrow> a = sample_hash 2 \<or> a = sample_hash 1" for a
  proof
    assume "ancestor ?g (sample_hash 2) a"
    then show "a = sample_hash 2 \<or> a = sample_hash 1" by (induction rule: rtranclp_induct) (use par in auto)
  qed (use par in auto)
  have "has_seq ?g c s (sample_hash 1) \<Longrightarrow> s = 1" "has_seq ?g c s (sample_hash 2) \<Longrightarrow> s = 2" for c s
    using sample_two_get(1)
    by (auto simp: has_seq_def sample_record_simps sample_two_def hg_get_record_vote sample_finalized_get fresh_record_def)
  then have "\<not> (\<exists>a b s. a \<noteq> b \<and> ancestor ?g (sample_hash 2) a \<and> ancestor ?g (sample_hash 2) b \<and>
      has_seq ?g c s a \<and> has_seq ?g c s b)" for c
    unfolding anc by fastforce
  with see_is_exact [OF sample_live r(1) sample_two_get(1)] anc show ?thesis by simp
qed

end
