(* ===== verification/HonestTransfer.thy ===== *)
theory HonestTransfer
  imports ReconnectSafety Live
begin

section \<open>An honest transfer is accepted\<close>

text \<open>
  The teacher's graph passes, record by record, the checks that the learner makes against the
  parents it already holds, and the rebuilt graph shows the same orders and the same window root.
\<close>

subsection \<open>Records that pass the checks\<close>

definition retained_of :: "EventRecord \<Rightarrow> RetainedEvent" where
  "retained_of r = \<lparr> re_event = er_event r, re_seq = er_seq r, re_round = er_round r, re_ancestor_seqs = er_ancestor_seqs r,
     re_round_received = er_round_received r, re_timestamp = er_timestamp r \<rparr>"

lemma retained_events_map: "retained_events g = map (\<lambda>(_, r). retained_of r) (events g)"
  by (simp add: retained_events_def retained_of_def)

text \<open>A record agrees with the parents stored beside it: the checks of \<^verbatim>\<open>insert_accepted\<close>.\<close>

definition record_consistent :: "hash_fn \<Rightarrow> Hashgraph \<Rightarrow> EventHash \<Rightarrow> EventRecord \<Rightarrow> bool" where
  "record_consistent sha g h r \<longleftrightarrow> (let e = er_event r; sp = stored_parent g (ev_self_parent e); op = stored_parent g (ev_other_parent e) in
     hash_Event sha e = Ok h \<and> length (er_ancestor_seqs r) = member_count g \<and>
     (case sp of None \<Rightarrow> True | Some q \<Rightarrow> ev_creator (er_event q) = ev_creator e) \<and>
     check_retained_seq sp e (er_seq r) = Ok () \<and>
     (\<exists>i. map_of (member_index g) (ev_creator e) = Some i \<and>
        check_retained_row (member_count g) sp op e i (er_seq r) (er_ancestor_seqs r) = Ok ()) \<and>
     base_round (map_option er_round sp) (map_option er_round op) \<le> er_round r)"

definition servable :: "hash_fn \<Rightarrow> Hashgraph \<Rightarrow> bool" where
  "servable sha g \<longleftrightarrow> hm_wf (events g) \<and> members_wf g \<and> acyclic {(p, h). parent g h p} \<and>
     (\<forall>h r. hg_get g h = Some r \<longrightarrow> record_consistent sha g h r)"

text \<open>The part of a record that a transfer carries.\<close>

definition same_metadata :: "EventRecord \<Rightarrow> EventRecord \<Rightarrow> bool" where
  "same_metadata r r' \<longleftrightarrow> er_event r' = er_event r \<and> er_seq r' = er_seq r \<and> er_ancestor_seqs r' = er_ancestor_seqs r \<and>
     er_round r' = er_round r \<and> er_round_received r' = er_round_received r \<and> er_timestamp r' = er_timestamp r"

text \<open>The part of it that the checks read.\<close>

definition same_checked :: "EventRecord \<Rightarrow> EventRecord \<Rightarrow> bool" where
  "same_checked r r' \<longleftrightarrow> er_event r' = er_event r \<and> er_seq r' = er_seq r \<and> er_ancestor_seqs r' = er_ancestor_seqs r \<and> er_round r' = er_round r"

lemma same_metadata_checked: "rel_option same_metadata a b \<Longrightarrow> rel_option same_checked a b"
  by (erule option.rel_mono_strong) (simp add: same_metadata_def same_checked_def)

lemma restored_same:
  assumes "length (er_ancestor_seqs r) = width" "er_round_received r = None \<longleftrightarrow> er_timestamp r = None"
  shows "same_metadata r (restored_record width (retained_of r))"
  using assms by (auto simp: same_metadata_def restored_record_def retained_of_def fresh_record_def resize_row_def split: option.splits)

lemma checks_cong:
  assumes "rel_option same_checked sp sp'" "rel_option same_checked op op'"
  shows "check_retained_seq sp' e s = check_retained_seq sp e s"
    "check_retained_row n sp' op' e i s rw = check_retained_row n sp op e i s rw"
    "base_round (map_option er_round sp') (map_option er_round op') = base_round (map_option er_round sp) (map_option er_round op)"
    "(case sp' of None \<Rightarrow> False | Some q \<Rightarrow> ev_creator (er_event q) \<noteq> c) = (case sp of None \<Rightarrow> False | Some q \<Rightarrow> ev_creator (er_event q) \<noteq> c)"
proof -
  have rows: "parents_row n sp' op' = parents_row n sp op" and none: "sp' = None \<longleftrightarrow> sp = None" "op' = None \<longleftrightarrow> op = None"
    using assms by (auto simp: parents_row_def same_checked_def split: option.splits elim!: option.rel_cases)
  show "check_retained_seq sp' e s = check_retained_seq sp e s"
    using assms by (auto simp: check_retained_seq_def same_checked_def elim!: option.rel_cases)
  show "check_retained_row n sp' op' e i s rw = check_retained_row n sp op e i s rw"
    by (simp only: check_retained_row_def rows none)
  show "base_round (map_option er_round sp') (map_option er_round op') = base_round (map_option er_round sp) (map_option er_round op)"
    using assms by (auto simp: same_checked_def elim!: option.rel_cases)
  show "(case sp' of None \<Rightarrow> False | Some q \<Rightarrow> ev_creator (er_event q) \<noteq> c) = (case sp of None \<Rightarrow> False | Some q \<Rightarrow> ev_creator (er_event q) \<noteq> c)"
    using assms by (auto simp: same_checked_def elim!: option.rel_cases)
qed

lemma insert_accepted_consistent:
  assumes T: "record_consistent sha T h r" and idx: "map_of (member_index L) = map_of (member_index T)" "member_count L = member_count T"
    and wf: "members_wf T" "length (known_forkers L) = member_count L" and new: "hg_get L h = None"
    and parents: "\<forall>p \<in> set (event_parents (er_event r)). rel_option same_metadata (hg_get T p) (hg_get L p)"
    and ord: "check_retained_order (er_round r) (er_round_received r) (er_timestamp r) d = Ok ()"
  shows "\<exists>L'. insert_accepted sha L (retained_of r) d = Ok (L', h)"
proof -
  let ?e = "er_event r"
  have rel: "rel_option same_metadata (stored_parent T (ev_self_parent ?e)) (stored_parent L (ev_self_parent ?e))"
      "rel_option same_metadata (stored_parent T (ev_other_parent ?e)) (stored_parent L (ev_other_parent ?e))"
    using parents by (auto simp: stored_parent_def event_parents_def split: option.splits)
  note eq = checks_cong [OF same_metadata_checked [OF rel(1)] same_metadata_checked [OF rel(2)]]
  from T obtain i where i: "map_of (member_index T) (ev_creator ?e) = Some i"
      "check_retained_row (member_count T) (stored_parent T (ev_self_parent ?e)) (stored_parent T (ev_other_parent ?e)) ?e i (er_seq r) (er_ancestor_seqs r) = Ok ()"
    by (auto simp: record_consistent_def Let_def)
  have row: "resize_row (member_count L) (er_ancestor_seqs r) = er_ancestor_seqs r" "length (er_ancestor_seqs r) = member_count L"
    using T idx(2) by (simp_all add: record_consistent_def Let_def resize_row_def)
  have "i < length (known_forkers L)" using members_wf_bound [OF wf(1) i(1)] wf(2) idx(2) by simp
  then have "\<exists>L0. note_branch L (ev_creator ?e, ev_self_parent ?e) i h = Ok L0"
    by (simp add: note_branch_def write_at_def split: option.split)
  then obtain L0 where L0: "note_branch L (ev_creator ?e, ev_self_parent ?e) i h = Ok L0" by blast
  have T': "hash_Event sha ?e = Ok h" "check_retained_seq (stored_parent T (ev_self_parent ?e)) ?e (er_seq r) = Ok ()"
      "\<not> (case stored_parent T (ev_self_parent ?e) of None \<Rightarrow> False | Some q \<Rightarrow> ev_creator (er_event q) \<noteq> ev_creator ?e)"
      "\<not> er_round r < base_round (map_option er_round (stored_parent T (ev_self_parent ?e))) (map_option er_round (stored_parent T (ev_other_parent ?e)))"
    using T by (auto simp: record_consistent_def Let_def split: option.splits)
  show ?thesis
    using T' i L0 new ord row by (simp add: insert_accepted_def Let_def retained_of_def eq idx)
qed

subsection \<open>Loading the records in order\<close>

text \<open>The learner holds exactly the records at the indices \<open>D\<close> of the transfer.\<close>

definition holds :: "nat \<Rightarrow> (EventHash \<times> EventRecord) list \<Rightarrow> nat set \<Rightarrow> Hashgraph \<Rightarrow> bool" where
  "holds width es D L \<longleftrightarrow> hm_wf (events L) \<and>
     (\<forall>h. hg_get L h = (if \<exists>i \<in> D. i < length es \<and> fst (es ! i) = h then map_option (\<lambda>r. restored_record width (retained_of r)) (map_of es h) else None))"

lemma holds_nth:
  assumes "holds width es D L" "hm_wf es" "i < length es"
  shows "hg_get L (fst (es ! i)) = (if i \<in> D then Some (restored_record width (retained_of (snd (es ! i)))) else None)"
proof -
  have "fst (es ! j) = fst (es ! i) \<longleftrightarrow> j = i" if "j < length es" for j
    using assms(2,3) that by (metis distinct_conv_nth length_map nth_map)
  moreover have "map_of es (fst (es ! i)) = Some (snd (es ! i))"
    using assms(2,3) by (simp add: map_of_Some_in)
  ultimately show ?thesis using assms(1,3) by (auto simp: holds_def)
qed

lemma holds_insert:
  assumes "holds width es D L" "hm_wf es" "i < length es" "i \<notin> D"
    and "events L' = AList.update (fst (es ! i)) (restored_record width (retained_of (snd (es ! i)))) (events L)"
  shows "holds width es (insert i D) L'"
proof -
  have m: "map_of es (fst (es ! i)) = Some (snd (es ! i))" using assms(2,3) by (simp add: map_of_Some_in)
  have "hm_wf (events L')" using assms(1) by (simp add: assms(5) holds_def)
  moreover have "hg_get L' h = (if h = fst (es ! i) then Some (restored_record width (retained_of (snd (es ! i)))) else hg_get L h)" for h
    by (simp add: hg_get_def assms(5) update_conv')
  ultimately show ?thesis using assms(1,3) m by (auto simp: holds_def)
qed

lemma load_records_total:
  assumes wf: "hm_wf es" "members_wf T" and es: "es = events T"
    and T: "\<forall>h r. hg_get T h = Some r \<longrightarrow> record_consistent sha T h r \<and> (er_round_received r = None \<longleftrightarrow> er_timestamp r = None) \<and>
      check_retained_order (er_round r) (er_round_received r) (er_timestamp r) d = Ok ()"
    and ord: "distinct (xs @ ord)" "set (xs @ ord) = {..<length es}" "parents_first (transfer_edges (map fst es) (map (\<lambda>(_, r). retained_of r) es)) (xs @ ord)"
    and L: "holds (member_count T) es (set xs) L" "map_of (member_index L) = map_of (member_index T)" "member_count L = member_count T"
      "length (known_forkers L) = member_count L"
    and slots: "slots = map (\<lambda>i. if i \<in> set xs then None else Some (retained_of (snd (es ! i)))) [0..<length es]"
  shows "\<exists>L'. load_records sha d ord slots L = Ok (Some L') \<and> holds (member_count T) es {..<length es} L' \<and>
    member_index L' = member_index L \<and> member_count L' = member_count L \<and> roster_history L' = roster_history L \<and>
    witnesses_by_round L' = witnesses_by_round L \<and> fully_decided_rounds L' = fully_decided_rounds L \<and> next_round_to_order L' = next_round_to_order L"
  using ord L slots
proof (induction ord arbitrary: xs slots L)
  case Nil
  then show ?case by auto
next
  case (Cons c ord)
  have c: "c < length es" "c \<notin> set xs" using Cons.prems(1,2) by auto
  let ?h = "fst (es ! c)" and ?r = "snd (es ! c)"
  have stored: "hg_get T (fst (es ! j)) = Some (snd (es ! j))" if "j < length es" for j
    using wf(1) that by (simp add: hg_get_def flip: es)
  note Tc = T [rule_format, OF stored [OF c(1)]]
  have parents: "rel_option same_metadata (hg_get T p) (hg_get L p)" if p: "p \<in> set (event_parents (er_event ?r))" for p
  proof (cases "hg_get T p")
    case None
    then have "map_of es p = None" by (simp add: hg_get_def es)
    then have "hg_get L p = None" using Cons.prems(4) by (auto simp: holds_def)
    with None show ?thesis by simp
  next
    case (Some q)
    then obtain j where j: "j < length es" "es ! j = (p, q)" using map_of_SomeD [of es p q] by (auto simp: hg_get_def es in_set_conv_nth)
    have "map fst es ! j \<notin> set (drop (Suc j) (map fst es))"
      using wf(1) j(1) id_take_nth_drop [of j "map fst es"] by (metis distinct.simps(2) distinct_append length_map)
    then have "(j, c) \<in> transfer_edges (map fst es) (map (\<lambda>(_, r). retained_of r) es)"
      using j c(1) p by (simp add: transfer_edges_def case_prod_unfold retained_of_def)
    then have "j \<in> set xs" using Cons.prems(3) by (auto simp: parents_first_def)
    then have "hg_get L p = Some (restored_record (member_count T) (retained_of q))"
      using holds_nth [OF Cons.prems(4) wf(1) j(1)] j(2) by simp
    moreover have "same_metadata q (restored_record (member_count T) (retained_of q))"
      using T Some by (intro restored_same) (auto simp: record_consistent_def Let_def)
    ultimately show ?thesis using Some by simp
  qed
  have new: "hg_get L ?h = None" using holds_nth [OF Cons.prems(4) wf(1) c(1)] c(2) by simp
  obtain L1 where ins: "insert_accepted sha L (retained_of ?r) d = Ok (L1, ?h)"
    using insert_accepted_consistent [OF conjunct1 [OF Tc] Cons.prems(5,6) wf(2) Cons.prems(7) new _ _] parents Tc by blast
  note L1 = insert_accepted_Ok [OF ins]
  have "holds (member_count T) es (set (xs @ [c])) L1"
    using holds_insert [OF Cons.prems(4) wf(1) c L1(3) [unfolded Cons.prems(6)]] by simp
  moreover have "slots[c := None] = map (\<lambda>i. if i \<in> set (xs @ [c]) then None else Some (retained_of (snd (es ! i)))) [0..<length es]"
    unfolding Cons.prems(8) using c(1) by (intro nth_equalityI) (auto simp: nth_list_update)
  ultimately obtain L' where "load_records sha d ord (slots[c := None]) L1 = Ok (Some L')" "holds (member_count T) es {..<length es} L'"
      "member_index L' = member_index L1 \<and> member_count L' = member_count L1 \<and> roster_history L' = roster_history L1 \<and>
       witnesses_by_round L' = witnesses_by_round L1 \<and> fully_decided_rounds L' = fully_decided_rounds L1 \<and> next_round_to_order L' = next_round_to_order L1"
    using Cons.IH [of "xs @ [c]" L1 "slots[c := None]"] Cons.prems(1-3,5-7) L1(4) by auto
  moreover have "slots ! c = Some (retained_of ?r)" "c < length slots" using c by (simp_all add: Cons.prems(8))
  ultimately show ?case using ins L1(4) by (auto simp: or_none_def or_reject_def)
qed

subsection \<open>The order of the transfer\<close>

lemma hash_records_retained:
  "\<forall>(h, r) \<in> set es. hash_Event sha (er_event r) = Ok h \<Longrightarrow> hash_records sha (map (\<lambda>(_, r). retained_of r) es) = Some (map fst es)"
  by (induction es) (auto simp: retained_of_def)

lemma servable_order:
  assumes "servable sha T"
  obtains ord where "topo_sort_retained sha (retained_events T) = Ok (Some ord)" "distinct ord" "set ord = {..<length (events T)}"
    "parents_first (transfer_edges (map fst (events T)) (map (\<lambda>(_, r). retained_of r) (events T))) ord"
proof -
  let ?es = "events T" and ?recs = "map (\<lambda>(_, r). retained_of r) (events T)"
  let ?R = "transfer_edges (map fst ?es) ?recs"
  have wf: "hm_wf ?es" using assms by (simp add: servable_def)
  have get: "hg_get T h = Some r" if "(h, r) \<in> set ?es" for h r using that wf by (simp add: hg_get_def map_of_Some_in)
  have "\<forall>(h, r) \<in> set ?es. hash_Event sha (er_event r) = Ok h"
    using assms get by (auto simp: servable_def record_consistent_def Let_def)
  then have hs: "hash_records sha ?recs = Some (map fst ?es)" by (rule hash_records_retained)
  have edge: "parent T (map fst ?es ! c) (map fst ?es ! p)" if "(p, c) \<in> ?R" for p c
    using that get [of "fst (?es ! c)" "snd (?es ! c)"]
    by (auto simp: transfer_edges_def parent_def parents_of_def case_prod_unfold retained_of_def)
  have "(map fst ?es ! p, map fst ?es ! c) \<in> {(p, h). parent T h p}\<^sup>+" if "(p, c) \<in> ?R\<^sup>+" for p c
    using that by (induction rule: trancl.induct) (auto dest!: edge intro: trancl.intros)
  then have "acyclic ?R" using assms unfolding acyclic_def servable_def by blast
  then obtain ord where ord: "topo_sort_retained sha ?recs = Ok (Some ord)" "mset ord = mset [0..<length ?es]" "parents_first ?R ord"
    using topo_sort_spec [of sha ?recs] hs by auto
  have "set ord = {..<length ?es}" using mset_eq_setD [OF ord(2)] by (simp add: lessThan_atLeast0)
  moreover have "distinct ord" using mset_eq_imp_distinct_iff [OF ord(2)] by simp
  ultimately show thesis using ord(1,3) by (intro that) (simp_all add: retained_events_map)
qed

subsection \<open>The watermark\<close>

text \<open>The rebuilt graph has no witnesses, so marking rounds as decided orders nothing.\<close>

lemma order_rounds_without_witnesses:
  "witnesses_by_round g = [] \<Longrightarrow> fully_decided_rounds g \<subseteq> {..d} \<Longrightarrow> u64_checked_add d 1 \<noteq> None \<Longrightarrow>
   \<exists>g'. order_decided_rounds g = Ok g' \<and> events g' = events g \<and> roster_history g' = roster_history g"
proof (induction g rule: order_decided_rounds.induct)
  case (1 g)
  show ?case
  proof (cases "next_round_to_order g \<in> fully_decided_rounds g")
    case True
    then have "next_round_to_order g \<le> d" using 1(3) by auto
    then obtain n where n: "u64_checked_add (next_round_to_order g) 1 = Some n"
      using 1(4) by (auto simp: u64_checked_add_def word_le_nat_alt split: if_splits)
    have a: "assign_order (g\<lparr> next_round_to_order := n \<rparr>) (next_round_to_order g) = Ok (g\<lparr> next_round_to_order := n \<rparr>)"
      using 1(2) by (simp add: assign_order_def famous_witnesses_of_round_def witnesses_of_round_def)
    from 1(1) [OF True n a] 1(2-4) show ?thesis
      using True n a by (subst order_decided_rounds.simps) simp
  qed (simp add: order_decided_rounds.simps)
qed

lemma mark_decided_transfer:
  assumes "witnesses_by_round L = []" "fully_decided_rounds L \<subseteq> {..d}" "u64_checked_add d 1 \<noteq> None"
    and "events L = [] \<or> d \<le> fold max (map (\<lambda>(_, r). er_round r) (events L)) 0"
  shows "\<exists>L'. mark_decided_through L d = Ok L' \<and> events L' = events L \<and> roster_history L' = roster_history L"
proof -
  let ?L = "L\<lparr> fully_decided_rounds := fully_decided_rounds L \<union> {next_round_to_order L..d} \<rparr>"
  have "\<exists>g'. order_decided_rounds ?L = Ok g' \<and> events g' = events ?L \<and> roster_history g' = roster_history ?L"
    using assms by (intro order_rounds_without_witnesses [of _ d]) auto
  then show ?thesis using assms(4) by (auto simp: mark_decided_through_def Let_def not_less)
qed

subsection \<open>The served roster history\<close>

definition sorted_history :: "RosterHistory \<Rightarrow> RosterHistory" where
  "sorted_history rh = \<lparr> snapshots = map (\<lambda>(a, r). (a, registry_sorted r)) (snapshots rh) \<rparr>"

lemma sorted_history_fst: "map fst (snapshots (sorted_history rh)) = map fst (snapshots rh)"
  by (simp add: sorted_history_def case_prod_unfold)

lemma sorted_history_wf: "roster_wf rh \<Longrightarrow> roster_wf (sorted_history rh)"
  by (simp add: roster_wf_def bt_wf_def sorted_history_fst)

lemma sorted_history_roster: "roster_for_round (sorted_history rh) k = map_option registry_sorted (roster_for_round rh k)"
proof -
  have "filter (\<lambda>p. fst p \<le> k) (map (\<lambda>(a, r). (a, registry_sorted r)) m) = map (\<lambda>(a, r). (a, registry_sorted r)) (filter (\<lambda>p. fst p \<le> k) m)" for m
    by (induction m) auto
  then show ?thesis
    by (simp add: roster_for_round_def sorted_history_def bt_last_upto_def last_opt_def last_map case_prod_unfold)
qed

lemma sorted_history_encodes:
  assumes "\<forall>p \<in> set (snapshots rh). registry_wf C (snd p)"
  shows "encode_roster_history (sorted_history rh) = encode_roster_history rh"
proof -
  have "\<forall>p \<in> set m. registry_wf C (snd p) \<Longrightarrow> encode_snapshots (map (\<lambda>(a, r). (a, registry_sorted r)) m) = encode_snapshots m" for m
    by (induction m) (auto simp: encode_snapshot_def registry_sorted_same(2) [OF registry_wf_hm_wf])
  with assms show ?thesis by (simp add: encode_roster_history_def sorted_history_def)
qed

lemma bt_of_list_Nil: "bt_of_list ps = [] \<longleftrightarrow> ps = []"
proof (cases ps rule: rev_cases)
  case (snoc qs q)
  have "bt_insert k v m \<noteq> []" for k :: 'a and v :: 'b and m by (cases m) auto
  with snoc show ?thesis by (simp add: bt_of_list_def case_prod_unfold)
qed (simp add: bt_of_list_def)

text \<open>Selecting again from a selection changes nothing.\<close>

lemma canonical_idempotent:
  assumes wf: "roster_wf rh" and sel: "canonical_roster_history rh k w = Some rh'"
  shows "canonical_roster_history (sorted_history rh') k w = Some (sorted_history rh')"
proof -
  let ?ws = "u64_saturating_sub k w" and ?m = "snapshots (sorted_history rh')"
  note sn = canonical_snapshots [OF wf sel]
  have m: "bt_wf (snapshots rh)" using wf by (simp add: roster_wf_def)
  have wf': "roster_wf (sorted_history rh')" using sn bt_wf_filter [OF m] by (intro sorted_history_wf) (simp add: roster_wf_def)
  then have m': "bt_wf ?m" by (simp add: roster_wf_def)
  have P: "fst q \<le> k \<and> (?ws \<le> fst q \<or> Some q = bt_last_below ?ws ?m)" if q: "q \<in> set ?m" for q
  proof -
    from q obtain q' where q': "q' \<in> set (snapshots rh')" "q = (fst q', registry_sorted (snd q'))" by (auto simp: sorted_history_def)
    have "bt_last_below ?ws ?m = Some q" if "fst q' < ?ws"
    proof -
      have "Some q' = bt_last_below ?ws (snapshots rh)" using q'(1) that by (auto simp: sn not_le)
      then have "\<forall>y \<in> set (snapshots rh). fst y < ?ws \<longrightarrow> fst y \<le> fst q'" using bt_last_below_Some_iff [OF m] by metis
      then have "\<forall>y \<in> set ?m. fst y < ?ws \<longrightarrow> fst y \<le> fst q" by (auto simp: q'(2) sorted_history_def sn)
      then show ?thesis using q that q'(2) by (simp add: bt_last_below_Some_iff [OF m'])
    qed
    then show ?thesis using q' by (cases "fst q' < ?ws") (auto simp: sn not_less)
  qed
  have "snapshots rh' \<noteq> []" using sel by (auto simp: canonical_roster_history_eq Let_def from_snapshots_def split: if_splits)
  then obtain q where q: "q \<in> set ?m" by (cases "snapshots rh'") (auto simp: sorted_history_def)
  have "case_option [] (\<lambda>p. [p]) (bt_last_below ?ws ?m) @ filter (\<lambda>q. ?ws \<le> fst q \<and> fst q \<le> k) ?m \<noteq> []"
    using P [OF q] q by (cases "bt_last_below ?ws ?m") (auto simp: filter_empty_conv)
  then obtain r where r: "canonical_roster_history (sorted_history rh') k w = Some r"
    unfolding canonical_roster_history_eq Let_def from_snapshots_def bt_of_list_Nil by auto
  have "snapshots r = ?m" using canonical_snapshots [OF wf' r] P by (simp add: filter_True)
  with r show ?thesis by simp
qed

lemma served_history:
  assumes wf: "roster_wf rh" "\<forall>p \<in> set (snapshots rh). registry_wf C (snd p)" and sel: "canonical_roster_history rh k w = Some rh'"
    and enc: "encode_roster_history rh' = Ok bs"
  shows "decode_roster_history C bs = Some (sorted_history rh')"
    "roster_for_round (sorted_history rh') k = map_option registry_sorted (roster_for_round rh k)"
    "compute_roster_history_root sha (sorted_history rh') k w = compute_roster_history_root sha rh k w"
proof -
  note suff = canonical_roster_sufficient [OF wf(1) sel]
  have sub: "\<forall>p \<in> set (snapshots rh'). registry_wf C (snd p)" using wf(2) canonical_snapshots [OF wf(1) sel] by auto
  have "snapshots rh' \<noteq> []" using sel by (auto simp: canonical_roster_history_eq Let_def from_snapshots_def split: if_splits)
  then show "decode_roster_history C bs = Some (sorted_history rh')"
    using decode_encode_roster_history [OF _ _ sub enc] suff by (simp add: sorted_history_def)
  show "roster_for_round (sorted_history rh') k = map_option registry_sorted (roster_for_round rh k)"
    using suff saturating_sub_le [of k w] by (simp add: sorted_history_roster)
  show "compute_roster_history_root sha (sorted_history rh') k w = compute_roster_history_root sha rh k w"
    using sel canonical_idempotent [OF wf(1) sel] sorted_history_encodes [OF sub] by (simp add: compute_roster_history_root_def)
qed

subsection \<open>The rebuilt graph\<close>

definition mirrors :: "Hashgraph \<Rightarrow> Hashgraph \<Rightarrow> bool" where
  "mirrors T L \<longleftrightarrow> hm_wf (events L) \<and> (\<forall>h. rel_option same_metadata (hg_get T h) (hg_get L h))"

lemma mirrors_order:
  assumes "mirrors T L" "hm_wf (events T)"
  shows "consensus_order L k = consensus_order T k"
proof -
  have rel: "rel_option same_metadata (hg_get T h) (hg_get L h)" and wf: "hm_wf (events L)" for h using assms(1) by (simp_all add: mirrors_def)
  show ?thesis
  proof (rule consensus_order_cong [OF assms(2) wf])
    show "round_received L h = Some k \<longleftrightarrow> round_received T h = Some k" for h
      using rel [of h] by (auto simp: round_received_def same_metadata_def elim!: option.rel_cases)
    show "order_key L h = order_key T h" for h
      using rel [of h] by (auto simp: order_key_def same_metadata_def elim!: option.rel_cases)
  qed
qed

lemma mirrors_window:
  assumes "mirrors T L" "hm_wf (events T)" "member_count_at_round L k = member_count_at_round T k"
  shows "try_compute_window_root sha L k w = try_compute_window_root sha T k w"
proof -
  have "consensus_order L = consensus_order T" by (rule ext) (rule mirrors_order [OF assms(1,2)])
  then have "window_hashes L a k = window_hashes T a k" for a by (simp add: window_hashes_def)
  moreover have "window_leaves sha L n v hs = window_leaves sha T n v hs" for n v hs
  proof (induction hs)
    case (Cons h hs)
    have "rel_option same_metadata (hg_get T h) (hg_get L h)" using assms(1) by (simp add: mirrors_def)
    with Cons show ?case by (auto simp: window_leaf_hash_def window_leaf_bytes_def same_metadata_def elim!: option.rel_cases)
  qed simp
  ultimately show ?thesis by (simp add: try_compute_window_root_def Let_def assms(3))
qed

text \<open>What the teacher's records must satisfy besides consistency: ordered ones lie between their birth and the watermark.\<close>

definition orders_bounded :: "Hashgraph \<Rightarrow> u64 \<Rightarrow> bool" where
  "orders_bounded g d \<longleftrightarrow> (\<forall>h r. hg_get g h = Some r \<longrightarrow> (case er_round_received r of
     None \<Rightarrow> er_timestamp r = None
   | Some rr \<Rightarrow> er_timestamp r \<noteq> None \<and> er_round r \<le> rr \<and> rr \<le> d))"

lemma orders_bounded_check:
  assumes "orders_bounded g d" "hg_get g h = Some r"
  shows "(er_round_received r = None \<longleftrightarrow> er_timestamp r = None) \<and>
    check_retained_order (er_round r) (er_round_received r) (er_timestamp r) d = Ok ()"
proof -
  have "case er_round_received r of None \<Rightarrow> er_timestamp r = None | Some rr \<Rightarrow> er_timestamp r \<noteq> None \<and> er_round r \<le> rr \<and> rr \<le> d"
    using assms unfolding orders_bounded_def by blast
  then show ?thesis by (cases "er_round_received r") (auto simp: check_retained_order_def)
qed

lemma fold_max_ge: "x \<in> set xs \<Longrightarrow> (x :: u64) \<le> fold max xs a"
proof (induction xs arbitrary: a)
  case (Cons y xs)
  have mono: "a \<le> fold max ys a" for ys and a :: u64 
  proof (induction ys arbitrary: a)
    case (Cons z ys)
    then show ?case using order_trans [OF max.cobounded2 Cons.IH [of "max z a"]] by simp
  qed simp
  show ?case using Cons mono [of "max y a" xs] by auto
qed simp

lemma fold_max_member: "fold max xs a \<in> insert a (set xs)" for a :: u64
  by (induction xs arbitrary: a) (auto simp: max_def split: if_splits)

lemma fold_max_set: "set xs = set ys \<Longrightarrow> fold max xs (0 :: u64) = fold max ys 0"
proof -
  have "fold max xs (0 :: u64) \<le> fold max ys 0" if "set xs \<subseteq> set ys" for xs ys
    using fold_max_member [of xs 0] fold_max_ge [of "fold max xs 0" ys 0] that by auto
  then show "set xs = set ys \<Longrightarrow> fold max xs (0 :: u64) = fold max ys 0" by (simp add: antisym)
qed

lemma mirrors_rounds:
  assumes "mirrors T L" "hm_wf (events T)"
  shows "set (map (\<lambda>(_, r). er_round r) (events L)) = er_round ` snd ` set (events T)"
proof -
  have rel: "rel_option same_metadata (hg_get T h) (hg_get L h)" and wf: "hm_wf (events L)" for h using assms(1) by (simp_all add: mirrors_def)
  have get: "(h, r) \<in> set (events g) \<longleftrightarrow> hg_get g h = Some r" if "hm_wf (events g)" for g h r using that by (simp add: hg_get_def map_of_Some_in)
  have "x \<in> er_round ` snd ` set (events g) \<longleftrightarrow> (\<exists>h r. hg_get g h = Some r \<and> er_round r = x)" if "hm_wf (events g)" for g x
    using get [OF that] by (auto simp: image_iff) force+
  moreover have "(\<exists>h r. hg_get L h = Some r \<and> er_round r = x) \<longleftrightarrow> (\<exists>h r. hg_get T h = Some r \<and> er_round r = x)" for x
    using rel by (metis (no_types, lifting) option.rel_cases option.inject same_metadata_def option.distinct(1))
  ultimately have "x \<in> er_round ` snd ` set (events L) \<longleftrightarrow> x \<in> er_round ` snd ` set (events T)" for x using wf assms(2) by presburger
  then have "er_round ` snd ` set (events L) = er_round ` snd ` set (events T)" by (rule set_eqI)
  then show ?thesis by (simp add: case_prod_unfold image_image)
qed

lemma holds_mirrors:
  assumes "holds (member_count T) (events T) {..<length (events T)} L"
    and "\<forall>h r. hg_get T h = Some r \<longrightarrow> record_consistent sha T h r \<and> (er_round_received r = None \<longleftrightarrow> er_timestamp r = None) \<and> P h r"
  shows "mirrors T L"
proof -
  let ?es = "events T"
  have "rel_option same_metadata (hg_get T h) (hg_get L h)" for h
  proof (cases "hg_get T h")
    case (Some r)
    then have "\<exists>i \<in> {..<length ?es}. i < length ?es \<and> fst (?es ! i) = h"
      using map_of_SomeD [of ?es h r] by (force simp: hg_get_def in_set_conv_nth)
    then have "hg_get L h = Some (restored_record (member_count T) (retained_of r))"
      using assms(1) Some by (simp add: holds_def hg_get_def)
    moreover have "same_metadata r (restored_record (member_count T) (retained_of r))"
      using assms(2) Some by (intro restored_same) (auto simp: record_consistent_def Let_def)
    ultimately show ?thesis using Some by simp
  next
    case None
    then have "map_of ?es h = None" by (simp add: hg_get_def)
    with assms(1) None show ?thesis by (simp add: holds_def)
  qed
  then show ?thesis using assms(1) by (simp add: mirrors_def holds_def)
qed

lemma mirrors_watermark:
  assumes "mirrors T L" "hm_wf (events T)" "decided_round_ok k d (retained_events T)"
  shows "events L = [] \<or> d \<le> fold max (map (\<lambda>(_, r). er_round r) (events L)) 0"
proof (cases "events T = []")
  case True
  then show ?thesis using mirrors_rounds [OF assms(1,2)] by simp
next
  case False
  have "set (map (\<lambda>(_, r). er_round r) (events L)) = set (map re_round (retained_events T))"
    unfolding mirrors_rounds [OF assms(1,2)] by (simp add: retained_events_map retained_of_def case_prod_unfold image_image)
  from fold_max_set [OF this] show ?thesis
    using assms(3) False by (simp add: decided_round_ok_def max_retained_round_def not_less retained_events_map)
qed

lemma build_graph_honest:
  assumes T: "servable sha T" "orders_bounded T d"
    and idx: "map_of (zip (member_ids (ck_roster_snapshot p)) [0..<registry_len (ck_roster_snapshot p)]) = map_of (member_index T)"
      "registry_len (ck_roster_snapshot p) = member_count T"
    and d: "decided_round_ok (ck_round p) d (retained_events T)" "u64_checked_add d 1 \<noteq> None"
    and roster: "canonical_roster_history rh (ck_round p) SIGNED_WINDOW_ROUNDS = Some canonical"
      "map_option registry_len (roster_for_round canonical (ck_round p)) = map_option registry_len (roster_for_round (roster_history T) (ck_round p))"
    and window: "try_compute_window_root sha T (ck_round p) SIGNED_WINDOW_ROUNDS = Ok (ck_window_root p)"
  shows "\<exists>g. build_graph sha p rh d (retained_events T) = Ok (Some g) \<and> mirrors T g"
proof -
  let ?es = "events T" and ?L = "from_checkpoint p canonical"
  have wf: "hm_wf ?es" "members_wf T" using T(1) by (simp_all add: servable_def)
  obtain ord where ord: "topo_sort_retained sha (retained_events T) = Ok (Some ord)" "distinct ord" "set ord = {..<length ?es}"
      "parents_first (transfer_edges (map fst ?es) (map (\<lambda>(_, r). retained_of r) ?es)) ord"
    using servable_order [OF T(1)] by blast
  have checks: "\<forall>h r. hg_get T h = Some r \<longrightarrow> record_consistent sha T h r \<and> (er_round_received r = None \<longleftrightarrow> er_timestamp r = None) \<and>
      check_retained_order (er_round r) (er_round_received r) (er_timestamp r) d = Ok ()"
    using T(1) orders_bounded_check [OF T(2)] by (auto simp: servable_def)
  have len: "length (member_ids (ck_roster_snapshot p)) = registry_len (ck_roster_snapshot p)"
    by (simp add: member_ids_def registry_len_def)
  have L: "holds (member_count T) ?es (set []) ?L" "map_of (member_index ?L) = map_of (member_index T)" "member_count ?L = member_count T"
      "length (known_forkers ?L) = member_count ?L"
    using idx len by (simp_all add: from_checkpoint_def Let_def holds_def hg_get_def)
  have slots: "map Some (retained_events T) = map (\<lambda>i. if i \<in> set [] then None else Some (retained_of (snd (?es ! i)))) [0..<length ?es]"
    by (rule nth_equalityI) (simp_all add: retained_events_map case_prod_unfold)
  obtain L' where L': "load_records sha d ord (map Some (retained_events T)) ?L = Ok (Some L')" "holds (member_count T) ?es {..<length ?es} L'"
      "roster_history L' = canonical" "witnesses_by_round L' = []" "fully_decided_rounds L' = {1..ck_round p}"
    using load_records_total [OF wf refl checks, of "[]" ord ?L "map Some (retained_events T)"] ord L slots
    by (auto simp: from_checkpoint_def Let_def)
  have m: "mirrors T L'" using holds_mirrors [OF L'(2) checks] .
  have le: "ck_round p \<le> d" using d(1) by (simp add: decided_round_ok_def not_less)
  have "events L' = [] \<or> d \<le> fold max (map (\<lambda>(_, r). er_round r) (events L')) 0"
    using mirrors_watermark [OF m wf(1) d(1)] .
  then obtain g where g: "mark_decided_through L' d = Ok g" "events g = events L'" "roster_history g = canonical"
    using mark_decided_transfer [of L' d] L'(3-5) le d(2) by (auto intro: order_trans)
  have mg: "mirrors T g" using m g(2) by (simp add: mirrors_def hg_get_def)
  have "member_count_at_round g (ck_round p) = member_count_at_round T (ck_round p)"
    using roster(2) g(3) by (cases "roster_for_round canonical (ck_round p)"; cases "roster_for_round (roster_history T) (ck_round p)")
      (simp_all add: member_count_at_round_def)
  then have "try_compute_window_root sha g (ck_round p) SIGNED_WINDOW_ROUNDS = Ok (ck_window_root p)"
    using mirrors_window [OF mg wf(1)] window by simp
  then have "build_graph sha p rh d (retained_events T) = Ok (Some g)"
    using ord(1) roster(1) L'(1) g(1) by (simp add: build_graph_def validate_window_def)
  with mg show ?thesis by blast
qed

subsection \<open>Storage that works\<close>

definition writable :: "'ks keyspace_ops \<Rightarrow> bool" where
  "writable K \<longleftrightarrow> (\<forall>s k v. ks_insert K s k v \<noteq> None) \<and> (\<forall>s. ks_iter K s \<noteq> None) \<and> (\<forall>s ks. ks_commit K s ks \<noteq> None)"

lemma parse_pairs_lift:
  assumes "\<And>k v s t. step' k v (f s) = Some t \<Longrightarrow> \<exists>s'. step k v s = Some s' \<and> f s' = t"
  shows "parse_pairs step' prev c (f s) = Some t \<Longrightarrow> \<exists>s'. parse_pairs step prev c s = Some s' \<and> f s' = t"
proof (induction c arbitrary: prev s rule: length_induct)
  case (1 c)
  show ?case
  proof (cases "c = []")
    case True
    with 1(2) show ?thesis by (simp add: parse_pairs.simps)
  next
    case False
    with 1(2) obtain k v rest t1 where c: "take_pair c = Some ((k, v), rest)" "\<not> (case prev of None \<Rightarrow> False | Some q \<Rightarrow> k \<le> q)"
        "step' k v (f s) = Some t1" "parse_pairs step' (Some k) rest t1 = Some t"
      by (subst (asm) parse_pairs.simps) (auto split: option.splits if_splits)
    from assms [OF c(3)] obtain s1 where s1: "step k v s = Some s1" "f s1 = t1" by blast
    have "\<exists>s'. parse_pairs step (Some k) rest s1 = Some s' \<and> f s' = t" using 1(1) take_pair_shorter [OF c(1)] c(4) s1(2) by blast
    with False c s1(1) show ?thesis by (subst parse_pairs.simps) simp
  qed
qed

lemma state_from_bytes_total:
  assumes "writable K" "root_of_bytes sha bs = Some root"
  shows "\<exists>st. state_from_bytes K sha ks bs = Some st"
proof -
  from assms(2) obtain t where t: "parse_pairs (\<lambda>key val t. smt_insert sha t key val) None bs (tree (state_new sha ks)) = Some t"
    by (auto simp: root_of_bytes_def state_new_def)
  have "\<exists>s'. parse_pairs (\<lambda>key val st. do {
         ks \<leftarrow> ks_insert K (kv st) key val;
         t \<leftarrow> smt_insert sha (tree st) key val;
         Some (st\<lparr> kv := ks, tree := t \<rparr>) }) None bs (state_new sha ks) = Some s' \<and> tree s' = t"
  proof (rule parse_pairs_lift [where f = tree, OF _ t])
    fix k v and s :: "'a State" and t1
    assume "smt_insert sha (tree s) k v = Some t1"
    moreover obtain ks' where "ks_insert K (kv s) k v = Some ks'" using assms(1) unfolding writable_def by blast
    ultimately show "\<exists>s'. do { ks \<leftarrow> ks_insert K (kv s) k v; t \<leftarrow> smt_insert sha (tree s) k v; Some (s\<lparr> kv := ks, tree := t \<rparr>) } = Some s' \<and> tree s' = t1"
      by simp
  qed
  then show ?thesis by (auto simp: state_from_bytes_def)
qed

lemma apply_validated:
  assumes "writable K" "validate_response C n resp = Ok (Some g)"
  shows "\<exists>n'. apply_checkpoint K C resp n = Ok (n', True) \<and> gn_hashgraph n' = g"
proof -
  from assms(2) obtain root where root: "root_of_bytes (sha256 C) (rr_state_bytes resp) = Some root"
    by (rule validate_response_Some) blast
  let ?db = "(gn_state_db n)\<lparr> db_state := kv (ex_state (gn_executor n)) \<rparr>"
  obtain xs s where "ks_iter K (db_state ?db) = Some xs" "ks_commit K (db_state ?db) (map fst xs) = Some s"
    using assms(1) unfolding writable_def by (meson not_None_eq)
  then obtain db where db: "clear_state K ?db = Ok db" by (cases "xs = []") (simp_all add: clear_state_def)
  obtain st where st: "state_from_bytes K (sha256 C) (db_state db) (rr_state_bytes resp) = Some st"
    using state_from_bytes_total [OF assms(1) root] by blast
  obtain s' where "ks_insert K (db_snap db) (u64_be (sc_round (rr_checkpoint resp))) (rr_state_bytes resp) = Some s'"
    using assms(1) unfolding writable_def by blast
  then obtain db' where "snapshot K (db\<lparr> db_state := kv st \<rparr>) (sc_round (rr_checkpoint resp)) (rr_state_bytes resp) = Ok db'"
    by (simp add: snapshot_def)
  then show ?thesis using assms(2) db st by (simp add: apply_checkpoint_def commit_checkpoint_fields)
qed

subsection \<open>Properties\<close>

lemma serve_reconnect_Some:
  assumes "serve_reconnect K t = Ok (Some resp)"
  obtains r canonical where "last_opt (gn_signed t) = Some (rr_checkpoint resp)"
    "bt_last_upto (sc_round (rr_checkpoint resp)) (gn_snapshots t) = Some (r, rr_state_bytes resp)"
    "canonical_roster_history (roster_history (gn_hashgraph t)) (sc_round (rr_checkpoint resp)) SIGNED_WINDOW_ROUNDS = Some canonical"
    "encode_roster_history canonical = Ok (rr_roster_history_bytes resp)"
    "rr_decided_round resp = highest_decided_round (gn_hashgraph t)" "rr_retained resp = retained_events (gn_hashgraph t)"
  using assms by (auto simp: serve_reconnect_def select_checkpoint_for_learner_def split: option.splits)

lemma derived_payload:
  assumes "checkpoint_payload sha g (ck_round p) (ck_records_root p) (ck_state_hash p) = Ok (Some q)" "with_prev_checkpoint_hash q h = p"
  obtains roster where "roster_for_round (roster_history g) (ck_round p) = Some roster"
    "try_compute_window_root sha g (ck_round p) SIGNED_WINDOW_ROUNDS = Ok (ck_window_root p)"
    "compute_roster_history_root sha (roster_history g) (ck_round p) SIGNED_WINDOW_ROUNDS = Ok (ck_roster_history_root p)"
    "ck_roster_snapshot p = roster" "ck_roster_hash p = hash_registry sha roster"
proof -
  from assms(1) obtain roster wr rr where q: "roster_for_round (roster_history g) (ck_round p) = Some roster"
      "try_compute_window_root sha g (ck_round p) SIGNED_WINDOW_ROUNDS = Ok wr"
      "compute_roster_history_root sha (roster_history g) (ck_round p) SIGNED_WINDOW_ROUNDS = Ok rr"
      "q = checkpoint_payload_new sha (ck_round p) (ck_records_root p) (ck_state_hash p) wr rr roster"
    unfolding checkpoint_payload_def registry_at_round_def
    by (cases "try_compute_window_root sha g (ck_round p) SIGNED_WINDOW_ROUNDS";
        cases "compute_roster_history_root sha (roster_history g) (ck_round p) SIGNED_WINDOW_ROUNDS")
      (auto split: if_splits)
  from assms(2) [unfolded q(4) with_prev_checkpoint_hash_def checkpoint_payload_new_def]
  have "ck_window_root p = wr" "ck_roster_history_root p = rr" "ck_roster_snapshot p = roster" "ck_roster_hash p = hash_registry sha roster"
    by (metis CheckpointPayload.select_convs CheckpointPayload.update_convs(5))+
  then show thesis using q(1-3) by (intro that) simp_all
qed

text \<open>The snapshot a node serves is the state its latest checkpoint commits to.\<close>

lemma served_snapshot:
  assumes "checkpoint_inv B sha t" "last_opt (gn_signed t) = Some sc" "bt_last_upto (sc_round sc) (gn_snapshots t) = Some (r, snap)"
  shows "root_of_bytes sha snap = Some (ck_state_hash (sc_payload sc))"
proof -
  have inv: "signed_ok B t" "snapshots_ok sha t" using assms(1) by (simp_all add: checkpoint_inv_def)
  have sc: "sc \<in> set (gn_signed t)" "accepted_round t = sc_round sc"
    using assms(2) by (auto simp: last_opt_def accepted_round_def latest_accepted_checkpoint_round_def split: if_splits)
  have wf: "bt_wf (gn_snapshots t)" using inv(2) by (simp add: snapshots_ok_def)
  have "u64_saturating_sub (sc_round sc) SNAPSHOT_RETENTION_ROUNDS \<le> sc_round sc" by (rule saturating_sub_le)
  then obtain snap' where "map_of (gn_snapshots t) (sc_round sc) = Some snap'"
    using inv(2) sc by (auto simp: snapshots_ok_def)
  then have "bt_last_upto (sc_round sc) (gn_snapshots t) = Some (sc_round sc, snap')"
    using wf map_of_SomeD by (fastforce simp: bt_last_upto_Some_iff)
  with assms(3) have r: "(sc_round sc, snap) \<in> set (gn_snapshots t)" using wf by (auto simp: bt_last_upto_Some_iff)
  then obtain sc' where sc': "sc' \<in> set (gn_signed t)" "sc_round sc' = sc_round sc" "root_of_bytes sha snap = Some (ck_state_hash (sc_payload sc'))"
    using inv(2) by (auto simp: snapshots_ok_def)
  have "distinct (map sc_round (gn_signed t))" using inv(1) strict_sorted_iff by (auto simp: signed_ok_def)
  then have "sc' = sc" using sc(1) sc'(1,2) by (auto simp: distinct_map inj_on_def)
  with sc'(3) show ?thesis by simp
qed


text \<open>A teacher with one event and one accepted checkpoint.\<close>

definition transfer_unsigned :: UnsignedEvent where
  "transfer_unsigned = \<lparr> ue_creator = NodeId 1, ue_self_parent = None, ue_other_parent = None, ue_timestamp = Timestamp 5, ue_payload = [] \<rparr>"

definition transfer_event :: Event where
  "transfer_event = \<lparr> unsigned_part = transfer_unsigned, ev_signature = Signature (replicate 32 8 @
     (case encode_UnsignedEvent transfer_unsigned of Ok bs \<Rightarrow> sample_sha bs | _ \<Rightarrow> [])) \<rparr>"

definition transfer_hash :: EventHash where
  "transfer_hash = (case hash_Event sample_sha transfer_event of Ok h \<Rightarrow> h | _ \<Rightarrow> EventHash [])"

definition transfer_graph :: Hashgraph where
  "transfer_graph = (hg_new sample_roster1)\<lparr> events := [(transfer_hash, fresh_record transfer_event 1 [1] 1)],
     fully_decided_rounds := {1}, next_round_to_order := 2 \<rparr>"

definition transfer_teacher :: "CheckpointPayload \<Rightarrow> (bytes, bytes) btmap GossipNode" where
  "transfer_teacher q = (new_with_bls sample_sha (NodeId 1) (replicate 32 8) \<lparr> bls_secret = [1], bls_public = replicate 48 2 \<rparr> sample_roster1 []
       \<lparr> db_state = [], db_snap = [], db_meta = [] \<rparr>)\<lparr>
     gn_hashgraph := transfer_graph,
     gn_activation := \<lparr> act_pending = [], processed_through_round = 1, checkpoint_watermark = 1 \<rparr>,
     gn_signed := [\<lparr> sc_payload = q, sc_aggregate_sig = sample_block (signing_bytes q) CHECKPOINT_DST (replicate 48 2), sc_signers = [NodeId 1] \<rparr>],
     gn_snapshots := [(1, [])] \<rparr>"

lemma transfer_event_ok:
  "hash_Event sample_sha transfer_event = Ok transfer_hash" "\<exists>v. verify_Event sample_crypto transfer_event sample_roster1 = Ok v"
  "ev_creator transfer_event = NodeId 1" "ev_self_parent transfer_event = None" "ev_other_parent transfer_event = None" "event_parents transfer_event = []"
proof -
  obtain bs where bs: "encode_UnsignedEvent transfer_unsigned = Ok bs"
    by (simp add: encode_UnsignedEvent_def transfer_unsigned_def encode_Transactions_def u32_try_from_def)
  show "hash_Event sample_sha transfer_event = Ok transfer_hash"
    using bs by (simp add: transfer_hash_def hash_Event_def encode_Event_def transfer_event_def)
  show "\<exists>v. verify_Event sample_crypto transfer_event sample_roster1 = Ok v"
    using bs by (simp add: verify_Event_def key_for_def sample_roster1_def sample_crypto_def transfer_event_def event_accessor_defs transfer_unsigned_def)
qed (simp_all add: transfer_event_def transfer_unsigned_def event_accessor_defs event_parents_def)

lemma transfer_graph_fields:
  "events transfer_graph = [(transfer_hash, fresh_record transfer_event 1 [1] 1)]" "member_index transfer_graph = [(NodeId 1, 0)]"
  "member_count transfer_graph = 1" "roster_history transfer_graph = sample_history1" "next_round_to_order transfer_graph = 2"
  "fully_decided_rounds transfer_graph = {1}" "highest_decided_round transfer_graph = 1" "known_forkers transfer_graph = [False]"
  by (simp_all add: transfer_graph_def hg_new_def Let_def member_ids_def sample_roster1_def roster_new_def sample_history1_def highest_decided_round_def)

lemma transfer_graph_get: "hg_get transfer_graph h = (if h = transfer_hash then Some (fresh_record transfer_event 1 [1] 1) else None)"
  by (simp add: hg_get_def transfer_graph_fields)

lemma transfer_graph_servable: "servable sample_sha transfer_graph"
proof -
  have "{(p, h). parent transfer_graph h p} = {}"
    by (auto simp: parent_def transfer_graph_get parents_of_def fresh_record_def transfer_event_ok split: if_splits)
  moreover have "members_wf transfer_graph" by (simp add: members_wf_def transfer_graph_fields)
  moreover have "record_consistent sample_sha transfer_graph transfer_hash (fresh_record transfer_event 1 [1] 1)"
    by (simp add: record_consistent_def Let_def fresh_record_def transfer_event_ok transfer_graph_fields stored_parent_def
        check_retained_seq_def check_retained_row_def index_at_def base_round_def)
  ultimately show ?thesis by (simp add: servable_def transfer_graph_fields transfer_graph_get acyclic_def)
qed

lemma transfer_canonical: "canonical_roster_history sample_history1 1 SIGNED_WINDOW_ROUNDS = Some sample_history1"
  by (simp add: canonical_roster_history_def SIGNED_WINDOW_ROUNDS_def sample_history1_def u64_saturating_sub_def from_snapshots_def bt_of_list_def word_less_nat_alt word_le_nat_alt)

lemma transfer_payload:
  "\<exists>q. checkpoint_payload sample_sha transfer_graph 1 (replicate 32 1) (smt_root (smt_new sample_sha)) = Ok (Some q) \<and>
     ck_round q = 1 \<and> ck_records_root q = replicate 32 1 \<and> ck_state_hash q = smt_root (smt_new sample_sha) \<and> ck_roster_snapshot q = sample_roster1"
proof -
  have roster: "roster_for_round sample_history1 1 = Some sample_roster1"
    by (simp add: sample_history1_def roster_for_round_def bt_last_upto_def last_opt_def)
  have "registry_len sample_roster1 < 2 ^ 32" by (simp add: sample_roster1_def registry_len_def)
  then obtain w where w: "try_compute_window_root sample_sha transfer_graph 1 SIGNED_WINDOW_ROUNDS = Ok w"
    using window_root_total [of transfer_graph 1 sample_roster1] roster by (auto simp: transfer_graph_fields)
  have "compute_roster_history_root sample_sha sample_history1 1 SIGNED_WINDOW_ROUNDS = Ok (sample_sha (ROSTER_HISTORY_ROOT_DST @ sample_history_bytes))"
    by (simp add: compute_roster_history_root_def transfer_canonical sample_history_encodes)
  with w roster show ?thesis
    by (simp add: checkpoint_payload_def is_round_decided_def transfer_graph_fields registry_at_round_def checkpoint_payload_new_def)
qed

lemma transfer_teacher_inv:
  assumes "ck_round q = 1" "ck_state_hash q = smt_root (smt_new sample_sha)" "ck_roster_snapshot q = sample_roster1"
  shows "checkpoint_inv sample_bls sample_sha (transfer_teacher q)"
proof -
  let ?t = "transfer_teacher q"
  have f: "gn_node_id ?t = NodeId 1" "gn_bls ?t = \<lparr> bls_secret = [1], bls_public = replicate 48 2 \<rparr>" "gn_hashgraph ?t = transfer_graph"
    "produced_through ?t = 1" "gn_accumulators ?t = []" "gn_snapshots ?t = [(1, [])]" "gn_pending_sigs ?t = []" "gn_outbound_sigs ?t = []"
    "accepted_round ?t = 1" "map sc_round (gn_signed ?t) = [1]"
    using assms(1) by (simp_all add: transfer_teacher_def new_with_bls_def accepted_round_def latest_accepted_checkpoint_round_def last_opt_def sc_round_def)
  have "\<exists>reg. roster_for_round sample_history1 r = Some reg" if "1 < r" for r
    using that by (simp add: sample_history1_def roster_for_round_def bt_last_upto_def last_opt_def)
  moreover have "order_frontier transfer_graph"
  proof -
    have "x = 1" if "x \<in> {1..<2 :: u64}" for x
    proof (rule word_unat_eq_iff [THEN iffD2])
      show "unat x = unat (1 :: u64)" using that by (auto simp: word_less_nat_alt word_le_nat_alt)
    qed
    then have "{1..<2 :: u64} \<subseteq> {1}" by auto
    then show ?thesis by (simp add: order_frontier_def transfer_graph_fields word_less_nat_alt)
  qed
  ultimately have "graph_ok sample_bls ?t"
    by (auto simp: graph_ok_def f transfer_graph_fields roster_wf_def bt_wf_Cons own_key_in_def signer_key_def bls_key_for_def
        sample_history1_def sample_roster1_def sample_bls_def)
  moreover have "verify_SignedCheckpoint sample_bls sc" if "sc \<in> set (gn_signed ?t)" for sc
    using that assms(3) by (auto simp: transfer_teacher_def verify_SignedCheckpoint_def verify_with_registry_iff quorum_of_def sample_bls_def
        sample_roster1_def registry_contains_def registry_len_def supermajority_def signer_key_def bls_key_for_def verify_aggregate_def)
  moreover have "sc_round sc = 1" if "sc \<in> set (gn_signed ?t)" for sc using that assms(1) by (simp add: transfer_teacher_def sc_round_def)
  ultimately have "graph_ok sample_bls ?t" "signed_ok sample_bls ?t" by (simp_all add: signed_ok_def f)
  moreover have "snapshots_ok sample_sha ?t"
    using sample_root assms(1,2) f(9) by (auto simp: snapshots_ok_def f bt_wf_Cons) (auto simp: transfer_teacher_def sc_round_def)
  ultimately show ?thesis by (simp add: checkpoint_inv_def accumulators_ok_def buffers_ok_def f)
qed


end
