(* ===== verification/Servable.thy ===== *)
theory Servable
  imports HonestTransfer
begin

section \<open>Live graphs can be served\<close>

text \<open>
  Every graph that grows from a genesis registry by inserts, admissions and watermarks passes, record by record,
  the checks a learner makes.
\<close>

lemma record_consistent_cong:
  assumes "record_consistent sha g h r" "same_checked r r'" "member_index g' = member_index g" "member_count g' = member_count g"
    and "\<forall>p \<in> set (event_parents (er_event r)). rel_option same_checked (hg_get g p) (hg_get g' p)"
  shows "record_consistent sha g' h r'"
proof -
  let ?e = "er_event r"
  have rel: "rel_option same_checked (stored_parent g (ev_self_parent ?e)) (stored_parent g' (ev_self_parent ?e))"
      "rel_option same_checked (stored_parent g (ev_other_parent ?e)) (stored_parent g' (ev_other_parent ?e))"
    using assms(5) by (auto simp: stored_parent_def event_parents_def split: option.splits)
  have same: "er_event r' = ?e" "er_seq r' = er_seq r" "er_ancestor_seqs r' = er_ancestor_seqs r" "er_round r' = er_round r"
    using assms(2) by (simp_all add: same_checked_def)
  have "(case stored_parent g' (ev_self_parent ?e) of None \<Rightarrow> True | Some q \<Rightarrow> ev_creator (er_event q) = ev_creator ?e) \<longleftrightarrow>
      (case stored_parent g (ev_self_parent ?e) of None \<Rightarrow> True | Some q \<Rightarrow> ev_creator (er_event q) = ev_creator ?e)"
    using rel(1) by (auto simp: same_checked_def elim!: option.rel_cases)
  with assms(1) show ?thesis by (simp add: record_consistent_def Let_def same assms(3,4) checks_cong [OF rel])
qed

subsection \<open>Inserting\<close>

lemma find_parent_stored: "find_parent g p = Ok sp \<Longrightarrow> stored_parent g p = sp \<and> (sp = None \<longleftrightarrow> p = None)"
  by (auto simp: find_parent_def stored_parent_def split: option.splits)

lemma placed_consistent:
  assumes run: "hash_Event sha e = Ok h" "map_of (member_index g) (ev_creator e) = Some i"
      "find_parent g (ev_self_parent e) = Ok sp" "find_parent g (ev_other_parent e) = Ok op"
      "\<And>r. sp = Some r \<Longrightarrow> ev_creator (er_event r) = ev_creator e"
      "place_event g e h i sp op = Ok g1"
    and wf: "members_wf g" "\<forall>h r. hg_get g h = Some r \<longrightarrow> length (er_ancestor_seqs r) = member_count g"
  shows "\<exists>r. hg_get g1 h = Some r \<and> (\<forall>k. base_round (map_option er_round sp) (map_option er_round op) \<le> k \<longrightarrow> record_consistent sha g h (r\<lparr> er_round := k \<rparr>))"
proof -
  let ?base = "base_round (map_option er_round sp) (map_option er_round op)"
  note sp = find_parent_stored [OF run(3)] and op = find_parent_stored [OF run(4)]
  have i: "i < member_count g" by (rule members_wf_bound [OF wf(1) run(2)])
  from run(6) obtain seq rw0 rw where pl: "(case sp of None \<Rightarrow> Ok 1 | Some r \<Rightarrow> ok_or_panic (u64_checked_add (er_seq r) 1)) = (Ok seq :: u64 hg_result)"
      "parents_row (member_count g) sp op = Ok rw0" "write_at rw0 i seq = (Ok rw :: u64 list hg_result)" "hg_get g1 h = Some (fresh_record e seq rw ?base)"
    unfolding place_event_def by (auto simp: store_event_def hg_get_def update_conv')
  have len: "length rw0 = member_count g"
    using pl(2) by (auto simp: parents_row_def copy_from_slice_def split: option.splits if_splits)
  then have rw: "rw = rw0[i := seq]" "length rw = member_count g" using pl(3) i by (auto simp: write_at_def)
  have "check_retained_seq sp e seq = Ok ()" using pl(1) sp by (auto simp: check_retained_seq_def split: option.splits)
  moreover have "check_retained_row (member_count g) sp op e i seq rw = Ok ()"
  proof (cases "sp = None \<and> op = None")
    case True
    then show ?thesis using sp op rw i len by (simp add: check_retained_row_def index_at_def)
  next
    case False
    then show ?thesis using sp op pl(2,3) by (auto simp: check_retained_row_def Let_def)
  qed
  ultimately have "record_consistent sha g h ((fresh_record e seq rw ?base)\<lparr> er_round := k \<rparr>)" if "?base \<le> k" for k
    using that run(1,2,5) rw(2) sp op by (auto simp: record_consistent_def Let_def fresh_record_def split: option.splits)
  with pl(4) show ?thesis by blast
qed

lemma acyclic_add_sink:
  assumes "acyclic R" "R' \<subseteq> R \<union> UNIV \<times> {h}" "h \<notin> Domain R'"
  shows "acyclic R'"
proof -
  have step: "b = h \<or> (a, b) \<in> R\<^sup>+" if "(a, b) \<in> R'\<^sup>+" for a b
    using that
  proof (induction rule: trancl_induct)
    case (base b)
    then show ?case using assms(2) by auto
  next
    case (step b c)
    then have "b \<noteq> h" using assms(3) by (auto simp: Domain_iff)
    then show ?case using step assms(2) by (auto intro: trancl.intros)
  qed
  show ?thesis
  proof (rule acyclicI, rule allI, rule notI)
    fix x assume x: "(x, x) \<in> R'\<^sup>+"
    then have "x \<in> Domain R'" by (metis Domain_iff tranclD)
    then show False using step [OF x] assms(1,3) by (auto simp: acyclic_def)
  qed
qed

lemma settles_checked:
  assumes "settles g g'"
  shows "rel_option same_checked (hg_get g x) (hg_get g' x)"
proof (cases "hg_get g' x")
  case None
  then have "hg_get g x = None" using assms unfolding settles_def extends_def keeps_records_def by (metis not_None_eq option.distinct(1))
  with None show ?thesis by simp
next
  case (Some r')
  obtain r where r: "hg_get g x = Some r" "rec_settles r r'" using settles_back [OF assms Some] by blast
  have "map_option er_ancestor_seqs (hg_get g' x) = map_option er_ancestor_seqs (hg_get g x)"
    using assms by (simp add: settles_def same_indexes_def same_rows_def)
  with Some r show ?thesis by (simp add: same_checked_def rec_settles_def)
qed

lemma hg_insert_checked:
  assumes "hg_insert sha g ev = Ok (g', h)" "hm_wf (events g)" "members_wf g"
    and "\<forall>h r. hg_get g h = Some r \<longrightarrow> length (er_ancestor_seqs r) = member_count g"
  shows "hg_get g h = None \<and> member_index g' = member_index g \<and> member_count g' = member_count g \<and>
    (\<forall>x. x \<noteq> h \<longrightarrow> rel_option same_checked (hg_get g x) (hg_get g' x)) \<and>
    (\<exists>r r'. record_consistent sha g h r \<and> hg_get g' h = Some r' \<and> same_checked r r' \<and> er_event r = into_inner ev)"
  using assms(1)
proof (rule hg_insert_OkE)
  let ?e = "into_inner ev"
  fix i sp op g1 g2 g3
  assume run: "hash_Event sha ?e = Ok h" "hg_get g h = None"
    "map_of (member_index g) (ev_creator ?e) = Some i"
    "find_parent g (ev_self_parent ?e) = Ok sp" "find_parent g (ev_other_parent ?e) = Ok op"
    "\<And>r. sp = Some r \<Longrightarrow> ev_creator (er_event r) = ev_creator ?e"
    "place_event g ?e h i sp op = Ok g1"
    "finalize_round g1 h (base_round (map_option er_round sp) (map_option er_round op)) (map_option er_round sp) = Ok g2"
    "(if (case hg_get g2 h of None \<Rightarrow> False | Some r \<Rightarrow> er_is_witness r) then vote_as_witness g2 h else Ok g2) = Ok g3"
    "note_round_decided_if_complete g3 (next_round_to_order g3) = Ok g'"
  let ?base = "base_round (map_option er_round sp) (map_option er_round op)"
  have "hm_wf (events g2)" using placed_extends [OF run(7,8,2)] assms(2) by auto
  then have "settles g2 g3" using run(9) vote_as_witness_settles by (auto split: if_splits)
  then have s: "settles g2 g'" using note_round_settles [OF run(10)] settles_hm_wf \<open>hm_wf (events g2)\<close> settles_trans by metis
  obtain k w where k: "events g2 = events (set_event_round g1 h k w)" "k = ?base \<or> u64_checked_add ?base 1 = Some k"
    using run(8) by (rule finalize_round_OkE)
  have "?base \<le> k" using k(2) by (auto simp: word_le_nat_alt dest: unat_u64_checked_add)
  moreover obtain r where r: "hg_get g1 h = Some r" "\<forall>k. ?base \<le> k \<longrightarrow> record_consistent sha g h (r\<lparr> er_round := k \<rparr>)"
    using placed_consistent [OF run(1,3-7) assms(3,4)] by blast
  ultimately have rk: "record_consistent sha g h (r\<lparr> er_round := k \<rparr>)" by blast
  have g2: "hg_get g2 x = (if x = h then Some (r\<lparr> er_round := k, er_is_witness := w \<rparr>) else hg_get g1 x)" for x
    using r(1) hg_get_set_event_round [of g1 h k w x] by (simp add: hg_get_def k(1))
  obtain seq row0 where g1: "events g1 = AList.update h (fresh_record ?e seq row0 ?base) (events g)" "member_index g1 = member_index g" "member_count g1 = member_count g"
    using run(7) by (rule place_event_OkE)
  have "same_core g1 g2" "same_core g2 g'" using finalize_round_same_core [OF run(8)] settles_same_core [OF s] by auto
  with g1 have idx: "member_index g' = member_index g" "member_count g' = member_count g" by (simp_all add: same_core_def)
  have old: "rel_option same_checked (hg_get g x) (hg_get g' x)" if "x \<noteq> h" for x
    using settles_checked [OF s, of x] that g2 [of x] g1(1) by (simp add: hg_get_def update_conv')
  have "r = fresh_record ?e seq row0 ?base" using r(1) g1(1) by (simp add: hg_get_def update_conv')
  then have "er_event r = ?e" by (simp add: fresh_record_def)
  moreover obtain r' where "hg_get g' h = Some r'" "same_checked (r\<lparr> er_round := k, er_is_witness := w \<rparr>) r'"
    using settles_checked [OF s, of h] g2 [of h] by (auto elim: option.rel_cases)
  ultimately have "\<exists>r r'. record_consistent sha g h r \<and> hg_get g' h = Some r' \<and> same_checked r r' \<and> er_event r = ?e"
    using rk by (intro exI [of _ "r\<lparr> er_round := k \<rparr>"] exI [of _ r']) (simp add: same_checked_def)
  with run(2) idx old show ?thesis by blast
qed

lemma hg_insert_parents:
  assumes "hg_insert sha g ev = Ok (g', h)" "p \<in> set (event_parents (into_inner ev))"
  shows "hg_get g p \<noteq> None"
  using assms by (elim hg_insert_OkE) (auto simp: event_parents_def find_parent_def split: option.splits)

lemma insert_servable:
  assumes "hg_insert sha g ev = Ok (g', h)" "servable sha g" "dag_inv g"
  shows "servable sha g'"
proof -
  have wf: "hm_wf (events g)" "members_wf g" "acyclic {(p, h). parent g h p}" "\<forall>h r. hg_get g h = Some r \<longrightarrow> record_consistent sha g h r"
    using assms(2) by (simp_all add: servable_def)
  then have "\<forall>h r. hg_get g h = Some r \<longrightarrow> length (er_ancestor_seqs r) = member_count g" by (auto simp: record_consistent_def Let_def)
  from hg_insert_checked [OF assms(1) wf(1,2) this]
  have ins: "hg_get g h = None" "member_index g' = member_index g" "member_count g' = member_count g"
      "\<And>x. x \<noteq> h \<Longrightarrow> rel_option same_checked (hg_get g x) (hg_get g' x)"
      "\<exists>r r'. record_consistent sha g h r \<and> hg_get g' h = Some r' \<and> same_checked r r' \<and> er_event r = into_inner ev"
    by blast+
  obtain r r' where new: "record_consistent sha g h r" "hg_get g' h = Some r'" "same_checked r r'" using ins(5) by blast
  have closed: "hg_get g p \<noteq> None" if "parent g x p" for x p using that assms(3) by (auto simp: dag_inv_def chains_wf_def core_None)
  have parents: "hg_get g p \<noteq> None" if "p \<in> set (event_parents (er_event r))" for p
    using hg_insert_parents [OF assms(1)] that ins(5) new(2,3) by (auto simp: same_checked_def)
  have rel: "rel_option same_checked (hg_get g p) (hg_get g' p)" if "hg_get g p \<noteq> None" for p using ins(1,4) that by metis
  have cons: "record_consistent sha g' x rx" if x: "hg_get g' x = Some rx" for x rx
  proof (cases "x = h")
    case True
    then show ?thesis using record_consistent_cong [OF new(1,3) ins(2,3)] parents rel new(2) x by auto
  next
    case False
    then obtain r0 where r0: "hg_get g x = Some r0" "same_checked r0 rx" using ins(4) [OF False] x by (auto elim: option.rel_cases)
    have "\<forall>p \<in> set (event_parents (er_event r0)). rel_option same_checked (hg_get g p) (hg_get g' p)"
      using rel closed [of x] r0(1) by (auto simp: parent_def parents_of_def)
    then show ?thesis using record_consistent_cong [OF _ r0(2) ins(2,3)] wf(4) r0(1) by blast
  qed
  have par: "parent g x p" if "parent g' x p" "x \<noteq> h" for x p
    using ins(4) [OF that(2)] that(1) by (auto simp: parent_def parents_of_def same_checked_def elim: option.rel_cases)
  have "\<not> parent g' x h" for x
    using par [of x h] closed [of x h] ins(1) parents [of h] new(2,3) by (cases "x = h") (auto simp: parent_def parents_of_def same_checked_def)
  then have "acyclic {(p, h). parent g' h p}"
    using par by (intro acyclic_add_sink [OF wf(3)]) auto
  moreover have "members_wf g'" "hm_wf (events g')"
    using hg_insert_dag_inv [OF assms(1,3) wf(1)] hg_insert_extends [OF assms(1) wf(1)] by (auto simp: dag_inv_def)
  ultimately show ?thesis using cons by (simp add: servable_def)
qed

subsection \<open>The other steps\<close>

lemma settles_servable:
  assumes "settles g g'" "servable sha g" "dag_inv g"
  shows "servable sha g'"
proof -
  have rel: "rel_option same_checked (hg_get g x) (hg_get g' x)" for x by (rule settles_checked [OF assms(1)])
  have core: "same_core g g'" by (rule settles_same_core [OF assms(1)])
  have "record_consistent sha g' h r'" if r': "hg_get g' h = Some r'" for h r'
  proof -
    obtain r where r: "hg_get g h = Some r" "same_checked r r'" using rel [of h] r' by (cases "hg_get g h") auto
    have "record_consistent sha g h r" using assms(2) r(1) by (simp add: servable_def)
    then show ?thesis using core rel by (intro record_consistent_cong [OF _ r(2)]) (auto simp: same_core_def)
  qed
  moreover have "parent g' = parent g" by (rule same_coreD(2) [OF core])
  moreover have "members_wf g'" using assms(3) dag_inv_same_core [OF core] by (simp add: dag_inv_def)
  ultimately show ?thesis using assms(1,2) settles_hm_wf by (auto simp: servable_def)
qed

lemma row_max_snoc: "length xs = length ys \<Longrightarrow> row_max (xs @ [0]) (ys @ [0]) = row_max xs ys @ [0]"
proof (induction xs arbitrary: ys)
  case (Cons x xs)
  then show ?case by (cases ys) auto
qed auto

lemma parents_row_snoc:
  assumes "\<forall>r. sp = Some r \<longrightarrow> length (er_ancestor_seqs r) = n" "\<forall>r. op = Some r \<longrightarrow> length (er_ancestor_seqs r) = n"
    and "parents_row n sp op = Ok rw"
  defines "ext \<equiv> map_option (\<lambda>r. r\<lparr> er_ancestor_seqs := er_ancestor_seqs r @ [0] \<rparr>)"
  shows "parents_row (Suc n) (ext sp) (ext op) = Ok (rw @ [0]) \<and> length rw = n"
  using assms by (auto simp: parents_row_def copy_from_slice_def row_max_snoc replicate_append_same [symmetric] split: option.splits if_splits)

lemma check_row_snoc:
  assumes "\<forall>r. sp = Some r \<longrightarrow> length (er_ancestor_seqs r) = n" "\<forall>r. op = Some r \<longrightarrow> length (er_ancestor_seqs r) = n"
    and "check_retained_row n sp op e i s rw = Ok ()" "length rw = n" "i < n"
  defines "ext \<equiv> map_option (\<lambda>r. r\<lparr> er_ancestor_seqs := er_ancestor_seqs r @ [0] \<rparr>)"
  shows "check_retained_row (Suc n) (ext sp) (ext op) e i s (rw @ [0]) = Ok ()"
proof -
  have none: "ext x = None \<longleftrightarrow> x = None" for x by (simp add: ext_def)
  show ?thesis
  proof (cases "parents_row n sp op")
    case (Ok rw0)
    from parents_row_snoc [OF assms(1,2) this] have "parents_row (Suc n) (ext sp) (ext op) = Ok (rw0 @ [0])" "length rw0 = n"
      by (simp_all add: ext_def)
    then show ?thesis
      using assms(3-5) Ok by (auto simp: check_retained_row_def Let_def none index_at_def write_at_def nth_append list_update_append split: if_splits)
  qed (use assms(3-5) in \<open>auto simp: check_retained_row_def Let_def none index_at_def nth_append split: if_splits\<close>)
qed

lemma add_member_servable:
  assumes "add_member g node k reg = Ok g'" "servable sha g" "dag_inv g"
  shows "servable sha g'"
proof -
  let ?f = "\<lambda>r. r\<lparr> er_ancestor_seqs := er_ancestor_seqs r @ [0] \<rparr>"
  have g': "g' = g\<lparr> member_index := AList.update node (member_count g) (member_index g), member_count := member_count g + 1,
      known_forkers := known_forkers g @ [False], events := map (\<lambda>(h, r). (h, ?f r)) (events g),
      roster_history := schedule (roster_history g) (u64_saturating_add k 1) reg \<rparr>" and new: "map_of (member_index g) node = None"
    using assms(1) by (auto simp: add_member_def split: if_splits)
  have get: "hg_get g' h = map_option ?f (hg_get g h)" for h by (simp add: g' hg_get_def map_of_map)
  have stored: "stored_parent g' p = map_option ?f (stored_parent g p)" for p by (cases p) (simp_all add: stored_parent_def get)
  have wf: "members_wf g" "hm_wf (events g)" and cons: "\<And>h r. hg_get g h = Some r \<Longrightarrow> record_consistent sha g h r"
    using assms(2) by (auto simp: servable_def)
  have len: "\<forall>r. stored_parent g p = Some r \<longrightarrow> length (er_ancestor_seqs r) = member_count g" for p
    using cons by (auto simp: stored_parent_def bind_eq_Some_conv record_consistent_def Let_def)
  have "record_consistent sha g' h (?f r)" if "hg_get g h = Some r" for h r
  proof -
    let ?e = "er_event r"
    from cons [OF that] obtain i where i: "map_of (member_index g) (ev_creator ?e) = Some i" and
        row: "check_retained_row (member_count g) (stored_parent g (ev_self_parent ?e)) (stored_parent g (ev_other_parent ?e)) ?e i (er_seq r) (er_ancestor_seqs r) = Ok ()"
      and l: "length (er_ancestor_seqs r) = member_count g"
      by (auto simp: record_consistent_def Let_def)
    have "map_of (member_index g') (ev_creator ?e) = Some i" using i new by (auto simp: g' update_conv')
    moreover note check_row_snoc [OF len len row l members_wf_bound [OF wf(1) i]]
    moreover have "check_retained_seq (map_option ?f sp) ?e x = check_retained_seq sp ?e x" "map_option er_round (map_option ?f sp) = map_option er_round sp" for sp x
      by (cases sp; simp add: check_retained_seq_def)+
    moreover have "member_count g' = Suc (member_count g)" by (simp add: g')
    ultimately show ?thesis
      using cons [OF that] l unfolding record_consistent_def Let_def by (cases "stored_parent g (ev_self_parent ?e)") (simp_all add: stored check_retained_seq_def)
  qed
  moreover have "parent g' = parent g" by (auto simp: fun_eq_iff parent_def get parents_of_def)
  moreover have "members_wf g'" using add_member_dag_inv [OF assms(1,3)] by (simp add: dag_inv_def)
  moreover have "hm_wf (events g')" using wf(2) by (simp add: g' comp_def case_prod_unfold)
  ultimately show ?thesis using assms(2) by (auto simp: servable_def get)
qed

text \<open>Graphs reached from a genesis registry without pruning are servable.\<close>

lemma live_step_servable: "live_step sha g g' \<Longrightarrow> servable sha g \<Longrightarrow> dag_inv g \<Longrightarrow> servable sha g'"
proof (induction rule: live_step.induct)
  case (mark_step g k g')
  then show ?case using settles_servable mark_decided_settles by (metis servable_def)
qed (auto intro: insert_servable add_member_servable)

lemma live_servable:
  assumes "(live_step sha)\<^sup>*\<^sup>* (hg_new reg) g" "hm_wf (keys reg)"
  shows "servable sha g"
  using assms(1)
proof (induction rule: rtranclp_induct)
  case base
  show ?case using hg_new_dag_inv [OF assms(2)]
    by (simp add: servable_def dag_inv_def hg_get_def parent_def acyclic_def) (simp add: hg_new_def Let_def)
next
  case (step g g')
  then show ?case using live_step_servable live_dag_inv [OF step(1) assms(2)] by blast
qed

subsection \<open>A graph that admitted a smaller id\<close>

text \<open>
  \<^verbatim>\<open>add_member\<close> gives a new member the slot after all others, \<^verbatim>\<open>from_checkpoint\<close> gives the members of
  the snapshot their slots in the order of their ids.  When a node with a smaller id has joined, the rows the teacher
  retains are in another order than the learner's slots, and the learner rejects the first of them.
\<close>

definition admitted_roster :: MembershipRegistry where
  "admitted_roster = register sample_roster1 (NodeId 0) (replicate 32 9) (replicate 48 3)"

definition admitted_graph :: Hashgraph where
  "admitted_graph = (case add_member transfer_graph (NodeId 0) 1 admitted_roster of Ok g \<Rightarrow> g | _ \<Rightarrow> transfer_graph)"

lemma admitted_graph_fields:
  "events admitted_graph = [(transfer_hash, fresh_record transfer_event 1 [1, 0] 1)]" "member_index admitted_graph = [(NodeId 1, 0), (NodeId 0, 1)]"
  "member_count admitted_graph = 2" "known_forkers admitted_graph = [False, False]"
  by (simp_all add: admitted_graph_def add_member_def transfer_graph_fields fresh_record_def)

lemma admitted_graph_servable: "servable sample_sha admitted_graph"
proof -
  have get: "hg_get admitted_graph h = (if h = transfer_hash then Some (fresh_record transfer_event 1 [1, 0] 1) else None)" for h
    by (simp add: hg_get_def admitted_graph_fields)
  have "{(p, h). parent admitted_graph h p} = {}"
    by (auto simp: parent_def get parents_of_def fresh_record_def transfer_event_ok split: if_splits)
  moreover have "members_wf admitted_graph" by (auto simp: members_wf_def admitted_graph_fields inj_on_def)
  moreover have "record_consistent sample_sha admitted_graph transfer_hash (fresh_record transfer_event 1 [1, 0] 1)"
    by (simp add: record_consistent_def Let_def fresh_record_def transfer_event_ok admitted_graph_fields stored_parent_def
        check_retained_seq_def check_retained_row_def index_at_def base_round_def)
  ultimately show ?thesis by (simp add: servable_def admitted_graph_fields get acyclic_def)
qed

lemma admission_order_rejected:
  assumes "ck_roster_snapshot p = admitted_roster"
  shows "add_member transfer_graph (NodeId 0) 1 admitted_roster = Ok admitted_graph \<and> servable sample_sha admitted_graph \<and>
    insert_accepted sample_sha (from_checkpoint p rh) (hd (retained_events admitted_graph)) d = Err InvalidRetainedAncestors"
proof -
  have "add_member transfer_graph (NodeId 0) 1 admitted_roster = Ok admitted_graph"
    by (simp add: admitted_graph_def add_member_def transfer_graph_fields)
  moreover have "member_ids admitted_roster = [NodeId 0, NodeId 1]"
    by (simp add: member_ids_def admitted_roster_def register_def sample_roster1_def less_eq_NodeId_def)
  then have "insert_accepted sample_sha (from_checkpoint p rh) (hd (retained_events admitted_graph)) d = Err InvalidRetainedAncestors"
    by (simp add: insert_accepted_def from_checkpoint_def Let_def assms retained_events_def admitted_graph_fields fresh_record_def transfer_event_ok
        hg_get_def resize_row_def stored_parent_def check_retained_seq_def check_retained_row_def index_at_def upt_rec)
  ultimately show ?thesis using admitted_graph_servable by simp
qed

end
