(* ===== verification/NodePass.thy ===== *)
theory NodePass
  imports NodeFinalize Servable
begin

section \<open>What a pass does\<close>

text \<open>
  A pass executes every ordered event exactly once, admits members only for rounds that have no checkpoint yet, and
  keeps the invariant of the checkpoint state, so that all handlers of a node can follow each other in any order.
\<close>

subsection \<open>Grouping by round\<close>

abbreviation rounds_of :: "finalized \<Rightarrow> (Event \<times> u64) list" where
  "rounds_of fin \<equiv> map (\<lambda>(e, r, _). (e, r)) fin"

lemma by_round_snoc:
  "by_round (fin @ [(e, r, t)]) = bt_insert r (case_option [] id (map_of (by_round fin) r) @ [(e, r)]) (by_round fin)"
  by (simp add: by_round_def)

lemma by_round_wf: "bt_wf (by_round fin)"
  by (induction fin rule: rev_induct) (auto simp: by_round_snoc, simp add: by_round_def)

lemma by_round_lookup:
  "map_of (by_round fin) k = (let es = filter (\<lambda>(_, r). r = k) (rounds_of fin) in if es = [] then None else Some es)"
proof (induction fin rule: rev_induct)
  case (snoc f fin)
  obtain e r t where f: "f = (e, r, t)" by (metis prod.exhaust)
  show ?case using snoc by (auto simp: f by_round_snoc by_round_wf Let_def split: option.splits if_splits)
qed (simp add: by_round_def)

lemma by_round_entries:
  "(k, es) \<in> set (by_round fin) \<longleftrightarrow> es \<noteq> [] \<and> es = filter (\<lambda>(_, r). r = k) (rounds_of fin)"
  by (auto simp: map_of_eq_Some_iff [OF bt_wf_hm_wf [OF by_round_wf], symmetric] by_round_lookup Let_def)

lemma by_round_events: "set (concat (map snd (by_round fin))) = set (rounds_of fin)"
proof -
  have "er \<in> set (concat (map snd (by_round fin)))" if "er \<in> set (rounds_of fin)" for er
  proof -
    let ?es = "filter (\<lambda>(_, r). r = snd er) (rounds_of fin)"
    have "er \<in> set ?es" using that by auto
    then have "(snd er, ?es) \<in> set (by_round fin)" using by_round_entries by (metis empty_iff list.set(1))
    with \<open>er \<in> set ?es\<close> show ?thesis by force
  qed
  moreover have "er \<in> set (rounds_of fin)" if "er \<in> set (concat (map snd (by_round fin)))" for er
    using that by (auto simp: by_round_entries)
  ultimately show ?thesis by blast
qed

subsection \<open>The finalized events\<close>

definition hashed :: "hash_fn \<Rightarrow> Hashgraph \<Rightarrow> bool" where
  "hashed sha g \<longleftrightarrow> (\<forall>h r. hg_get g h = Some r \<longrightarrow> hash_Event sha (er_event r) = Ok h)"

lemma collect_finalized_total:
  assumes "\<forall>e \<in> set es. \<exists>h. hash_Event sha e = Ok h"
  shows "\<exists>fin. collect_finalized sha g es = Ok fin"
  using assms by (induction es) auto

lemma collect_finalized_set:
  "collect_finalized sha g es = (Ok fin :: (finalized, 'e) result) \<Longrightarrow>
    (e, r, t) \<in> set fin \<longleftrightarrow> (\<exists>h. e \<in> set es \<and> hash_Event sha e = Ok h \<and> round_received g h = Some r \<and> t = consensus_timestamp g h)"
proof (induction es arbitrary: fin)
  case (Cons x es)
  from Cons.prems obtain h fin' where h: "hash_Event sha x = Ok h" "collect_finalized sha g es = (Ok fin' :: (finalized, 'e) result)"
      "fin = (case round_received g h of None \<Rightarrow> fin' | Some rr \<Rightarrow> (x, rr, consensus_timestamp g h) # fin')"
    by (auto split: result.splits)
  show ?case using Cons.IH [OF h(2)] h(1,3) by (auto split: option.splits)
qed simp

lemma log_orderings_total: "\<forall>f \<in> set fin. \<exists>h. hash_Event sha (fst f) = Ok h \<Longrightarrow> \<exists>l. log_orderings sha fin = Ok l"
  by (induction fin) auto

lemma max_ordered_ge: "round_received g h = Some k \<Longrightarrow> k \<le> max_ordered_round g"
proof -
  assume "round_received g h = Some k"
  then obtain r where "(h, r) \<in> set (events g)" "er_round_received r = Some k"
    by (auto simp: round_received_def hg_get_def bind_eq_Some_conv dest: map_of_SomeD)
  then have "k \<in> set (List.map_filter (\<lambda>(_, r). er_round_received r) (events g))"
    by (force simp: map_filter_def)
  then show ?thesis unfolding max_ordered_round_def by (rule fold_max_ge)
qed

lemma set_map_filter_Some: "set (List.map_filter f xs) = {y. \<exists>x. x \<in> set xs \<and> f x = Some y}"
  by (induction xs) (auto simp: map_filter_simps split: option.splits)

text \<open>Exactly the stored events with a received round.\<close>

lemma finalized_events_set:
  assumes "\<forall>h k. round_received g h = Some k \<longrightarrow> k \<noteq> 0"
  shows "set (finalized_events g) = {er_event r | h r. hg_get g h = Some r \<and> er_round_received r \<noteq> None}"
proof -
  have "(\<exists>k \<in> {1..<Suc (unat (max_ordered_round g))}. h \<in> set (consensus_order g (of_nat k))) \<longleftrightarrow> round_received g h \<noteq> None" (is "?in h \<longleftrightarrow> _") for h
  proof
    assume "round_received g h \<noteq> None"
    then obtain k where k: "round_received g h = Some k" by blast
    then have "unat k \<in> {1..<Suc (unat (max_ordered_round g))}"
      using assms max_ordered_ge [OF k] by (auto simp: word_le_nat_alt unat_gt_0 Suc_le_eq)
    with k show "\<exists>k \<in> {1..<Suc (unat (max_ordered_round g))}. h \<in> set (consensus_order g (of_nat k))"
      by (auto simp: consensus_order_set intro: bexI [of _ "unat k"])
  qed (auto simp: consensus_order_set)
  then have "{h. ?in h} = {h. round_received g h \<noteq> None}" by blast
  moreover have "set (concat (map (\<lambda>k. consensus_order g (of_nat k)) [1..<Suc (unat (max_ordered_round g))])) = {h. ?in h}"
    unfolding set_concat set_map set_upt by blast
  ultimately have "set (concat (map (\<lambda>k. consensus_order g (of_nat k)) [1..<Suc (unat (max_ordered_round g))])) = {h. round_received g h \<noteq> None}"
    by simp
  then have "set (finalized_events g) = {e. \<exists>h. round_received g h \<noteq> None \<and> map_option er_event (hg_get g h) = Some e}"
    unfolding finalized_events_def set_map_filter_Some by simp
  moreover have "(\<exists>h. round_received g h \<noteq> None \<and> map_option er_event (hg_get g h) = Some e) \<longleftrightarrow>
      (\<exists>h r. e = er_event r \<and> hg_get g h = Some r \<and> er_round_received r \<noteq> None)" for e
    unfolding round_received_def map_option_eq_Some by force
  ultimately show ?thesis by simp
qed

subsection \<open>Executing the rounds\<close>

text \<open>
  What an execution leaves: the events are executed, nothing that was executed is forgotten, and membership operations
  are pending only for rounds in which an event was new.
\<close>

definition executes :: "crypto_lib \<Rightarrow> (Event \<times> u64) list \<Rightarrow> 'ks Executor \<Rightarrow> pending \<Rightarrow> 'ks Executor \<Rightarrow> pending \<Rightarrow> bool" where
  "executes C fin ex pend ex' pend' \<longleftrightarrow> set (executed ex) \<subseteq> set (executed ex') \<and> delivered C (executed ex') fin \<and>
     (bt_wf pend \<longrightarrow> bt_wf pend') \<and>
     (\<forall>rr \<in> fst ` set pend'. rr \<in> fst ` set pend \<or>
        (\<exists>e h. (e, rr) \<in> set fin \<and> hash_Event (sha256 C) e = Ok h \<and> h \<notin> set (executed ex)))"

lemma delivered_mono: "set hs \<subseteq> set hs' \<Longrightarrow> delivered C hs fin \<Longrightarrow> delivered C hs' fin"
  by (induction fin) (auto simp: delivered_def)

lemma executes_append:
  assumes "executes C a ex p ex1 p1" "executes C b ex1 p1 ex' p'"
  shows "executes C (a @ b) ex p ex' p'"
proof -
  have sub: "set (executed ex) \<subseteq> set (executed ex1)" using assms(1) by (simp add: executes_def)
  have "\<exists>e h. (e, rr) \<in> set (a @ b) \<and> hash_Event (sha256 C) e = Ok h \<and> h \<notin> set (executed ex)"
    if rr: "rr \<in> fst ` set p'" "rr \<notin> fst ` set p" for rr
  proof (cases "rr \<in> fst ` set p1")
    case True
    then obtain e h where "(e, rr) \<in> set a" "hash_Event (sha256 C) e = Ok h" "h \<notin> set (executed ex)"
      using assms(1) rr(2) unfolding executes_def by blast
    then show ?thesis by auto
  next
    case False
    then obtain e h where "(e, rr) \<in> set b" "hash_Event (sha256 C) e = Ok h" "h \<notin> set (executed ex1)"
      using assms(2) rr(1) unfolding executes_def by blast
    with sub show ?thesis by auto
  qed
  moreover have "delivered C (executed ex') a"
    using assms delivered_mono [of "executed ex1" "executed ex'" C a] by (simp add: executes_def)
  ultimately show ?thesis using assms by (auto simp: executes_def delivered_def)
qed

lemma bucket_loop_executes: "bucket_loop K C fin (ex, p, n) = Ok (ex', p', n') \<Longrightarrow> executes C fin ex p ex' p'"
proof (induction fin arbitrary: ex p n)
  case (Cons er fin)
  obtain e r where er: "er = (e, r)" by (rule prod.exhaust)
  from Cons.prems er obtain h where h: "hash_Event (sha256 C) e = Ok h" by (auto split: result.splits)
  show ?case
  proof (cases "h \<in> set (executed ex)")
    case True
    then have "executes C [er] ex p ex p" using h er by (simp add: executes_def delivered_def)
    moreover have "executes C fin ex p ex' p'" using Cons.prems h er True by (intro Cons.IH) simp
    ultimately show ?thesis using executes_append [of C "[er]"] by simp
  next
    case False
    with Cons.prems h er obtain st p1 where run:
      "bucket_loop K C fin (ex\<lparr> ex_state := st, executed := h # executed ex \<rparr>, p1, True) = Ok (ex', p', n')"
      "p1 = p \<or> (\<exists>ops. p1 = pending_extend r ops p)"
      by (auto split: prod.splits if_splits)
    have keys: "fst ` set (pending_extend r ops p) = insert r (fst ` set p)" for ops
      by (simp add: pending_extend_def set_bt_insert_keys)
    have "rr \<in> fst ` set p \<or> rr = r" if "rr \<in> fst ` set p1" for rr using that run(2) keys by blast
    moreover have "bt_wf p \<longrightarrow> bt_wf p1" using run(2) by (auto simp: pending_extend_def)
    moreover have "(e, r) \<in> set [er]" using er by simp
    ultimately have "executes C [er] ex p (ex\<lparr> ex_state := st, executed := h # executed ex \<rparr>) p1"
      using h False unfolding executes_def delivered_def er by (simp add: subset_insertI)
    then show ?thesis using executes_append [of C "[er]"] Cons.IH [OF run(1)] by simp
  qed
qed (simp add: executes_def delivered_def)

lemma bucket_diffs_executes:
  assumes "bucket_finalized_with_diffs K C ex pend through fin = Ok (ex', pend', through', rds)"
  shows "executes C fin ex pend ex' pend'"
proof (cases "fin = []")
  case False
  then obtain rds' n where "bucket_diffs_loop K C fin (ex, pend, [], False) = Ok (ex', pend', rds', n)"
    using assms by (auto simp: bucket_finalized_with_diffs_def Let_def)
  then have "bucket_loop K C fin (ex, pend, False) = Ok (ex', pend', n)" by (simp add: bucket_loop_forget [of K C fin ex pend False "[]"])
  then show ?thesis by (rule bucket_loop_executes)
qed (use assms in \<open>simp add: bucket_finalized_with_diffs_def executes_def delivered_def\<close>)

lemma record_round_frame [simp]:
  "ep_executor (record_round w r b a s ds p) = ep_executor p" "ep_pending (record_round w r b a s ds p) = ep_pending p"
  "ep_through (record_round w r b a s ds p) = ep_through p"
  by (simp_all add: record_round_def Let_def)

lemma execute_rounds_executes:
  assumes "execute_rounds K C w res p = Ok (p', complete)"
  shows "\<exists>done_evs rest. concat (map snd res) = done_evs @ rest \<and> (complete \<longrightarrow> rest = []) \<and>
    executes C done_evs (ep_executor p) (ep_pending p) (ep_executor p') (ep_pending p')"
  using assms
proof (induction res arbitrary: p)
  case (Cons re res)
  obtain r evs where re: "re = (r, evs)" by (rule prod.exhaust)
  from Cons.prems obtain ex pend through rds where
    one: "bucket_finalized_with_diffs K C (ep_executor p) (ep_pending p) (ep_through p) evs = Ok (ex, pend, through, rds)"
    by (auto simp: re)
  let ?p = "p\<lparr> ep_executor := ex, ep_pending := pend, ep_through := through \<rparr>"
  note first = bucket_diffs_executes [OF one]
  show ?case
  proof (cases "state_to_bytes K (ex_state ex)")
    case (Ok snap)
    let ?q = "record_round w r (state_root (ex_state (ep_executor p))) (state_root (ex_state ex)) snap (case_option [] id (map_of rds r)) ?p"
    have "execute_rounds K C w res ?q = Ok (p', complete)" using Cons.prems one Ok by (simp add: re Let_def)
    from Cons.IH [OF this] obtain d rest where d: "concat (map snd res) = d @ rest" "complete \<longrightarrow> rest = []"
      "executes C d ex pend (ep_executor p') (ep_pending p')" by auto
    then show ?thesis using executes_append [OF first d(3)] by (intro exI [of _ "evs @ d"] exI [of _ rest]) (simp add: re)
  next
    case (Err e)
    with Cons.prems one have "p' = ?p" "\<not> complete" by (auto simp: re Let_def)
    then show ?thesis using first by (intro exI [of _ evs] exI [of _ "concat (map snd res)"]) (simp add: re)
  qed (use Cons.prems one in \<open>simp add: re Let_def\<close>)
qed (simp add: executes_def delivered_def)

subsection \<open>What the checkpoint handlers leave alone\<close>

text \<open>
  The checkpoint handlers change neither the executor nor the pending operations, and of the graph they remove only events
  received before the rounds that have a checkpoint.
\<close>

definition trimmed :: "u64 \<Rightarrow> Hashgraph \<Rightarrow> Hashgraph \<Rightarrow> bool" where
  "trimmed t g g' \<longleftrightarrow> member_index g' = member_index g \<and> fully_decided_rounds g' = fully_decided_rounds g \<and>
     (\<forall>h r. hg_get g' h = Some r \<longrightarrow> hg_get g h = Some r) \<and>
     (\<forall>h r. hg_get g h = Some r \<longrightarrow> \<not> expired t r \<longrightarrow> hg_get g' h = Some r)"

definition trims :: "'ks GossipNode \<Rightarrow> 'ks GossipNode \<Rightarrow> bool" where
  "trims n n' \<longleftrightarrow> gn_executor n' = gn_executor n \<and> act_pending (gn_activation n') = act_pending (gn_activation n) \<and>
     gn_node_id n' = gn_node_id n \<and> gn_bls n' = gn_bls n \<and> produced_through n \<le> produced_through n' \<and>
     trimmed (produced_through n') (gn_hashgraph n) (gn_hashgraph n')"

lemma expired_mono: "expired t r \<Longrightarrow> t \<le> t' \<Longrightarrow> expired t' r"
  by (auto simp: expired_def split: option.splits)

lemma trimmed_refl [simp]: "trimmed t g g"
  by (simp add: trimmed_def)

lemma trimmed_trans: "trimmed t g g1 \<Longrightarrow> t \<le> t' \<Longrightarrow> trimmed t' g1 g' \<Longrightarrow> trimmed t' g g'"
  unfolding trimmed_def using expired_mono by metis

lemma trims_trans: "trims n m \<Longrightarrow> trims m n' \<Longrightarrow> trims n n'"
  using trimmed_trans [of "produced_through m" "gn_hashgraph n" "gn_hashgraph m" "produced_through n'" "gn_hashgraph n'"]
  by (auto simp: trims_def)

lemma trims_same:
  assumes "gn_executor n' = gn_executor n" "gn_activation n' = gn_activation n" "gn_node_id n' = gn_node_id n" "gn_bls n' = gn_bls n"
    "gn_hashgraph n' = gn_hashgraph n"
  shows "trims n n'"
  using assms by (simp add: trims_def)

lemma prune_members: "prune_before_round g t = Ok (g', pruned) \<Longrightarrow> member_index g' = member_index g"
proof -
  assume prune: "prune_before_round g t = Ok (g', pruned)"
  have "same_frame g (fold repoint_tip cs (fold remove_event ps g))" for cs ps
    using same_frame_fold [of remove_event g ps, OF same_frame_remove_event]
      same_frame_fold [of repoint_tip "fold remove_event ps g" cs, OF same_frame_repoint_tip]
    by (simp add: same_frame_def)
  with prune show ?thesis by (auto simp: prune_before_round_def Let_def drop_witnesses_def same_frame_def split: if_splits)
qed

lemma prune_trimmed:
  assumes "prune_before_round g t = Ok (g', pruned)" "hm_wf (events g)" "t \<le> t'"
  shows "trimmed t' g g'"
proof -
  note cases = prune_before_round_cases [OF assms(1,2)]
  have "hg_get g' h = Some r" if r: "hg_get g h = Some r" "\<not> expired t' r" for h r
  proof -
    have "\<not> expired t r" using r(2) expired_mono assms(3) by blast
    then have "h \<notin> set pruned" using cases(5) [of h] prune_set_iff [OF assms(2), of h] r(1) by auto
    with r(1) cases(2) show ?thesis by simp
  qed
  moreover have "hg_get g h = Some r" if "hg_get g' h = Some r" for h r
    using that cases(2) [of h] by (simp split: if_splits)
  ultimately show ?thesis
    unfolding trimmed_def prune_members [OF assms(1)] prune_frame(2) [OF assms(1)] by blast
qed

lemma trims_accept:
  assumes "accept_checkpoint K sha persist_ok sc snap ds n = Ok n'" "hm_wf (events (gn_hashgraph n))" "signed_ok B n'"
  shows "trims n n'"
  using assms(1)
proof (cases rule: accept_checkpoint_cases)
  case (accepted db0 db g pruned)
  have n': "gn_executor n' = gn_executor n" "gn_activation n' = gn_activation n" "gn_node_id n' = gn_node_id n" "gn_bls n' = gn_bls n"
    "gn_hashgraph n' = g" "sc \<in> set (gn_signed n')"
    by (simp_all add: accepted(5) record_accepted_def Let_def)
  have "u64_saturating_sub (sc_round sc) RETENTION_ROUNDS \<le> produced_through n"
    using assms(3) n'(2,6) by (intro saturating_sub_mono) (simp add: signed_ok_def)
  from prune_trimmed [OF accepted(4) assms(2) this] show ?thesis by (simp add: trims_def n')
qed (simp add: trims_same)

lemma checkpoint_inv_wf: "checkpoint_inv B sha n \<Longrightarrow> hm_wf (events (gn_hashgraph n))" "checkpoint_inv B sha n \<Longrightarrow> signed_ok B n"
  by (simp_all add: checkpoint_inv_def graph_ok_def Let_def)

lemma trims_feed:
  assumes "feed_checkpoint_sig K sha B persist_ok sig n = Ok n'" "checkpoint_inv B sha n" "checkpoint_inv B sha n'"
  shows "trims n n'"
  using assms(1)
proof (cases rule: feed_cases)
  case (counted acc roster acc' out)
  show ?thesis
  proof (cases out)
    case (Some sc)
    let ?m = "n\<lparr> gn_accumulators := AList.delete (cs_round sig) (gn_accumulators n) \<rparr>"
    have "trims ?m n'"
      using trims_accept [of K sha persist_ok sc "acc_snapshot acc'" "[]" ?m n' B] counted(6) Some checkpoint_inv_wf [OF assms(2)] checkpoint_inv_wf [OF assms(3)] by simp
    then show ?thesis by (rule trims_trans [OF trims_same, rotated -1]) simp_all
  qed (use counted(6) in \<open>simp add: trims_same\<close>)
qed (simp_all add: trims_same buffer_pending_sig_def Let_def)

lemma trims_submit:
  assumes "submit_checkpoint_sig K sha B persist_ok sig n = Ok n'" "checkpoint_inv B sha n" "checkpoint_inv B sha n'"
  shows "trims n n'"
proof -
  have "n' = n \<or> n' = buffer_pending_sig sig n \<or> feed_checkpoint_sig K sha B persist_ok sig n = Ok n'"
    using assms(1) by (auto simp: submit_checkpoint_sig_def split: if_splits)
  then show ?thesis using trims_feed [OF _ assms(2,3)] by (auto simp: trims_same buffer_pending_sig_def Let_def)
qed

lemma trims_adopt:
  assumes "adopt_signed_checkpoint K sha B persist_ok sc n = Ok (n', adopted)" "checkpoint_inv B sha n" "checkpoint_inv B sha n'"
  shows "trims n n'"
  using assms(1)
proof (cases rule: adopt_cases)
  case (offered acc)
  show ?thesis
    by (rule trims_trans [OF trims_same trims_accept [OF offered(6)]]) (use checkpoint_inv_wf [OF assms(2)] checkpoint_inv_wf [OF assms(3)] in simp_all)
qed (simp add: trims_same)

lemma trims_produce:
  assumes "produce_checkpoint K sha B persist_ok round hashes snaps dss n = Ok n'" "checkpoint_inv B sha n" "checkpoint_inv B sha n'"
  shows "trims n n'"
  using assms(1)
proof (cases rule: produce_checkpoint_cases)
  case (signed_off pl roster snap own acc out m)
  show ?thesis
  proof (cases out)
    case (Some sc)
    let ?m = "m\<lparr> gn_accumulators := AList.delete round (gn_accumulators n) \<rparr>"
    have "accept_checkpoint K sha persist_ok sc (acc_snapshot acc) (case_option [] id (map_of dss round)) ?m = Ok n'"
      using signed_off(7) Some by simp
    then have "trims ?m n'" by (rule trims_accept) (use checkpoint_inv_wf [OF assms(2)] checkpoint_inv_wf [OF assms(3)] signed_off(6) in simp_all)
    then show ?thesis by (rule trims_trans [OF trims_same, rotated -1]) (simp_all add: signed_off(6))
  qed (use signed_off(6,7) in \<open>simp add: trims_same\<close>)
qed (simp add: trims_same)

subsection \<open>The invariant of a pass\<close>

text \<open>
  Every ordered event of a round with a checkpoint has been executed, and a membership operation is pending only for rounds
  at or after the last checkpoint, as long as an event of the round is stored.
\<close>

definition exec_inv :: "'ks GossipNode \<Rightarrow> bool" where
  "exec_inv n \<longleftrightarrow> bt_wf (act_pending (gn_activation n)) \<and>
     (\<forall>h k. round_received (gn_hashgraph n) h = Some k \<longrightarrow> k \<le> produced_through n \<longrightarrow> h \<in> set (executed (gn_executor n))) \<and>
     (\<forall>rr \<in> fst ` set (act_pending (gn_activation n)). produced_through n \<le> rr \<and> (\<exists>h. round_received (gn_hashgraph n) h = Some rr))"

definition graph_inv :: "hash_fn \<Rightarrow> 'ks GossipNode \<Rightarrow> bool" where
  "graph_inv sha n \<longleftrightarrow> is_member (gn_hashgraph n) (gn_node_id n) \<and> hashed sha (gn_hashgraph n) \<and>
     (\<forall>h k. round_received (gn_hashgraph n) h = Some k \<longrightarrow> k \<noteq> 0)"

definition pass_inv :: "crypto_lib \<Rightarrow> bls_lib \<Rightarrow> 'ks GossipNode \<Rightarrow> bool" where
  "pass_inv C B n \<longleftrightarrow> checkpoint_inv B (sha256 C) n \<and> graph_inv (sha256 C) n \<and> exec_inv n"

lemma trimmed_back: "trimmed t g g' \<Longrightarrow> hg_get g' h = Some r \<Longrightarrow> hg_get g h = Some r"
  unfolding trimmed_def by blast

lemma trimmed_kept: "trimmed t g g' \<Longrightarrow> hg_get g h = Some r \<Longrightarrow> \<not> expired t r \<Longrightarrow> hg_get g' h = Some r"
  unfolding trimmed_def by blast

lemma round_received_Some: "round_received g h = Some k \<longleftrightarrow> (\<exists>r. hg_get g h = Some r \<and> er_round_received r = Some k)"
  by (simp add: round_received_def bind_eq_Some_conv)

lemma trimmed_received: "trimmed t g g' \<Longrightarrow> round_received g' h = Some k \<Longrightarrow> round_received g h = Some k"
  unfolding round_received_Some using trimmed_back by blast

lemma trimmed_keeps_received: "trimmed t g g' \<Longrightarrow> round_received g h = Some k \<Longrightarrow> t \<le> k \<Longrightarrow> round_received g' h = Some k"
proof -
  assume t: "trimmed t g g'" "round_received g h = Some k" "t \<le> k"
  then obtain r where r: "hg_get g h = Some r" "er_round_received r = Some k" by (auto simp: round_received_Some)
  then have "\<not> expired t r" using t(3) by (simp add: expired_def)
  from trimmed_kept [OF t(1) r(1) this] r(2) show ?thesis by (simp add: round_received_Some)
qed

lemma trims_graph_inv:
  assumes "trims n n'" "graph_inv sha n"
  shows "graph_inv sha n'"
proof -
  have t: "trimmed (produced_through n') (gn_hashgraph n) (gn_hashgraph n')" "gn_node_id n' = gn_node_id n"
    using assms(1) by (simp_all add: trims_def)
  have "member_index (gn_hashgraph n') = member_index (gn_hashgraph n)" using t(1) by (simp add: trimmed_def)
  moreover have "hashed sha (gn_hashgraph n')" using assms(2) trimmed_back [OF t(1)] unfolding graph_inv_def hashed_def by blast
  ultimately show ?thesis
    using assms(2) trimmed_received [OF t(1)] t(2) unfolding graph_inv_def is_member_def by metis
qed

lemma trims_exec_inv:
  assumes "trims n n'" "bt_wf (act_pending (gn_activation n))"
    and "\<forall>h k. round_received (gn_hashgraph n) h = Some k \<longrightarrow> k \<le> produced_through n' \<longrightarrow> h \<in> set (executed (gn_executor n))"
    and "\<forall>rr \<in> fst ` set (act_pending (gn_activation n)). produced_through n' \<le> rr \<and> (\<exists>h. round_received (gn_hashgraph n) h = Some rr)"
  shows "exec_inv n'"
proof -
  have t: "trimmed (produced_through n') (gn_hashgraph n) (gn_hashgraph n')" "gn_executor n' = gn_executor n"
      "act_pending (gn_activation n') = act_pending (gn_activation n)"
    using assms(1) by (simp_all add: trims_def)
  have "\<exists>h. round_received (gn_hashgraph n') h = Some rr" if "rr \<in> fst ` set (act_pending (gn_activation n))" for rr
    using assms(4) that trimmed_keeps_received [OF t(1)] by blast
  then show ?thesis using assms(2-4) trimmed_received [OF t(1)] unfolding exec_inv_def t(2,3) by blast
qed

lemma trims_pass_inv:
  assumes "trims n n'" "produced_through n' = produced_through n" "pass_inv C B n" "checkpoint_inv B (sha256 C) n'"
  shows "pass_inv C B n'"
proof -
  have "exec_inv n'" using trims_exec_inv [OF assms(1)] assms(3) unfolding pass_inv_def exec_inv_def assms(2) by blast
  then show ?thesis using assms(3,4) trims_graph_inv [OF assms(1)] by (simp add: pass_inv_def)
qed

subsection \<open>Inserting an event\<close>

lemma hg_insert_stored:
  assumes "hg_insert sha g ev = Ok (g', h)" "hm_wf (events g)"
  shows "hash_Event sha (into_inner ev) = Ok h \<and> member_index g' = member_index g \<and>
    (\<forall>x r'. hg_get g' x = Some r' \<longrightarrow> x = h \<and> er_event r' = into_inner ev \<or> (\<exists>r. hg_get g x = Some r \<and> er_event r' = er_event r))"
  using assms(1)
proof (rule hg_insert_OkE)
  let ?e = "into_inner ev"
  fix i sp op g1 g2 g3
  assume run: "hash_Event sha ?e = Ok h" "hg_get g h = None" "place_event g ?e h i sp op = Ok g1"
    "finalize_round g1 h (base_round (map_option er_round sp) (map_option er_round op)) (map_option er_round sp) = Ok g2"
    "(if (case hg_get g2 h of None \<Rightarrow> False | Some r \<Rightarrow> er_is_witness r) then vote_as_witness g2 h else Ok g2) = Ok g3"
    "note_round_decided_if_complete g3 (next_round_to_order g3) = Ok g'"
  let ?base = "base_round (map_option er_round sp) (map_option er_round op)"
  have "hm_wf (events g2)" using placed_extends [OF run(3,4,2)] assms(2) by auto
  then have "settles g2 g3" using run(5) vote_as_witness_settles by (auto split: if_splits)
  then have s: "settles g2 g'" using note_round_settles [OF run(6)] settles_hm_wf \<open>hm_wf (events g2)\<close> settles_trans by metis
  obtain k w where k: "events g2 = events (set_event_round g1 h k w)" using run(4) by (rule finalize_round_OkE)
  obtain seq row0 where g1: "events g1 = AList.update h (fresh_record ?e seq row0 ?base) (events g)" "member_index g1 = member_index g"
    using run(3) by (rule place_event_OkE)
  have "same_core g1 g2" "same_core g2 g'" using finalize_round_same_core [OF run(4)] settles_same_core [OF s] by auto
  with g1 have idx: "member_index g' = member_index g" by (simp add: same_core_def)
  have "x = h \<and> er_event r' = ?e \<or> (\<exists>r. hg_get g x = Some r \<and> er_event r' = er_event r)" if r': "hg_get g' x = Some r'" for x r'
  proof -
    obtain r where r: "hg_get g2 x = Some r" "rec_settles r r'" using settles_back [OF s r'] by blast
    have "hg_get g2 x = hg_get (set_event_round g1 h k w) x" by (simp add: hg_get_def k)
    with r(1) hg_get_set_event_round [of g1 h k w x] have "x = h \<and> er_event r = ?e \<or> hg_get g x = Some r"
      using g1(1) by (auto simp: hg_get_def update_conv' fresh_record_def split: if_splits)
    then show ?thesis using r(2) by (auto simp: rec_settles_def)
  qed
  with run(1) idx show ?thesis by blast
qed

lemma insert_pass_inv:
  assumes "hg_insert (sha256 C) (gn_hashgraph n) ev = Ok (g, h)" "pass_inv C B n" "signs_correctly B (gn_bls n)"
  shows "pass_inv C B (n\<lparr> gn_hashgraph := g \<rparr>)"
proof -
  have inv: "checkpoint_inv B (sha256 C) n" "graph_inv (sha256 C) n" "exec_inv n" using assms(2) by (simp_all add: pass_inv_def)
  note wf = checkpoint_inv_wf(1) [OF inv(1)]
  note st = hg_insert_stored [OF assms(1) wf]
  have ext: "extends (gn_hashgraph n) g" using hg_insert_extends [OF assms(1) wf] by simp
  have front: "produced_through n < next_round_to_order (gn_hashgraph n)" using inv(1) by (simp add: checkpoint_inv_def graph_ok_def Let_def)
  have new: "round_received (gn_hashgraph n) x = Some k \<or> next_round_to_order (gn_hashgraph n) \<le> k" if "round_received g x = Some k" for x k
    using ext that by (auto simp: extends_def orders_forward_def)
  have old: "round_received g x = Some k" if "round_received (gn_hashgraph n) x = Some k" for x k
    using ext that by (fastforce simp: extends_def keeps_records_def round_received_def rec_settles_def bind_eq_Some_conv)
  have "checkpoint_inv B (sha256 C) (n\<lparr> gn_hashgraph := g \<rparr>)"
    using node_step_preserves [OF insert_event [OF assms(1)] inv(1) assms(3)] .
  moreover have "graph_inv (sha256 C) (n\<lparr> gn_hashgraph := g \<rparr>)"
    using st inv(2) new front unfolding graph_inv_def hashed_def is_member_def by fastforce
  moreover have "exec_inv (n\<lparr> gn_hashgraph := g \<rparr>)"
    using inv(3) new old front unfolding exec_inv_def by fastforce
  ultimately show ?thesis by (simp add: pass_inv_def)
qed

subsection \<open>Activation\<close>

text \<open>Admitting a member keeps the events and their orders; only rows grow.\<close>

definition grown :: "Hashgraph \<Rightarrow> Hashgraph \<Rightarrow> bool" where
  "grown g g' \<longleftrightarrow> (\<forall>h. map_option (\<lambda>r. (er_event r, er_round_received r)) (hg_get g' h) = map_option (\<lambda>r. (er_event r, er_round_received r)) (hg_get g h)) \<and>
     fully_decided_rounds g' = fully_decided_rounds g \<and> (\<forall>node. is_member g node \<longrightarrow> is_member g' node)"

definition admits :: "'ks GossipNode \<Rightarrow> 'ks GossipNode \<Rightarrow> bool" where
  "admits n n' \<longleftrightarrow> gn_executor n' = gn_executor n \<and> gn_node_id n' = gn_node_id n \<and> gn_bls n' = gn_bls n \<and>
     produced_through n' = produced_through n \<and> grown (gn_hashgraph n) (gn_hashgraph n')"

lemma grown_refl [simp]: "grown g g"
  by (simp add: grown_def)

lemma admits_trans: "admits n m \<Longrightarrow> admits m n' \<Longrightarrow> admits n n'"
  by (simp add: admits_def grown_def)

lemma grown_received: "grown g g' \<Longrightarrow> round_received g' h = round_received g h"
proof -
  assume "grown g g'"
  then have "map_option (\<lambda>r. (er_event r, er_round_received r)) (hg_get g' h) = map_option (\<lambda>r. (er_event r, er_round_received r)) (hg_get g h)"
    by (simp add: grown_def)
  then show ?thesis by (cases "hg_get g h"; cases "hg_get g' h") (auto simp: round_received_def)
qed

lemma grown_hashed: "grown g g' \<Longrightarrow> hashed sha g \<Longrightarrow> hashed sha g'"
proof -
  assume g: "grown g g'" "hashed sha g"
  have "hash_Event sha (er_event r) = Ok h" if "hg_get g' h = Some r" for h r
  proof -
    have "map_option (\<lambda>r. (er_event r, er_round_received r)) (hg_get g' h) = map_option (\<lambda>r. (er_event r, er_round_received r)) (hg_get g h)"
      using g(1) by (simp add: grown_def)
    with that g(2) show ?thesis by (cases "hg_get g h") (auto simp: hashed_def)
  qed
  then show ?thesis by (simp add: hashed_def)
qed

lemma add_member_grown: "add_member g node a reg = Ok g' \<Longrightarrow> grown g g'"
  by (auto simp: add_member_def grown_def hg_get_map_events [unfolded hg_get_def] hg_get_def map_of_map is_member_def update_conv' option.map_comp comp_def split: if_splits)

lemma checkpoint_inv_frame:
  "checkpoint_inv B sha (n\<lparr> gn_trace := t, gn_registry := reg, gn_peers := ps \<rparr>) = checkpoint_inv B sha n"
  by (simp add: checkpoint_inv_def graph_ok_def own_key_in_def accumulators_ok_def collecting_def signed_ok_def snapshots_ok_def
      buffers_ok_def accepted_round_def latest_accepted_checkpoint_round_def)

lemma own_key_register:
  assumes "own_key_in B n reg" "node \<noteq> gn_node_id n"
  shows "own_key_in B n (register reg node key bls)"
  using assms by (simp add: own_key_in_def registry_contains_def signer_key_def bls_key_for_def register_def update_conv')

lemma roster_for_round_mem: "roster_for_round rh r = Some reg \<Longrightarrow> \<exists>k. (k, reg) \<in> set (snapshots rh)"
  by (auto simp: roster_for_round_def bt_last_upto_def last_opt_def split: if_splits dest!: last_in_set [THEN subsetD [OF filter_is_subset]])

lemma activate_op_inv:
  assumes "activate_op sha B a op n = Ok n'" "checkpoint_inv B sha n" "signs_correctly B (gn_bls n)" "is_member (gn_hashgraph n) (gn_node_id n)"
    and "produced_through n < a"
  shows "checkpoint_inv B sha n' \<and> admits n n' \<and> gn_activation n' = gn_activation n"
proof (cases "n' = n")
  case True
  with assms(2) show ?thesis by (simp add: admits_def)
next
  case False
  with assms(1) obtain node key bls pop addr raddr reg g bs where
    op: "\<not> is_member (gn_hashgraph n) node" "registry_at_round (gn_hashgraph n) a = Ok reg"
      "add_member (gn_hashgraph n) node a (register reg node key bls) = Ok g"
      "n' = (emit_if (event_sink (gn_sinks n)) (RosterLogged bs) n)\<lparr> gn_hashgraph := g, gn_registry := register (gn_registry n) node key bls,
              gn_peers := fst (add_peer_from_key sha (gn_peers n) node key addr raddr) \<rparr>"
    unfolding activate_op_def by (auto split: MembershipOp.splits if_splits)
  let ?m = "n\<lparr> gn_hashgraph := g \<rparr>"
  have "a \<le> u64_saturating_add a 1"
  proof (cases "unat a + 1 < 2 ^ 64")
    case True
    then show ?thesis by (simp add: u64_saturating_add_def word_le_nat_alt unat_word_ariths)
  qed (simp add: u64_saturating_add_def)
  then have "produced_through n < u64_saturating_add a 1" using assms(5) by simp
  moreover have "own_key_in B n reg"
    using op(2) assms(2) roster_for_round_mem [of "roster_history (gn_hashgraph n)" a reg]
    by (force simp: registry_at_round_def checkpoint_inv_def graph_ok_def Let_def split: option.splits)
  then have "own_key_in B n (register reg node key bls)" by (rule own_key_register) (use op(1) assms(4) in auto)
  ultimately have "checkpoint_inv B sha ?m"
    using node_step_preserves [OF admit_member [OF op(3)] assms(2,3)] by blast
  moreover have n': "n' = ?m\<lparr> gn_trace := gn_trace n', gn_registry := gn_registry n', gn_peers := gn_peers n' \<rparr>"
    by (simp add: op(4) emit_if_trace)
  ultimately have "checkpoint_inv B sha n'" by (metis checkpoint_inv_frame)
  then show ?thesis using add_member_grown [OF op(3)] by (simp add: op(4) admits_def emit_if_trace)
qed

lemma activate_ops_inv:
  assumes "activate_ops sha B a ops n = Ok n'" "checkpoint_inv B sha n" "signs_correctly B (gn_bls n)" "is_member (gn_hashgraph n) (gn_node_id n)"
    and "produced_through n < a"
  shows "checkpoint_inv B sha n' \<and> admits n n' \<and> gn_activation n' = gn_activation n"
  using assms
proof (induction ops arbitrary: n)
  case (Cons op ops)
  from Cons.prems(1) obtain m where m: "activate_op sha B a op n = Ok m" "activate_ops sha B a ops m = Ok n'" by auto
  note one = activate_op_inv [OF m(1) Cons.prems(2-5)]
  then have "is_member (gn_hashgraph m) (gn_node_id m)" "signs_correctly B (gn_bls m)" "produced_through m < a"
    using Cons.prems(3-5) by (simp_all add: admits_def grown_def)
  with Cons.IH [OF m(2)] one show ?case by (auto intro: admits_trans)
qed (simp add: admits_def)

lemma take_ops_inv:
  "checkpoint_inv B sha (take_ops rr n) = checkpoint_inv B sha n" "admits n (take_ops rr n)" "gn_hashgraph (take_ops rr n) = gn_hashgraph n"
  "gn_node_id (take_ops rr n) = gn_node_id n" "gn_bls (take_ops rr n) = gn_bls n" "produced_through (take_ops rr n) = produced_through n"
  by (simp_all add: take_ops_def admits_def checkpoint_inv_def graph_ok_def own_key_in_def accumulators_ok_def collecting_def signed_ok_def snapshots_ok_def
      buffers_ok_def accepted_round_def latest_accepted_checkpoint_round_def)

text \<open>After the activation an operation is pending only while the round after its own is undecided.\<close>

lemma activate_rounds_inv:
  assumes "activate_rounds sha B rrs n = Ok n'" "checkpoint_inv B sha n" "signs_correctly B (gn_bls n)" "is_member (gn_hashgraph n) (gn_node_id n)"
    and "\<forall>rr \<in> set rrs. produced_through n \<le> rr"
  shows "checkpoint_inv B sha n' \<and> admits n n' \<and> (bt_wf (act_pending (gn_activation n)) \<longrightarrow> bt_wf (act_pending (gn_activation n'))) \<and>
    fst ` set (act_pending (gn_activation n')) \<subseteq> fst ` set (act_pending (gn_activation n)) \<and>
    (\<forall>rr \<in> set rrs \<inter> fst ` set (act_pending (gn_activation n')). \<exists>a. u64_checked_add rr 1 = Some a \<and> \<not> is_round_decided (gn_hashgraph n') a)"
  using assms
proof (induction rrs arbitrary: n)
  case (Cons rr rrs)
  from Cons.prems(1) obtain a where a: "u64_checked_add rr 1 = Some a" by (auto split: option.splits)
  have less: "produced_through n < a" using u64_checked_add_1_less [OF a] Cons.prems(5) by (auto intro: le_less_trans)
  show ?case
  proof (cases "is_round_decided (gn_hashgraph n) a")
    case False
    with Cons.prems(1) a have "activate_rounds sha B rrs n = Ok n'" by simp
    note IH = Cons.IH [OF this Cons.prems(2-4)]
    have "\<not> is_round_decided (gn_hashgraph n') a" using False IH Cons.prems(5) by (simp add: admits_def grown_def is_round_decided_def)
    with IH a Cons.prems(5) show ?thesis by auto
  next
    case True
    with Cons.prems(1) a obtain m where
      m: "activate_ops sha B a (case_option [] id (map_of (act_pending (gn_activation n)) rr)) (take_ops rr n) = Ok m" "activate_rounds sha B rrs m = Ok n'"
      by auto
    have "checkpoint_inv B sha m \<and> admits (take_ops rr n) m \<and> gn_activation m = gn_activation (take_ops rr n)"
      using activate_ops_inv [OF m(1)] Cons.prems(2-4) less by (simp add: take_ops_inv)
    then have one: "checkpoint_inv B sha m" "admits n m" "gn_activation m = gn_activation (take_ops rr n)"
      using admits_trans [OF take_ops_inv(2) [of n rr]] by simp_all
    have "is_member (gn_hashgraph m) (gn_node_id m)" "signs_correctly B (gn_bls m)" "\<forall>rr \<in> set rrs. produced_through m \<le> rr"
      using one(2) Cons.prems(3-5) by (simp_all add: admits_def grown_def)
    note IH = Cons.IH [OF m(2) one(1) this(2,1,3)]
    have pend: "act_pending (gn_activation m) = bt_remove rr (act_pending (gn_activation n))" by (simp add: one(3) take_ops_def)
    then have gone: "rr \<notin> fst ` set (act_pending (gn_activation m))" and sub: "fst ` set (act_pending (gn_activation m)) \<subseteq> fst ` set (act_pending (gn_activation n))"
      and wf: "bt_wf (act_pending (gn_activation n)) \<longrightarrow> bt_wf (act_pending (gn_activation m))"
      by (auto simp: bt_remove_def)
    have ih: "fst ` set (act_pending (gn_activation n')) \<subseteq> fst ` set (act_pending (gn_activation m))"
      "\<forall>rr \<in> set rrs \<inter> fst ` set (act_pending (gn_activation n')). \<exists>a. u64_checked_add rr 1 = Some a \<and> \<not> is_round_decided (gn_hashgraph n') a"
      using IH by blast+
    have "set (rr # rrs) \<inter> fst ` set (act_pending (gn_activation n')) = set rrs \<inter> fst ` set (act_pending (gn_activation n'))"
      using gone ih(1) by (metis (no_types, lifting) Int_insert_left list.simps(15) subsetD)
    moreover have "admits n n'" using IH one(2) admits_trans by blast
    moreover have "fst ` set (act_pending (gn_activation n')) \<subseteq> fst ` set (act_pending (gn_activation n))" using ih(1) sub by (rule subset_trans)
    ultimately show ?thesis using IH wf ih(2) by metis
  qed
qed (simp add: admits_def)

subsection \<open>Production\<close>

lemma produce_pending_inv:
  assumes "produce_pending_checkpoints K sha B persist_ok hashes snaps dss n = Ok n'" "checkpoint_inv B sha n" "signs_correctly B (gn_bls n)"
  shows "checkpoint_inv B sha n' \<and> trims n n' \<and> (\<exists>r. u64_checked_add (produced_through n') 1 = Some r \<and> \<not> is_round_decided (gn_hashgraph n') r)"
  using assms
proof (induction K sha B persist_ok hashes snaps dss n rule: produce_pending_checkpoints.induct)
  case (1 K sha B persist_ok hashes snaps dss n)
  from 1(2) obtain r where r: "u64_checked_add (produced_through n) 1 = Some r"
    by (cases "u64_checked_add (produced_through n) 1") (simp_all add: produce_pending_checkpoints.simps [of K sha B persist_ok hashes snaps dss n])
  show ?case
  proof (cases "is_round_decided (gn_hashgraph n) r")
    case False
    with 1(2) r have "n' = n" by (simp add: produce_pending_checkpoints.simps [of K sha B persist_ok hashes snaps dss n])
    with 1(3) r False show ?thesis by (simp add: trims_same)
  next
    case True
    obtain m where m: "produce_checkpoint K sha B (persist_ok r) r hashes snaps dss (advance r n) = Ok m"
        "produce_pending_checkpoints K sha B persist_ok hashes snaps dss m = Ok n'"
      using 1(2) r True by (auto simp: produce_pending_checkpoints.simps [of K sha B persist_ok hashes snaps dss n] advance_def split: result.splits)
    note adv = advance_preserves [OF 1(3) r True]
    have inv: "checkpoint_inv B sha m" by (rule node_step_preserves [OF produce [OF r True m(1)] 1(3,4)])
    have "trims n (advance r n)"
      using u64_checked_add_1_less [OF r] by (simp add: trims_def advance_def)
    then have t: "trims n m" using trims_produce [OF m(1) adv(1) inv] by (rule trims_trans)
    have "signs_correctly B (gn_bls m)" using t 1(4) by (simp add: trims_def)
    from 1(1) [OF r _ _ m(2) inv this] m(1) True t show ?thesis by (auto simp: advance_def intro: trims_trans)
  qed
qed

subsection \<open>The pass\<close>

lemma store_pass_inv:
  "checkpoint_inv B sha (store_pass p n) = checkpoint_inv B sha n" "gn_hashgraph (store_pass p n) = gn_hashgraph n"
  "gn_node_id (store_pass p n) = gn_node_id n" "gn_bls (store_pass p n) = gn_bls n" "produced_through (store_pass p n) = produced_through n"
  "gn_executor (store_pass p n) = ep_executor p" "act_pending (gn_activation (store_pass p n)) = ep_pending p"
  by (simp_all add: store_pass_def checkpoint_inv_def graph_ok_def own_key_in_def accumulators_ok_def collecting_def signed_ok_def snapshots_ok_def
      buffers_ok_def accepted_round_def latest_accepted_checkpoint_round_def)

lemma unexecuted_ahead:
  assumes "exec_inv n" "collect_finalized sha (gn_hashgraph n) es = (Ok fin :: (finalized, 'e) result)"
    and "(e, rr) \<in> set (rounds_of fin)" "hash_Event sha e = Ok h" "h \<notin> set (executed (gn_executor n))"
  shows "produced_through n < rr \<and> (\<exists>h. round_received (gn_hashgraph n) h = Some rr)"
proof -
  have "round_received (gn_hashgraph n) h = Some rr" using assms(3,4) by (auto simp: collect_finalized_set [OF assms(2)])
  moreover have "\<not> rr \<le> produced_through n" using calculation assms(1,5) by (auto simp: exec_inv_def)
  ultimately show ?thesis by auto
qed

lemma finish_pass_inv:
  assumes "finish_pass K sha B persist_ok snaps dss n = Ok n'" "checkpoint_inv B sha n" "signs_correctly B (gn_bls n)"
  shows "checkpoint_inv B sha n' \<and> trims n n' \<and> (\<exists>r. u64_checked_add (produced_through n') 1 = Some r \<and> \<not> is_round_decided (gn_hashgraph n') r)"
proof -
  from assms(1) obtain m where m: "produce_pending_checkpoints K sha B persist_ok (gn_cumulative n) snaps dss n = Ok m" "n' = arm_checkpoint_lag_reconnect m"
    by (auto simp: finish_pass_def)
  have same: "n' = m \<or> n' = m\<lparr> gn_needs_checkpoint_sync := True \<rparr>" by (simp add: m(2) arm_checkpoint_lag_reconnect_def)
  then have "checkpoint_inv B sha n' = checkpoint_inv B sha m \<and> trims m n' \<and> gn_hashgraph n' = gn_hashgraph m \<and> produced_through n' = produced_through m"
    by (elim disjE) (simp_all add: trims_same checkpoint_inv_def graph_ok_def own_key_in_def accumulators_ok_def collecting_def signed_ok_def snapshots_ok_def
      buffers_ok_def accepted_round_def latest_accepted_checkpoint_round_def)
  with produce_pending_inv [OF m(1) assms(2,3)] show ?thesis using trims_trans by metis
qed

text \<open>A pending round whose successor is undecided lies at or after the last checkpoint.\<close>

lemma undecided_ahead:
  assumes "checkpoint_inv B sha n" "u64_checked_add rr 1 = Some a" "\<not> is_round_decided (gn_hashgraph n) a"
  shows "produced_through n \<le> rr"
proof -
  have g: "order_frontier (gn_hashgraph n)" "produced_through n < next_round_to_order (gn_hashgraph n)"
    using assms(1) by (simp_all add: checkpoint_inv_def graph_ok_def Let_def)
  have a: "unat a = unat rr + 1" using assms(2) by (simp add: unat_u64_checked_add)
  then have "1 \<le> a" by (simp add: word_le_nat_alt)
  then have "next_round_to_order (gn_hashgraph n) \<le> a"
    using g(1) assms(3) unfolding order_frontier_def is_round_decided_def by (meson atLeastLessThan_iff not_le subsetD)
  with g(2) have "unat (produced_through n) < unat rr + 1" using a by (simp add: word_less_nat_alt word_le_nat_alt)
  then show ?thesis by (simp add: word_le_nat_alt)
qed

lemma pass_executed:
  assumes "exec_inv n" "collect_finalized sha (gn_hashgraph n) (finalized_events (gn_hashgraph n)) = (Ok fin :: (finalized, 'e) result)" "sha = sha256 C"
    and "execute_pass K C bytes fin (gn_executor n) (act_pending (gn_activation n)) (processed_through_round (gn_activation n)) = Ok (p, complete)"
  shows "set (executed (gn_executor n)) \<subseteq> set (executed (ep_executor p)) \<and> (complete \<longrightarrow> delivered C (executed (ep_executor p)) (rounds_of fin)) \<and>
    bt_wf (ep_pending p) \<and>
    (\<forall>rr \<in> fst ` set (ep_pending p). produced_through n \<le> rr \<and> (\<exists>h. round_received (gn_hashgraph n) h = Some rr))"
proof -
  from execute_rounds_executes [OF assms(4) [unfolded execute_pass_def]] obtain d rest where
    d: "concat (map snd (by_round fin)) = d @ rest" "complete \<longrightarrow> rest = []"
      "executes C d (gn_executor n) (act_pending (gn_activation n)) (ep_executor p) (ep_pending p)"
    by auto
  have "set d \<union> set rest = set (rounds_of fin)" using by_round_events [of fin] unfolding d(1) set_append .
  then have sub: "set d \<subseteq> set (rounds_of fin)" "complete \<longrightarrow> set d = set (rounds_of fin)"
    using d(2) by (blast, metis (no_types) list.set(1) sup_bot_right)
  have "produced_through n \<le> rr \<and> (\<exists>h. round_received (gn_hashgraph n) h = Some rr)" if rr: "rr \<in> fst ` set (ep_pending p)" for rr
  proof (cases "rr \<in> fst ` set (act_pending (gn_activation n))")
    case True
    then show ?thesis using assms(1) unfolding exec_inv_def by blast
  next
    case False
    then obtain e h where e: "(e, rr) \<in> set d" "hash_Event sha e = Ok h" "h \<notin> set (executed (gn_executor n))"
      using d(3) rr unfolding executes_def assms(3) by blast
    then show ?thesis using unexecuted_ahead [OF assms(1,2) _ e(2,3)] sub(1) by (meson less_imp_le subsetD)
  qed
  moreover have "bt_wf (act_pending (gn_activation n))" using assms(1) by (simp add: exec_inv_def)
  moreover have "delivered C (executed (ep_executor p)) (rounds_of fin)" if "complete"
    using d(3) that sub(2) unfolding executes_def delivered_def list_all_iff by simp
  ultimately show ?thesis using d(3) unfolding executes_def by blast
qed

lemma pass_invI:
  assumes "checkpoint_inv B (sha256 C) n" "graph_inv (sha256 C) n" "bt_wf (act_pending (gn_activation n))"
    and "\<And>h k. round_received (gn_hashgraph n) h = Some k \<Longrightarrow> k \<le> produced_through n \<Longrightarrow> h \<in> set (executed (gn_executor n))"
    and "\<And>rr. rr \<in> fst ` set (act_pending (gn_activation n)) \<Longrightarrow> produced_through n \<le> rr \<and> (\<exists>h. round_received (gn_hashgraph n) h = Some rr)"
  shows "pass_inv C B n"
  using assms unfolding pass_inv_def exec_inv_def by blast

lemma collected_all:
  assumes "graph_inv sha n" "collect_finalized sha (gn_hashgraph n) (finalized_events (gn_hashgraph n)) = (Ok fin :: (finalized, 'e) result)"
    and "round_received (gn_hashgraph n) h = Some k"
  shows "\<exists>e. (e, k) \<in> set (rounds_of fin) \<and> hash_Event sha e = Ok h"
proof -
  have g: "\<forall>h k. round_received (gn_hashgraph n) h = Some k \<longrightarrow> k \<noteq> 0" "hashed sha (gn_hashgraph n)"
    using assms(1) unfolding graph_inv_def by blast+
  from assms(3) obtain r where r: "hg_get (gn_hashgraph n) h = Some r" "er_round_received r = Some k" by (auto simp: round_received_Some)
  have "er_event r \<in> set (finalized_events (gn_hashgraph n))" using r unfolding finalized_events_set [OF g(1)] by blast
  moreover have "hash_Event sha (er_event r) = Ok h" using r(1) g(2) by (simp add: hashed_def)
  ultimately have "(er_event r, k, consensus_timestamp (gn_hashgraph n) h) \<in> set fin" using assms(3) by (simp add: collect_finalized_set [OF assms(2)])
  then have "(er_event r, k) \<in> set (rounds_of fin)" by force
  with \<open>hash_Event sha (er_event r) = Ok h\<close> show ?thesis by blast
qed

lemma pass_inv_pass:
  assumes inv: "checkpoint_inv B (sha256 C) n" "graph_inv (sha256 C) n" "exec_inv n" "signs_correctly B (gn_bls n)"
    and fin: "collect_finalized (sha256 C) (gn_hashgraph n) (finalized_events (gn_hashgraph n)) = (Ok fin :: (finalized, 'e) result)"
    and p: "execute_pass K C bytes fin (gn_executor n) (act_pending (gn_activation n)) (processed_through_round (gn_activation n)) = Ok (p, complete)"
      "\<not> complete \<Longrightarrow> n' = store_pass p n"
      "complete \<Longrightarrow> \<exists>m. activate_rounds (sha256 C) B (map fst (ep_pending p)) (store_pass p n) = Ok m \<and>
          finish_pass K (sha256 C) B persist_ok (ep_snapshots p) (ep_diffs p) (m\<lparr> gn_cumulative := record_hashes (ep_hashes p) (gn_cumulative m) \<rparr>) = Ok n'"
  shows "pass_inv C B n' \<and> gn_bls n' = gn_bls n \<and> gn_node_id n' = gn_node_id n"
proof -
  let ?sha = "sha256 C" and ?s = "store_pass p n"
  note ex = pass_executed [OF inv(3) fin refl p(1)]
  have s: "checkpoint_inv B ?sha ?s" "graph_inv ?sha ?s" "gn_bls ?s = gn_bls n" "gn_node_id ?s = gn_node_id n"
    using inv(1,2) by (simp_all add: store_pass_inv graph_inv_def)
  show ?thesis
  proof (cases complete)
    case False
    then have "n' = ?s" by (rule p(2))
    moreover have "pass_inv C B ?s"
    proof (rule pass_invI [OF s(1,2)])
      show "h \<in> set (executed (gn_executor ?s))" if "round_received (gn_hashgraph ?s) h = Some k" "k \<le> produced_through ?s" for h k
        using that inv(3) ex unfolding store_pass_inv exec_inv_def by blast
    qed (use ex in \<open>unfold store_pass_inv, blast+\<close>)
    ultimately show ?thesis using s by simp
  next
    case True
    then obtain m where m: "activate_rounds ?sha B (map fst (ep_pending p)) ?s = Ok m"
        "finish_pass K ?sha B persist_ok (ep_snapshots p) (ep_diffs p) (m\<lparr> gn_cumulative := record_hashes (ep_hashes p) (gn_cumulative m) \<rparr>) = Ok n'"
      using p(3) by blast
    let ?m = "m\<lparr> gn_cumulative := record_hashes (ep_hashes p) (gn_cumulative m) \<rparr>"
    have hyp: "signs_correctly B (gn_bls ?s)" "is_member (gn_hashgraph ?s) (gn_node_id ?s)" using inv(4) s(2,3) by (simp_all add: graph_inv_def)
    have "\<forall>rr \<in> set (map fst (ep_pending p)). produced_through ?s \<le> rr" using ex unfolding store_pass_inv set_map by blast
    note A = activate_rounds_inv [OF m(1) s(1) hyp this]
    have act: "checkpoint_inv B ?sha m" "admits ?s m" "bt_wf (act_pending (gn_activation ?s)) \<longrightarrow> bt_wf (act_pending (gn_activation m))"
      "fst ` set (act_pending (gn_activation m)) \<subseteq> fst ` set (act_pending (gn_activation ?s))"
      "\<forall>rr \<in> set (map fst (ep_pending p)) \<inter> fst ` set (act_pending (gn_activation m)). \<exists>a. u64_checked_add rr 1 = Some a \<and> \<not> is_round_decided (gn_hashgraph m) a"
      using A by blast+
    have grown: "grown (gn_hashgraph n) (gn_hashgraph m)" and gm: "gn_executor m = ep_executor p" "gn_bls m = gn_bls n" "gn_node_id m = gn_node_id n"
      using act(2) by (simp_all add: admits_def store_pass_inv)
    have cm: "checkpoint_inv B ?sha ?m" using act(1) by (simp add: checkpoint_inv_def graph_ok_def own_key_in_def accumulators_ok_def collecting_def signed_ok_def
        snapshots_ok_def buffers_ok_def accepted_round_def latest_accepted_checkpoint_round_def)
    have sm: "signs_correctly B (gn_bls ?m)" using inv(4) gm(2) by simp
    have graph: "graph_inv ?sha ?m"
      using inv(2) grown grown_hashed [OF grown] grown_received [OF grown] unfolding graph_inv_def grown_def by (simp add: gm)
    from finish_pass_inv [OF m(2) cm sm] have f: "checkpoint_inv B ?sha n'" "trims ?m n'" by auto
    have "exec_inv n'"
    proof (rule trims_exec_inv [OF f(2)], goal_cases)
      case 1
      then show ?case using act(3) ex by (simp add: store_pass_inv)
    next
      case 2
      have "h \<in> set (executed (ep_executor p))" if r: "round_received (gn_hashgraph n) h = Some k" for h k
      proof -
        obtain e where "(e, k) \<in> set (rounds_of fin)" "hash_Event ?sha e = Ok h" using collected_all [OF inv(2) fin r] by blast
        with ex True show ?thesis unfolding delivered_def list_all_iff by fastforce
      qed
      then show ?case using grown_received [OF grown] by (simp add: gm)
    next
      case 3
      have "produced_through n' \<le> rr \<and> (\<exists>h. round_received (gn_hashgraph m) h = Some rr)" if rr: "rr \<in> fst ` set (act_pending (gn_activation m))" for rr
      proof -
        have rr': "rr \<in> fst ` set (ep_pending p)" using rr act(4) unfolding store_pass_inv by blast
        then obtain a where a: "u64_checked_add rr 1 = Some a" "\<not> is_round_decided (gn_hashgraph m) a" using act(5) rr unfolding set_map by blast
        have "\<not> is_round_decided (gn_hashgraph n') a" using a(2) f(2) by (simp add: trims_def trimmed_def is_round_decided_def)
        then have "produced_through n' \<le> rr" by (rule undecided_ahead [OF f(1) a(1)])
        moreover have "\<exists>h. round_received (gn_hashgraph m) h = Some rr" using rr' ex unfolding grown_received [OF grown] by blast
        ultimately show ?thesis by blast
      qed
      then show ?case by simp
    qed
    then show ?thesis using f trims_graph_inv [OF f(2) graph] gm by (simp add: pass_inv_def trims_def)
  qed
qed

lemma process_finalized_inv:
  assumes run: "process_finalized_rounds K C B persist_ok n = Ok n'" and inv: "pass_inv C B n" and "signs_correctly B (gn_bls n)"
  shows "pass_inv C B n' \<and> gn_bls n' = gn_bls n \<and> gn_node_id n' = gn_node_id n"
proof -
  let ?sha = "sha256 C" and ?g = "gn_hashgraph n"
  from run obtain fin logged where fin: "collect_finalized ?sha ?g (finalized_events ?g) = (Ok fin :: (finalized, PassError) result)"
    and rest: "(let n = n\<lparr> gn_trace := gn_trace n @ logged \<rparr> in case state_to_bytes K (ex_state (gn_executor n)) of
       Panic \<Rightarrow> Panic
     | Err _ \<Rightarrow> Ok n
     | Ok bytes \<Rightarrow>
         if fin \<noteq> [] then
           andThen (map_err PassStorage (execute_pass K C bytes fin (gn_executor n) (act_pending (gn_activation n))
             (processed_through_round (gn_activation n)))) (\<lambda>(p, complete).
           if \<not> complete then Ok (store_pass p n)
           else andThen (map_err PassConsensus (activate_rounds ?sha B (map fst (ep_pending p)) (store_pass p n))) (\<lambda>n.
             finish_pass K ?sha B persist_ok (ep_snapshots p) (ep_diffs p)
               (n\<lparr> gn_cumulative := record_hashes (ep_hashes p) (gn_cumulative n) \<rparr>)))
         else finish_pass K ?sha B persist_ok [(0, bytes)] [] n) = Ok n'"
    unfolding process_finalized_rounds_def andThen_Ok_iff by blast
  let ?n = "n\<lparr> gn_trace := gn_trace n @ logged \<rparr>"
  have inv': "checkpoint_inv B ?sha ?n" "graph_inv ?sha ?n" "exec_inv ?n"
    using inv checkpoint_inv_frame [where n = n and t = "gn_trace n @ logged" and reg = "gn_registry n" and ps = "gn_peers n"]
    by (simp_all add: pass_inv_def graph_inv_def exec_inv_def)
  have sg: "signs_correctly B (gn_bls ?n)" using assms(3) by simp
  show ?thesis
  proof (cases "state_to_bytes K (ex_state (gn_executor n))")
    case (Err e)
    then have "n' = ?n" using rest by simp
    with inv' show ?thesis by (simp add: pass_inv_def)
  next
    case bytes: (Ok bytes)
    show ?thesis
    proof (cases "fin = []")
      case True
      then have "finish_pass K ?sha B persist_ok [(0, bytes)] [] ?n = Ok n'" using rest bytes by simp
      from finish_pass_inv [OF this inv'(1) sg] have f: "checkpoint_inv B ?sha n'" "trims ?n n'" by auto
      have none: "round_received ?g h \<noteq> Some k" for h k using collected_all [of ?sha ?n fin h k] inv'(2) fin True by auto
      then have "act_pending (gn_activation ?n) = []" using inv'(3) unfolding exec_inv_def by (cases "act_pending (gn_activation n)") auto
      then have "exec_inv n'" using trims_exec_inv [OF f(2)] none by simp
      then show ?thesis using f trims_graph_inv [OF f(2) inv'(2)] by (simp add: pass_inv_def trims_def)
    next
      case False
      then obtain p complete where p: "execute_pass K C bytes fin (gn_executor ?n) (act_pending (gn_activation ?n)) (processed_through_round (gn_activation ?n)) = Ok (p, complete)"
          "\<not> complete \<Longrightarrow> n' = store_pass p ?n"
          "complete \<Longrightarrow> \<exists>m. activate_rounds ?sha B (map fst (ep_pending p)) (store_pass p ?n) = Ok m \<and>
            finish_pass K ?sha B persist_ok (ep_snapshots p) (ep_diffs p) (m\<lparr> gn_cumulative := record_hashes (ep_hashes p) (gn_cumulative m) \<rparr>) = Ok n'"
        using rest bytes by (force simp: Let_def split: if_splits)
      from pass_inv_pass [OF inv' sg _ p] fin show ?thesis by simp
    qed
  qed (use rest in simp)
qed

end
