(* ===== verification/NodeBatch.thy ===== *)
theory NodeBatch
  imports NodePass
begin

section \<open>Batches\<close>

text \<open>
  How the finalized rounds are cut into passes does not matter: two passes, the second of which sees the events of the first
  again, record the state hashes that a single pass records.
\<close>

subsection \<open>Events that are executed already\<close>

lemma bucket_diffs_loop_delivered:
  "delivered C (executed ex) fin \<Longrightarrow> bucket_diffs_loop K C fin (ex, p, rds, n) = Ok (ex, p, rds, n)"
  by (induction fin) (auto simp: delivered_def)

lemma bucket_diffs_delivered:
  "delivered C (executed ex) evs \<Longrightarrow> bucket_finalized_with_diffs K C ex pend t evs = Ok (ex, pend, t, [])"
  by (simp add: bucket_finalized_with_diffs_def bucket_diffs_loop_delivered Let_def)

lemma execute_rounds_delivered:
  assumes "execute_rounds K C w res p = Ok (p', True)"
    and "\<forall>(r, evs) \<in> set res. r \<le> w \<and> delivered C (executed (ep_executor p)) evs"
  shows "p' = p"
  using assms
proof (induction res arbitrary: p)
  case (Cons re res)
  obtain r evs where re: "re = (r, evs)" by (rule prod.exhaust)
  have r: "r \<le> w" "delivered C (executed (ep_executor p)) evs" using Cons.prems(2) by (simp_all add: re)
  from Cons.prems(1) obtain snap where "state_to_bytes K (ex_state (ep_executor p)) = Ok snap"
    by (cases "state_to_bytes K (ex_state (ep_executor p))") (simp_all add: re bucket_diffs_delivered [OF r(2)])
  moreover have "\<not> w < r" using r(1) by simp
  ultimately have "execute_rounds K C w res p = Ok (p', True)"
    using Cons.prems(1) r(2) by (simp add: re bucket_diffs_delivered record_round_def Let_def)
  then show ?case using Cons.IH Cons.prems(2) by simp
qed simp

subsection \<open>New rounds\<close>

text \<open>The pending operations are passed through; they do not influence the execution.\<close>

lemma bucket_diffs_loop_pending:
  "map_ok (\<lambda>(ex, _, rds, n). (ex, rds, n)) (bucket_diffs_loop K C fin (ex, p, rds, n)) =
    map_ok (\<lambda>(ex, _, rds, n). (ex, rds, n)) (bucket_diffs_loop K C fin (ex, q, rds, n))"
proof (induction fin arbitrary: ex p q rds n)
  case (Cons er fin)
  obtain e r where er: "er = (e, r)" by (rule prod.exhaust)
  show ?case
  proof (cases "hash_Event (sha256 C) e")
    case (Ok h)
    with Cons show ?thesis
      by (cases "execute_event_with_diffs K C (ex_state ex) e (case_option [] id (map_of rds r))") (auto simp: er split: prod.splits)
  qed (simp_all add: er)
qed simp

lemma bucket_diffs_pending:
  assumes "bucket_finalized_with_diffs K C ex pend t evs = Ok (ex', pend1, t', rds)"
  shows "\<exists>pend2. bucket_finalized_with_diffs K C ex pend' t evs = Ok (ex', pend2, t', rds)"
proof (cases "evs = []")
  case False
  then obtain rds0 n where "bucket_diffs_loop K C evs (ex, pend, [], False) = Ok (ex', pend1, rds0, n)"
      "t' = (if n \<and> t < fold max (map snd evs) 0 then fold max (map snd evs) 0 else t)" "rds = filter (\<lambda>(_, ds). ds \<noteq> []) rds0"
    using assms by (auto simp: bucket_finalized_with_diffs_def Let_def)
  moreover from this(1) obtain pend2 where "bucket_diffs_loop K C evs (ex, pend', [], False) = Ok (ex', pend2, rds0, n)"
    using bucket_diffs_loop_pending [of K C evs ex pend "[]" False pend'] by (cases "bucket_diffs_loop K C evs (ex, pend', [], False)") auto
  ultimately show ?thesis using False by (simp add: bucket_finalized_with_diffs_def Let_def)
qed (use assms in \<open>simp add: bucket_finalized_with_diffs_def\<close>)

abbreviation insert_all :: "(u64 \<times> bytes) list \<Rightarrow> (u64, bytes) btmap \<Rightarrow> (u64, bytes) btmap" where
  "insert_all hs m \<equiv> fold (\<lambda>(r, h). bt_insert r h) hs m"

lemma execute_rounds_new:
  assumes "execute_rounds K C w res p = Ok (p', True)" "\<forall>(r, _) \<in> set res. w < r \<and> w' < r"
    and "ep_executor q = ep_executor p" "ep_through q = ep_through p"
  shows "\<exists>q' hs. execute_rounds K C w' res q = Ok (q', True) \<and> ep_executor q' = ep_executor p' \<and> ep_through q' = ep_through p' \<and>
    ep_hashes p' = insert_all hs (ep_hashes p) \<and> ep_hashes q' = insert_all hs (ep_hashes q)"
  using assms
proof (induction res arbitrary: p q)
  case Nil
  then show ?case by (intro exI [of _ q] exI [of _ "[]"]) simp
next
  case (Cons re res)
  obtain r evs where re: "re = (r, evs)" by (rule prod.exhaust)
  from Cons.prems(1) obtain ex pend t rds where
    one: "bucket_finalized_with_diffs K C (ep_executor p) (ep_pending p) (ep_through p) evs = Ok (ex, pend, t, rds)" by (auto simp: re)
  obtain pend' where two: "bucket_finalized_with_diffs K C (ep_executor q) (ep_pending q) (ep_through q) evs = Ok (ex, pend', t, rds)"
    using bucket_diffs_pending [OF one] Cons.prems(3,4) by metis
  from Cons.prems(1) one obtain snap where snap: "state_to_bytes K (ex_state ex) = Ok snap"
    by (cases "state_to_bytes K (ex_state ex)") (simp_all add: re Let_def)
  have w: "w < r" "w' < r" using Cons.prems(2) by (simp_all add: re)
  let ?root = "state_root (ex_state ex)" and ?ds = "case_option [] id (map_of rds r)"
  let ?p = "p\<lparr> ep_executor := ex, ep_pending := pend, ep_through := t, ep_hashes := bt_insert r ?root (ep_hashes p),
      ep_snapshots := bt_insert r snap (ep_snapshots p), ep_diffs := bt_insert r ?ds (ep_diffs p) \<rparr>"
  let ?q = "q\<lparr> ep_executor := ex, ep_pending := pend', ep_through := t, ep_hashes := bt_insert r ?root (ep_hashes q),
      ep_snapshots := bt_insert r snap (ep_snapshots q), ep_diffs := bt_insert r ?ds (ep_diffs q) \<rparr>"
  have "execute_rounds K C w res ?p = Ok (p', True)" using Cons.prems(1) one snap w by (simp add: re Let_def record_round_def)
  from Cons.IH [OF this, of ?q] Cons.prems(2) obtain q' hs where
    IH: "execute_rounds K C w' res ?q = Ok (q', True)" "ep_executor q' = ep_executor p'" "ep_through q' = ep_through p'"
      "ep_hashes p' = insert_all hs (ep_hashes ?p)" "ep_hashes q' = insert_all hs (ep_hashes ?q)" by auto
  have "execute_rounds K C w' (re # res) q = Ok (q', True)" using two snap w IH(1) by (simp add: re Let_def record_round_def)
  with IH show ?case by (intro exI [of _ q'] exI [of _ "(r, ?root) # hs"]) simp
qed

subsection \<open>The watermark\<close>

lemma bucket_diffs_loop_new:
  "bucket_diffs_loop K C fin (ex, p, rds, True) = Ok (ex', p', rds', n) \<Longrightarrow> n"
proof (induction fin arbitrary: ex p rds)
  case (Cons er fin)
  obtain e r where er: "er = (e, r)" by (rule prod.exhaust)
  from Cons.prems obtain h where h: "hash_Event (sha256 C) e = Ok h" by (auto simp: er split: result.splits)
  show ?case
  proof (cases "h \<in> set (executed ex)")
    case True
    with Cons.prems h show ?thesis by (auto simp: er intro: Cons.IH)
  next
    case False
    with Cons.prems h obtain st ds p1 where
      "bucket_diffs_loop K C fin (ex\<lparr> ex_state := st, executed := h # executed ex \<rparr>, p1, bt_insert r ds rds, True) = Ok (ex', p', rds', n)"
      by (auto simp: er split: prod.splits)
    then show ?thesis by (rule Cons.IH)
  qed
qed simp

lemma fold_max_const: "\<forall>x \<in> set xs. x = (r :: u64) \<Longrightarrow> xs \<noteq> [] \<Longrightarrow> fold max xs 0 = r"
  using fold_max_member [of xs 0] fold_max_ge [of r xs 0] by (cases xs) (auto simp: max_def split: if_splits)

lemma bucket_diffs_through:
  assumes "bucket_finalized_with_diffs K C ex pend t evs = Ok (ex', pend', t', rds)" "evs \<noteq> []" "\<forall>x \<in> set evs. snd x = r"
  shows "t' = t \<or> t' = r" "t \<le> t'" "hash_Event (sha256 C) (fst (hd evs)) = Ok h \<Longrightarrow> h \<notin> set (executed ex) \<Longrightarrow> r \<le> t'"
proof -
  obtain rds0 n where loop: "bucket_diffs_loop K C evs (ex, pend, [], False) = Ok (ex', pend', rds0, n)"
      and t': "t' = (if n \<and> t < fold max (map snd evs) 0 then fold max (map snd evs) 0 else t)"
    using assms(1,2) by (auto simp: bucket_finalized_with_diffs_def Let_def)
  have m: "fold max (map snd evs) 0 = r" by (rule fold_max_const) (use assms(2,3) in auto)
  then show "t' = t \<or> t' = r" "t \<le> t'" using t' by auto
  assume h: "hash_Event (sha256 C) (fst (hd evs)) = Ok h" "h \<notin> set (executed ex)"
  obtain e rest where evs: "evs = (e, r) # rest" using assms(2,3) by (cases evs) auto
  then have "n" using loop h by (auto split: prod.splits dest!: bucket_diffs_loop_new)
  then show "r \<le> t'" using t' m by auto
qed

text \<open>The hashes of a list of events.\<close>

definition event_hashes :: "crypto_lib \<Rightarrow> (Event \<times> u64) list \<Rightarrow> EventHash list" where
  "event_hashes C evs = List.map_filter (\<lambda>(e, _). result_ok (hash_Event (sha256 C) e)) evs"

lemma event_hashes_simps [simp]:
  "event_hashes C (a @ b) = event_hashes C a @ event_hashes C b" "event_hashes C [] = []"
  by (simp_all add: event_hashes_def map_filter_def)

lemma executed_only:
  "bucket_loop K C fin (ex, p, n) = Ok (ex', p', n') \<Longrightarrow> set (executed ex') = set (executed ex) \<union> set (event_hashes C fin)"
proof (induction fin arbitrary: ex p n)
  case (Cons er fin)
  obtain e r where er: "er = (e, r)" by (rule prod.exhaust)
  from Cons.prems er obtain h where h: "hash_Event (sha256 C) e = Ok h" by (auto split: result.splits)
  have hs: "set (event_hashes C (er # fin)) = insert h (set (event_hashes C fin))" by (simp add: event_hashes_def er h map_filter_simps)
  show ?case
  proof (cases "h \<in> set (executed ex)")
    case True
    with Cons.prems h er have "bucket_loop K C fin (ex, p, n) = Ok (ex', p', n')" by simp
    from Cons.IH [OF this] True hs show ?thesis by auto
  next
    case False
    with Cons.prems h er obtain st p1 where
      "bucket_loop K C fin (ex\<lparr> ex_state := st, executed := h # executed ex \<rparr>, p1, True) = Ok (ex', p', n')"
      by (auto split: prod.splits)
    from Cons.IH [OF this] hs show ?thesis by auto
  qed
qed (simp add: event_hashes_def map_filter_simps)

lemma bucket_diffs_executed:
  assumes "bucket_finalized_with_diffs K C ex pend t evs = Ok (ex', pend', t', rds)"
  shows "set (executed ex') = set (executed ex) \<union> set (event_hashes C evs)"
proof (cases "evs = []")
  case False
  then obtain rds0 n where "bucket_diffs_loop K C evs (ex, pend, [], False) = Ok (ex', pend', rds0, n)"
    using assms by (auto simp: bucket_finalized_with_diffs_def Let_def)
  then have "bucket_loop K C evs (ex, pend, False) = Ok (ex', pend', n)" by (simp add: bucket_loop_forget [of K C evs ex pend False "[]"])
  then show ?thesis by (rule executed_only)
qed (use assms in \<open>simp add: bucket_finalized_with_diffs_def event_hashes_def map_filter_simps\<close>)

text \<open>After a pass over rounds that are executed or entirely new, the watermark is at or above all of them.\<close>

lemma execute_rounds_through:
  assumes "execute_rounds K C w res p = Ok (p', True)" "w \<le> ep_through p"
    and "\<forall>(r, evs) \<in> set res. evs \<noteq> [] \<and> (\<forall>x \<in> set evs. snd x = r)"
    and "\<forall>(r, evs) \<in> set res. r \<le> w \<or> (\<exists>h. hash_Event (sha256 C) (fst (hd evs)) = Ok h \<and> h \<notin> set (executed (ep_executor p)))"
    and "hm_wf res" "\<forall>(r, evs) \<in> set res. \<forall>(r', es) \<in> set res. r \<noteq> r' \<longrightarrow> set (event_hashes C evs) \<inter> set (event_hashes C es) = {}"
  shows "ep_through p \<le> ep_through p' \<and> (\<forall>(r, _) \<in> set res. r \<le> ep_through p') \<and> ep_through p' \<in> insert (ep_through p) (fst ` set res)"
  using assms
proof (induction res arbitrary: p)
  case (Cons re res)
  obtain r evs where re: "re = (r, evs)" by (rule prod.exhaust)
  from Cons.prems(1) obtain ex pend t rds where
    one: "bucket_finalized_with_diffs K C (ep_executor p) (ep_pending p) (ep_through p) evs = Ok (ex, pend, t, rds)" by (auto simp: re)
  from Cons.prems(1) one obtain snap where snap: "state_to_bytes K (ex_state ex) = Ok snap"
    by (cases "state_to_bytes K (ex_state ex)") (simp_all add: re Let_def)
  let ?q = "record_round w r (state_root (ex_state (ep_executor p))) (state_root (ex_state ex)) snap (case_option [] id (map_of rds r))
      (p\<lparr> ep_executor := ex, ep_pending := pend, ep_through := t \<rparr>)"
  have "execute_rounds K C w res ?q = Ok (p', True)" "ep_executor ?q = ex" "ep_through ?q = t"
    using Cons.prems(1) one snap by (simp_all add: re Let_def)
  then obtain q where q: "execute_rounds K C w res q = Ok (p', True)" "ep_executor q = ex" "ep_through q = t" by blast
  have evs: "evs \<noteq> []" "\<forall>x \<in> set evs. snd x = r" using Cons.prems(3) by (simp_all add: re)
  note th = bucket_diffs_through [OF one evs]
  have le: "w \<le> ep_through q" using Cons.prems(2) th(2) q(3) by simp
  have rt: "r \<le> t" using Cons.prems(2,4) th(2,3) by (auto simp: re)
  have "r' \<le> w \<or> (\<exists>h. hash_Event (sha256 C) (fst (hd es)) = Ok h \<and> h \<notin> set (executed (ep_executor q)))" if re': "(r', es) \<in> set res" for r' es
  proof (cases "r' \<le> w")
    case False
    then obtain h where h: "hash_Event (sha256 C) (fst (hd es)) = Ok h" "h \<notin> set (executed (ep_executor p))" using Cons.prems(4) re' by fastforce
    have "hd es \<in> set es" using Cons.prems(3) re' by auto
    then have "h \<in> set (event_hashes C es)"
      unfolding event_hashes_def set_map_filter_Some by (intro CollectI exI [of _ "hd es"]) (simp add: case_prod_unfold h(1))
    moreover have "r \<noteq> r'" using Cons.prems(5) re' by (force simp: re)
    then have "set (event_hashes C evs) \<inter> set (event_hashes C es) = {}" using Cons.prems(6) re' unfolding re by fastforce
    ultimately show ?thesis using h bucket_diffs_executed [OF one] q(2) by auto
  qed simp
  then have "\<forall>(r', es) \<in> set res. r' \<le> w \<or> (\<exists>h. hash_Event (sha256 C) (fst (hd es)) = Ok h \<and> h \<notin> set (executed (ep_executor q)))" by blast
  moreover have "hm_wf res" "\<forall>(r, evs) \<in> set res. evs \<noteq> [] \<and> (\<forall>x \<in> set evs. snd x = r)" using Cons.prems(3,5) by simp_all
  moreover have "\<forall>(r, evs) \<in> set res. \<forall>(r', es) \<in> set res. r \<noteq> r' \<longrightarrow> set (event_hashes C evs) \<inter> set (event_hashes C es) = {}"
    using Cons.prems(6) unfolding case_prod_unfold by (meson list.set_intros(2))
  ultimately have "ep_through q \<le> ep_through p' \<and> (\<forall>(r, _) \<in> set res. r \<le> ep_through p') \<and> ep_through p' \<in> insert (ep_through q) (fst ` set res)"
    by (intro Cons.IH [OF q(1) le])
  then show ?case using rt th(1,2) q(3) by (auto simp: re)
qed simp

subsection \<open>Recording the hashes\<close>

lemma bt_wf_insert_all [simp]: "bt_wf m \<Longrightarrow> bt_wf (insert_all hs m)"
  by (induction hs arbitrary: m) auto

lemma map_of_insert_all:
  "bt_wf m \<Longrightarrow> map_of (insert_all hs m) k = (case map_of (rev hs) k of None \<Rightarrow> map_of m k | Some h \<Rightarrow> Some h)"
  by (induction hs arbitrary: m) (auto simp: map_add_def split: option.splits)

lemma bt_wf_record_hashes [simp]: "bt_wf c \<Longrightarrow> bt_wf (record_hashes H c)"
  unfolding record_hashes_def by (induction H arbitrary: c) (simp_all add: case_prod_unfold)

lemma map_of_record_hashes:
  "bt_wf c \<Longrightarrow> hm_wf H \<Longrightarrow> map_of (record_hashes H c) k = (if k = 0 then map_of c k else case map_of H k of None \<Rightarrow> map_of c k | Some h \<Rightarrow> Some h)"
proof (induction H arbitrary: c)
  case (Cons x H)
  obtain r h where x: "x = (r, h)" by (rule prod.exhaust)
  let ?c = "if r \<noteq> 0 then bt_insert r h c else c"
  have "record_hashes (x # H) c = record_hashes H ?c" by (simp add: record_hashes_def x)
  moreover have "map_of H r = None" using Cons.prems(2) by (auto simp: x map_of_eq_None_iff)
  ultimately show ?case using Cons.IH [of ?c] Cons.prems by (auto simp: x split: option.splits)
qed (simp add: record_hashes_def)

lemma record_hashes_split:
  assumes "bt_wf c" "bt_wf H"
  shows "record_hashes (insert_all hs H) c = record_hashes (insert_all hs [(0, x)]) (record_hashes H c)"
proof (rule bt_eq_of_map_of)
  have wf: "bt_wf [(0 :: u64, x)]" by (simp add: bt_wf_Cons)
  show "map_of (record_hashes (insert_all hs H) c) = map_of (record_hashes (insert_all hs [(0, x)]) (record_hashes H c))"
  proof
    fix k
    show "map_of (record_hashes (insert_all hs H) c) k = map_of (record_hashes (insert_all hs [(0, x)]) (record_hashes H c)) k"
      using assms wf by (cases "map_of (rev hs) k") (simp_all add: map_of_record_hashes bt_wf_hm_wf map_of_insert_all)
  qed
qed (use assms in simp_all)

subsection \<open>Two passes and one\<close>

lemma by_round_append:
  assumes "\<forall>(_, r, _) \<in> set fin. \<forall>(_, r', _) \<in> set later. r < r'"
  shows "by_round (fin @ later) = by_round fin @ by_round later"
proof (rule bt_eq_of_map_of)
  have less: "r < r'" if "(r, es) \<in> set (by_round fin)" "(r', es') \<in> set (by_round later)" for r r' es es'
  proof -
    have "\<exists>e t. (e, r, t) \<in> set fin" "\<exists>e t. (e, r', t) \<in> set later"
      using that by (auto simp: by_round_entries filter_empty_conv) blast+
    with assms show ?thesis by fastforce
  qed
  show wf: "bt_wf (by_round fin @ by_round later)"
    using by_round_wf [of fin] by_round_wf [of later] less by (fastforce simp: bt_wf_def sorted_wrt_append)
  show "map_of (by_round (fin @ later)) = map_of (by_round fin @ by_round later)"
  proof
    fix k
    have "filter (\<lambda>(_, r). r = k) (rounds_of fin) = [] \<or> filter (\<lambda>(_, r). r = k) (rounds_of later) = []"
      using assms by (fastforce simp: filter_empty_conv)
    then show "map_of (by_round (fin @ later)) k = map_of (by_round fin @ by_round later) k"
      by (auto simp: by_round_lookup map_add_def Let_def)
  qed
qed (rule by_round_wf)

lemma execute_rounds_append:
  "execute_rounds K C w (a @ b) p = Ok (p', True) \<longleftrightarrow>
    (\<exists>q. execute_rounds K C w a p = Ok (q, True) \<and> execute_rounds K C w b q = Ok (p', True))"
proof (induction a arbitrary: p)
  case (Cons re a)
  obtain r evs where re: "re = (r, evs)" by (rule prod.exhaust)
  show ?case
  proof (cases "bucket_finalized_with_diffs K C (ep_executor p) (ep_pending p) (ep_through p) evs")
    case (Ok x)
    obtain ex pend t rds where "x = (ex, pend, t, rds)" by (metis prod.exhaust)
    then show ?thesis using Cons Ok by (cases "state_to_bytes K (ex_state ex)") (simp_all add: re Let_def)
  qed (simp_all add: re)
qed auto

lemma record_round_wf: "bt_wf (ep_hashes p) \<Longrightarrow> bt_wf (ep_hashes (record_round w r b a s ds p))"
  by (simp add: record_round_def Let_def)

lemma execute_rounds_wf:
  "execute_rounds K C w res p = Ok (p', True) \<Longrightarrow> bt_wf (ep_hashes p) \<Longrightarrow> bt_wf (ep_hashes p')"
proof (induction res arbitrary: p)
  case (Cons re res)
  obtain r evs where re: "re = (r, evs)" by (rule prod.exhaust)
  from Cons.prems(1) obtain ex pend t rds where
    one: "bucket_finalized_with_diffs K C (ep_executor p) (ep_pending p) (ep_through p) evs = Ok (ex, pend, t, rds)" by (auto simp: re)
  let ?p = "p\<lparr> ep_executor := ex, ep_pending := pend, ep_through := t \<rparr>"
  obtain snap where "execute_rounds K C w res (record_round w r (state_root (ex_state (ep_executor p))) (state_root (ex_state ex)) snap (case_option [] id (map_of rds r)) ?p) = Ok (p', True)"
    using Cons.prems(1) one by (cases "state_to_bytes K (ex_state ex)") (simp_all add: re Let_def)
  then show ?case by (rule Cons.IH) (simp add: record_round_wf Cons.prems(2))
qed simp

text \<open>The rounds of a list in which an event is executed exactly when its round is at or below the watermark.\<close>

lemma by_round_uniform: "\<forall>(r, evs) \<in> set (by_round fin). evs \<noteq> [] \<and> (\<forall>x \<in> set evs. snd x = r)"
  by (auto simp: by_round_entries)

lemma by_round_mem: "(r, evs) \<in> set (by_round fin) \<Longrightarrow> x \<in> set evs \<Longrightarrow> \<exists>t. (fst x, r, t) \<in> set fin"
  by (auto simp: by_round_entries)

lemma by_round_heads:
  assumes "\<forall>(e, r, _) \<in> set fin. \<exists>h. hash_Event (sha256 C) e = Ok h \<and> (h \<in> set hs \<longleftrightarrow> r \<le> w)"
  shows "\<forall>(r, evs) \<in> set (by_round fin). r \<le> w \<or> (\<exists>h. hash_Event (sha256 C) (fst (hd evs)) = Ok h \<and> h \<notin> set hs)"
proof -
  have "r \<le> w \<or> (\<exists>h. hash_Event (sha256 C) (fst (hd evs)) = Ok h \<and> h \<notin> set hs)" if m: "(r, evs) \<in> set (by_round fin)" for r evs
  proof -
    have "evs \<noteq> []" using m by_round_uniform by blast
    then obtain t where "(fst (hd evs), r, t) \<in> set fin" using by_round_mem [OF m] by (meson hd_in_set)
    with assms show ?thesis by fastforce
  qed
  then show ?thesis by blast
qed

lemma by_round_disjoint:
  assumes "\<forall>(e, r, _) \<in> set fin. \<forall>(e', r', _) \<in> set fin. hash_Event (sha256 C) e = hash_Event (sha256 C) e' \<longrightarrow> r = r'"
  shows "\<forall>(r, evs) \<in> set (by_round fin). \<forall>(r', es) \<in> set (by_round fin). r \<noteq> r' \<longrightarrow> set (event_hashes C evs) \<inter> set (event_hashes C es) = {}"
proof -
  have "r = r'" if m: "(r, evs) \<in> set (by_round fin)" "(r', es) \<in> set (by_round fin)" and h: "h \<in> set (event_hashes C evs)" "h \<in> set (event_hashes C es)" for r r' evs es h
  proof -
    obtain x y where "x \<in> set evs" "y \<in> set es" "hash_Event (sha256 C) (fst x) = Ok h" "hash_Event (sha256 C) (fst y) = Ok h"
      using h unfolding event_hashes_def set_map_filter_Some by (auto simp: result_ok_Some_iff case_prod_unfold)
    moreover from this obtain t t' where "(fst x, r, t) \<in> set fin" "(fst y, r', t') \<in> set fin" using by_round_mem m by meson
    ultimately show ?thesis using assms by fastforce
  qed
  then show ?thesis by blast
qed

text \<open>
  Property C14. How the finalized rounds are cut into passes does not matter. Let the events up to some round be finalized and
  executed in one pass, each of them executed before exactly when its round is at or below the watermark, and let a later
  pass get the same events again, followed by events of later rounds. Then a single pass over all of them, started where the first one
  started, leaves the same executor, hence the same state, and the same watermark, and records the same state hash for
  every round, whatever membership operations were activated in between.
\<close>

theorem finalization_batching:
  assumes first: "execute_pass K C bytes fin ex pend w = Ok (p1, True)"
    and second: "execute_pass K C bytes' (fin @ later) (ep_executor p1) pend' (ep_through p1) = Ok (p2, True)"
    and settled: "\<forall>(e, r, _) \<in> set fin. \<exists>h. hash_Event (sha256 C) e = Ok h \<and> (h \<in> set (executed ex) \<longleftrightarrow> r \<le> w)"
    and once: "\<forall>(e, r, _) \<in> set fin. \<forall>(e', r', _) \<in> set fin. hash_Event (sha256 C) e = hash_Event (sha256 C) e' \<longrightarrow> r = r'"
    and rounds: "\<forall>(_, r, _) \<in> set fin. \<forall>(_, r', _) \<in> set later. r < r'" "\<forall>(_, r, _) \<in> set later. w < r"
    and wf: "bt_wf cumulative"
  shows "\<exists>p. execute_pass K C bytes (fin @ later) ex pend w = Ok (p, True) \<and>
    ep_executor p = ep_executor p2 \<and> ep_through p = ep_through p2 \<and>
    record_hashes (ep_hashes p) cumulative = record_hashes (ep_hashes p2) (record_hashes (ep_hashes p1) cumulative)"
proof -
  let ?A = "by_round fin" and ?B = "by_round later"
  let ?p0 = "\<lparr> ep_executor = ex, ep_pending = pend, ep_through = w, ep_hashes = [(0, state_root (ex_state ex))], ep_snapshots = [(0, bytes)], ep_diffs = [] \<rparr>"
  let ?q0 = "\<lparr> ep_executor = ep_executor p1, ep_pending = pend', ep_through = ep_through p1,
      ep_hashes = [(0, state_root (ex_state (ep_executor p1)))], ep_snapshots = [(0, bytes')], ep_diffs = [] \<rparr>"
  have 1: "execute_rounds K C w ?A ?p0 = Ok (p1, True)" using first by (simp add: execute_pass_def)
  from second obtain q where 2: "execute_rounds K C (ep_through p1) ?A ?q0 = Ok (q, True)" "execute_rounds K C (ep_through p1) ?B q = Ok (p2, True)"
    unfolding execute_pass_def by_round_append [OF rounds(1)] execute_rounds_append by blast
  have through: "\<forall>(r, _) \<in> set ?A. r \<le> ep_through p1" "ep_through p1 \<in> insert w (fst ` set ?A)"
    using execute_rounds_through [OF 1 _ by_round_uniform _ bt_wf_hm_wf [OF by_round_wf] by_round_disjoint [OF once]] by_round_heads [OF settled] by simp_all
  have "executes C (concat (map snd ?A)) ex pend (ep_executor p1) (ep_pending p1)" using execute_rounds_executes [OF 1] by auto
  then have "\<forall>(r, evs) \<in> set ?A. r \<le> ep_through p1 \<and> delivered C (executed (ep_executor p1)) evs"
    using through(1) unfolding executes_def delivered_def list_all_iff by fastforce
  then have q: "q = ?q0" by (intro execute_rounds_delivered [OF 2(1)]) simp
  have "ep_through p1 < r \<and> w < r" if m: "(r, evs) \<in> set ?B" for r evs
  proof -
    have "evs \<noteq> []" using m by_round_uniform by blast
    then obtain t where t: "(fst (hd evs), r, t) \<in> set later" using by_round_mem [OF m] by (meson hd_in_set)
    have "r' < r" if r': "r' \<in> fst ` set ?A" for r'
    proof -
      obtain es where es: "(r', es) \<in> set ?A" using r' by auto
      then have "es \<noteq> []" using by_round_uniform by blast
      then obtain t' where "(fst (hd es), r', t') \<in> set fin" using by_round_mem [OF es] by (meson hd_in_set)
      with t rounds(1) show ?thesis by fastforce
    qed
    then show ?thesis using t rounds(2) through(2) by fastforce
  qed
  then have later: "\<forall>(r, _) \<in> set ?B. ep_through p1 < r \<and> w < r" by blast
  have "\<exists>q' hs. execute_rounds K C w ?B p1 = Ok (q', True) \<and> ep_executor q' = ep_executor p2 \<and> ep_through q' = ep_through p2 \<and>
      ep_hashes p2 = insert_all hs (ep_hashes q) \<and> ep_hashes q' = insert_all hs (ep_hashes p1)"
    by (rule execute_rounds_new [OF 2(2) later]) (simp_all add: q)
  then obtain p hs where p: "execute_rounds K C w ?B p1 = Ok (p, True)" "ep_executor p = ep_executor p2" "ep_through p = ep_through p2"
      "ep_hashes p2 = insert_all hs (ep_hashes q)" "ep_hashes p = insert_all hs (ep_hashes p1)" by blast
  have "bt_wf (ep_hashes p1)" by (rule execute_rounds_wf [OF 1]) (simp add: bt_wf_Cons)
  then have "record_hashes (ep_hashes p) cumulative = record_hashes (ep_hashes p2) (record_hashes (ep_hashes p1) cumulative)"
    using record_hashes_split [OF wf, of "ep_hashes p1" hs] by (simp add: p(4,5) q)
  moreover have "execute_pass K C bytes (fin @ later) ex pend w = Ok (p, True)"
    using 1 p(1) unfolding execute_pass_def by_round_append [OF rounds(1)] execute_rounds_append by blast
  ultimately show ?thesis using p(2,3) by blast
qed

text \<open>Passes over two sample events, one without transactions and one that puts \<open>[2]\<close> under \<open>[1]\<close>.\<close>

definition small_state :: "(bytes, bytes) btmap State \<Rightarrow> bool" where
  "small_state st \<longleftrightarrow> kv st = [] \<or> kv st = [([1], [2])]"

lemma small_state_bytes: "small_state st \<Longrightarrow> \<exists>bs. state_to_bytes list_keyspace st = Ok bs"
  by (auto simp: small_state_def state_to_bytes_def list_keyspace_def bt_of_list_def pair_bytes_def write_prefixed_def u32_try_from_def)

lemma small_state_executes:
  assumes "small_state st" "e \<in> {transfer_event, sample_event}"
  shows "\<exists>st' res ds. execute_event_with_diffs list_keyspace sample_crypto st e [] = Ok (st', res, ds) \<and> small_state st'"
proof (cases "e = transfer_event")
  case True
  then show ?thesis
    using assms(1) by (simp add: execute_event_with_diffs_def transfer_event_def transfer_unsigned_def ev_payload_def)
next
  case False
  obtain t where "smt_insert sample_sha (tree st) [1] [2] = Some t" using smt_insert_total [of "[1]" "[2]" sample_sha "tree st"] by auto
  with False assms show ?thesis
    by (auto simp: execute_event_with_diffs_def sample_event_payload execute_tx_diffs_def sample_event_decodes list_keyspace_def sample_crypto_def
        small_state_def bt_of_list_def)
qed

lemma small_rounds:
  assumes "\<forall>(r, evs) \<in> set res. \<exists>e \<in> {transfer_event, sample_event}. evs = [(e, r)]" "small_state (ex_state (ep_executor p))"
  shows "\<exists>p'. execute_rounds list_keyspace sample_crypto w res p = Ok (p', True) \<and> small_state (ex_state (ep_executor p'))"
  using assms
proof (induction res arbitrary: p)
  case (Cons re res)
  then obtain r e where e: "re = (r, [(e, r)])" "e \<in> {transfer_event, sample_event}" by auto
  have "\<exists>ex pend t rds. bucket_finalized_with_diffs list_keyspace sample_crypto (ep_executor p) (ep_pending p) (ep_through p) [(e, r)] = Ok (ex, pend, t, rds) \<and>
      small_state (ex_state ex)"
  proof -
    obtain h where "hash_Event (sha256 sample_crypto) e = Ok h" using e(2) transfer_event_ok(1) sample_event_hash by (auto simp: sample_crypto_def)
    then show ?thesis
      using small_state_executes [OF Cons.prems(2) e(2)] Cons.prems(2) by (cases "h \<in> set (executed (ep_executor p))") (auto simp: bucket_finalized_with_diffs_def Let_def)
  qed
  then obtain ex pend t rds where one: "bucket_finalized_with_diffs list_keyspace sample_crypto (ep_executor p) (ep_pending p) (ep_through p) [(e, r)] = Ok (ex, pend, t, rds)"
      "small_state (ex_state ex)" by blast
  obtain snap where snap: "state_to_bytes list_keyspace (ex_state ex) = Ok snap" using small_state_bytes [OF one(2)] ..
  let ?q = "record_round w r (state_root (ex_state (ep_executor p))) (state_root (ex_state ex)) snap (case_option [] id (map_of rds r))
      (p\<lparr> ep_executor := ex, ep_pending := pend, ep_through := t \<rparr>)"
  have "\<exists>p'. execute_rounds list_keyspace sample_crypto w res ?q = Ok (p', True) \<and> small_state (ex_state (ep_executor p'))" by (rule Cons.IH) (use Cons.prems(1) one(2) in simp_all)
  then show ?case using one(1) snap by (simp add: e(1) Let_def)
qed simp

lemma small_pass:
  assumes "\<forall>(r, evs) \<in> set (by_round fin). \<exists>e \<in> {transfer_event, sample_event}. evs = [(e, r)]" "small_state (ex_state ex)"
  shows "\<exists>p. execute_pass list_keyspace sample_crypto bytes fin ex pend w = Ok (p, True) \<and> small_state (ex_state (ep_executor p))"
  unfolding execute_pass_def by (rule small_rounds [OF assms(1)]) (simp add: assms(2))

theorem finalization_batching_witness:
  "\<exists>p1 p2 p. execute_pass list_keyspace sample_crypto [] [(transfer_event, 1, None)] (executor_new sample_sha []) [] 0 = Ok (p1, True) \<and>
     execute_pass list_keyspace sample_crypto [] ([(transfer_event, 1, None)] @ [(sample_event, 2, None)]) (ep_executor p1) [] (ep_through p1) = Ok (p2, True) \<and>
     execute_pass list_keyspace sample_crypto [] ([(transfer_event, 1, None)] @ [(sample_event, 2, None)]) (executor_new sample_sha []) [] 0 = Ok (p, True) \<and>
     record_hashes (ep_hashes p) [] = record_hashes (ep_hashes p2) (record_hashes (ep_hashes p1) [])"
proof -
  let ?A = "[(transfer_event, 1 :: u64, None :: Timestamp option)]" and ?B = "[(sample_event, 2 :: u64, None :: Timestamp option)]"
  have r: "by_round ?A = [(1, [(transfer_event, 1)])]" "by_round (?A @ ?B) = [(1, [(transfer_event, 1)]), (2, [(sample_event, 2)])]"
    by (simp_all add: by_round_def)
  have "small_state (ex_state (executor_new sample_sha []))" by (simp add: executor_new_def state_new_def small_state_def)
  then obtain p1 where p1: "execute_pass list_keyspace sample_crypto [] ?A (executor_new sample_sha []) [] 0 = Ok (p1, True)" "small_state (ex_state (ep_executor p1))"
    using small_pass [of ?A "executor_new sample_sha []" "[]" "[]" 0] by (auto simp: r)
  then obtain p2 where p2: "execute_pass list_keyspace sample_crypto [] (?A @ ?B) (ep_executor p1) [] (ep_through p1) = Ok (p2, True)"
    using small_pass [of "?A @ ?B" "ep_executor p1" "[]" "[]" "ep_through p1"] unfolding r by auto
  have "\<exists>p. execute_pass list_keyspace sample_crypto [] (?A @ ?B) (executor_new sample_sha []) [] 0 = Ok (p, True) \<and>
      ep_executor p = ep_executor p2 \<and> ep_through p = ep_through p2 \<and>
      record_hashes (ep_hashes p) [] = record_hashes (ep_hashes p2) (record_hashes (ep_hashes p1) [])"
    by (rule finalization_batching [OF p1(1) p2])
      (use transfer_event_ok(1) in \<open>auto simp: sample_crypto_def executor_new_def word_less_nat_alt word_le_nat_alt\<close>)
  with p1 p2 show ?thesis by blast
qed

end
