(* ===== verification/Activation.thy ===== *)
theory Activation
  imports NodeBatch
begin

section \<open>The time of an admission\<close>

text \<open>
  A pass admits a member as soon as the round after the one of its operation is decided, and the new roster counts from the
  round after that. Events of those rounds are stored by then, with rounds computed under the old roster; those that
  arrive later are judged by the new one. The same event gets another round when it arrives before the pass than when it
  arrives after it, so that two members with the same events can disagree.
\<close>

text \<open>Round 3 is decided, the last event of the only member is a witness of round 4.\<close>

definition tip_record :: EventRecord where
  "tip_record = (fresh_record (sample_node_event None) 1 [1] 4)\<lparr> er_is_witness := True \<rparr>"

definition tip_graph :: Hashgraph where
  "tip_graph = (hg_new sample_member)\<lparr>
     events := [(sample_hash 1, tip_record)], first_child := [((NodeId 0, None), sample_hash 1)],
     by_creator_seq := [((NodeId 0, 1), sample_hash 1)], latest_by_creator := [(NodeId 0, sample_hash 1)],
     witnesses_by_round := [(4, [sample_hash 1])], undecided_witnesses := [(sample_hash 1, 4)],
     highest_witness_round := 4, fully_decided_rounds := {1, 2, 3}, next_round_to_order := 4 \<rparr>"

definition tip_roster :: MembershipRegistry where
  "tip_roster = register sample_member (NodeId 1) [] []"

definition tip_event :: VerifiedEvent where
  "tip_event = VerifiedEvent (sample_node_event (Some (sample_hash 1)))"

lemma tip_record_simps:
  "er_event tip_record = sample_node_event None" "er_seq tip_record = 1" "er_ancestor_seqs tip_record = [1]" "er_round tip_record = 4"
  "er_is_witness tip_record" "er_fame tip_record = Undecided" "er_votes tip_record = []"
  by (simp_all add: tip_record_def fresh_record_def)

subsection \<open>The event first\<close>

definition tip_placed :: Hashgraph where
  "tip_placed = tip_graph\<lparr>
     events := [(sample_hash 1, tip_record), (sample_hash 2, fresh_record (sample_node_event (Some (sample_hash 1))) 2 [2] 4)],
     children := [(sample_hash 1, [sample_hash 2])],
     first_child := [((NodeId 0, None), sample_hash 1), ((NodeId 0, Some (sample_hash 1)), sample_hash 2)],
     by_creator_seq := [((NodeId 0, 1), sample_hash 1), ((NodeId 0, 2), sample_hash 2)],
     latest_by_creator := [(NodeId 0, sample_hash 2)] \<rparr>"

lemma tip_place:
  "place_event tip_graph (sample_node_event (Some (sample_hash 1))) (sample_hash 2) 0 (Some tip_record) None = Ok tip_placed"
  by (simp add: place_event_def tip_record_simps u64_checked_add_def parents_row_def copy_from_slice_def write_at_def
      note_branch_def or_insert_def note_seq_def note_latest_def hg_get_def link_children_def event_parents_def store_event_def
      map_filter_simps entry_push_def base_round_def tip_placed_def tip_graph_def sample_new_fields)

lemma tip_placed_get:
  "hg_get tip_placed (sample_hash 1) = Some tip_record"
  "hg_get tip_placed (sample_hash 2) = Some (fresh_record (sample_node_event (Some (sample_hash 1))) 2 [2] 4)"
  by (simp_all add: tip_placed_def hg_get_def)

lemma tip_placed_fields:
  "member_index tip_placed = [(NodeId 0, 0)]" "known_forkers tip_placed = [False]"
  "by_creator_seq tip_placed = [((NodeId 0, 1), sample_hash 1), ((NodeId 0, 2), sample_hash 2)]"
  "length (events tip_placed) = Suc (Suc 0)" "witnesses_by_round tip_placed = [(4, [sample_hash 1])]"
  "undecided_witnesses tip_placed = [(sample_hash 1, 4)]" "highest_witness_round tip_placed = 4" "next_round_to_order tip_placed = 4"
  by (simp_all add: tip_placed_def tip_graph_def sample_new_fields)

lemma tip_count: "1 \<le> k \<Longrightarrow> member_count_at_round tip_placed k = Ok 1"
  using sample_roster [of k]
  by (simp add: member_count_at_round_def tip_placed_def tip_graph_def sample_member_def registry_len_def)

lemma tip_see: "see tip_placed (sample_hash 2) (sample_hash 1) = Ok True"
  by (simp add: see_def is_ancestor_def tip_placed_get tip_record_simps fresh_record_def member_index_of_def
      tip_placed_fields ancestor_seq_def index_at_def creator_has_known_fork_def)

lemma tip_strongly_see: "strongly_see_at tip_placed (sample_hash 2) (sample_hash 1) 4 = Ok True"
  by (simp add: strongly_see_at_def tip_see tip_placed_get tip_placed_fields fresh_record_def ancestor_seq_def
      index_at_def member_chain_reaches_def creator_has_known_fork_def event_for_creator_seq_def tip_count)

definition tip_finalized :: Hashgraph where
  "tip_finalized = record_witness (set_event_round tip_placed (sample_hash 2) 5 True) 5 (sample_hash 2)"

lemma tip_finalize: "finalize_round tip_placed (sample_hash 2) 4 (Some 4) = Ok tip_finalized"
  by (simp add: finalize_round_def witnesses_of_round_def tip_placed_fields tip_strongly_see tip_count
      u64_checked_add_def tip_finalized_def)

lemma tip_finalized_get:
  "hg_get tip_finalized (sample_hash 1) = Some tip_record"
  "hg_get tip_finalized (sample_hash 2) =
     Some ((fresh_record (sample_node_event (Some (sample_hash 1))) 2 [2] 4)\<lparr> er_round := 5, er_is_witness := True \<rparr>)"
  using tip_placed_get by (simp_all add: tip_finalized_def record_witness_def hg_get_def set_event_round_def map_of_modify)

lemma tip_finalized_fields:
  "undecided_witnesses tip_finalized = [(sample_hash 1, 4), (sample_hash 2, 5)]"
  "highest_witness_round tip_finalized = 5" "next_round_to_order tip_finalized = 4"
  "member_index tip_finalized = [(NodeId 0, 0)]" "known_forkers tip_finalized = [False]"
  by (simp_all add: tip_finalized_def record_witness_def set_event_round_def tip_placed_fields)

definition tip_voted :: Hashgraph where
  "tip_voted = record_vote tip_finalized (sample_hash 2) (sample_hash 1) True"

lemma tip_insert: "hg_insert sample_digest tip_graph tip_event = Ok (tip_voted, sample_hash 2)"
proof -
  have get: "hg_get tip_voted (sample_hash 1) = Some tip_record" "hg_get tip_voted (sample_hash 2) = Some
      ((fresh_record (sample_node_event (Some (sample_hash 1))) 2 [2] 4)\<lparr> er_round := 5, er_is_witness := True,
         er_votes := [(sample_hash 1, True)] \<rparr>)"
    using tip_finalized_get by (simp_all add: tip_voted_def record_vote_def hg_get_def map_of_modify fresh_record_def)
  have fields: "undecided_witnesses tip_voted = [(sample_hash 1, 4), (sample_hash 2, 5)]"
    "highest_witness_round tip_voted = 5" "next_round_to_order tip_voted = 4"
    by (simp_all add: tip_voted_def record_vote_def tip_finalized_fields)
  have fame: "fame_of tip_voted (sample_hash 2) = Some Undecided" "fame_of tip_voted (sample_hash 1) = Some Undecided"
    by (simp_all add: fame_of_def get tip_record_simps fresh_record_def)
  have see: "see tip_finalized (sample_hash 2) (sample_hash 1) = Ok True"
    by (simp add: see_def is_ancestor_def tip_finalized_get tip_record_simps fresh_record_def member_index_of_def
        tip_finalized_fields ancestor_seq_def index_at_def creator_has_known_fork_def)
  have vote: "vote_of tip_finalized (sample_hash 2) (sample_hash 1) = Ok (tip_voted, Cast True)"
    unfolding vote_of_def by (simp only: vote_of_fuel.simps(2))
      (simp add: tip_finalized_get tip_record_simps fame_of_def vote_for_def fresh_record_def Let_def u64_checked_add_def see tip_voted_def)
  have eager: "try_eager_decide tip_voted (sample_hash 1) = Ok tip_voted" "try_eager_decide tip_voted (sample_hash 2) = Ok tip_voted"
    by (simp_all add: try_eager_decide_def is_decided_def fame get fields tip_record_simps fresh_record_def u64_checked_add_def)
  have "vote_as_witness tip_finalized (sample_hash 2) = Ok tip_voted"
    by (simp add: vote_as_witness_def tip_finalized_get tip_finalized_fields fresh_record_def Let_def u64_checked_add_def
        vote eager fields fame backfill_loop.simps [of tip_voted])
  moreover have "note_round_decided_if_complete tip_voted (next_round_to_order tip_voted) = Ok tip_voted"
    by (simp add: note_round_decided_if_complete_def fields)
  moreover have "map_of (member_index tip_graph) (NodeId 0) = Some 0" "hg_get tip_graph (sample_hash 1) = Some tip_record" "hg_get tip_graph (sample_hash 2) = None"
    by (simp_all add: tip_graph_def sample_new_fields hg_get_def)
  ultimately show ?thesis
    using tip_place tip_finalize
    by (simp add: hg_insert_def tip_event_def sample_digest_Event find_parent_def base_round_def Let_def tip_record_simps tip_finalized_get)
qed

subsection \<open>The admission first\<close>

definition tip_admitted :: Hashgraph where
  "tip_admitted = tip_graph\<lparr>
     member_index := [(NodeId 0, 0), (NodeId 1, 1)], member_count := 2, known_forkers := [False, False],
     events := [(sample_hash 1, tip_record\<lparr> er_ancestor_seqs := [1, 0] \<rparr>)],
     roster_history := \<lparr> snapshots = [(1, sample_member), (4, tip_roster)] \<rparr> \<rparr>"

lemma tip_add_member: "add_member tip_graph (NodeId 1) 3 tip_roster = Ok tip_admitted"
  by (simp add: add_member_def tip_graph_def sample_new_fields tip_admitted_def tip_record_def fresh_record_def hg_new_def Let_def schedule_def roster_new_def
      u64_saturating_add_def sample_member_def member_ids_def)

definition tip_placed2 :: Hashgraph where
  "tip_placed2 = tip_admitted\<lparr>
     events := [(sample_hash 1, tip_record\<lparr> er_ancestor_seqs := [1, 0] \<rparr>),
       (sample_hash 2, fresh_record (sample_node_event (Some (sample_hash 1))) 2 [2, 0] 4)],
     children := [(sample_hash 1, [sample_hash 2])],
     first_child := [((NodeId 0, None), sample_hash 1), ((NodeId 0, Some (sample_hash 1)), sample_hash 2)],
     by_creator_seq := [((NodeId 0, 1), sample_hash 1), ((NodeId 0, 2), sample_hash 2)],
     latest_by_creator := [(NodeId 0, sample_hash 2)] \<rparr>"

lemma tip_place2:
  "place_event tip_admitted (sample_node_event (Some (sample_hash 1))) (sample_hash 2) 0 (Some (tip_record\<lparr> er_ancestor_seqs := [1, 0] \<rparr>)) None = Ok tip_placed2"
  by (simp add: place_event_def tip_record_simps u64_checked_add_def parents_row_def copy_from_slice_def write_at_def
      note_branch_def or_insert_def note_seq_def note_latest_def hg_get_def link_children_def event_parents_def store_event_def
      map_filter_simps entry_push_def base_round_def tip_placed2_def tip_admitted_def tip_graph_def sample_new_fields)

lemma tip_placed2_get:
  "hg_get tip_placed2 (sample_hash 1) = Some (tip_record\<lparr> er_ancestor_seqs := [1, 0] \<rparr>)"
  "hg_get tip_placed2 (sample_hash 2) = Some (fresh_record (sample_node_event (Some (sample_hash 1))) 2 [2, 0] 4)"
  by (simp_all add: tip_placed2_def hg_get_def)

lemma tip_placed2_fields:
  "member_index tip_placed2 = [(NodeId 0, 0), (NodeId 1, 1)]" "known_forkers tip_placed2 = [False, False]"
  "by_creator_seq tip_placed2 = [((NodeId 0, 1), sample_hash 1), ((NodeId 0, 2), sample_hash 2)]"
  "length (events tip_placed2) = Suc (Suc 0)" "witnesses_by_round tip_placed2 = [(4, [sample_hash 1])]"
  "undecided_witnesses tip_placed2 = [(sample_hash 1, 4)]" "next_round_to_order tip_placed2 = 4"
  by (simp_all add: tip_placed2_def tip_admitted_def tip_graph_def)

lemma tip_count2: "member_count_at_round tip_placed2 4 = Ok 2"
  by (simp add: member_count_at_round_def tip_placed2_def tip_admitted_def roster_for_round_def bt_last_upto_def last_opt_def
      tip_roster_def register_def sample_member_def registry_len_def)

lemma tip_see2: "see tip_placed2 (sample_hash 2) (sample_hash 1) = Ok True"
  by (simp add: see_def is_ancestor_def tip_placed2_get tip_record_simps fresh_record_def member_index_of_def
      tip_placed2_fields ancestor_seq_def index_at_def creator_has_known_fork_def)

lemma tip_strongly_see2: "strongly_see_at tip_placed2 (sample_hash 2) (sample_hash 1) 4 = Ok False"
  by (simp add: strongly_see_at_def tip_see2 tip_placed2_get tip_placed2_fields fresh_record_def ancestor_seq_def
      index_at_def member_chain_reaches_def creator_has_known_fork_def event_for_creator_seq_def tip_count2)

definition tip_final2 :: Hashgraph where
  "tip_final2 = set_event_round tip_placed2 (sample_hash 2) 4 False"

lemma tip_finalize2: "finalize_round tip_placed2 (sample_hash 2) 4 (Some 4) = Ok tip_final2"
  by (simp add: finalize_round_def witnesses_of_round_def tip_placed2_fields tip_strongly_see2 tip_count2 tip_final2_def)

lemma tip_insert2: "hg_insert sample_digest tip_admitted tip_event = Ok (tip_final2, sample_hash 2)"
proof -
  have "hg_get tip_final2 (sample_hash 2) = Some ((fresh_record (sample_node_event (Some (sample_hash 1))) 2 [2, 0] 4)\<lparr> er_is_witness := False \<rparr>)"
    using tip_placed2_get by (simp add: tip_final2_def hg_get_def set_event_round_def map_of_modify fresh_record_def)
  moreover have "note_round_decided_if_complete tip_final2 (next_round_to_order tip_final2) = Ok tip_final2"
    by (simp add: note_round_decided_if_complete_def tip_final2_def set_event_round_def tip_placed2_fields)
  moreover have "map_of (member_index tip_admitted) (NodeId 0) = Some 0"
    "hg_get tip_admitted (sample_hash 1) = Some (tip_record\<lparr> er_ancestor_seqs := [1, 0] \<rparr>)" "hg_get tip_admitted (sample_hash 2) = None"
    by (simp_all add: tip_admitted_def hg_get_def)
  ultimately show ?thesis
    using tip_place2 tip_finalize2
    by (simp add: hg_insert_def tip_event_def sample_digest_Event find_parent_def base_round_def Let_def tip_record_simps)
qed

lemma admission_time_changes_round:
  "\<exists>g1 g2 g3 g4 h. is_round_decided tip_graph 3 \<and>
     hg_insert sample_digest tip_graph tip_event = Ok (g1, h) \<and> add_member g1 (NodeId 1) 3 tip_roster = Ok g2 \<and>
     add_member tip_graph (NodeId 1) 3 tip_roster = Ok g3 \<and> hg_insert sample_digest g3 tip_event = Ok (g4, h) \<and>
     map_option er_round (hg_get g2 h) = Some 5 \<and> map_option er_round (hg_get g4 h) = Some 4"
proof -
  have idx: "map_of (member_index tip_voted) (NodeId 1) = None" by (simp add: tip_voted_def record_vote_def tip_finalized_fields)
  then obtain g2 where g2: "add_member tip_voted (NodeId 1) 3 tip_roster = Ok g2" by (simp add: add_member_def)
  have "map_option er_round (hg_get tip_voted (sample_hash 2)) = Some 5"
    using tip_finalized_get by (simp add: tip_voted_def record_vote_def hg_get_def map_of_modify fresh_record_def)
  then have "map_option er_round (hg_get g2 (sample_hash 2)) = Some 5"
    using g2 idx by (auto simp: add_member_def hg_get_def map_of_map)
  moreover have "map_option er_round (hg_get tip_final2 (sample_hash 2)) = Some 4"
    using tip_placed2_get by (simp add: tip_final2_def hg_get_def set_event_round_def map_of_modify fresh_record_def)
  moreover have "is_round_decided tip_graph 3" by (simp add: is_round_decided_def tip_graph_def)
  ultimately show ?thesis using tip_insert tip_add_member tip_insert2 g2 by blast
qed

end
