(* ===== verification/NodeRun.thy ===== *)
theory NodeRun
  imports Activation
begin

section \<open>Runs of a node\<close>

text \<open>
  All handlers of a node between its start and a reconnect, in any order: events of a sync are inserted, a pass processes the
  finalized rounds, a peer delivers a signature or offers an aggregate.
\<close>

inductive node_run :: "'ks keyspace_ops \<Rightarrow> crypto_lib \<Rightarrow> bls_lib \<Rightarrow> 'ks GossipNode \<Rightarrow> 'ks GossipNode \<Rightarrow> bool" for K C B where
  insert_synced: "hg_insert (sha256 C) (gn_hashgraph n) ev = Ok (g, h) \<Longrightarrow> node_run K C B n (n\<lparr> gn_hashgraph := g \<rparr>)"
| finalize: "process_finalized_rounds K C B persist_ok n = Ok n' \<Longrightarrow> node_run K C B n n'"
| signature_arrives: "submit_checkpoint_sig K (sha256 C) B ok sig n = Ok n' \<Longrightarrow> node_run K C B n n'"
| aggregate_offered: "adopt_signed_checkpoint K (sha256 C) B ok sc n = Ok (n', adopted) \<Longrightarrow> node_run K C B n n'"

lemma feed_activation: "feed_checkpoint_sig K sha B ok sig n = Ok n' \<Longrightarrow> gn_activation n' = gn_activation n"
  by (erule feed_cases) (auto simp: buffer_pending_sig_def Let_def split: option.splits dest!: accept_checkpoint_activation)

lemma submit_activation: "submit_checkpoint_sig K sha B ok sig n = Ok n' \<Longrightarrow> gn_activation n' = gn_activation n"
  by (auto simp: submit_checkpoint_sig_def buffer_pending_sig_def Let_def split: if_splits dest!: feed_activation)

lemma adopt_activation: "adopt_signed_checkpoint K sha B ok sc n = Ok (n', adopted) \<Longrightarrow> gn_activation n' = gn_activation n"
  by (erule adopt_cases) (auto dest!: accept_checkpoint_activation)

lemma node_run_inv:
  assumes "node_run K C B n n'" "pass_inv C B n" "signs_correctly B (gn_bls n)"
  shows "pass_inv C B n' \<and> gn_bls n' = gn_bls n \<and> gn_node_id n' = gn_node_id n"
  using assms
proof (induction rule: node_run.induct)
  case (insert_synced n ev g h)
  then show ?case using insert_pass_inv by simp
next
  case (finalize persist_ok n n')
  then show ?case by (rule process_finalized_inv)
next
  case (signature_arrives ok sig n n')
  have inv: "checkpoint_inv B (sha256 C) n" "checkpoint_inv B (sha256 C) n'"
    using node_step_preserves [OF receive_sig [OF signature_arrives(1)]] signature_arrives(2,3) by (simp_all add: pass_inv_def)
  note t = trims_submit [OF signature_arrives(1) inv]
  have "gn_activation n' = gn_activation n" by (rule submit_activation [OF signature_arrives(1)])
  then show ?case using trims_pass_inv [OF t _ signature_arrives(2) inv(2)] t by (simp add: trims_def)
next
  case (aggregate_offered ok sc n n' adopted)
  have inv: "checkpoint_inv B (sha256 C) n" "checkpoint_inv B (sha256 C) n'"
    using node_step_preserves [OF adopt [OF aggregate_offered(1)]] aggregate_offered(2,3) by (simp_all add: pass_inv_def)
  note t = trims_adopt [OF aggregate_offered(1) inv]
  have "gn_activation n' = gn_activation n" by (rule adopt_activation [OF aggregate_offered(1)])
  then show ?case using trims_pass_inv [OF t _ aggregate_offered(2) inv(2)] t by (simp add: trims_def)
qed

lemma node_runs_inv:
  assumes "(node_run K C B)\<^sup>*\<^sup>* n n'" "pass_inv C B n" "signs_correctly B (gn_bls n)"
  shows "pass_inv C B n' \<and> gn_bls n' = gn_bls n"
  using assms(1)
proof (induction rule: rtranclp_induct)
  case (step m n')
  then show ?case using node_run_inv [OF step(2)] assms(3) by simp
qed (use assms(2) in simp)

text \<open>A node that starts from a genesis registry that lists it.\<close>

lemma genesis_pass_inv:
  assumes "signer_key B registry node = Some (bls_public bls)" "registry_contains registry node"
  shows "pass_inv C B (set_sinks s (new_with_bls (sha256 C) node key bls registry peers db))"
proof -
  let ?n = "set_sinks s (new_with_bls (sha256 C) node key bls registry peers db)"
  have f: "gn_hashgraph ?n = hg_new registry" "gn_node_id ?n = node" "act_pending (gn_activation ?n) = []"
    by (simp_all add: set_sinks_def new_with_bls_def)
  have ev: "events (hg_new registry) = []" by (simp add: hg_new_def Let_def)
  have "node \<in> set (member_ids registry)"
    using assms(2) by (force simp: registry_contains_def member_ids_def dest: map_of_SomeD)
  then have "is_member (hg_new registry) node"
    by (simp add: is_member_def hg_new_def Let_def map_of_zip_is_None)
  then have "graph_inv (sha256 C) ?n" by (simp add: graph_inv_def f hashed_def round_received_def hg_get_def ev)
  moreover have "exec_inv ?n" by (simp add: exec_inv_def f round_received_def hg_get_def ev)
  moreover have "checkpoint_inv B (sha256 C) ?n"
    by (rule new_node_inv) (use assms in \<open>simp add: own_key_in_def new_with_bls_def\<close>)
  ultimately show ?thesis by (simp add: pass_inv_def)
qed

subsection \<open>Property\<close>


text \<open>The first pass of a new node, which finds nothing, and the two insertions of \<open>SampleRun\<close>.\<close>

definition digest_crypto :: crypto_lib where
  "digest_crypto = sample_crypto\<lparr> sha256 := sample_digest \<rparr>"

definition fresh_node :: "(bytes, bytes) btmap GossipNode" where
  "fresh_node = set_sinks no_sinks (new_with_bls (sha256 digest_crypto) (NodeId 0) [] \<lparr> bls_secret = [], bls_public = [] \<rparr> sample_member []
     \<lparr> db_state = [], db_snap = [], db_meta = [] \<rparr>)"

lemma fresh_node_graph: "gn_hashgraph fresh_node = hg_new sample_member"
  by (simp add: fresh_node_def set_sinks_def new_with_bls_def)

lemma fresh_node_pass: "process_finalized_rounds list_keyspace digest_crypto sample_bls (\<lambda>_. True) fresh_node = Ok fresh_node"
proof -
  have f: "gn_sinks fresh_node = no_sinks" "kv (ex_state (gn_executor fresh_node)) = []"
    "checkpoint_watermark (gn_activation fresh_node) = 0" "gn_signed fresh_node = []"
    by (simp_all add: fresh_node_def set_sinks_def new_with_bls_def executor_new_def state_new_def)
  have g: "events (hg_new sample_member) = []" "fully_decided_rounds (hg_new sample_member) = {}" by (simp_all add: hg_new_def Let_def)
  have fin: "finalized_events (hg_new sample_member) = []" by (simp add: finalized_events_def max_ordered_round_def g map_filter_simps)
  have "highest_decided_round (hg_new sample_member) = 0" by (simp add: highest_decided_round_def g)
  then have arm: "arm_checkpoint_lag_reconnect fresh_node = fresh_node"
    by (simp add: arm_checkpoint_lag_reconnect_def f fresh_node_graph accepted_round_def latest_accepted_checkpoint_round_def last_opt_def
        u64_saturating_sub_def)
  have "state_to_bytes list_keyspace (ex_state (gn_executor fresh_node)) = Ok []" by (simp add: state_to_bytes_def f list_keyspace_def bt_of_list_def)
  then show ?thesis
    by (simp add: process_finalized_rounds_def f fresh_node_graph fin no_sinks_def Let_def finish_pass_def
        produce_pending_checkpoints.simps [of list_keyspace] u64_checked_add_def is_round_decided_def g arm)
qed

lemma fresh_node_run: "(node_run list_keyspace digest_crypto sample_bls)\<^sup>*\<^sup>* fresh_node (fresh_node\<lparr> gn_hashgraph := sample_two \<rparr>)"
proof -
  let ?run = "node_run list_keyspace digest_crypto sample_bls"
  have "?run fresh_node fresh_node" by (rule finalize [OF fresh_node_pass])
  moreover have "?run fresh_node (fresh_node\<lparr> gn_hashgraph := sample_one \<rparr>)"
    by (rule insert_synced [where ev = "VerifiedEvent (sample_node_event None)" and h = "sample_hash 1"])
      (simp add: fresh_node_graph digest_crypto_def sample_insert_genesis)
  moreover have "?run (fresh_node\<lparr> gn_hashgraph := sample_one \<rparr>) (fresh_node\<lparr> gn_hashgraph := sample_one \<rparr>\<lparr> gn_hashgraph := sample_two \<rparr>)"
    by (rule insert_synced [where ev = "VerifiedEvent (sample_node_event (Some (sample_hash 1)))" and h = "sample_hash 2"])
      (simp add: digest_crypto_def sample_insert_two)
  ultimately show ?thesis by (auto intro: converse_rtranclp_into_rtranclp)
qed


subsection \<open>The first pass after a reconnect\<close>

text \<open>
  \<^verbatim>\<open>apply_checkpoint\<close> installs an executor that has executed nothing, and \<^verbatim>\<open>bucket_finalized\<close> skips
  events by their hashes and no longer by the watermark. The retained events of rounds that the checkpoint covers are
  therefore executed once more, on the state of the checkpoint. If the event of a later write is no longer retained, the
  earlier one prevails: here the transferred state holds \<open>[3]\<close> under \<open>[1]\<close>, and the pass puts \<open>[2]\<close> back.
\<close>

lemma reconnect_executor:
  "gn_executor (commit_checkpoint K sha db st g resp n) = from_state st"
  "sc_round (rr_checkpoint resp) \<le> processed_through_round (gn_activation (commit_checkpoint K sha db st g resp n))"
  by (simp_all add: commit_checkpoint_def Let_def notify_checkpoint_accepted_def emit_if_def emit_def sc_round_def)

lemma reconnect_executes_again:
  assumes "kv st = [([1], [3])]"
  shows "\<exists>p. execute_pass list_keyspace sample_crypto bytes [(sample_event, 1, None)] (from_state st) [] 5 = Ok (p, True) \<and>
    kv (ex_state (ep_executor p)) = [([1], [2])] \<and>
    (state_root (ex_state (ep_executor p)) \<noteq> state_root st \<longrightarrow> map_of (ep_hashes p) 5 = Some (state_root (ex_state (ep_executor p))))"
proof -
  obtain h where h: "hash_Event sample_sha sample_event = Ok h" using sample_event_hash ..
  obtain t where t: "smt_insert sample_sha (tree st) [1] [2] = Some t" using smt_insert_total [of "[1]" "[2]" sample_sha "tree st"] by auto
  let ?st = "st\<lparr> kv := [([1], [2])], tree := t \<rparr>"
  have "execute_event_with_diffs list_keyspace sample_crypto st sample_event [] = Ok (?st, no_result, [([1], Some [2])])"
    using t assms by (simp add: execute_event_with_diffs_def sample_event_payload execute_tx_diffs_def sample_event_decodes list_keyspace_def
        sample_crypto_def bt_of_list_def)
  then have one: "bucket_finalized_with_diffs list_keyspace sample_crypto (from_state st) [] 5 [(sample_event, 1)] =
      Ok (\<lparr> ex_state = ?st, executed = [h] \<rparr>, [], 5, [(1, [([1], Some [2])])])"
    using h by (simp add: bucket_finalized_with_diffs_def from_state_def sample_crypto_def no_result_def Let_def word_less_nat_alt)
  obtain snap where "state_to_bytes list_keyspace ?st = Ok snap" using small_state_bytes [of ?st] by (auto simp: small_state_def)
  with one show ?thesis
    by (simp add: execute_pass_def by_round_def record_round_def Let_def from_state_def word_less_nat_alt)
qed

text \<open>The removal of a member, whose operation has a place in the wire format, is never carried out.\<close>

lemma removal_ignored: "activate_op sha B a (Remove node) n = Ok n"
  by (simp add: activate_op_def)

end
