(* ===== verification/Spec2Isabelle.thy ===== *)
theory Spec2Isabelle
  imports Identity NodeQuorum NodeChain NodeRun
begin

section \<open>JKaIN\<close>

text \<open>
  A verification of the JKaIN consensus node, the Rust workspace under \<^verbatim>\<open>src/consensus-node\<close>.

  \<^bold>\<open>The program.\<close> Members of a roster exchange signed events; an event names the last event of its creator
  and one of another member, so that the events form a graph that every node builds by itself. The crate
  \<^verbatim>\<open>protocol/consensus\<close> gives each event a round, lets the first events of a member in a round (the witnesses) vote on
  each other, and derives from the decided votes a total order that all nodes share. The crate \<^verbatim>\<open>executor/state\<close> executes
  the ordered transactions on a key-value state with a Merkle root: plain writes, DID documents, actor records, and
  membership operations that change the roster from a later round on. For every executed round the node
  (\<^verbatim>\<open>protocol/gossip/src/node.rs\<close>) makes a checkpoint payload, which commits to the state, the records, the
  retained window of the graph and the rosters, signs it, collects the signatures of the others, and accepts the
  checkpoint when more than two thirds of the roster have signed. A node that has fallen behind reconnects: it fetches
  the latest accepted checkpoint of a peer with the state and the window it commits to and continues from there.

  \<^bold>\<open>Conventions.\<close> A struct is a record, an enum a datatype, an integer a word of its width. \<^verbatim>\<open>Result\<close> is the type
  \<open>('a, 'e) result\<close> with a third value \<open>Panic\<close> for a failed \<^verbatim>\<open>assert\<close>, \<^verbatim>\<open>expect\<close>, index or checked addition. A
  \<^verbatim>\<open>HashMap\<close> is an association list with distinct keys in some order (\<open>hm_wf\<close>), a \<^verbatim>\<open>BTreeMap\<close> one with ascending keys
  (\<open>bt_wf\<close>). A handler of the node takes the node and returns the new node; the locks of the code make the handlers
  atomic. SHA-256 and Ed25519 (\<open>crypto_lib\<close>), BLS (\<open>bls_lib\<close>) and the Fjall storage (\<open>keyspace_ops\<close>) are parameters.
  What is relied on is stated as a hypothesis: the absence of a collision among the byte strings a computation hashes,
  the correctness of aggregation, the laws of the locale \<open>keyspace\<close>. Samples of each (\<open>sample_sha\<close>,
  \<open>sample_crypto\<close>, \<open>sample_bls\<close>, \<open>list_keyspace\<close>) serve the witnesses.

  \<^bold>\<open>The theories.\<close>

  \<^item> \<open>Prelude\<close>: machine integers, big-endian bytes, cursor reads, results, maps, and the locale \<open>codec\<close> of a wire
    format (what is written is read back with the rest, and only that is read). Every format below interprets it.
  \<^item> \<open>Primitives\<close>, \<open>Canonical\<close>, \<open>Membership\<close>, \<open>Roster\<close>, \<open>Bls\<close>: the crates \<^verbatim>\<open>protocol/primitives\<close> and
    \<^verbatim>\<open>protocol/crypto\<close>. Events and their canonical bytes, hashing and signatures, registries, membership operations, the
    history of rosters by activation round, BLS. Shown: the canonical formats are exact, a registry's bytes and hash
    depend on its members only, the history answers by the latest roster at or below a round.
  \<^item> \<open>MerkleLog\<close>, \<open>SparseMerkle\<close>, \<open>Store\<close>, \<open>KvState\<close>, \<open>Did\<close>, \<open>Actors\<close>, \<open>Executor\<close>, \<open>Identity\<close>: the crate
    \<^verbatim>\<open>executor/state\<close>. Shown: completeness and soundness of inclusion and consistency proofs, the incremental tree refines
    the recursive one, the root is a function of the stored pairs, snapshots restore it, repeated and extended
    deliveries of the finalized list, replay of the after-images, agreement of replicas, and who may change a DID
    document or an actor record.
  \<^item> \<open>Hashgraph\<close>, \<open>Ancestry\<close>, \<open>Order\<close>, \<open>Fame\<close>, \<open>Insert\<close>: the crate \<^verbatim>\<open>protocol/consensus\<close>, one theory per file and
    \<^verbatim>\<open>round.rs\<close> with the insertions and pruning in \<open>Insert\<close>. \<open>Finality\<close> (decided fame and assigned orders never change),
    \<open>Pruning\<close>, \<open>Progress\<close> (the order frontier), \<open>Reach\<close>, \<open>Dag\<close> and \<open>Live\<close> (the cached rows compute reachability
    without fork evidence in every graph built from a genesis registry) hold the theorems; \<open>SampleRun\<close> a run for witnesses.
  \<^item> \<open>Records\<close>, \<open>Checkpoint\<close>, \<open>Commitment\<close>, \<open>Reconnect\<close>: \<^verbatim>\<open>checkpoint.rs\<close> and \<^verbatim>\<open>reconnect.rs\<close> of the same crate. Shown:
    record proofs, the binding of the signing bytes, overlapping quorums, exactness of the accumulator, that a payload once
    computable never changes, and the transfer formats.
  \<^item> \<open>NodeState\<close>, \<open>NodeCheckpoint\<close>: the checkpoint handlers of \<^verbatim>\<open>protocol/gossip/src/node.rs\<close> on the record \<open>GossipNode\<close>.
    \<open>NodeSafety\<close> has the invariant \<open>checkpoint_inv\<close> of every reachable node and the order of durable effects,
    \<open>NodeQuorum\<close> liveness, exact adoption, bounds and absence of panics, \<open>NodeChain\<close> the independence of the payload
    chain from acceptance.
  \<^item> \<open>TopoSort\<close>, \<open>NodeReconnect\<close>: \<^verbatim>\<open>topo_sort_retained\<close>, both sides of a reconnect and the attempts of the sync driver.
    \<open>ReconnectSafety\<close>: what is applied is covered by the quorum of a trusted roster. \<open>HonestTransfer\<close>: what a correct
    node serves is applied. \<open>Servable\<close>: the graphs of a live node satisfy the record checks of a learner.
  \<^item> \<open>NodeFinalize\<close>: \<^verbatim>\<open>process_finalized_rounds\<close>, the pass after a sync that executes the ordered events, admits members
    and produces checkpoints. \<open>NodePass\<close> has the invariant \<open>pass_inv\<close> that every pass keeps, \<open>NodeBatch\<close> shows that it does
    not matter how the finalized events are cut into passes, \<open>Activation\<close> compares the rounds of events before and after an
    admission. \<open>NodeRun\<close>: the relation \<open>node_run\<close> of all handlers between the start of a node and a reconnect, and what
    holds in every run.

  \<^bold>\<open>Bounds and fuel.\<close> The breadth-first walks of \<open>Ancestry\<close> terminate by the measure of unvisited stored events. The walk
  along self-parents has one step of fuel per stored event, and \<open>Panic\<close> on empty fuel stands for not returning; \<open>Live\<close>
  shows that this never happens in a graph a node builds. Kahn's algorithm has a termination proof. Encoders
  fail on fields over 32-bit lengths, as the code does, and the theorems that need it bound the sizes.

  \<^bold>\<open>Weaknesses of the code that the development exhibits\<close> as lemmas over its definitions: \<open>did_creation_replay\<close>,
  \<open>inbound_acceptance_drops_diffs\<close>, \<open>late_event_diverges\<close>, \<open>retention_changes_state_hash\<close>,
  \<open>accept_keeps_old_accumulators\<close>, \<open>is_ancestor_denies_forked_ancestor\<close>, \<open>lying_peer_panics\<close>,
  \<open>stale_checkpoint_applied\<close>, \<open>admission_order_rejected\<close>, \<open>reconnect_executes_again\<close>, \<open>admission_time_changes_round\<close> and
  \<open>removal_ignored\<close>.

  \<^bold>\<open>Not modelled.\<close> A storage failure in the middle of the execution of a round is an error of the pass; the code goes on
  with what the failed writes have left. Timers, counters, logging and metrics have no influence on results. Sockets, TLS, timeouts and task
  scheduling (\<^verbatim>\<open>accept_loop\<close>, \<^verbatim>\<open>tls.rs\<close>, \<^verbatim>\<open>transport.rs\<close>) are input and output; what they deliver are the arguments of the
  handlers. Peer scores use floating point, a clock and randomness. The command line, the configuration and the
  deployment (\<^verbatim>\<open>node/src\<close>), the execution node and the Go services (\<^verbatim>\<open>block-node\<close>, \<^verbatim>\<open>block-relay\<close>, \<^verbatim>\<open>mirror-node\<close>) are
  separate programs around this core.
\<close>

end
